(* ===== verification/Net_Prelude.thy ===== *)
theory Net_Prelude
  imports Main "HOL-Library.Word"
begin

text \<open>
  Shared vocabulary of the development: the faults a C++ operation can end in, the
  result type of fallible operations, the conversions between the C types
  \<open>int\<close> and \<open>unsigned int\<close>, and byte arrays with the checked block
  operations \<open>memcpy\<close> and \<open>memmove\<close> need.  A C \<open>int\<close> is an
  HOL \<open>int\<close> that the component invariants keep inside its range; every mixed
  signed/unsigned comparison of the source goes through \<open>u32\<close>, so that the
  wrap-around of the usual arithmetic conversions is part of the model.
\<close>

named_theorems cint_simps \<open>range facts about the C integer conversions\<close>
named_theorems result_simps \<open>rewrite rules for the result type\<close>
named_theorems mem_simps \<open>lengths and contents of byte arrays after block operations\<close>

type_synonym byte = "8 word"

datatype fault =
    AssertFail            \<comment> \<open>a failed \<open>assert\<close> in a build without \<open>NDEBUG\<close>\<close>
  | OutOfBounds           \<comment> \<open>an access outside the array it is made in\<close>
  | NullDeref             \<comment> \<open>a null pointer followed\<close>
  | UseAfterFree          \<comment> \<open>an object used after it was deleted\<close>
  | Uninitialised         \<comment> \<open>a read of memory holding no constructed object\<close>
  | Thrown int            \<comment> \<open>a C++ exception carrying an error number\<close>
  | BadAlloc              \<comment> \<open>\<open>std::bad_alloc\<close>\<close>
  | OutOfRange            \<comment> \<open>\<open>std::out_of_range\<close>\<close>
  | BadFunction           \<comment> \<open>\<open>std::bad_function_call\<close>: an empty \<open>std::function\<close> called\<close>
  | DivByZero             \<comment> \<open>an integer division by zero\<close>
  | Diverges              \<comment> \<open>a call that never returns\<close>

type_synonym 'a result = "fault + 'a"

definition rbind :: "'a result \<Rightarrow> ('a \<Rightarrow> 'b result) \<Rightarrow> 'b result" where
  "rbind m f = (case m of Inl e \<Rightarrow> Inl e | Inr x \<Rightarrow> f x)"

text \<open>A computation that may also never return (\<open>None\<close>), and its value in a context that waits for it.\<close>

definition obind :: "'a result option \<Rightarrow> ('a \<Rightarrow> 'b result option) \<Rightarrow> 'b result option" where
  "obind m f = (case m of None \<Rightarrow> None | Some (Inl e) \<Rightarrow> Some (Inl e) | Some (Inr x) \<Rightarrow> f x)"

definition wait_for :: "'a result option \<Rightarrow> 'a result" where
  "wait_for m = (case m of None \<Rightarrow> Inl Diverges | Some r \<Rightarrow> r)"

definition list_at :: "'a list \<Rightarrow> int \<Rightarrow> 'a result" where
  "list_at xs i = (if 0 \<le> i \<and> i < int (length xs) then Inr (xs ! nat i) else Inl OutOfBounds)"

definition c_assert :: "bool \<Rightarrow> bool \<Rightarrow> unit result" where
  "c_assert ndebug b = (if ndebug \<or> b then Inr () else Inl AssertFail)"

definition u32 :: "int \<Rightarrow> int" where
  "u32 x = x mod 2 ^ 32"

definition s32 :: "int \<Rightarrow> int" where
  "s32 x = (x + 2 ^ 31) mod 2 ^ 32 - 2 ^ 31"

definition mem_read :: "'a list \<Rightarrow> int \<Rightarrow> int \<Rightarrow> 'a list result" where
  "mem_read m off n =
     (if 0 \<le> off \<and> 0 \<le> n \<and> off + n \<le> int (length m)
      then Inr (take (nat n) (drop (nat off) m)) else Inl OutOfBounds)"

definition mem_write :: "'a list \<Rightarrow> int \<Rightarrow> 'a list \<Rightarrow> 'a list result" where
  "mem_write m off xs =
     (if 0 \<le> off \<and> off + int (length xs) \<le> int (length m)
      then Inr (take (nat off) m @ xs @ drop (nat off + length xs) m) else Inl OutOfBounds)"

definition memmove :: "'a list \<Rightarrow> int \<Rightarrow> int \<Rightarrow> int \<Rightarrow> 'a list result" where
  "memmove m dst src n = rbind (mem_read m src n) (mem_write m dst)"

definition memcpy :: "'a list \<Rightarrow> int \<Rightarrow> 'a list \<Rightarrow> int \<Rightarrow> 'a list result" where
  "memcpy m dst src n = rbind (mem_read src 0 n) (mem_write m dst)"

definition region :: "'a list \<Rightarrow> int \<Rightarrow> int \<Rightarrow> 'a list" where
  "region m a b = take (nat (b - a)) (drop (nat a) m)"

lemma rbind_Inl [simp, result_simps]: "rbind (Inl e) f = Inl e"
  by (simp add: rbind_def)

lemma rbind_Inr [simp, result_simps]: "rbind (Inr x) f = f x"
  by (simp add: rbind_def)

lemma rbind_eq_Inr [result_simps]: "rbind m f = Inr y \<longleftrightarrow> (\<exists>x. m = Inr x \<and> f x = Inr y)"
  by (cases m) auto

lemma rbind_eq_Inl [result_simps]:
  "rbind m f = Inl e \<longleftrightarrow> m = Inl e \<or> (\<exists>x. m = Inr x \<and> f x = Inl e)"
  by (cases m) auto

lemma obind_simps [simp]:
  "obind None f = None" "obind (Some (Inl e)) f = Some (Inl e)" "obind (Some (Inr x)) f = f x"
  by (simp_all add: obind_def)

lemma obind_eq_Inr: "obind m f = Some (Inr y) \<longleftrightarrow> (\<exists>x. m = Some (Inr x) \<and> f x = Some (Inr y))"
  by (auto simp: obind_def split: option.splits sum.splits)

lemma wait_for_simps [simp]: "wait_for None = Inl Diverges" "wait_for (Some r) = r"
  by (simp_all add: wait_for_def)

lemma list_at_ok: "0 \<le> i \<Longrightarrow> i < int (length xs) \<Longrightarrow> list_at xs i = Inr (xs ! nat i)"
  by (simp add: list_at_def)

lemma c_assert_ndebug [simp]: "c_assert True b = Inr ()"
  by (simp add: c_assert_def)

lemma c_assert_holds [simp]: "c_assert nd True = Inr ()"
  by (simp add: c_assert_def)

lemma c_assert_eq_Inr [result_simps]: "c_assert nd b = Inr x \<longleftrightarrow> nd \<or> b"
  by (simp add: c_assert_def)

lemma u32_id [simp, cint_simps]: "0 \<le> x \<Longrightarrow> x < 2 ^ 32 \<Longrightarrow> u32 x = x"
  by (simp add: u32_def)

lemma u32_range [cint_simps]: "0 \<le> u32 x" "u32 x < 2 ^ 32"
  by (simp_all add: u32_def)

lemma s32_id [simp, cint_simps]: "- (2 ^ 31) \<le> x \<Longrightarrow> x < 2 ^ 31 \<Longrightarrow> s32 x = x"
  by (simp add: s32_def)

lemma s32_range [cint_simps]: "- (2 ^ 31) \<le> s32 x" "s32 x < 2 ^ 31"
  by (simp_all add: s32_def)

lemma s32_u32 [simp]: "s32 (u32 x) = s32 x"
  by (simp add: s32_def u32_def mod_simps)

lemma mem_read_ok [mem_simps]:
  "0 \<le> off \<Longrightarrow> 0 \<le> n \<Longrightarrow> off + n \<le> int (length m) \<Longrightarrow> mem_read m off n = Inr (region m off (off + n))"
  by (simp add: mem_read_def region_def)

lemma mem_write_ok [mem_simps]:
  "0 \<le> off \<Longrightarrow> off + int (length xs) \<le> int (length m) \<Longrightarrow>
   mem_write m off xs = Inr (take (nat off) m @ xs @ drop (nat off + length xs) m)"
  by (simp add: mem_write_def)

lemma mem_write_length: "mem_write m off xs = Inr m' \<Longrightarrow> length m' = length m"
  by (auto simp: mem_write_def split: if_splits)

lemma mem_write_single [mem_simps]:
  "0 \<le> i \<Longrightarrow> i < int (length m) \<Longrightarrow> mem_write m i [x] = Inr (m[nat i := x])"
  by (simp add: mem_write_def upd_conv_take_nth_drop nat_less_iff)

lemma mem_read_single [mem_simps]:
  "0 \<le> i \<Longrightarrow> i < int (length m) \<Longrightarrow> mem_read m i 1 = Inr [m ! nat i]"
  by (simp add: mem_read_def take_Suc hd_drop_conv_nth nat_less_iff)

lemma length_region [mem_simps]:
  "0 \<le> a \<Longrightarrow> a \<le> b \<Longrightarrow> b \<le> int (length m) \<Longrightarrow> length (region m a b) = nat (b - a)"
  by (simp add: region_def)

lemma region_empty [simp, mem_simps]: "b \<le> a \<Longrightarrow> region m a b = []"
  by (simp add: region_def)

lemma region_whole [simp]: "region m 0 (int (length m)) = m"
  by (simp add: region_def)

lemma region_split:
  assumes "0 \<le> a" "a \<le> b" "b \<le> c"
  shows "region m a c = region m a b @ region m b c"
proof -
  from assms have n: "nat (c - a) = nat (b - a) + nat (c - b)" "nat b = nat (b - a) + nat a"
    by linarith+
  show ?thesis
    by (simp add: region_def n(1) take_add n(2) drop_drop)
qed

lemma drop_region [mem_simps]:
  "0 \<le> a \<Longrightarrow> 0 \<le> k \<Longrightarrow> drop (nat k) (region m a b) = region m (a + k) b"
proof -
  assume "0 \<le> a" "0 \<le> k"
  then have "nat (b - a) - nat k = nat (b - (a + k))" "nat (a + k) = nat k + nat a"
    by linarith+
  then show ?thesis
    by (simp add: region_def drop_take drop_drop)
qed

lemma take_region [mem_simps]:
  "0 \<le> k \<Longrightarrow> a + k \<le> b \<Longrightarrow> take (nat k) (region m a b) = region m a (a + k)"
  by (simp add: region_def min_def)

lemma region_write_before:
  assumes "0 \<le> a" "b \<le> off" "off \<le> int (length m)"
  shows "region (take (nat off) m @ xs) a b = region m a b"
proof (cases "a \<le> b")
  case True
  with assms have "nat a \<le> nat off" "nat (b - a) \<le> nat off - nat a" "nat off \<le> length m"
    "nat (b - a) \<le> length m - nat a"
    by linarith+
  then show ?thesis
    by (simp add: region_def drop_take min_absorb1 min_absorb2)
qed simp

lemma region_write_at:
  "0 \<le> off \<Longrightarrow> off \<le> int (length m) \<Longrightarrow> n = int (length xs) \<Longrightarrow>
   region (take (nat off) m @ xs @ ys) off (off + n) = xs"
  by (simp add: region_def)

lemma region_write_append:
  assumes "0 \<le> a" "a \<le> t" "t \<le> int (length m)"
  shows "region (take (nat t) m @ xs @ ys) a (t + int (length xs)) = region m a t @ xs"
proof -
  let ?m = "take (nat t) m @ xs @ ys"
  have "region ?m a (t + int (length xs)) = region ?m a t @ region ?m t (t + int (length xs))"
    using assms by (intro region_split) auto
  also have "region ?m t (t + int (length xs)) = xs"
    using assms by (intro region_write_at) auto
  also have "region ?m a t = region m a t"
    using assms by (intro region_write_before) auto
  finally show ?thesis .
qed

lemma memcpy_ok:
  assumes "0 \<le> dst" "0 \<le> n" "n \<le> int (length src)" "dst + n \<le> int (length m)"
  shows "memcpy m dst src n =
     Inr (take (nat dst) m @ take (nat n) src @ drop (nat dst + nat n) m)"
proof -
  have "length (take (nat n) src) = nat n"
    using assms by simp
  then show ?thesis
    using assms by (simp add: memcpy_def mem_read_def mem_write_def del: length_take)
qed

lemma memcpy_length: "memcpy m dst src n = Inr m' \<Longrightarrow> length m' = length m"
  by (auto simp: memcpy_def rbind_eq_Inr dest: mem_write_length)

lemma memmove_length: "memmove m dst src n = Inr m' \<Longrightarrow> length m' = length m"
  by (auto simp: memmove_def rbind_eq_Inr dest: mem_write_length)

text \<open>Moving a region to the front of its array keeps its bytes.\<close>

lemma memmove_front:
  assumes "0 \<le> a" "0 \<le> n" "a + n \<le> int (length m)"
  obtains m' where "memmove m 0 a n = Inr m'" "length m' = length m"
    "region m' 0 n = region m a (a + n)" "\<And>i. n \<le> int i \<Longrightarrow> m' ! i = m ! i"
proof -
  let ?r = "region m a (a + n)"
  have len: "length ?r = nat n"
    using assms by (simp add: length_region)
  have *: "memmove m 0 a n = Inr (?r @ drop (nat n) m)"
    using assms len by (simp add: memmove_def mem_read_ok mem_write_ok)
  have "length (?r @ drop (nat n) m) = length m"
    using assms len by auto
  moreover have "(?r @ drop (nat n) m) ! i = m ! i" if "n \<le> int i" for i
    using that assms len by (auto simp: nth_append nth_drop)
  ultimately show thesis
    using that [OF *] assms len by (simp add: region_def)
qed

end
