(* ===== verification/Recv_Loop.thy ===== *)
theory Recv_Loop
  imports Net_Prelude
begin

text \<open>
  The receive path the three back ends share: the bytes of a session's receive buffer are
  cut into packets by the virtual \<open>read_packet\<close>, each packet is handed to the
  session's callback, and the unconsumed rest is moved to the front
  (\<open>src/detail/epollnet.hpp\<close>, lines 273--323; the same loop is written out in
  \<open>kqueuenet.hpp\<close> and \<open>iocpnet.hpp\<close>, there with a terminator byte patched
  in behind each packet).  \<open>conn\<close> holds the fields \<open>EventHandler\<close> has in all
  back ends; the back ends and the user's session class extend it.  \<open>read_packet\<close>
  is a function of the bytes and their number; the callback may change the session, the
  rest of the program and the outside world, and may fault.
\<close>

record conn =
  fd :: int
  ip :: int
  port :: int
  isPassive :: bool
  recvBuf :: "byte list"
  recvBufPos :: int

type_synonym framer = "byte list \<Rightarrow> int \<Rightarrow> int"
type_synonym ('a, 'w) packet_cb = "byte list \<Rightarrow> 'a conn_scheme \<times> 'w \<Rightarrow> ('a conn_scheme \<times> 'w) result"

definition received :: "'a conn_scheme \<Rightarrow> byte list" where
  "received s = region (recvBuf s) 0 (recvBufPos s)"

definition conn_inv :: "'a conn_scheme \<Rightarrow> bool" where
  "conn_inv s \<longleftrightarrow> 0 \<le> recvBufPos s \<and> recvBufPos s \<le> int (length (recvBuf s)) \<and>
     int (length (recvBuf s)) < 2 ^ 31"

definition deliver ::
  "bool \<Rightarrow> ('a, 'w) packet_cb \<Rightarrow> 'a conn_scheme \<times> 'w \<Rightarrow> int \<Rightarrow> int \<Rightarrow>
   (('a conn_scheme \<times> 'w) \<times> int) result" where
  "deliver patch on_packet = (\<lambda>(s, w) readPos pkgLen.
     let pEnd = readPos + pkgLen in
     if pEnd \<le> recvBufPos s then
       (if patch then
          rbind (mem_read (recvBuf s) pEnd 1) (\<lambda>endVal.
          rbind (mem_write (recvBuf s) pEnd [0]) (\<lambda>buf.
          rbind (on_packet (region buf readPos pEnd) (s\<lparr>recvBuf := buf\<rparr>, w)) (\<lambda>(s, w).
          rbind (mem_write (recvBuf s) pEnd endVal) (\<lambda>buf.
            Inr ((s\<lparr>recvBuf := buf\<rparr>, w), pEnd)))))
        else rbind (on_packet (region (recvBuf s) readPos pEnd) (s, w)) (\<lambda>sw. Inr (sw, pEnd)))
     else Inr ((s, w), readPos))"

definition keep_rest :: "'a conn_scheme \<times> 'w \<Rightarrow> int \<Rightarrow> ('a conn_scheme \<times> 'w) result" where
  "keep_rest = (\<lambda>(s, w) readPos.
     let left = recvBufPos s - readPos in
     rbind (memmove (recvBuf s) 0 readPos left) (\<lambda>buf.
     rbind (mem_write buf left [0]) (\<lambda>buf. Inr (s\<lparr>recvBuf := buf, recvBufPos := left\<rparr>, w))))"

text \<open>The loop proper; \<open>None\<close> is a loop that never ends.\<close>

partial_function (option) packet_loop ::
  "bool \<Rightarrow> framer \<Rightarrow> ('a, 'w) packet_cb \<Rightarrow> 'a conn_scheme \<times> 'w \<Rightarrow> int \<Rightarrow> int \<Rightarrow>
   ('a conn_scheme \<times> 'w) result option" where
  "packet_loop patch read_packet on_packet sw readPos pkgLen =
     (if pkgLen > 0 then
        (case deliver patch on_packet sw readPos pkgLen of
           Inl e \<Rightarrow> Some (Inl e)
         | Inr (sw', readPos') \<Rightarrow>
             if readPos' < recvBufPos (fst sw') then
               (let left = region (recvBuf (fst sw')) readPos' (recvBufPos (fst sw'));
                    pkgLen' = read_packet left (recvBufPos (fst sw') - readPos')
                in if pkgLen' \<le> 0 then Some (keep_rest sw' readPos')
                   else packet_loop patch read_packet on_packet sw' readPos' pkgLen')
             else Some (Inr ((fst sw')\<lparr>recvBufPos := 0\<rparr>, snd sw')))
      else Some (Inr sw))"

text \<open>What happens when \<open>recv\<close> has put \<open>len\<close> bytes behind the buffered ones.\<close>

definition recv_data ::
  "bool \<Rightarrow> framer \<Rightarrow> ('a, 'w) packet_cb \<Rightarrow> 'a conn_scheme \<times> 'w \<Rightarrow> int \<Rightarrow>
   ('a conn_scheme \<times> 'w) result option" where
  "recv_data patch read_packet on_packet = (\<lambda>(s, w) len.
     let s = s\<lparr>recvBufPos := recvBufPos s + len\<rparr> in
     packet_loop patch read_packet on_packet (s, w) 0 (read_packet (received s) (recvBufPos s)))"

subsection \<open>The reference: cutting a byte string into packets\<close>

function frames :: "framer \<Rightarrow> byte list \<Rightarrow> byte list list \<times> byte list" where
  "frames read_packet bs =
     (let n = read_packet bs (int (length bs)) in
      if bs = [] \<or> n \<le> 0 \<or> n > int (length bs) then ([], bs)
      else (let (ps, rest) = frames read_packet (drop (nat n) bs) in (take (nat n) bs # ps, rest)))"
  by pat_completeness auto
termination
  by (relation "measure (\<lambda>(_, bs). length bs)") auto

declare frames.simps [simp del]

fun deliver_list :: "('a, 'w) packet_cb \<Rightarrow> byte list list \<Rightarrow> 'a conn_scheme \<times> 'w \<Rightarrow>
    ('a conn_scheme \<times> 'w) result" where
  "deliver_list on_packet [] sw = Inr sw"
| "deliver_list on_packet (p # ps) sw = rbind (on_packet p sw) (deliver_list on_packet ps)"

lemma frames_stop: "rp bs (int (length bs)) \<le> 0 \<Longrightarrow> frames rp bs = ([], bs)"
  by (simp add: frames.simps Let_def)

lemma frames_Nil [simp]: "frames rp [] = ([], [])"
  by (simp add: frames.simps Let_def)

lemma frames_step:
  "n = rp bs (int (length bs)) \<Longrightarrow> 0 < n \<Longrightarrow> n \<le> int (length bs) \<Longrightarrow>
   frames rp bs = (take (nat n) bs # fst (frames rp (drop (nat n) bs)), snd (frames rp (drop (nat n) bs)))"
  by (subst frames.simps) (auto simp: Let_def split: prod.splits)

lemma frames_cases:
  obtains (stop) "frames rp bs = ([], bs)"
  | (packet) n where "n = rp bs (int (length bs))" "0 < n" "n \<le> int (length bs)" "bs \<noteq> []"
      "frames rp bs = (take (nat n) bs # fst (frames rp (drop (nat n) bs)), snd (frames rp (drop (nat n) bs)))"
proof (cases "bs = [] \<or> rp bs (int (length bs)) \<le> 0 \<or> rp bs (int (length bs)) > int (length bs)")
  case True
  then show thesis
    by (intro stop) (subst frames.simps, simp add: Let_def)
next
  case False
  then show thesis
    using packet [OF refl _ _ _ frames_step [OF refl]] by auto
qed

lemma frames_induct [case_names stop packet]:
  assumes "\<And>bs. frames rp bs = ([], bs) \<Longrightarrow> P bs"
    and "\<And>bs n. n = rp bs (int (length bs)) \<Longrightarrow> 0 < n \<Longrightarrow> n \<le> int (length bs) \<Longrightarrow> bs \<noteq> [] \<Longrightarrow>
      frames rp bs = (take (nat n) bs # fst (frames rp (drop (nat n) bs)), snd (frames rp (drop (nat n) bs))) \<Longrightarrow>
      P (drop (nat n) bs) \<Longrightarrow> P bs"
  shows "P bs"
proof (induction "length bs" arbitrary: bs rule: less_induct)
  case less
  show ?case
  proof (cases bs rule: frames_cases [of rp])
    case stop
    then show ?thesis by (rule assms(1))
  next
    case (packet n)
    then have "P (drop (nat n) bs)"
      by (intro less) simp
    then show ?thesis
      by (rule assms(2) [OF packet])
  qed
qed

lemma frames_concat: "concat (fst (frames rp bs)) @ snd (frames rp bs) = bs"
  by (induction bs rule: frames_induct [of rp]) simp_all

lemma frames_nonempty: "p \<in> set (fst (frames rp bs)) \<Longrightarrow> p \<noteq> []"
  by (induction bs rule: frames_induct [of rp]) auto

text \<open>The contracts of the two virtual methods.\<close>

definition bounded_framer :: "framer \<Rightarrow> bool" where
  "bounded_framer rp \<longleftrightarrow> (\<forall>bs. rp bs (int (length bs)) \<le> int (length bs))"

definition keeps_buffer :: "('a, 'w) packet_cb \<Rightarrow> bool" where
  "keeps_buffer cb \<longleftrightarrow> (\<forall>p s w s' w'. cb p (s, w) = Inr (s', w') \<longrightarrow>
     recvBuf s' = recvBuf s \<and> recvBufPos s' = recvBufPos s)"

lemma keeps_bufferD:
  "keeps_buffer cb \<Longrightarrow> cb p (s, w) = Inr (s', w') \<Longrightarrow> recvBuf s' = recvBuf s \<and> recvBufPos s' = recvBufPos s"
  unfolding keeps_buffer_def by blast

lemma keep_rest_ok:
  assumes "conn_inv s" "0 < readPos" "readPos \<le> recvBufPos s"
  obtains s' where "keep_rest (s, w) readPos = Inr (s', w)" "conn_inv s'"
    "received s' = region (recvBuf s) readPos (recvBufPos s)"
    "s' = s\<lparr>recvBuf := recvBuf s', recvBufPos := recvBufPos s'\<rparr>"
    "length (recvBuf s') = length (recvBuf s)"
proof -
  let ?l = "recvBufPos s - readPos"
  obtain buf where mv: "memmove (recvBuf s) 0 readPos ?l = Inr buf" "length buf = length (recvBuf s)"
    "region buf 0 ?l = region (recvBuf s) readPos (recvBufPos s)"
    using assms by (rule_tac memmove_front [of readPos ?l "recvBuf s"]) (auto simp: conn_inv_def)
  let ?buf = "take (nat ?l) buf @ [0] @ drop (nat ?l + 1) buf"
  have wr: "mem_write buf ?l [0] = Inr ?buf"
    using assms mv(2) by (simp add: mem_write_ok conn_inv_def)
  have "region ?buf 0 ?l = region buf 0 ?l"
    using assms mv(2) by (intro region_write_before) (auto simp: conn_inv_def)
  then show thesis
    using assms mv wr mem_write_length [OF wr]
    by (intro that [of "s\<lparr>recvBuf := ?buf, recvBufPos := ?l\<rparr>"])
      (auto simp: keep_rest_def conn_inv_def received_def Let_def)
qed

text \<open>
  What the loop may return: the first fault of a callback, or the state the callbacks
  leave, with the unconsumed rest at the front of the buffer.
\<close>

definition loop_result ::
  "('a, 'w) packet_cb \<Rightarrow> byte list list \<times> byte list \<Rightarrow> 'a conn_scheme \<times> 'w \<Rightarrow>
   ('a conn_scheme \<times> 'w) result \<Rightarrow> bool" where
  "loop_result cb pr sw r \<longleftrightarrow>
     (case deliver_list cb (fst pr) sw of
        Inl e \<Rightarrow> r = Inl e
      | Inr (s1, w1) \<Rightarrow> \<exists>s2. r = Inr (s2, w1) \<and> conn_inv s2 \<and> received s2 = snd pr \<and>
          length (recvBuf s2) = length (recvBuf s1) \<and>
          s2 = s1\<lparr>recvBuf := recvBuf s2, recvBufPos := recvBufPos s2\<rparr>)"

lemma loop_result_Cons:
  "cb p sw = Inr sw' \<Longrightarrow> loop_result cb pr sw' r \<Longrightarrow> loop_result cb (p # fst pr, snd pr) sw r"
  by (simp add: loop_result_def split: sum.splits prod.splits)

lemma packet_loop_rest:
  assumes "conn_inv s" "0 < readPos" "readPos \<le> recvBufPos s"
    and "bs = region (recvBuf s) readPos (recvBufPos s)" and "rp bs (int (length bs)) \<le> 0"
  obtains r where "keep_rest (s, w) readPos = r" "loop_result cb (frames rp bs) (s, w) r"
proof -
  obtain s' where *: "keep_rest (s, w) readPos = Inr (s', w)" "conn_inv s'"
    "received s' = region (recvBuf s) readPos (recvBufPos s)"
    "s' = s\<lparr>recvBuf := recvBuf s', recvBufPos := recvBufPos s'\<rparr>"
    "length (recvBuf s') = length (recvBuf s)"
    using keep_rest_ok [OF assms(1-3)] .
  have "loop_result cb (frames rp bs) (s, w) (Inr (s', w))"
    using * assms(4) frames_stop [of rp bs, OF assms(5)] by (auto simp: loop_result_def)
  with * that show thesis by blast
qed

lemma packet_loop_done:
  assumes "conn_inv s"
  shows "loop_result cb ([], []) (s, w) (Inr (s\<lparr>recvBufPos := 0\<rparr>, w))"
  using assms by (auto simp: loop_result_def conn_inv_def received_def)

text \<open>One turn of the loop after a delivered packet, and what it makes of the bytes behind it.\<close>

lemma packet_loop_turn:
  assumes "0 < n" "deliver patch cb sw readPos n = Inr ((s1, w1), e)"
    and bs: "bs = region (recvBuf s1) e (recvBufPos s1)" and len: "recvBufPos s1 - e = int (length bs)"
  shows "packet_loop patch rp cb sw readPos n =
     (if bs = [] then Some (Inr (s1\<lparr>recvBufPos := 0\<rparr>, w1))
      else if rp bs (int (length bs)) \<le> 0 then Some (keep_rest (s1, w1) e)
      else packet_loop patch rp cb (s1, w1) e (rp bs (int (length bs))))"
proof -
  have "e < recvBufPos s1 \<longleftrightarrow> 0 < length bs"
    using len by linarith
  then show ?thesis
    using assms(1,2) by (subst packet_loop.simps)
      (simp add: Let_def bs [symmetric] len)
qed

text \<open>
  The back ends that patch a terminator behind the packet do the same work as long as that
  byte lies inside the array and the callback does not look at the buffer behind its packet.
\<close>

definition buffer_blind :: "('a, 'w) packet_cb \<Rightarrow> bool" where
  "buffer_blind cb \<longleftrightarrow> (\<forall>p s w b. cb p (s\<lparr>recvBuf := b\<rparr>, w) =
     rbind (cb p (s, w)) (\<lambda>(s', w'). Inr (s'\<lparr>recvBuf := b\<rparr>, w')))"

definition patch_ok :: "bool \<Rightarrow> ('a, 'w) packet_cb \<Rightarrow> 'a conn_scheme \<Rightarrow> bool" where
  "patch_ok patch cb s \<longleftrightarrow> patch \<longrightarrow> buffer_blind cb \<and> recvBufPos s < int (length (recvBuf s))"

lemma mem_write_restore:
  assumes "0 \<le> e" "e < int (length m)"
  shows "mem_write (take (nat e) m @ [x] @ drop (nat e + 1) m) e (take 1 (drop (nat e) m)) = Inr m"
proof -
  have "nat e < length m"
    using assms by linarith
  moreover from this have "take 1 (drop (nat e) m) = [m ! nat e]"
    by (simp add: take_Suc_conv_app_nth hd_drop_conv_nth take_Suc)
  ultimately show ?thesis
    using assms by (simp add: mem_write_def id_take_nth_drop [symmetric])
qed

lemma deliver_ok:
  assumes "patch_ok patch cb s" "keeps_buffer cb" "conn_inv s" "0 \<le> readPos" "0 < n" "readPos + n \<le> recvBufPos s"
  shows "deliver patch cb (s, w) readPos n =
    rbind (cb (region (recvBuf s) readPos (readPos + n)) (s, w)) (\<lambda>sw. Inr (sw, readPos + n))"
proof (cases patch)
  case True
  let ?e = "readPos + n" and ?m = "recvBuf s"
  let ?m' = "take (nat ?e) ?m @ [0] @ drop (nat ?e + 1) ?m"
  have e: "0 \<le> ?e" "?e < int (length ?m)"
    using assms True by (auto simp: patch_ok_def)
  have rd: "mem_read ?m ?e 1 = Inr (take 1 (drop (nat ?e) ?m))" and wr: "mem_write ?m ?e [0] = Inr ?m'"
    using e by (simp_all add: mem_read_def mem_write_ok)
  have reg: "region ?m' readPos ?e = region ?m readPos ?e"
    using assms e by (intro region_write_before) auto
  have blind: "cb p (s\<lparr>recvBuf := ?m'\<rparr>, w) =
      rbind (cb p (s, w)) (\<lambda>(s', w'). Inr (s'\<lparr>recvBuf := ?m'\<rparr>, w'))" for p
    using assms True by (simp add: patch_ok_def buffer_blind_def)
  show ?thesis
  proof (cases "cb (region ?m readPos ?e) (s, w)")
    case (Inl f)
    then show ?thesis
      using True assms(6) rd wr reg blind by (simp add: deliver_def)
  next
    case (Inr sw)
    obtain s' w' where sw: "sw = (s', w')"
      by (cases sw)
    have "recvBuf s' = ?m"
      using Inr sw keeps_bufferD [OF assms(2)] by blast
    then have "s'\<lparr>recvBuf := ?m\<rparr> = s'"
      by simp
    then show ?thesis
      using True assms(6) rd wr reg blind Inr sw mem_write_restore [OF e, of 0] by (simp add: deliver_def)
  qed
qed (use assms in \<open>simp add: deliver_def Let_def\<close>)

lemma packet_loop_frames:
  assumes "bounded_framer rp" and "keeps_buffer cb"
  shows "conn_inv s \<Longrightarrow> patch_ok patch cb s \<Longrightarrow> 0 \<le> readPos \<Longrightarrow> readPos < recvBufPos s \<Longrightarrow>
    bs = region (recvBuf s) readPos (recvBufPos s) \<Longrightarrow> 0 < rp bs (int (length bs)) \<Longrightarrow>
    \<exists>r. packet_loop patch rp cb (s, w) readPos (rp bs (int (length bs))) = Some r \<and>
        loop_result cb (frames rp bs) (s, w) r"
proof (induction bs arbitrary: s w readPos rule: frames_induct [of rp])
  case (stop bs)
  have "bs \<noteq> []"
    using stop.prems by (auto simp: region_def conn_inv_def)
  then show ?case
    using stop frames_step [of _ rp bs, OF refl] assms(1) by (auto simp: bounded_framer_def)
next
  case (packet bs n)
  let ?e = "readPos + n" and ?bs = "drop (nat n) bs"
  have len: "int (length bs) = recvBufPos s - readPos"
    using packet.prems by (simp add: length_region conn_inv_def)
  have p: "region (recvBuf s) readPos ?e = take (nat n) bs"
    using packet.prems packet.hyps len by (simp add: take_region)
  have del: "deliver patch cb (s, w) readPos n =
      rbind (cb (take (nat n) bs) (s, w)) (\<lambda>sw. Inr (sw, ?e))"
    using deliver_ok [OF packet.prems(2) assms(2) packet.prems(1,3) packet.hyps(2)] packet.hyps(3) len p
    by simp
  show ?case
  proof (cases "cb (take (nat n) bs) (s, w)")
    case (Inl e)
    then have "packet_loop patch rp cb (s, w) readPos n = Some (Inl e)"
      using packet.hyps del by (subst packet_loop.simps) simp
    with Inl packet.hyps show ?thesis
      by (simp add: loop_result_def)
  next
    case (Inr sw)
    then obtain s1 w1 where cb: "cb (take (nat n) bs) (s, w) = Inr (s1, w1)"
      by (cases sw) auto
    have same: "recvBuf s1 = recvBuf s" "recvBufPos s1 = recvBufPos s"
      using keeps_bufferD [OF assms(2) cb] by auto
    have inv1: "conn_inv s1" "patch_ok patch cb s1" and bs1: "?bs = region (recvBuf s1) ?e (recvBufPos s1)"
      using packet.prems packet.hyps same by (auto simp: conn_inv_def patch_ok_def drop_region)
    have len1: "recvBufPos s1 - ?e = int (length ?bs)" and e: "0 < ?e" "?e \<le> recvBufPos s1"
      using packet.prems packet.hyps len same by simp_all
    have "deliver patch cb (s, w) readPos n = Inr ((s1, w1), ?e)"
      using del cb by simp
    note turn = packet_loop_turn [OF packet.hyps(2) this bs1 len1, of rp]
    have "\<exists>r. packet_loop patch rp cb (s, w) readPos n = Some r \<and> loop_result cb (frames rp ?bs) (s1, w1) r"
    proof (cases "?bs = []")
      case True
      then show ?thesis
        using packet_loop_done [OF inv1(1)] turn by simp
    next
      case False
      then have "0 < length ?bs"
        by simp
      with len1 have "?e < recvBufPos s1"
        by linarith
      then show ?thesis
        using packet.IH [OF inv1 _ _ bs1, of w1] e False turn
          packet_loop_rest [where rp = rp, OF inv1(1) e bs1, of w1 cb]
        by (cases "rp ?bs (int (length ?bs)) \<le> 0") auto
    qed
    then show ?thesis
      using packet.hyps loop_result_Cons [where cb = cb, OF cb] by auto
  qed
qed

lemma recv_data_frames:
  assumes "bounded_framer rp" and "keeps_buffer cb"
    and "s' = s\<lparr>recvBufPos := recvBufPos s + len\<rparr>" and "conn_inv s'" and "patch_ok patch cb s'"
  shows "\<exists>r. recv_data patch rp cb (s, w) len = Some r \<and> loop_result cb (frames rp (received s')) (s', w) r"
proof -
  let ?bs = "received s'"
  have len: "recvBufPos s' = int (length ?bs)"
    using assms(4) by (simp add: received_def length_region conn_inv_def)
  have data: "recv_data patch rp cb (s, w) len = packet_loop patch rp cb (s', w) 0 (rp ?bs (int (length ?bs)))"
    using assms(3) len by (simp add: recv_data_def Let_def)
  show ?thesis
  proof (cases "rp ?bs (int (length ?bs)) \<le> 0")
    case True
    then show ?thesis
      using data assms(4) frames_stop [of rp ?bs, OF True]
      by (subst (asm) packet_loop.simps) (simp add: loop_result_def)
  next
    case False
    then have "0 < recvBufPos s'"
      using assms(1) [unfolded bounded_framer_def, rule_format, of ?bs] len by linarith
    with False show ?thesis
      using packet_loop_frames [OF assms(1,2,4,5), of 0 ?bs w] data by (simp add: received_def)
  qed
qed

subsection \<open>A packet announced longer than what has arrived\<close>

definition stuck :: "framer \<Rightarrow> 'a conn_scheme \<Rightarrow> int \<Rightarrow> int \<Rightarrow> bool" where
  "stuck rp s readPos pkgLen \<longleftrightarrow>
     (let left = recvBufPos s - readPos in
      0 < left \<and> left < pkgLen \<and> pkgLen = rp (region (recvBuf s) readPos (recvBufPos s)) left)"

lemma packet_loop_stuck:
  assumes "stuck rp s readPos pkgLen"
  shows "packet_loop patch rp cb (s, w) readPos pkgLen = None"
proof (rule ccontr)
  assume "packet_loop patch rp cb (s, w) readPos pkgLen \<noteq> None"
  then obtain r where ret: "packet_loop patch rp cb (s, w) readPos pkgLen = Some r"
    by blast
  have "\<not> stuck rp (fst (s, w)) readPos pkgLen"
  proof (rule packet_loop.raw_induct
      [where P = "\<lambda>patch rp cb sw readPos pkgLen r. \<not> stuck rp (fst sw) readPos pkgLen", OF _ ret], rule notI)
    fix f patch rp cb sw readPos pkgLen r
    assume IH: "\<And>patch rp cb sw readPos pkgLen r.
        f patch rp cb sw readPos pkgLen = Some r \<Longrightarrow> \<not> stuck rp (fst sw) readPos pkgLen"
      and eq: "(if 0 < pkgLen then
          case deliver patch cb sw readPos pkgLen of Inl e \<Rightarrow> Some (Inl e)
          | Inr (sw', readPos') \<Rightarrow>
              if readPos' < recvBufPos (fst sw') then
                let left = region (recvBuf (fst sw')) readPos' (recvBufPos (fst sw'));
                    pkgLen' = rp left (recvBufPos (fst sw') - readPos')
                in if pkgLen' \<le> 0 then Some (keep_rest sw' readPos')
                   else f patch rp cb sw' readPos' pkgLen'
              else Some (Inr ((fst sw')\<lparr>recvBufPos := 0\<rparr>, snd sw'))
        else Some (Inr sw)) = Some r"
      and st: "stuck rp (fst sw) readPos pkgLen"
    have "deliver patch cb sw readPos pkgLen = Inr (sw, readPos)"
      using st by (cases sw) (simp add: deliver_def stuck_def Let_def)
    with eq st have "f patch rp cb sw readPos pkgLen = Some r"
      by (simp add: stuck_def Let_def)
    with IH st show False by blast
  qed
  with assms show False by simp
qed

subsection \<open>The contract of \<open>read_packet\<close> and what the loop does with it\<close>

locale packet_framer =
  fixes read_packet :: framer
  assumes bounded: "read_packet bs (int (length bs)) \<le> int (length bs)"
begin

lemma bounded_framer: "bounded_framer read_packet"
  by (simp add: bounded_framer_def bounded)

end

text \<open>A framer is stable when bytes that arrive later do not change a packet it has announced.\<close>

locale stable_framer = packet_framer +
  assumes stable: "0 < read_packet bs (int (length bs)) \<Longrightarrow>
    read_packet (bs @ cs) (int (length (bs @ cs))) = read_packet bs (int (length bs))"
begin

lemma frames_append:
  "frames read_packet (bs @ cs) =
     (fst (frames read_packet bs) @ fst (frames read_packet (snd (frames read_packet bs) @ cs)),
      snd (frames read_packet (snd (frames read_packet bs) @ cs)))"
proof (induction bs rule: frames_induct [of read_packet])
  case (stop bs)
  then show ?case by simp
next
  case (packet bs n)
  have "n = read_packet (bs @ cs) (int (length (bs @ cs)))"
    using stable [of bs cs] packet.hyps by simp
  then have "frames read_packet (bs @ cs) =
      (take (nat n) (bs @ cs) # fst (frames read_packet (drop (nat n) (bs @ cs))),
       snd (frames read_packet (drop (nat n) (bs @ cs))))"
    using packet.hyps by (intro frames_step) auto
  moreover have "drop (nat n) (bs @ cs) = drop (nat n) bs @ cs" "take (nat n) (bs @ cs) = take (nat n) bs"
    using packet.hyps by simp_all
  ultimately show ?case
    using packet by simp
qed

end

text \<open>\<open>EventHandler::read_packet\<close>, the default, and the fixed-size framer of the tests.\<close>

definition default_read_packet :: framer where
  "default_read_packet pData dataLen = dataLen"

definition fixed_read_packet :: framer where
  "fixed_read_packet pData dataLen = (if dataLen < 12 then -1 else 12)"

interpretation default_framer: packet_framer default_read_packet
  by unfold_locales (simp add: default_read_packet_def)

interpretation fixed_framer: stable_framer fixed_read_packet
  by unfold_locales (auto simp: fixed_read_packet_def split: if_splits)

subsection \<open>A stream that arrives in chunks\<close>

definition recv_chunk ::
  "bool \<Rightarrow> framer \<Rightarrow> ('a, 'w) packet_cb \<Rightarrow> 'a conn_scheme \<times> 'w \<Rightarrow> byte list \<Rightarrow>
   ('a conn_scheme \<times> 'w) result option" where
  "recv_chunk patch read_packet on_packet = (\<lambda>(s, w) bytes.
     case mem_write (recvBuf s) (recvBufPos s) bytes of
       Inl e \<Rightarrow> Some (Inl e)
     | Inr buf \<Rightarrow> recv_data patch read_packet on_packet (s\<lparr>recvBuf := buf\<rparr>, w) (int (length bytes)))"

fun recv_chunks ::
  "bool \<Rightarrow> framer \<Rightarrow> ('a, 'w) packet_cb \<Rightarrow> 'a conn_scheme \<times> 'w \<Rightarrow> byte list list \<Rightarrow>
   ('a conn_scheme \<times> 'w) result option" where
  "recv_chunks patch rp cb sw [] = Some (Inr sw)"
| "recv_chunks patch rp cb sw (c # cs) =
     (case recv_chunk patch rp cb sw c of
        None \<Rightarrow> None | Some (Inl e) \<Rightarrow> Some (Inl e) | Some (Inr sw') \<Rightarrow> recv_chunks patch rp cb sw' cs)"

fun chunks_fit :: "framer \<Rightarrow> nat \<Rightarrow> byte list \<Rightarrow> byte list list \<Rightarrow> bool" where
  "chunks_fit rp N bs [] = True"
| "chunks_fit rp N bs (c # cs) =
     (length bs + length c \<le> N \<and> chunks_fit rp N (snd (frames rp (bs @ c))) cs)"

definition log_packet :: "('a, byte list list) packet_cb" where
  "log_packet p = (\<lambda>(s, log). Inr (s, log @ [p]))"

lemma keeps_buffer_log: "keeps_buffer log_packet"
  by (simp add: keeps_buffer_def log_packet_def)

lemma deliver_list_log: "deliver_list log_packet ps (s, log) = Inr (s, log @ ps)"
  by (induction ps arbitrary: log) (simp_all add: log_packet_def)

lemma recv_chunk_patch_ok:
  assumes "bounded_framer rp" "keeps_buffer cb" "conn_inv s"
    and "length (received s) + length c \<le> length (recvBuf s)"
    and "patch \<Longrightarrow> buffer_blind cb \<and> length (received s) + length c < length (recvBuf s)"
  obtains s' r where "recv_chunk patch rp cb (s, w) c = Some r" "conn_inv s'"
    "length (recvBuf s') = length (recvBuf s)"
    "loop_result cb (frames rp (received s @ c)) (s', w) r"
    "s' = s\<lparr>recvBuf := recvBuf s', recvBufPos := recvBufPos s'\<rparr>"
proof -
  let ?p = "recvBufPos s"
  let ?buf = "take (nat ?p) (recvBuf s) @ c @ drop (nat ?p + length c) (recvBuf s)"
  let ?s = "s\<lparr>recvBuf := ?buf, recvBufPos := ?p + int (length c)\<rparr>"
  have pos: "int (length (received s)) = ?p"
    using assms(3) by (simp add: received_def length_region conn_inv_def)
  have wr: "mem_write (recvBuf s) ?p c = Inr ?buf"
    using assms(3,4) pos by (intro mem_write_ok) (auto simp: conn_inv_def)
  have "conn_inv ?s"
    using assms(3,4) pos mem_write_length [OF wr] by (auto simp: conn_inv_def)
  moreover have "received ?s = received s @ c"
    using region_write_append [of 0 ?p "recvBuf s" c] assms(3) by (simp add: received_def conn_inv_def)
  moreover have "patch_ok patch cb ?s"
    using assms(5) pos mem_write_length [OF wr] by (auto simp: patch_ok_def)
  ultimately obtain r where "recv_data patch rp cb (s\<lparr>recvBuf := ?buf\<rparr>, w) (int (length c)) = Some r"
    "loop_result cb (frames rp (received s @ c)) (?s, w) r"
    using recv_data_frames [OF assms(1,2), of ?s "s\<lparr>recvBuf := ?buf\<rparr>" "int (length c)" patch w] by auto
  with wr \<open>conn_inv ?s\<close> mem_write_length [OF wr] show thesis
    by (intro that [of r ?s]) (auto simp: recv_chunk_def)
qed

lemma recv_chunk_ok:
  assumes "bounded_framer rp" "keeps_buffer cb" "conn_inv s"
    and "length (received s) + length c \<le> length (recvBuf s)"
  obtains s' r where "recv_chunk False rp cb (s, w) c = Some r" "conn_inv s'"
    "length (recvBuf s') = length (recvBuf s)"
    "loop_result cb (frames rp (received s @ c)) (s', w) r"
    "s' = s\<lparr>recvBuf := recvBuf s', recvBufPos := recvBufPos s'\<rparr>"
  by (rule recv_chunk_patch_ok [OF assms, of False w]) (blast intro: that)+

lemma length_received: "conn_inv s \<Longrightarrow> int (length (received s)) = recvBufPos s"
  by (simp add: conn_inv_def received_def length_region)

lemma frames_rest: "frames rp (snd (frames rp bs)) = ([], snd (frames rp bs))"
  by (induction bs rule: frames_induct [of rp]) simp_all

context stable_framer
begin

lemma recv_chunks_log:
  assumes "conn_inv s" and "chunks_fit read_packet (length (recvBuf s)) (received s) cs"
    and "frames read_packet (received s) = ([], received s)"
  shows "\<exists>s'. recv_chunks False read_packet log_packet (s, log) cs =
             Some (Inr (s', log @ fst (frames read_packet (received s @ concat cs)))) \<and>
           conn_inv s' \<and> received s' = snd (frames read_packet (received s @ concat cs))"
  using assms
proof (induction cs arbitrary: s log)
  case Nil
  then show ?case by simp
next
  case (Cons c cs)
  let ?fr = "frames read_packet (received s @ c)"
  have fit: "length (received s) + length c \<le> length (recvBuf s)"
    using Cons.prems(2) by simp
  obtain s1 r where step: "recv_chunk False read_packet log_packet (s, log) c = Some r"
    and "conn_inv s1" and "length (recvBuf s1) = length (recvBuf s)"
    and "loop_result log_packet ?fr (s1, log) r"
    using recv_chunk_ok [OF bounded_framer keeps_buffer_log Cons.prems(1) fit] .
  then obtain s2 where r: "r = Inr (s2, log @ fst ?fr)" and s2: "conn_inv s2" "received s2 = snd ?fr"
    "length (recvBuf s2) = length (recvBuf s)"
    by (auto simp: loop_result_def deliver_list_log)
  have "frames read_packet (received s @ concat (c # cs)) =
      (fst ?fr @ fst (frames read_packet (snd ?fr @ concat cs)), snd (frames read_packet (snd ?fr @ concat cs)))"
    using frames_append [of "received s @ c" "concat cs"] by simp
  moreover from Cons.IH [of s2 "log @ fst ?fr"] obtain s' where
    "recv_chunks False read_packet log_packet (s2, log @ fst ?fr) cs =
       Some (Inr (s', (log @ fst ?fr) @ fst (frames read_packet (snd ?fr @ concat cs))))"
    "conn_inv s'" "received s' = snd (frames read_packet (snd ?fr @ concat cs))"
    using s2 Cons.prems(2) frames_rest [of read_packet "received s @ c"] by auto
  ultimately show ?case
    using step r by auto
qed

end

lemma deliver_past_end:
  assumes "readPos + n = recvBufPos s" "recvBufPos s = int (length (recvBuf s))"
  shows "deliver True cb (s, w) readPos n = Inl OutOfBounds"
  using assms by (simp add: deliver_def mem_read_def)

subsection \<open>Properties\<close>

text \<open>
  (C3) The receive loop of a session: for a \<open>read_packet\<close> that never announces more bytes
  than it was given and a callback that leaves the receive buffer alone, the loop ends; the
  callbacks run once per packet, in order, on exactly the packets the reference cut gives,
  stopping at the first fault; the packets and the rest kept in the buffer are together
  exactly the buffered bytes.
\<close>

theorem recv_loop_total:
  assumes "bounded_framer read_packet" and "keeps_buffer on_packet"
    and "s' = s\<lparr>recvBufPos := recvBufPos s + len\<rparr>" and "conn_inv s'"
  shows "\<exists>r. recv_data False read_packet on_packet (s, w) len = Some r \<and>
           loop_result on_packet (frames read_packet (received s')) (s', w) r \<and>
           concat (fst (frames read_packet (received s'))) @ snd (frames read_packet (received s')) = received s'"
  using recv_data_frames [OF assms, of False w] frames_concat by (auto simp: patch_ok_def)

definition demo_conn :: "byte list \<Rightarrow> int \<Rightarrow> conn" where
  "demo_conn buf pos = \<lparr>fd = 7, ip = 0, port = 0, isPassive = True, recvBuf = buf, recvBufPos = pos\<rparr>"

theorem recv_loop_total_witness:
  "\<exists>r. recv_data False default_read_packet log_packet (demo_conn [1, 2, 3] 0, []) 2 = Some r \<and>
       loop_result log_packet (frames default_read_packet [1, 2]) (demo_conn [1, 2, 3] 2, []) r \<and>
       concat (fst (frames default_read_packet [1, 2])) @ snd (frames default_read_packet [1, 2]) = [1, 2]"
  using recv_loop_total [OF default_framer.bounded_framer keeps_buffer_log refl,
      of "demo_conn [1, 2, 3] 0" 2 "[]"]
  by (simp add: demo_conn_def conn_inv_def received_def region_def numeral_2_eq_2)

text \<open>
  (C2) TCP segmentation does not matter: with a stable \<open>read_packet\<close>, however the byte stream
  is cut into chunks that fit the free space, the packets handed to the session are those
  of the whole stream, in order, and the buffer ends up with the rest of the whole stream.
\<close>

theorem recv_chunking:
  assumes "stable_framer read_packet" and "conn_inv s"
    and "chunks_fit read_packet (length (recvBuf s)) (received s) cs"
    and "frames read_packet (received s) = ([], received s)"
  shows "\<exists>s'. recv_chunks False read_packet log_packet (s, log) cs =
             Some (Inr (s', log @ fst (frames read_packet (received s @ concat cs)))) \<and>
           conn_inv s' \<and> received s' = snd (frames read_packet (received s @ concat cs))"
  using stable_framer.recv_chunks_log [OF assms] .

theorem recv_chunking_witness:
  "\<exists>s'. recv_chunks False fixed_read_packet log_packet (demo_conn (replicate 16 0) 0, [])
          [[1, 2, 3, 4, 5], [6, 7, 8, 9, 10, 11, 12, 13]] =
          Some (Inr (s', [[1, 2, 3, 4, 5, 6, 7, 8, 9, 10, 11, 12]])) \<and>
        conn_inv s' \<and> received s' = [13]"
proof -
  let ?cs = "[[1, 2, 3, 4, 5], [6, 7, 8, 9, 10, 11, 12, 13]] :: byte list list"
  have fr: "frames fixed_read_packet [1, 2, 3, 4, 5] = ([], [1, 2, 3, 4, 5])"
    "frames fixed_read_packet (concat ?cs) = ([[1, 2, 3, 4, 5, 6, 7, 8, 9, 10, 11, 12]], [13])"
    by (simp_all add: frames.simps fixed_read_packet_def Let_def)
  have "received (demo_conn (replicate 16 0) 0) = []" "conn_inv (demo_conn (replicate 16 0) 0)"
    by (simp_all add: received_def demo_conn_def conn_inv_def)
  then show ?thesis
    using recv_chunking [OF fixed_framer.stable_framer_axioms, of "demo_conn (replicate 16 0) 0" ?cs "[]"] fr
    by (simp add: demo_conn_def)
qed

text \<open>
  The bound on \<open>read_packet\<close> is needed: if it announces a packet longer than the bytes
  that have arrived, the loop never ends, whatever the callback does, and the worker thread
  is lost.
\<close>

theorem recv_loop_hangs:
  assumes "0 < recvBufPos s + len"
    and "read_packet (region (recvBuf s) 0 (recvBufPos s + len)) (recvBufPos s + len) > recvBufPos s + len"
  shows "recv_data patch read_packet on_packet (s, w) len = None"
  using assms packet_loop_stuck [of read_packet "s\<lparr>recvBufPos := recvBufPos s + len\<rparr>" 0]
  by (simp add: recv_data_def received_def stuck_def Let_def)

theorem recv_loop_hangs_witness:
  "recv_data False (\<lambda>_ _. 12) log_packet (demo_conn (replicate 16 0) 0, []) 5 = None"
  using recv_loop_hangs [of "demo_conn (replicate 16 0) 0" 5 "\<lambda>_ _. 12"] by (simp add: demo_conn_def)

end
