(* ===== verification/Fifo_Spec.thy ===== *)
theory Fifo_Spec
  imports Net_Prelude
begin

text \<open>
  The contract of the queues in \<open>src/libs\<close>.  \<open>enq\<close> may refuse, \<open>deq\<close> may
  find nothing; both may fault in the code, and the contract says that on a well-formed queue
  they do not.  The client lemma: whatever sequence of calls is made, the elements come
  out in the order in which they were accepted, each once.
\<close>

datatype 'a queue_op = Enq 'a | Deq

fun queue_run ::
  "('a \<Rightarrow> 'q \<Rightarrow> (bool \<times> 'q) result) \<Rightarrow> ('q \<Rightarrow> ('a option \<times> 'q) result) \<Rightarrow>
   'a queue_op list \<Rightarrow> 'q \<Rightarrow> ('a list \<times> 'a list \<times> 'q) result" where
  "queue_run enq deq [] q = Inr ([], [], q)"
| "queue_run enq deq (Enq x # ops) q =
     rbind (enq x q) (\<lambda>(ok, q').
     rbind (queue_run enq deq ops q') (\<lambda>(ins, outs, q'').
       Inr ((if ok then [x] else []) @ ins, outs, q'')))"
| "queue_run enq deq (Deq # ops) q =
     rbind (deq q) (\<lambda>(r, q').
     rbind (queue_run enq deq ops q') (\<lambda>(ins, outs, q'').
       Inr (ins, (case r of None \<Rightarrow> [] | Some x \<Rightarrow> [x]) @ outs, q'')))"

locale fifo =
  fixes inv :: "'q \<Rightarrow> bool"
    and contents :: "'q \<Rightarrow> 'a list"
    and enq :: "'a \<Rightarrow> 'q \<Rightarrow> (bool \<times> 'q) result"
    and deq :: "'q \<Rightarrow> ('a option \<times> 'q) result"
  assumes enq_law: "inv q \<Longrightarrow> \<exists>ok q'. enq x q = Inr (ok, q') \<and> inv q' \<and>
      contents q' = (if ok then contents q @ [x] else contents q)"
    and deq_law: "inv q \<Longrightarrow> \<exists>q'. deq q = Inr (case contents q of [] \<Rightarrow> None | x # _ \<Rightarrow> Some x, q') \<and>
      inv q' \<and> contents q' = tl (contents q)"
begin

lemma run_order:
  assumes "inv q"
  shows "\<exists>ins outs q'. queue_run enq deq ops q = Inr (ins, outs, q') \<and> inv q' \<and>
           contents q @ ins = outs @ contents q'"
  using assms
proof (induction ops arbitrary: q)
  case Nil
  then show ?case by simp
next
  case (Cons op ops)
  show ?case
  proof (cases op)
    case (Enq x)
    from enq_law [OF Cons.prems] obtain ok q1 where step: "enq x q = Inr (ok, q1)" "inv q1"
      "contents q1 = (if ok then contents q @ [x] else contents q)"
      by blast
    from Cons.IH [OF step(2)] step Enq show ?thesis by (auto split: if_splits)
  next
    case Deq
    from deq_law [OF Cons.prems] obtain q1 where step:
      "deq q = Inr (case contents q of [] \<Rightarrow> None | x # _ \<Rightarrow> Some x, q1)" "inv q1"
      "contents q1 = tl (contents q)"
      by blast
    from Cons.IH [OF step(2)] step Deq show ?thesis by (cases "contents q") auto
  qed
qed

end

text \<open>A bounded queue refuses exactly when it is full.\<close>

locale bounded_fifo = fifo inv contents enq deq
  for inv :: "'q \<Rightarrow> bool" and contents :: "'q \<Rightarrow> 'a list" and enq deq +
  fixes cap :: "'q \<Rightarrow> nat"
  assumes accept_law: "inv q \<Longrightarrow> enq x q = Inr (ok, q') \<Longrightarrow> ok \<longleftrightarrow> length (contents q) < cap q"
    and cap_enq: "inv q \<Longrightarrow> enq x q = Inr (ok, q') \<Longrightarrow> cap q' = cap q"
    and cap_deq: "inv q \<Longrightarrow> deq q = Inr (r, q') \<Longrightarrow> cap q' = cap q"
    and within_cap: "inv q \<Longrightarrow> length (contents q) \<le> cap q"
begin

lemma run_cap:
  "inv q \<Longrightarrow> queue_run enq deq ops q = Inr (ins, outs, q') \<Longrightarrow> inv q' \<and> cap q' = cap q"
proof (induction ops arbitrary: q ins outs q')
  case (Cons op ops)
  show ?case
  proof (cases op)
    case (Enq x)
    from enq_law [OF Cons.prems(1)] obtain ok q1 where step: "enq x q = Inr (ok, q1)" "inv q1"
      by blast
    with Cons.prems(2) Enq obtain ins' outs' where "queue_run enq deq ops q1 = Inr (ins', outs', q')"
      by (auto simp: rbind_eq_Inr)
    with Cons.IH [OF step(2)] cap_enq [OF Cons.prems(1) step(1)] show ?thesis by metis
  next
    case Deq
    from deq_law [OF Cons.prems(1)] obtain r q1 where step: "deq q = Inr (r, q1)" "inv q1"
      by blast
    with Cons.prems(2) Deq obtain ins' outs' where "queue_run enq deq ops q1 = Inr (ins', outs', q')"
      by (auto simp: rbind_eq_Inr)
    with Cons.IH [OF step(2)] cap_deq [OF Cons.prems(1) step(1)] show ?thesis by metis
  qed
qed simp

lemma fills_up:
  assumes "inv q" "length (contents q) + length xs \<le> cap q"
  shows "\<exists>q'. queue_run enq deq (map Enq xs) q = Inr (xs, [], q') \<and> inv q' \<and> contents q' = contents q @ xs"
  using assms
proof (induction xs arbitrary: q)
  case Nil
  then show ?case by simp
next
  case (Cons x xs)
  from enq_law [OF Cons.prems(1), of x] obtain ok q1 where step: "enq x q = Inr (ok, q1)" "inv q1"
    "contents q1 = (if ok then contents q @ [x] else contents q)"
    by blast
  moreover have ok "cap q1 = cap q"
    using accept_law [OF Cons.prems(1) step(1)] cap_enq [OF Cons.prems(1) step(1)] Cons.prems(2) by auto
  ultimately show ?case
    using Cons.IH [of q1] Cons.prems(2) by auto
qed

end

text \<open>An unbounded queue never refuses.\<close>

locale unbounded_fifo = fifo +
  assumes never_refuses: "inv q \<Longrightarrow> enq x q = Inr (ok, q') \<Longrightarrow> ok"
begin

lemma run_accepts_all:
  assumes "inv q" "queue_run enq deq (map Enq xs) q = Inr (ins, outs, q')"
  shows "ins = xs \<and> outs = []"
  using assms
proof (induction xs arbitrary: q ins outs q')
  case Nil
  then show ?case by simp
next
  case (Cons x xs)
  from enq_law [OF Cons.prems(1), of x] obtain ok q1 where "enq x q = Inr (ok, q1)" "inv q1"
    by blast
  moreover from this have ok
    using never_refuses [OF Cons.prems(1)] by blast
  ultimately show ?case
    using Cons by (auto simp: rbind_eq_Inr)
qed

end

end
