(* ===== verification/Spsc_Ring.thy ===== *)
theory Spsc_Ring
  imports Fifo_Spec
begin

text \<open>
  The bounded single-producer single-consumer ring of \<open>src/libs/spscqueue.hpp\<close>, the
  queue between a worker thread and the application thread.  A slot is \<open>None\<close> while it
  is raw memory and \<open>Some x\<close> while it holds a constructed object, so that the model
  shows a read of raw memory and a construction over a live object.  The first part is the
  sequential behaviour of every member function, the second one interleaves one
  \<open>enqueue\<close> with one \<open>try_dequeue\<close> at their atomic accesses.
\<close>

record 'a spscqueue =
  queueSize :: int
  records :: "'a option list"
  readIndex :: int
  writeIndex :: int

definition spscqueue :: "bool \<Rightarrow> bool \<Rightarrow> int \<Rightarrow> 'a spscqueue result" where
  "spscqueue ndebug malloc_ok sz =
     rbind (c_assert ndebug (sz \<ge> 1)) (\<lambda>_.
       if \<not> malloc_ok then Inl BadAlloc
       else Inr \<lparr>queueSize = u32 (sz + 1), records = replicate (nat (u32 (sz + 1))) None,
                 readIndex = 0, writeIndex = 0\<rparr>)"

definition next_index :: "'a spscqueue \<Rightarrow> int \<Rightarrow> int" where
  "next_index q i = (let nextRecord = i + 1 in if u32 nextRecord = queueSize q then 0 else nextRecord)"

definition construct_at :: "'a spscqueue \<Rightarrow> int \<Rightarrow> 'a \<Rightarrow> 'a spscqueue result" where
  "construct_at q i x =
     rbind (mem_write (records q) i [Some x]) (\<lambda>r. Inr (q\<lparr>records := r\<rparr>))"

definition object_at :: "'a spscqueue \<Rightarrow> int \<Rightarrow> 'a result" where
  "object_at q i = rbind (mem_read (records q) i 1) (\<lambda>xs.
     case xs of [Some x] \<Rightarrow> Inr x | _ \<Rightarrow> Inl Uninitialised)"

definition destroy_at :: "'a spscqueue \<Rightarrow> int \<Rightarrow> 'a spscqueue result" where
  "destroy_at q i = rbind (object_at q i) (\<lambda>_.
     rbind (mem_write (records q) i [None]) (\<lambda>r. Inr (q\<lparr>records := r\<rparr>)))"

definition enqueue :: "'a \<Rightarrow> 'a spscqueue \<Rightarrow> (bool \<times> 'a spscqueue) result" where
  "enqueue x q =
     (let currentWrite = writeIndex q; nextRecord = next_index q currentWrite in
      if nextRecord \<noteq> readIndex q then
        rbind (construct_at q currentWrite x) (\<lambda>q. Inr (True, q\<lparr>writeIndex := nextRecord\<rparr>))
      else Inr (False, q))"

definition try_dequeue :: "'a spscqueue \<Rightarrow> ('a option \<times> 'a spscqueue) result" where
  "try_dequeue q =
     (let currentRead = readIndex q in
      if currentRead = writeIndex q then Inr (None, q)
      else (let nextRecord = next_index q currentRead in
        rbind (object_at q currentRead) (\<lambda>record.
        rbind (destroy_at q currentRead) (\<lambda>q. Inr (Some record, q\<lparr>readIndex := nextRecord\<rparr>)))))"

definition frontPtr :: "'a spscqueue \<Rightarrow> int option" where
  "frontPtr q =
     (let currentRead = readIndex q in
      if currentRead = writeIndex q then None else Some currentRead)"

definition popFront :: "bool \<Rightarrow> 'a spscqueue \<Rightarrow> 'a spscqueue result" where
  "popFront ndebug q =
     (let currentRead = readIndex q in
      rbind (c_assert ndebug (currentRead \<noteq> writeIndex q)) (\<lambda>_.
      let nextRecord = next_index q currentRead in
      rbind (destroy_at q currentRead) (\<lambda>q. Inr (q\<lparr>readIndex := nextRecord\<rparr>))))"

definition isEmpty :: "'a spscqueue \<Rightarrow> bool" where
  "isEmpty q \<longleftrightarrow> readIndex q = writeIndex q"

definition isFull :: "'a spscqueue \<Rightarrow> bool" where
  "isFull q = (let nextRecord = next_index q (writeIndex q) in
     if nextRecord \<noteq> readIndex q then False else True)"

definition sizeGuess :: "'a spscqueue \<Rightarrow> int" where
  "sizeGuess q = (let ret = writeIndex q - readIndex q in
     if ret < 0 then s32 (u32 ret + queueSize q) else ret)"

text \<open>The destructor's loop over the remaining objects; \<open>None\<close> when it does not end.\<close>

partial_function (option) destroy_from ::
  "'a spscqueue \<Rightarrow> int \<Rightarrow> int \<Rightarrow> 'a spscqueue result option" where
  "destroy_from q read end =
     (if read \<noteq> end then
        (case destroy_at q read of Inl e \<Rightarrow> Some (Inl e)
         | Inr q' \<Rightarrow> destroy_from q' (next_index q read) end)
      else Some (Inr q))"

definition destroy_spscqueue :: "bool \<Rightarrow> 'a spscqueue \<Rightarrow> 'a spscqueue result option" where
  "destroy_spscqueue has_trivial_destructor q =
     (if \<not> has_trivial_destructor then destroy_from q (readIndex q) (writeIndex q) else Some (Inr q))"

subsection \<open>Well-formedness and contents\<close>

definition count :: "'a spscqueue \<Rightarrow> int" where
  "count q = (writeIndex q - readIndex q) mod queueSize q"

definition slot :: "'a spscqueue \<Rightarrow> int \<Rightarrow> int" where
  "slot q k = (readIndex q + k) mod queueSize q"

definition indices_ok :: "'a spscqueue \<Rightarrow> bool" where
  "indices_ok q \<longleftrightarrow> 2 \<le> queueSize q \<and> queueSize q < 2 ^ 31 \<and> int (length (records q)) = queueSize q \<and>
     0 \<le> readIndex q \<and> readIndex q < queueSize q \<and> 0 \<le> writeIndex q \<and> writeIndex q < queueSize q"

definition spsc_inv :: "'a spscqueue \<Rightarrow> bool" where
  "spsc_inv q \<longleftrightarrow> indices_ok q \<and>
     (\<forall>k. 0 \<le> k \<and> k < queueSize q \<longrightarrow> (records q ! nat (slot q k) \<noteq> None \<longleftrightarrow> k < count q))"

definition spsc_contents :: "'a spscqueue \<Rightarrow> 'a list" where
  "spsc_contents q = map (\<lambda>k. the (records q ! nat (slot q (int k)))) [0..<nat (count q)]"

lemma spsc_init:
  assumes "1 \<le> sz" "sz + 1 < 2 ^ 31"
  shows "\<exists>q. spscqueue ndebug True sz = Inr q \<and> spsc_inv q \<and> spsc_contents q = [] \<and> queueSize q = sz + 1"
  using assms
  by (auto simp: spscqueue_def spsc_inv_def indices_ok_def spsc_contents_def count_def slot_def)

lemma next_index_mod: "indices_ok q \<Longrightarrow> 0 \<le> i \<Longrightarrow> i < queueSize q \<Longrightarrow> next_index q i = (i + 1) mod queueSize q"
  by (auto simp: next_index_def Let_def indices_ok_def)

lemma mod_succ_int:
  fixes n :: int
  assumes "0 < n" "(a + 1) mod n \<noteq> 0"
  shows "(a + 1) mod n = a mod n + 1"
proof -
  have "a mod n + 1 \<noteq> n"
    using assms by (metis mod_add_left_eq mod_self)
  moreover have "a mod n < n" "0 \<le> a mod n"
    using assms by simp_all
  ultimately have "(a mod n + 1) mod n = a mod n + 1"
    by (intro mod_pos_pos_trivial) auto
  then show ?thesis
    by (simp add: mod_simps)
qed

lemma mod_pred_int:
  fixes n :: int
  assumes "0 < n" "a mod n \<noteq> 0"
  shows "(a - 1) mod n = a mod n - 1"
  using mod_succ_int [of n "a - 1"] assms by simp

lemma slot_inj:
  assumes "indices_ok q" "0 \<le> j" "j < queueSize q" "0 \<le> k" "k < queueSize q" "slot q j = slot q k"
  shows "j = k"
proof -
  have "j mod queueSize q = k mod queueSize q"
    using assms(6) unfolding slot_def by (metis add_diff_cancel_left' mod_diff_left_eq)
  then show ?thesis
    using assms by simp
qed

lemma slot_range: "indices_ok q \<Longrightarrow> 0 \<le> slot q k \<and> slot q k < queueSize q"
  by (simp add: slot_def indices_ok_def)

lemma slot_count: "indices_ok q \<Longrightarrow> slot q (count q) = writeIndex q"
  by (simp add: slot_def count_def indices_ok_def mod_simps)

lemma slot_zero: "indices_ok q \<Longrightarrow> slot q 0 = readIndex q"
  by (simp add: slot_def indices_ok_def)

lemma count_range: "indices_ok q \<Longrightarrow> 0 \<le> count q \<and> count q < queueSize q"
  by (simp add: count_def indices_ok_def)

lemma length_spsc_contents: "indices_ok q \<Longrightarrow> int (length (spsc_contents q)) = count q"
  using count_range by (auto simp: spsc_contents_def)

lemma count_zero_iff: "indices_ok q \<Longrightarrow> count q = 0 \<longleftrightarrow> readIndex q = writeIndex q"
  by (metis count_range count_def diff_self le_less mod_0 slot_count slot_zero)

lemma slot_Suc: "indices_ok q \<Longrightarrow> slot q (k + 1) = next_index q (slot q k)"
  using slot_range [of q k] by (simp add: next_index_mod) (simp add: slot_def mod_simps algebra_simps)

lemma slot_wrap: "indices_ok q \<Longrightarrow> slot q (queueSize q) = readIndex q"
  by (simp add: slot_def indices_ok_def)

lemma next_write: "indices_ok q \<Longrightarrow> next_index q (writeIndex q) = slot q (count q + 1)"
  using slot_Suc [of q "count q"] by (simp add: slot_count)

lemma next_read: "indices_ok q \<Longrightarrow> next_index q (readIndex q) = slot q 1"
  using slot_Suc [of q 0] by (simp add: slot_zero)

lemma full_iff: "indices_ok q \<Longrightarrow> next_index q (writeIndex q) = readIndex q \<longleftrightarrow> count q = queueSize q - 1"
proof -
  assume ok: "indices_ok q"
  have "slot q (count q + 1) = readIndex q \<longleftrightarrow> count q + 1 = queueSize q"
    using slot_inj [OF ok, of 0 "count q + 1"] slot_zero [OF ok] slot_wrap [OF ok] count_range [OF ok]
    by fastforce
  then show ?thesis
    using ok by (auto simp: next_write)
qed

text \<open>The two index moves, on the abstract position of the slots.\<close>

lemma after_publish:
  fixes q :: "'a spscqueue" and r :: "'a option list"
  assumes "indices_ok q" "count q < queueSize q - 1"
  defines "q' \<equiv> q\<lparr>records := r, writeIndex := next_index q (writeIndex q)\<rparr>"
  shows "slot q' k = slot q k" "count q' = count q + 1" "queueSize q' = queueSize q"
    "length r = length (records q) \<Longrightarrow> indices_ok q'"
proof -
  have "count q' = (count q + 1) mod queueSize q"
    using assms(1) unfolding q'_def by (simp add: next_write) (simp add: count_def slot_def mod_simps algebra_simps)
  then show "count q' = count q + 1"
    using assms count_range [OF assms(1)] by simp
  show "length r = length (records q) \<Longrightarrow> indices_ok q'"
    using assms(1) slot_range [OF assms(1), of "count q + 1"] by (simp add: q'_def indices_ok_def next_write)
qed (simp_all add: q'_def slot_def)

lemma after_consume:
  fixes q :: "'a spscqueue" and r :: "'a option list"
  assumes "indices_ok q" "0 < count q"
  defines "q' \<equiv> q\<lparr>records := r, readIndex := next_index q (readIndex q)\<rparr>"
  shows "slot q' k = slot q (k + 1)" "count q' = count q - 1" "queueSize q' = queueSize q"
    "length r = length (records q) \<Longrightarrow> indices_ok q'"
proof -
  show "slot q' k = slot q (k + 1)"
    using assms(1) unfolding q'_def by (simp add: next_read) (simp add: slot_def mod_simps algebra_simps)
  have "count q' = (count q - 1) mod queueSize q"
    using assms(1) unfolding q'_def by (simp add: next_read) (simp add: count_def slot_def mod_simps algebra_simps)
  then show "count q' = count q - 1"
    using assms count_range [OF assms(1)] by simp
  show "length r = length (records q) \<Longrightarrow> indices_ok q'"
    using assms(1) slot_range [OF assms(1), of 1] by (simp add: q'_def indices_ok_def next_read)
qed (simp_all add: q'_def)

lemma slot_eq_iff:
  "indices_ok q \<Longrightarrow> 0 \<le> j \<Longrightarrow> j < queueSize q \<Longrightarrow> 0 \<le> k \<Longrightarrow> k < queueSize q \<Longrightarrow>
   nat (slot q j) = nat (slot q k) \<longleftrightarrow> j = k"
  using slot_inj [of q j k] slot_range [of q j] slot_range [of q k] by (auto simp: nat_eq_iff)

lemma slot_in_records: "indices_ok q \<Longrightarrow> nat (slot q k) < length (records q)"
  using slot_range [of q k] by (auto simp: indices_ok_def)

lemma enqueue_ok:
  assumes "spsc_inv q"
  obtains q' where "enqueue x q = Inr (count q < queueSize q - 1, q')" "spsc_inv q'"
    "spsc_contents q' = (if count q < queueSize q - 1 then spsc_contents q @ [x] else spsc_contents q)"
    "queueSize q' = queueSize q"
proof (cases "count q < queueSize q - 1")
  case True
  have ok: "indices_ok q"
    using assms by (simp add: spsc_inv_def)
  let ?r = "(records q)[nat (slot q (count q)) := Some x]"
  let ?q = "q\<lparr>records := ?r, writeIndex := next_index q (writeIndex q)\<rparr>"
  note pub = after_publish [OF ok True, of ?r]
  have "enqueue x q = Inr (True, ?q)"
    using True ok full_iff [OF ok] slot_count [OF ok]
    by (simp add: enqueue_def construct_at_def mem_write_single indices_ok_def Let_def)
  moreover have occ: "?r ! nat (slot q k) = (if k = count q then Some x else records q ! nat (slot q k))"
    if "0 \<le> k" "k < queueSize q" for k
    using that slot_eq_iff [OF ok that, of "count q"] count_range [OF ok] slot_in_records [OF ok]
    by (auto simp: nth_list_update)
  moreover have "spsc_inv ?q"
    using assms pub occ by (auto simp: spsc_inv_def)
  moreover have "spsc_contents ?q = spsc_contents q @ [x]"
    using count_range [OF ok] pub occ by (simp add: spsc_contents_def nat_add_distrib) auto
  ultimately show thesis
    using True by (intro that [of ?q]) auto
next
  case False
  then show thesis
    using assms full_iff [of q] count_range [of q]
    by (intro that [of q]) (auto simp: enqueue_def Let_def spsc_inv_def)
qed

lemma object_at_slot:
  assumes "spsc_inv q" "0 \<le> k" "k < count q"
  shows "object_at q (slot q k) = Inr (spsc_contents q ! nat k)"
    and "destroy_at q (slot q k) = Inr (q\<lparr>records := (records q)[nat (slot q k) := None]\<rparr>)"
proof -
  have ok: "indices_ok q"
    using assms by (simp add: spsc_inv_def)
  have in_range: "0 \<le> slot q k" "slot q k < int (length (records q))"
    using slot_range [OF ok, of k] ok by (auto simp: indices_ok_def)
  have "records q ! nat (slot q k) \<noteq> None"
    using assms count_range [OF ok] by (auto simp: spsc_inv_def)
  then obtain v where v: "records q ! nat (slot q k) = Some v"
    by blast
  moreover have "spsc_contents q ! nat k = v"
    using v assms by (simp add: spsc_contents_def)
  ultimately show obj: "object_at q (slot q k) = Inr (spsc_contents q ! nat k)"
    using in_range by (simp add: object_at_def mem_read_single)
  show "destroy_at q (slot q k) = Inr (q\<lparr>records := (records q)[nat (slot q k) := None]\<rparr>)"
    using in_range by (simp add: destroy_at_def obj mem_write_single)
qed

lemma consume_ok:
  assumes "spsc_inv q" "0 < count q"
  defines "q' \<equiv> q\<lparr>records := (records q)[nat (readIndex q) := None], readIndex := next_index q (readIndex q)\<rparr>"
  shows "spsc_inv q'" "spsc_contents q' = tl (spsc_contents q)" "queueSize q' = queueSize q"
proof -
  have ok: "indices_ok q"
    using assms by (simp add: spsc_inv_def)
  let ?r = "(records q)[nat (slot q 0) := None]"
  note con = after_consume [OF ok assms(2), of ?r, folded slot_zero [OF ok]]
  have q': "q' = q\<lparr>records := ?r, readIndex := next_index q (slot q 0)\<rparr>"
    by (simp add: q'_def slot_zero [OF ok])
  have occ: "?r ! nat (slot q (k + 1)) = (if k + 1 = queueSize q then None else records q ! nat (slot q (k + 1)))"
    if "0 \<le> k" "k < queueSize q" for k
  proof (cases "k + 1 = queueSize q")
    case True
    then show ?thesis
      using slot_wrap [OF ok] slot_zero [OF ok] slot_in_records [OF ok, of 0] by simp
  next
    case False
    then show ?thesis
      using that slot_eq_iff [OF ok, of 0 "k + 1"] by (simp add: nth_list_update)
  qed
  show "spsc_inv q'"
    using assms(1) con occ count_range [OF ok] by (auto simp: q' spsc_inv_def)
  have "spsc_contents q' = map (\<lambda>k. the (records q ! nat (slot q (int k + 1)))) [0..<nat (count q - 1)]"
    using con occ count_range [OF ok] by (auto simp: q' spsc_contents_def)
  also have "\<dots> = map (\<lambda>k. the (records q ! nat (slot q (int k)))) [Suc 0..<Suc (nat (count q - 1))]"
    by (subst map_Suc_upt [symmetric]) (simp add: add.commute)
  also have "Suc (nat (count q - 1)) = nat (count q)"
    using assms(2) by simp
  finally show "spsc_contents q' = tl (spsc_contents q)"
    by (simp add: spsc_contents_def map_tl [symmetric] tl_upt)
  show "queueSize q' = queueSize q"
    by (simp add: q'_def)
qed

lemma try_dequeue_ok:
  assumes "spsc_inv q"
  obtains q' where "try_dequeue q = Inr (case spsc_contents q of [] \<Rightarrow> None | x # _ \<Rightarrow> Some x, q')"
    "spsc_inv q'" "spsc_contents q' = tl (spsc_contents q)" "queueSize q' = queueSize q"
proof (cases "count q = 0")
  case True
  then show thesis
    using assms count_zero_iff [of q] length_spsc_contents [of q]
    by (intro that [of q]) (auto simp: try_dequeue_def Let_def spsc_inv_def)
next
  case False
  have ok: "indices_ok q"
    using assms by (simp add: spsc_inv_def)
  then have pos: "0 < count q"
    using False count_range by force
  then obtain x xs where c: "spsc_contents q = x # xs"
    using length_spsc_contents [OF ok] by (cases "spsc_contents q") auto
  from object_at_slot [OF assms _ pos] c ok show thesis
    using False count_zero_iff [OF ok] consume_ok [OF assms pos] that
    by (simp add: try_dequeue_def Let_def slot_zero)
qed

interpretation ring: bounded_fifo spsc_inv spsc_contents enqueue try_dequeue "\<lambda>q. nat (queueSize q - 1)"
proof unfold_locales
  fix q :: "'a spscqueue" and x
  assume q: "spsc_inv q"
  show "\<exists>ok q'. enqueue x q = Inr (ok, q') \<and> spsc_inv q' \<and>
      spsc_contents q' = (if ok then spsc_contents q @ [x] else spsc_contents q)"
    using enqueue_ok [OF q, of x] by metis
  show "\<exists>q'. try_dequeue q = Inr (case spsc_contents q of [] \<Rightarrow> None | x # _ \<Rightarrow> Some x, q') \<and>
      spsc_inv q' \<and> spsc_contents q' = tl (spsc_contents q)"
    using try_dequeue_ok [OF q] by metis
  fix ok q'
  assume e: "enqueue x q = Inr (ok, q')"
  have ok: "ok \<longleftrightarrow> count q < queueSize q - 1" "queueSize q' = queueSize q"
    using enqueue_ok [OF q, of x] e by (metis Inr_inject prod.inject)+
  have "int (length (spsc_contents q)) = count q"
    using q by (simp add: length_spsc_contents spsc_inv_def)
  with ok show "ok \<longleftrightarrow> length (spsc_contents q) < nat (queueSize q - 1)"
    by linarith
  from ok show "nat (queueSize q' - 1) = nat (queueSize q - 1)"
    by simp
next
  fix q q' :: "'a spscqueue" and r
  assume q: "spsc_inv q"
  show "length (spsc_contents q) \<le> nat (queueSize q - 1)"
    using q length_spsc_contents [of q] count_range [of q] by (simp add: spsc_inv_def)
  show "try_dequeue q = Inr (r, q') \<Longrightarrow> nat (queueSize q' - 1) = nat (queueSize q - 1)"
    using try_dequeue_ok [OF q] by (metis Inr_inject prod.inject)
qed

lemma popFront_ok:
  assumes "spsc_inv q" "spsc_contents q \<noteq> []"
  obtains q' where "popFront ndebug q = Inr q'" "spsc_inv q'" "spsc_contents q' = tl (spsc_contents q)"
proof -
  have ok: "indices_ok q"
    using assms by (simp add: spsc_inv_def)
  then have pos: "0 < count q"
    using assms(2) length_spsc_contents [OF ok] by (metis length_greater_0_conv of_nat_0_less_iff)
  with object_at_slot(2) [OF assms(1) _ pos] consume_ok [OF assms(1) pos] count_zero_iff [OF ok] that
  show thesis
    by (simp add: popFront_def Let_def slot_zero [OF ok])
qed

lemma every_index_is_slot:
  assumes "indices_ok q" "i < length (records q)"
  obtains k where "0 \<le> k" "k < queueSize q" "nat (slot q k) = i"
proof -
  have "slot q ((int i - readIndex q) mod queueSize q) = int i"
    using assms by (auto simp: slot_def mod_simps indices_ok_def)
  then show thesis
    using assms that [of "(int i - readIndex q) mod queueSize q"] by (simp add: indices_ok_def)
qed

lemma destroy_at_live:
  assumes "indices_ok q" "records q ! nat (slot q k) \<noteq> None"
  shows "destroy_at q (slot q k) = Inr (q\<lparr>records := (records q)[nat (slot q k) := None]\<rparr>)"
  using assms slot_range [OF assms(1), of k]
  by (auto simp: destroy_at_def object_at_def mem_read_single mem_write_single indices_ok_def)

lemma destroy_from_ok:
  assumes "indices_ok q" "0 \<le> j" "j \<le> count q"
    and "\<And>k. 0 \<le> k \<Longrightarrow> k < queueSize q \<Longrightarrow> records q ! nat (slot q k) \<noteq> None \<longleftrightarrow> j \<le> k \<and> k < count q"
  shows "\<exists>q'. destroy_from q (slot q j) (writeIndex q) = Some (Inr q') \<and>
             (\<forall>i < length (records q'). records q' ! i = None)"
  using assms
proof (induction "nat (count q - j)" arbitrary: q j)
  case 0
  have "records q ! i = None" if "i < length (records q)" for i
    using every_index_is_slot [OF "0.prems"(1) that] "0.hyps" "0.prems"(4) by (metis nat_0_iff diff_le_0_iff_le le_less_trans not_less)
  then show ?case
    using "0.hyps" "0.prems" slot_count [OF "0.prems"(1)] by (simp add: destroy_from.simps)
next
  case (Suc n)
  let ?q = "q\<lparr>records := (records q)[nat (slot q j) := None]\<rparr>"
  have j: "j < count q" "j < queueSize q"
    using Suc.hyps(2) count_range [OF Suc.prems(1)] by auto
  have same: "slot ?q k = slot q k" "count ?q = count q" for k
    by (simp_all add: slot_def count_def)
  have "slot q j \<noteq> writeIndex q"
    using slot_inj [OF Suc.prems(1), of j "count q"] slot_count [OF Suc.prems(1)]
      count_range [OF Suc.prems(1)] j Suc.prems(2) by auto
  moreover have "records q ! nat (slot q j) \<noteq> None"
    using Suc.prems(2,4) j by blast
  ultimately have "destroy_from q (slot q j) (writeIndex q) = destroy_from ?q (slot q (j + 1)) (writeIndex q)"
    using destroy_at_live [OF Suc.prems(1)] slot_Suc [OF Suc.prems(1), of j]
    by (subst destroy_from.simps) simp
  moreover have "records ?q ! nat (slot q k) \<noteq> None \<longleftrightarrow> j + 1 \<le> k \<and> k < count q"
    if "0 \<le> k" "k < queueSize q" for k
    using that slot_eq_iff [OF Suc.prems(1), of j k] Suc.prems(2,4) j slot_in_records [OF Suc.prems(1)]
    by (auto simp: nth_list_update)
  ultimately show ?case
    using Suc.hyps(1) [of ?q "j + 1"] Suc.hyps(2) Suc.prems j same by (simp add: indices_ok_def)
qed

subsection \<open>One producer and one consumer, interleaved\<close>

text \<open>
  The program counters are the points between the shared accesses of \<open>enqueue\<close> and
  \<open>try_dequeue\<close>.  \<open>sent\<close> and \<open>got\<close> record the elements whose publication
  (the release store of the index) has happened.
\<close>

datatype 'a producer = PIdle | PChecking 'a int int | PBuilding 'a int int | PPublishing 'a int int
datatype 'a consumer = CIdle | CReading int int | CReleasing 'a int

record 'a spsc_system =
  theRing :: "'a spscqueue"
  producer :: "'a producer"
  consumer :: "'a consumer"
  sent :: "'a list"
  got :: "'a list"

inductive spsc_step :: "'a spsc_system \<Rightarrow> 'a spsc_system \<Rightarrow> bool" where
  p_load: "producer s = PIdle \<Longrightarrow>
     spsc_step s (s\<lparr>producer := PChecking x (writeIndex (theRing s)) (next_index (theRing s) (writeIndex (theRing s)))\<rparr>)"
| p_full: "producer s = PChecking x w n \<Longrightarrow> n = readIndex (theRing s) \<Longrightarrow> spsc_step s (s\<lparr>producer := PIdle\<rparr>)"
| p_free: "producer s = PChecking x w n \<Longrightarrow> n \<noteq> readIndex (theRing s) \<Longrightarrow>
     spsc_step s (s\<lparr>producer := PBuilding x w n\<rparr>)"
| p_build: "producer s = PBuilding x w n \<Longrightarrow> construct_at (theRing s) w x = Inr q \<Longrightarrow>
     spsc_step s (s\<lparr>theRing := q, producer := PPublishing x w n\<rparr>)"
| p_publish: "producer s = PPublishing x w n \<Longrightarrow>
     spsc_step s (s\<lparr>theRing := (theRing s)\<lparr>writeIndex := n\<rparr>, producer := PIdle, sent := sent s @ [x]\<rparr>)"
| c_start: "consumer s = CIdle \<Longrightarrow> readIndex (theRing s) \<noteq> writeIndex (theRing s) \<Longrightarrow>
     spsc_step s (s\<lparr>consumer := CReading (readIndex (theRing s)) (next_index (theRing s) (readIndex (theRing s)))\<rparr>)"
| c_take: "consumer s = CReading r n \<Longrightarrow> object_at (theRing s) r = Inr v \<Longrightarrow> destroy_at (theRing s) r = Inr q \<Longrightarrow>
     spsc_step s (s\<lparr>theRing := q, consumer := CReleasing v n\<rparr>)"
| c_publish: "consumer s = CReleasing v n \<Longrightarrow>
     spsc_step s (s\<lparr>theRing := (theRing s)\<lparr>readIndex := n\<rparr>, consumer := CIdle, got := got s @ [v]\<rparr>)"

inductive spsc_reach :: "'a spscqueue \<Rightarrow> 'a spsc_system \<Rightarrow> bool" for q0 where
  start: "spsc_reach q0 \<lparr>theRing = q0, producer = PIdle, consumer = CIdle, sent = [], got = []\<rparr>"
| step: "spsc_reach q0 s \<Longrightarrow> spsc_step s s' \<Longrightarrow> spsc_reach q0 s'"

text \<open>
  The elements are numbered in the order they are sent; element \<open>i\<close> lives in slot
  \<open>i mod size\<close>.  \<open>cell s i\<close> says what that slot holds.
\<close>

definition in_no :: "'a spsc_system \<Rightarrow> int" where
  "in_no s = int (length (sent s))"

definition out_no :: "'a spsc_system \<Rightarrow> int" where
  "out_no s = int (length (got s))"

definition cell :: "'a spsc_system \<Rightarrow> int \<Rightarrow> 'a option" where
  "cell s i =
     (if i < in_no s then
        (if i = out_no s \<and> (\<exists>v n. consumer s = CReleasing v n) then None else Some (sent s ! nat i))
      else if i = in_no s then (case producer s of PPublishing x w n \<Rightarrow> Some x | _ \<Rightarrow> None)
      else None)"

fun producer_ok :: "'a spsc_system \<Rightarrow> 'a producer \<Rightarrow> bool" where
  "producer_ok s PIdle = True"
| "producer_ok s (PChecking x w n) =
     (w = in_no s mod queueSize (theRing s) \<and> n = (in_no s + 1) mod queueSize (theRing s))"
| "producer_ok s (PBuilding x w n) =
     (w = in_no s mod queueSize (theRing s) \<and> n = (in_no s + 1) mod queueSize (theRing s) \<and>
      in_no s - out_no s \<le> queueSize (theRing s) - 2)"
| "producer_ok s (PPublishing x w n) =
     (w = in_no s mod queueSize (theRing s) \<and> n = (in_no s + 1) mod queueSize (theRing s) \<and>
      in_no s - out_no s \<le> queueSize (theRing s) - 2)"

fun consumer_ok :: "'a spsc_system \<Rightarrow> 'a consumer \<Rightarrow> bool" where
  "consumer_ok s CIdle = True"
| "consumer_ok s (CReading r n) =
     (r = out_no s mod queueSize (theRing s) \<and> n = (out_no s + 1) mod queueSize (theRing s) \<and> out_no s < in_no s)"
| "consumer_ok s (CReleasing v n) =
     (n = (out_no s + 1) mod queueSize (theRing s) \<and> out_no s < in_no s \<and> v = sent s ! nat (out_no s))"

definition system_inv :: "'a spsc_system \<Rightarrow> bool" where
  "system_inv s \<longleftrightarrow> indices_ok (theRing s) \<and>
     readIndex (theRing s) = out_no s mod queueSize (theRing s) \<and>
     writeIndex (theRing s) = in_no s mod queueSize (theRing s) \<and>
     out_no s \<le> in_no s \<and> in_no s - out_no s \<le> queueSize (theRing s) - 1 \<and>
     got s = take (length (got s)) (sent s) \<and>
     (\<forall>i. out_no s \<le> i \<and> i < out_no s + queueSize (theRing s) \<longrightarrow>
        records (theRing s) ! nat (i mod queueSize (theRing s)) = cell s i) \<and>
     producer_ok s (producer s) \<and> consumer_ok s (consumer s)"

lemma mod_window_inj:
  fixes n :: int
  assumes "a \<le> i" "i < a + n" "a \<le> j" "j < a + n" "i mod n = j mod n"
  shows "i = j"
proof -
  have "n dvd i - j"
    using assms(5) by (simp add: mod_eq_dvd_iff)
  moreover have "\<bar>i - j\<bar> < n"
    using assms by auto
  ultimately show ?thesis
    using dvd_imp_le_int [of "i - j" n] by auto
qed

lemma next_in_window:
  "indices_ok q \<Longrightarrow> next_index q (i mod queueSize q) = (i + 1) mod queueSize q"
  by (simp add: next_index_mod indices_ok_def mod_simps)

lemma system_inv_init:
  assumes "spsc_inv q" "spsc_contents q = []" "readIndex q = 0" "writeIndex q = 0"
  shows "system_inv \<lparr>theRing = q, producer = PIdle, consumer = CIdle, sent = [], got = []\<rparr>"
  using assms
  by (auto simp: system_inv_def spsc_inv_def indices_ok_def in_no_def out_no_def cell_def slot_def count_def)

lemma construct_at_ok:
  "indices_ok q \<Longrightarrow> 0 \<le> w \<Longrightarrow> w < queueSize q \<Longrightarrow>
   construct_at q w x = Inr (q\<lparr>records := (records q)[nat w := Some x]\<rparr>)"
  by (simp add: construct_at_def mem_write_single indices_ok_def)

lemma update_window:
  assumes "indices_ok q" "a \<le> i" "i < a + queueSize q" "a \<le> j" "j < a + queueSize q"
  shows "(records q)[nat (i mod queueSize q) := v] ! nat (j mod queueSize q) =
    (if i = j then v else records q ! nat (j mod queueSize q))"
proof -
  have "0 \<le> i mod queueSize q" "0 \<le> j mod queueSize q" "nat (i mod queueSize q) < length (records q)"
    using assms(1) by (auto simp: indices_ok_def nat_less_iff)
  moreover have "i mod queueSize q = j mod queueSize q \<longleftrightarrow> i = j"
    using mod_window_inj [OF assms(2-5)] by auto
  ultimately show ?thesis
    by (auto simp: nth_list_update nat_eq_iff2)
qed

lemma system_invD:
  assumes "system_inv s"
  shows "indices_ok (theRing s)" "readIndex (theRing s) = out_no s mod queueSize (theRing s)"
    "writeIndex (theRing s) = in_no s mod queueSize (theRing s)"
    "0 \<le> out_no s" "out_no s \<le> in_no s" "in_no s - out_no s \<le> queueSize (theRing s) - 1"
    "got s = take (length (got s)) (sent s)"
    "producer_ok s (producer s)" "consumer_ok s (consumer s)" "2 \<le> queueSize (theRing s)"
  using assms by (auto simp: system_inv_def out_no_def indices_ok_def)

lemma system_inv_cell:
  "system_inv s \<Longrightarrow> out_no s \<le> i \<Longrightarrow> i < out_no s + queueSize (theRing s) \<Longrightarrow>
   records (theRing s) ! nat (i mod queueSize (theRing s)) = cell s i"
  by (simp add: system_inv_def)

text \<open>Moving a program counter without touching the ring.\<close>

lemma system_inv_producer:
  assumes "system_inv s" "producer_ok s pc" "\<And>x w n. producer s \<noteq> PPublishing x w n" "\<And>x w n. pc \<noteq> PPublishing x w n"
  shows "system_inv (s\<lparr>producer := pc\<rparr>)"
proof -
  have "cell (s\<lparr>producer := pc\<rparr>) i = cell s i" for i
    using assms(3,4) by (auto simp: cell_def in_no_def out_no_def split: producer.splits)
  moreover have "producer_ok (s\<lparr>producer := pc\<rparr>) pc"
    using assms(2) by (cases pc) (auto simp: in_no_def out_no_def)
  moreover have "consumer_ok (s\<lparr>producer := pc\<rparr>) (consumer s)"
    using system_invD(9) [OF assms(1)] by (cases "consumer s") (auto simp: in_no_def out_no_def)
  ultimately show ?thesis
    using assms(1) by (simp add: system_inv_def in_no_def out_no_def)
qed

lemma system_inv_consumer:
  assumes "system_inv s" "consumer_ok s pc" "\<And>v n. consumer s \<noteq> CReleasing v n" "\<And>v n. pc \<noteq> CReleasing v n"
  shows "system_inv (s\<lparr>consumer := pc\<rparr>)"
proof -
  have "cell (s\<lparr>consumer := pc\<rparr>) i = cell s i" for i
    using assms(3,4) by (auto simp: cell_def in_no_def out_no_def split: producer.splits)
  moreover have "consumer_ok (s\<lparr>consumer := pc\<rparr>) pc"
    using assms(2) by (cases pc) (auto simp: in_no_def out_no_def)
  moreover have "producer_ok (s\<lparr>consumer := pc\<rparr>) (producer s)"
    using system_invD(8) [OF assms(1)] by (cases "producer s") (auto simp: in_no_def out_no_def)
  ultimately show ?thesis
    using assms(1) by (simp add: system_inv_def in_no_def out_no_def)
qed

text \<open>The four steps that change the ring.\<close>

lemma build_inv:
  assumes "system_inv s" "producer s = PBuilding x w n" "construct_at (theRing s) w x = Inr q"
  shows "system_inv (s\<lparr>theRing := q, producer := PPublishing x w n\<rparr>)" (is "system_inv ?s")
proof -
  note D = system_invD [OF assms(1)]
  let ?n = "queueSize (theRing s)"
  have w: "w = in_no s mod ?n" "in_no s - out_no s \<le> ?n - 2"
    using D(8) assms(2) by auto
  have q: "q = (theRing s)\<lparr>records := (records (theRing s))[nat w := Some x]\<rparr>"
    using construct_at_ok [OF D(1), of w x] assms(3) w D(10) by simp
  have cells: "cell ?s i = (if i = in_no s then Some x else cell s i)" for i
    using assms(2) by (auto simp: cell_def in_no_def out_no_def)
  have "records q ! nat (i mod ?n) = cell ?s i" if "out_no s \<le> i" "i < out_no s + ?n" for i
    using update_window [OF D(1), of "out_no s" "in_no s" i "Some x"] that D(5) w
      system_inv_cell [OF assms(1) that] unfolding cells by (auto simp: q)
  moreover have "consumer_ok ?s (consumer s)"
    using D(9) by (cases "consumer s") (auto simp: in_no_def out_no_def q)
  ultimately show ?thesis
    using assms(1) w D(8) assms(2) by (auto simp: system_inv_def in_no_def out_no_def q indices_ok_def)
qed

lemma publish_inv:
  assumes "system_inv s" "producer s = PPublishing x w n"
  shows "system_inv (s\<lparr>theRing := (theRing s)\<lparr>writeIndex := n\<rparr>, producer := PIdle, sent := sent s @ [x]\<rparr>)"
    (is "system_inv ?s")
proof -
  note D = system_invD [OF assms(1)]
  let ?n = "queueSize (theRing s)"
  have n: "n = (in_no s + 1) mod ?n" "in_no s - out_no s \<le> ?n - 2"
    using D(8) assms(2) by auto
  have no: "in_no ?s = in_no s + 1" "out_no ?s = out_no s"
    by (simp_all add: in_no_def out_no_def)
  have nths: "(sent s @ [x]) ! nat i = (if i = in_no s then x else sent s ! nat i)"
    if "0 \<le> i" "i \<le> in_no s" for i
  proof (cases "i = in_no s")
    case True
    then show ?thesis by (simp add: in_no_def)
  next
    case False
    then have "nat i < length (sent s)"
      using that by (simp add: in_no_def)
    with False show ?thesis by (simp add: nth_append)
  qed
  have rel: "out_no s < in_no s" if "consumer s = CReleasing v m" for v m
    using D(9) that by simp
  have cells: "cell ?s i = cell s i" if "out_no s \<le> i" for i
    using assms(2) D(4,5) that nths [of i] rel unfolding cell_def no by auto
  have "consumer_ok ?s (consumer s)"
    using D(4,9) nths [of "out_no s"] by (cases "consumer s") (simp_all add: no)
  moreover have "got s = take (length (got s)) (sent s @ [x])"
    using D(5,7) by (simp add: in_no_def out_no_def)
  ultimately show ?thesis
    using assms(1) D(1,2,4,5,6,10) n cells unfolding system_inv_def no by (simp add: indices_ok_def)
qed

lemma take_inv:
  assumes "system_inv s" "consumer s = CReading r n" "object_at (theRing s) r = Inr v" "destroy_at (theRing s) r = Inr q"
  shows "system_inv (s\<lparr>theRing := q, consumer := CReleasing v n\<rparr>)" (is "system_inv ?s")
proof -
  note D = system_invD [OF assms(1)]
  let ?n = "queueSize (theRing s)"
  have r: "r = out_no s mod ?n" "n = (out_no s + 1) mod ?n" "out_no s < in_no s"
    using D(9) assms(2) by auto
  have range: "0 \<le> r" "r < int (length (records (theRing s)))"
    using D(1) by (auto simp: r indices_ok_def)
  have old: "records (theRing s) ! nat r = Some (sent s ! nat (out_no s))"
    using system_inv_cell [OF assms(1), of "out_no s"] r D(10) assms(2) by (simp add: cell_def)
  have v: "v = sent s ! nat (out_no s)"
    using assms(3) range old by (simp add: object_at_def mem_read_single)
  have q: "q = (theRing s)\<lparr>records := (records (theRing s))[nat r := None]\<rparr>"
    using assms(3,4) range by (simp add: destroy_at_def mem_write_single)
  have cells: "cell ?s i = (if i = out_no s then None else cell s i)" for i
    using assms(2) r by (auto simp: cell_def in_no_def out_no_def split: producer.splits)
  have "records q ! nat (i mod ?n) = cell ?s i" if "out_no s \<le> i" "i < out_no s + ?n" for i
    using update_window [OF D(1), of "out_no s" "out_no s" i None] that r D(10)
      system_inv_cell [OF assms(1) that] unfolding cells by (auto simp: q)
  moreover have "producer_ok ?s (producer s)"
    using D(8) by (cases "producer s") (auto simp: in_no_def out_no_def q)
  ultimately show ?thesis
    using assms(1) r v by (auto simp: system_inv_def in_no_def out_no_def q indices_ok_def)
qed

lemma release_inv:
  assumes "system_inv s" "consumer s = CReleasing v n"
  shows "system_inv (s\<lparr>theRing := (theRing s)\<lparr>readIndex := n\<rparr>, consumer := CIdle, got := got s @ [v]\<rparr>)"
    (is "system_inv ?s")
proof -
  note D = system_invD [OF assms(1)]
  let ?n = "queueSize (theRing s)"
  have v: "n = (out_no s + 1) mod ?n" "out_no s < in_no s" "v = sent s ! nat (out_no s)"
    using D(9) assms(2) by auto
  have le: "Suc (length (got s)) \<le> length (sent s)"
    using v(2) by (simp add: in_no_def out_no_def)
  have no: "in_no ?s = in_no s" "out_no ?s = out_no s + 1"
    by (simp_all add: in_no_def out_no_def)
  have "records (theRing s) ! nat (i mod ?n) = cell ?s i" if "out_no s + 1 \<le> i" "i < out_no s + 1 + ?n" for i
  proof (cases "i = out_no s + ?n")
    case True
    then show ?thesis
      using system_inv_cell [OF assms(1), of "out_no s"] D(6,10) v assms(2) unfolding cell_def no
      by (simp split: producer.splits)
  next
    case False
    then show ?thesis
      using system_inv_cell [OF assms(1), of i] that unfolding cell_def no
      by (auto split: producer.splits)
  qed
  moreover have "producer_ok ?s (producer s)"
    using D(8) by (cases "producer s") (auto simp: no)
  moreover have "got s @ [v] = take (Suc (length (got s))) (sent s)"
    using D(7) v by (simp add: take_Suc_conv_app_nth in_no_def out_no_def)
  ultimately show ?thesis
    using D(1,3,4,5,6,10) v(1,2) le unfolding system_inv_def no by (simp add: indices_ok_def)
qed

lemma spsc_step_inv: "spsc_step s s' \<Longrightarrow> system_inv s \<Longrightarrow> system_inv s'"
proof (induction rule: spsc_step.induct)
  case (p_load s x)
  note D = system_invD [OF p_load.prems]
  then show ?case
    using p_load by (intro system_inv_producer) (auto simp: next_in_window)
next
  case (p_full s x w n)
  then show ?case by (intro system_inv_producer) auto
next
  case (p_free s x w n)
  note D = system_invD [OF p_free.prems]
  have "in_no s + 1 - out_no s \<noteq> queueSize (theRing s)"
  proof
    assume "in_no s + 1 - out_no s = queueSize (theRing s)"
    then have "in_no s + 1 = out_no s + queueSize (theRing s)"
      by simp
    then have "(in_no s + 1) mod queueSize (theRing s) = out_no s mod queueSize (theRing s)"
      by simp
    with p_free D show False by simp
  qed
  then show ?case
    using p_free D by (intro system_inv_producer) auto
next
  case (c_start s)
  note D = system_invD [OF c_start.prems]
  have "out_no s \<noteq> in_no s"
    using c_start.hyps(2) D(2,3) by auto
  then show ?case
    using c_start D by (intro system_inv_consumer) (auto simp: next_in_window)
qed (blast intro: build_inv publish_inv take_inv release_inv)+

lemma spsc_reach_inv:
  assumes "spsc_inv q0" "spsc_contents q0 = []" "readIndex q0 = 0" "writeIndex q0 = 0"
  shows "spsc_reach q0 s \<Longrightarrow> system_inv s"
  by (induction rule: spsc_reach.induct) (auto intro: spsc_step_inv system_inv_init [OF assms])

lemma spsc_reach_size: "spsc_reach q0 s \<Longrightarrow> queueSize (theRing s) = queueSize q0"
  by (induction rule: spsc_reach.induct)
    (auto elim!: spsc_step.cases simp: construct_at_def destroy_at_def rbind_eq_Inr)

lemma spscqueue_ok:
  fixes q :: "'a spscqueue"
  assumes "1 \<le> sz" "sz + 1 < 2 ^ 31" "spscqueue ndebug True sz = Inr q"
  shows "spsc_inv q" "spsc_contents q = []" "readIndex q = 0" "writeIndex q = 0" "queueSize q = sz + 1"
proof -
  from spsc_init [OF assms(1,2), of ndebug] obtain q1 :: "'a spscqueue" where
    "spscqueue ndebug True sz = Inr q1" "spsc_inv q1" "spsc_contents q1 = []" "queueSize q1 = sz + 1"
    by blast
  with assms(3) show "spsc_inv q" "spsc_contents q = []" "queueSize q = sz + 1"
    by simp_all
  show "readIndex q = 0" "writeIndex q = 0"
    using assms(3) by (auto simp: spscqueue_def rbind_eq_Inr)
qed

lemma sizeGuess_exact:
  assumes "spsc_inv q"
  shows "sizeGuess q = int (length (spsc_contents q))"
proof -
  have ok: "indices_ok q"
    using assms by (simp add: spsc_inv_def)
  then have "count q = (if writeIndex q < readIndex q then writeIndex q - readIndex q + queueSize q
      else writeIndex q - readIndex q)"
    by (auto simp: count_def indices_ok_def mod_pos_pos_trivial
        mod_pos_pos_trivial [of "writeIndex q - readIndex q + queueSize q" "queueSize q", simplified])
  then show ?thesis
    using ok length_spsc_contents [OF ok]
    by (auto simp: sizeGuess_def Let_def indices_ok_def u32_def s32_def) (simp add: mod_simps add.assoc)
qed

lemma observers_exact:
  assumes "spsc_inv q"
  shows "isEmpty q \<longleftrightarrow> spsc_contents q = []"
    and "isFull q \<longleftrightarrow> int (length (spsc_contents q)) = queueSize q - 1"
    and "frontPtr q = (if spsc_contents q = [] then None else Some (readIndex q))"
proof -
  have ok: "indices_ok q"
    using assms by (simp add: spsc_inv_def)
  have "spsc_contents q = [] \<longleftrightarrow> count q = 0"
    using length_spsc_contents [OF ok] by (metis length_0_conv of_nat_eq_0_iff)
  then show "isEmpty q \<longleftrightarrow> spsc_contents q = []"
    "frontPtr q = (if spsc_contents q = [] then None else Some (readIndex q))"
    using count_zero_iff [OF ok] by (simp_all add: isEmpty_def frontPtr_def)
  show "isFull q \<longleftrightarrow> int (length (spsc_contents q)) = queueSize q - 1"
    using full_iff [OF ok] length_spsc_contents [OF ok] by (simp add: isFull_def)
qed

subsection \<open>Properties\<close>



text \<open>
  (C8) One producer thread and one consumer thread, interleaved at every shared access:
  what the consumer has taken is a prefix of what the producer has published, never more
  than \<open>sz\<close> elements are in between, the producer only ever constructs in a slot
  that holds no object, and the consumer only ever reads the object that is next in order.
\<close>

theorem ring_concurrent:
  assumes "1 \<le> sz" "sz + 1 < 2 ^ 31" "spscqueue ndebug True sz = Inr q0" "spsc_reach q0 s"
  shows "got s = take (length (got s)) (sent s) \<and> length (got s) \<le> length (sent s) \<and>
    int (length (sent s)) - int (length (got s)) \<le> sz \<and>
    (\<forall>x w n. producer s = PBuilding x w n \<longrightarrow>
       records (theRing s) ! nat w = None \<and> (\<exists>q. construct_at (theRing s) w x = Inr q)) \<and>
    (\<forall>r n. consumer s = CReading r n \<longrightarrow>
       object_at (theRing s) r = Inr (sent s ! length (got s)) \<and> (\<exists>q. destroy_at (theRing s) r = Inr q))"
proof -
  note q0 = spscqueue_ok [OF assms(1-3)]
  have inv: "system_inv s"
    using spsc_reach_inv [OF q0(1-4) assms(4)] .
  note D = system_invD [OF inv]
  let ?n = "queueSize (theRing s)"
  have n: "?n = sz + 1"
    using spsc_reach_size [OF assms(4)] q0(5) by simp
  have "records (theRing s) ! nat w = None \<and> (\<exists>q. construct_at (theRing s) w x = Inr q)"
    if "producer s = PBuilding x w n" for x w n
    using system_inv_cell [OF inv, of "in_no s"] D(5,8,10) that construct_at_ok [OF D(1), of w x]
    by (auto simp: cell_def)
  moreover have "object_at (theRing s) r = Inr (sent s ! length (got s)) \<and> (\<exists>q. destroy_at (theRing s) r = Inr q)"
    if "consumer s = CReading r n" for r n
  proof -
    have r: "r = out_no s mod ?n" "out_no s < in_no s"
      using D(9) that by auto
    then have "records (theRing s) ! nat r = Some (sent s ! length (got s))"
      using system_inv_cell [OF inv, of "out_no s"] D(10) that by (simp add: cell_def) (simp add: out_no_def)
    moreover have "0 \<le> r" "r < int (length (records (theRing s)))"
      using D(1) r by (auto simp: indices_ok_def)
    ultimately show ?thesis
      by (simp add: object_at_def destroy_at_def mem_read_single mem_write_single)
  qed
  ultimately show ?thesis
    using D(5,6,7) n by (simp add: in_no_def out_no_def)
qed

theorem ring_concurrent_witness:
  "\<exists>q0 s. spscqueue True True 1 = Inr q0 \<and> spsc_reach q0 s \<and> producer s = PBuilding (CHR ''a'') 0 1 \<and>
     got s = take (length (got s)) (sent s) \<and> records (theRing s) ! nat 0 = None"
proof -
  let ?q = "\<lparr>queueSize = 2, records = [None, None :: char option], readIndex = 0, writeIndex = 0\<rparr>"
  let ?s = "\<lambda>pc. \<lparr>theRing = ?q, producer = pc, consumer = CIdle, sent = [], got = []\<rparr>"
  have q: "spscqueue True True 1 = Inr ?q"
    by (simp add: spscqueue_def c_assert_def u32_def numeral_2_eq_2)
  have 1: "spsc_step (?s PIdle) (?s (PChecking (CHR ''a'') 0 1))"
    using spsc_step.p_load [of "?s PIdle" "CHR ''a''"] by (simp add: next_index_def u32_def)
  have 2: "spsc_step (?s (PChecking (CHR ''a'') 0 1)) (?s (PBuilding (CHR ''a'') 0 1))"
    using spsc_step.p_free [of "?s (PChecking (CHR ''a'') 0 1)" "CHR ''a''" 0 1] by simp
  have r: "spsc_reach ?q (?s (PBuilding (CHR ''a'') 0 1))"
    using spsc_reach.step [OF spsc_reach.step [OF spsc_reach.start 1] 2] .
  from ring_concurrent [OF _ _ q r] q r show ?thesis
    by (intro exI [of _ ?q] exI [of _ "?s (PBuilding (CHR ''a'') 0 1)"]) auto
qed

text \<open>
  The destructor's loop ends, destroys each object left in the ring once and leaves
  no constructed object behind.
\<close>

theorem ring_destructor:
  assumes "spsc_inv q"
  shows "\<exists>q'. destroy_spscqueue False q = Some (Inr q') \<and> (\<forall>i < length (records q'). records q' ! i = None)"
  using destroy_from_ok [of q 0] assms count_range [of q]
  by (auto simp: destroy_spscqueue_def slot_zero spsc_inv_def)

theorem ring_destructor_witness:
  "\<exists>q'. destroy_spscqueue False \<lparr>queueSize = 3, records = [Some (1::nat), None, Some 2], readIndex = 2, writeIndex = 1\<rparr> =
     Some (Inr q') \<and> (\<forall>i < length (records q'). records q' ! i = None)"
proof (rule ring_destructor)
  have less3: "0 \<le> k \<and> k < 3 \<longleftrightarrow> k = 0 \<or> k = 1 \<or> k = 2" for k :: int
    by auto
  show "spsc_inv \<lparr>queueSize = 3, records = [Some (1::nat), None, Some 2], readIndex = 2, writeIndex = 1\<rparr>"
    unfolding spsc_inv_def indices_ok_def slot_def count_def by (simp add: less3)
qed

end
