(* ===== verification/Net_Heap.thy ===== *)
theory Net_Heap
  imports Net_Prelude
begin

text \<open>
  Objects behind pointers.  A pointer is a natural number, 0 is \<open>nullptr\<close>; a store maps
  the live pointers to their objects.  Reading or writing through the null pointer or through
  a pointer whose object has been deleted is a fault, and so is a second \<open>delete\<close>.
  \<open>heap_new\<close> hands out addresses that were never used before.
\<close>

type_synonym ptr = nat

record 'c store =
  cells :: "ptr \<Rightarrow> 'c option"
  fresh :: ptr

definition empty_store :: "'c store" where
  "empty_store = \<lparr>cells = (\<lambda>_. None), fresh = 1\<rparr>"

definition deref :: "'c store \<Rightarrow> ptr \<Rightarrow> 'c result" where
  "deref h p = (if p = 0 then Inl NullDeref
     else case cells h p of None \<Rightarrow> Inl UseAfterFree | Some c \<Rightarrow> Inr c)"

definition assign :: "'c store \<Rightarrow> ptr \<Rightarrow> 'c \<Rightarrow> 'c store result" where
  "assign h p c = rbind (deref h p) (\<lambda>_. Inr (h\<lparr>cells := (cells h)(p \<mapsto> c)\<rparr>))"

definition heap_new :: "'c \<Rightarrow> 'c store \<Rightarrow> ptr \<times> 'c store" where
  "heap_new c h = (fresh h, h\<lparr>cells := (cells h)(fresh h \<mapsto> c), fresh := Suc (fresh h)\<rparr>)"

definition heap_delete :: "ptr \<Rightarrow> 'c store \<Rightarrow> 'c store result" where
  "heap_delete p h = (if p = 0 then Inr h
     else rbind (deref h p) (\<lambda>_. Inr (h\<lparr>cells := (cells h)(p := None)\<rparr>)))"

definition live :: "'c store \<Rightarrow> ptr \<Rightarrow> bool" where
  "live h p \<longleftrightarrow> p \<noteq> 0 \<and> cells h p \<noteq> None"

definition heap_ok :: "'c store \<Rightarrow> bool" where
  "heap_ok h \<longleftrightarrow> 0 < fresh h \<and> cells h 0 = None \<and> (\<forall>p \<ge> fresh h. cells h p = None)"

named_theorems heap_simps

lemma deref_live [heap_simps]: "cells h p = Some c \<Longrightarrow> p \<noteq> 0 \<Longrightarrow> deref h p = Inr c"
  by (simp add: deref_def)

lemma deref_eq_Inr: "deref h p = Inr c \<longleftrightarrow> p \<noteq> 0 \<and> cells h p = Some c"
  by (auto simp: deref_def split: option.splits)

lemma assign_live [heap_simps]:
  "cells h p = Some c \<Longrightarrow> p \<noteq> 0 \<Longrightarrow> assign h p d = Inr (h\<lparr>cells := (cells h)(p \<mapsto> d)\<rparr>)"
  by (simp add: assign_def deref_live)

lemma assign_eq_Inr:
  "assign h p d = Inr h' \<longleftrightarrow> live h p \<and> h' = h\<lparr>cells := (cells h)(p \<mapsto> d)\<rparr>"
  by (auto simp: assign_def deref_def live_def split: option.splits)

lemma heap_delete_live [heap_simps]:
  "cells h p = Some c \<Longrightarrow> p \<noteq> 0 \<Longrightarrow> heap_delete p h = Inr (h\<lparr>cells := (cells h)(p := None)\<rparr>)"
  by (simp add: heap_delete_def deref_live)

lemma heap_ok_empty: "heap_ok empty_store"
  by (simp add: heap_ok_def empty_store_def)

lemma live_empty: "\<not> live empty_store p"
  by (simp add: live_def empty_store_def)

lemma heap_ok_new: "heap_ok h \<Longrightarrow> heap_ok (snd (heap_new c h))"
  by (auto simp: heap_ok_def heap_new_def)

lemma heap_new_fresh: "heap_ok h \<Longrightarrow> fst (heap_new c h) \<noteq> 0 \<and> cells h (fst (heap_new c h)) = None"
  by (simp add: heap_ok_def heap_new_def)

lemma heap_ok_update: "heap_ok h \<Longrightarrow> live h p \<Longrightarrow> heap_ok (h\<lparr>cells := (cells h)(p := v)\<rparr>)"
  by (auto simp: heap_ok_def live_def)

lemma live_nonzero: "heap_ok h \<Longrightarrow> cells h p = Some c \<Longrightarrow> p \<noteq> 0"
  by (metis heap_ok_def option.distinct(1))

lemma live_below_fresh: "heap_ok h \<Longrightarrow> cells h p = Some c \<Longrightarrow> p < fresh h"
  by (rule ccontr) (auto simp: heap_ok_def)

lemma finite_live:
  assumes "heap_ok h"
  shows "finite {p. live h p}"
proof (rule finite_subset)
  show "{p. live h p} \<subseteq> {..< fresh h}"
  proof
    fix p
    assume "p \<in> {p. live h p}"
    then obtain c where "cells h p = Some c"
      by (auto simp: live_def)
    with live_below_fresh [OF assms] show "p \<in> {..< fresh h}" by simp
  qed
qed simp

end
