(* ===== verification/Atomic_List.thy ===== *)
theory Atomic_List
  imports Net_Heap
begin

text \<open>
  The lock-free list of \<open>src/libs/AtomicIntrusiveLinkedList.h\<close> and its owning wrapper
  \<open>src/libs/AtomicLinkedList.h\<close>.  Nodes live on a store; a node is a record that has the
  hook's \<open>next\<close> pointer first, whatever else the element type has.  The first part is the
  code of one thread, with the number of spurious failures of the weak
  compare-and-exchange as a parameter; the second one interleaves inserting threads with
  one sweeping thread.
\<close>

record hook =
  nextp :: ptr

definition get_next :: "'x hook_scheme store \<Rightarrow> ptr \<Rightarrow> ptr result" where
  "get_next h t = rbind (deref h t) (\<lambda>c. Inr (nextp c))"

definition set_next :: "'x hook_scheme store \<Rightarrow> ptr \<Rightarrow> ptr \<Rightarrow> 'x hook_scheme store result" where
  "set_next h t n = rbind (deref h t) (\<lambda>c. assign h t (c\<lparr>nextp := n\<rparr>))"

subsection \<open>The intrusive list\<close>

definition list_empty :: "ptr \<Rightarrow> bool" where
  "list_empty head = (head = 0)"

text \<open>
  The retry loop: link the node to the head that was last seen, then compare and exchange.
  A failed exchange, spurious or not, reloads the head.
\<close>

function insert_retry ::
  "nat \<Rightarrow> ptr \<Rightarrow> ptr \<Rightarrow> ptr \<Rightarrow> 'x hook_scheme store \<Rightarrow> (ptr \<times> ptr \<times> 'x hook_scheme store) result" where
  "insert_retry spurious t oldHead head h =
     rbind (set_next h t oldHead) (\<lambda>h.
       if 0 < spurious then insert_retry (spurious - 1) t head head h
       else if head = oldHead then Inr (oldHead, t, h)
       else insert_retry spurious t head head h)"
  by pat_completeness auto
termination
  by (relation "measures [\<lambda>(n, _). n, \<lambda>(_, _, oldHead, head, _). if head = oldHead then 0 else 1]") auto

declare insert_retry.simps [simp del]

definition insertHead ::
  "bool \<Rightarrow> nat \<Rightarrow> ptr \<Rightarrow> ptr \<times> 'x hook_scheme store \<Rightarrow> (bool \<times> ptr \<times> 'x hook_scheme store) result" where
  "insertHead ndebug spurious t = (\<lambda>(head, h).
     rbind (get_next h t) (\<lambda>n.
     rbind (c_assert ndebug (n = 0)) (\<lambda>_.
     rbind (insert_retry spurious t head head h) (\<lambda>(oldHead, head', h').
       Inr (oldHead = 0, head', h')))))"

partial_function (option) reverse_from ::
  "ptr \<Rightarrow> ptr \<Rightarrow> 'x hook_scheme store \<Rightarrow> (ptr \<times> 'x hook_scheme store) result option" where
  "reverse_from head rhead h =
     (if head \<noteq> 0 then
        (case get_next h head of Inl e \<Rightarrow> Some (Inl e) | Inr n \<Rightarrow>
          (case set_next h head rhead of Inl e \<Rightarrow> Some (Inl e) | Inr h' \<Rightarrow>
             reverse_from n head h'))
      else Some (Inr (rhead, h)))"

definition reverse :: "ptr \<Rightarrow> 'x hook_scheme store \<Rightarrow> (ptr \<times> 'x hook_scheme store) result option" where
  "reverse head h = reverse_from head 0 h"

text \<open>
  A callback gets the element and the whole list state: the shared head, the store and
  whatever else the caller's closure holds.
\<close>

type_synonym ('x, 'w) node_cb =
  "ptr \<Rightarrow> ptr \<times> 'x hook_scheme store \<times> 'w \<Rightarrow> (ptr \<times> 'x hook_scheme store \<times> 'w) result"

partial_function (option) unlinkAll ::
  "('x, 'w) node_cb \<Rightarrow> ptr \<Rightarrow> ptr \<times> 'x hook_scheme store \<times> 'w \<Rightarrow>
   (ptr \<times> 'x hook_scheme store \<times> 'w) result option" where
  "unlinkAll func head st =
     (if head \<noteq> 0 then
        (case st of (shared, h, w) \<Rightarrow>
          (case get_next h head of Inl e \<Rightarrow> Some (Inl e) | Inr n \<Rightarrow>
            (case set_next h head 0 of Inl e \<Rightarrow> Some (Inl e) | Inr h' \<Rightarrow>
              (case func head (shared, h', w) of Inl e \<Rightarrow> Some (Inl e) | Inr st' \<Rightarrow>
                 unlinkAll func n st'))))
      else Some (Inr st))"

partial_function (option) sweep ::
  "('x, 'w) node_cb \<Rightarrow> ptr \<times> 'x hook_scheme store \<times> 'w \<Rightarrow>
   (ptr \<times> 'x hook_scheme store \<times> 'w) result option" where
  "sweep func st =
     (case st of (head, h, w) \<Rightarrow>
       (if head = 0 then Some (Inr (0, h, w))
        else (case reverse head h of None \<Rightarrow> None | Some (Inl e) \<Rightarrow> Some (Inl e)
          | Some (Inr (rhead, h')) \<Rightarrow>
             (case unlinkAll func rhead (0, h', w) of None \<Rightarrow> None | Some (Inl e) \<Rightarrow> Some (Inl e)
              | Some (Inr st') \<Rightarrow> sweep func st'))))"

definition reverseSweep ::
  "('x, 'w) node_cb \<Rightarrow> ptr \<times> 'x hook_scheme store \<times> 'w \<Rightarrow>
   (ptr \<times> 'x hook_scheme store \<times> 'w) result option" where
  "reverseSweep func = (\<lambda>(head, h, w). unlinkAll func head (0, h, w))"

definition destroy_intrusive :: "bool \<Rightarrow> ptr \<Rightarrow> unit result" where
  "destroy_intrusive ndebug head = c_assert ndebug (list_empty head)"

text \<open>The move constructor and the move assignment exchange the two heads.\<close>

definition move_heads :: "ptr \<Rightarrow> ptr \<Rightarrow> ptr \<times> ptr" where
  "move_heads head other = (let tmp = other; other' = head; head' = tmp in (head', other'))"

subsection \<open>The owning list\<close>

record 'a wrapper = hook +
  data :: 'a

type_synonym 'a node_store = "'a wrapper store"

definition list_insertHead ::
  "bool \<Rightarrow> nat \<Rightarrow> 'a \<Rightarrow> ptr \<times> 'a node_store \<Rightarrow> (bool \<times> ptr \<times> 'a node_store) result" where
  "list_insertHead ndebug spurious t = (\<lambda>(head, h).
     let (wrapper, h') = heap_new \<lparr>nextp = 0, data = t\<rparr> h in
     insertHead ndebug spurious wrapper (head, h'))"

text \<open>
  The lambda that takes ownership of the node, hands its data on, and frees the node when
  it returns.
\<close>

type_synonym ('a, 'w) data_cb =
  "'a \<Rightarrow> ptr \<times> 'a node_store \<times> 'w \<Rightarrow> (ptr \<times> 'a node_store \<times> 'w) result"

definition consume_wrapper ::
  "('a, 'w) data_cb \<Rightarrow> ptr \<Rightarrow> ptr \<times> 'a node_store \<times> 'w \<Rightarrow> (ptr \<times> 'a node_store \<times> 'w) result" where
  "consume_wrapper func wrapperPtr = (\<lambda>(shared, h, w).
     rbind (deref h wrapperPtr) (\<lambda>c.
     rbind (func (data c) (shared, h, w)) (\<lambda>(shared', h', w').
     rbind (heap_delete wrapperPtr h') (\<lambda>h''. Inr (shared', h'', w')))))"

definition list_sweep ::
  "('a, 'w) data_cb \<Rightarrow> ptr \<times> 'a node_store \<times> 'w \<Rightarrow> (ptr \<times> 'a node_store \<times> 'w) result option" where
  "list_sweep func = sweep (consume_wrapper func)"

definition list_reverseSweep ::
  "('a, 'w) data_cb \<Rightarrow> ptr \<times> 'a node_store \<times> 'w \<Rightarrow> (ptr \<times> 'a node_store \<times> 'w) result option" where
  "list_reverseSweep func = reverseSweep (consume_wrapper func)"

text \<open>A closure that only updates the caller's own variables.\<close>

definition pure_cb :: "('a \<Rightarrow> 'w \<Rightarrow> 'w) \<Rightarrow> ('a, 'w) data_cb" where
  "pure_cb f x = (\<lambda>(shared, h, w). Inr (shared, h, f x w))"

definition destroy_list :: "bool \<Rightarrow> ptr \<times> 'a node_store \<Rightarrow> (ptr \<times> 'a node_store) result option" where
  "destroy_list ndebug = (\<lambda>(head, h).
     case list_sweep (pure_cb (\<lambda>_ w. w)) (head, h, ()) of None \<Rightarrow> None | Some (Inl e) \<Rightarrow> Some (Inl e)
     | Some (Inr (head', h', _)) \<Rightarrow>
         Some (rbind (destroy_intrusive ndebug head') (\<lambda>_. Inr (head', h'))))"

subsection \<open>Lists on the store\<close>

fun linked :: "'x hook_scheme store \<Rightarrow> ptr \<Rightarrow> ptr list \<Rightarrow> bool" where
  "linked h p [] = (p = 0)"
| "linked h p (q # qs) = (p = q \<and> q \<noteq> 0 \<and>
     (case cells h q of None \<Rightarrow> False | Some c \<Rightarrow> linked h (nextp c) qs))"

definition same_payload :: "'x hook_scheme store \<Rightarrow> 'x hook_scheme store \<Rightarrow> bool" where
  "same_payload h h' \<longleftrightarrow> fresh h' = fresh h \<and>
     (\<forall>p. \<exists>n. cells h' p = map_option (\<lambda>c. c\<lparr>nextp := n\<rparr>) (cells h p))"

lemma linked_null [simp]: "linked h 0 ps \<longleftrightarrow> ps = []"
  by (cases ps) auto

lemma linked_fun: "linked h p ps \<Longrightarrow> linked h p qs \<Longrightarrow> ps = qs"
  by (induction ps arbitrary: p qs) (auto simp: neq_Nil_conv split: option.splits, case_tac qs, auto)

lemma linked_append:
  "linked h p (ps @ qs) \<Longrightarrow> \<exists>q. linked h q qs"
  by (induction ps arbitrary: p) (auto split: option.splits)

lemma linked_distinct: "linked h p ps \<Longrightarrow> distinct ps"
proof (induction ps arbitrary: p)
  case (Cons q qs)
  then obtain c where c: "cells h q = Some c" "linked h (nextp c) qs" "p = q" "q \<noteq> 0"
    by (auto split: option.splits)
  have "q \<notin> set qs"
  proof
    assume "q \<in> set qs"
    then obtain as bs where qs: "qs = as @ q # bs"
      by (auto simp: in_set_conv_decomp)
    with c(2) obtain r where "linked h r (q # bs)"
      using linked_append by blast
    then have "linked h q (q # bs)" by simp
    moreover have "linked h q (q # qs)"
      using c by simp
    ultimately have "qs = bs"
      using linked_fun by blast
    with qs show False by simp
  qed
  with Cons.IH [OF c(2)] show ?case by simp
qed simp

lemma linked_update: "p \<notin> set ps \<Longrightarrow> linked (h\<lparr>cells := (cells h)(p := v)\<rparr>) q ps = linked h q ps"
  by (induction ps arbitrary: q) (auto split: option.splits)

lemma linked_live: "linked h p ps \<Longrightarrow> q \<in> set ps \<Longrightarrow> q \<noteq> 0 \<and> (\<exists>c. cells h q = Some c)"
  by (induction ps arbitrary: p) (auto split: option.splits)

lemma linked_cong: "(\<And>p. p \<in> set ps \<Longrightarrow> cells h' p = cells h p) \<Longrightarrow> linked h' q ps = linked h q ps"
  by (induction ps arbitrary: q) (auto split: option.splits)

lemma same_payload_refl: "same_payload h h"
proof -
  have "\<exists>n. cells h p = map_option (\<lambda>c. c\<lparr>nextp := n\<rparr>) (cells h p)" for p
    by (cases "cells h p") (auto intro: exI [of _ "nextp (the (cells h p))"])
  then show ?thesis by (simp add: same_payload_def)
qed

lemma same_payload_next:
  assumes "same_payload h h'" "cells h' p = Some c"
  shows "same_payload h (h'\<lparr>cells := (cells h')(p \<mapsto> c\<lparr>nextp := n\<rparr>)\<rparr>)"
proof -
  obtain m where "cells h' p = map_option (\<lambda>c. c\<lparr>nextp := m\<rparr>) (cells h p)"
    using assms(1) by (auto simp: same_payload_def)
  with assms show ?thesis
    by (auto simp: same_payload_def)
qed

lemma same_payload_trans:
  assumes "same_payload h h'" "same_payload h' h''"
  shows "same_payload h h''"
proof -
  have "\<exists>n. cells h'' p = map_option (\<lambda>c. c\<lparr>nextp := n\<rparr>) (cells h p)" for p
  proof -
    obtain n m where "cells h' p = map_option (\<lambda>c. c\<lparr>nextp := n\<rparr>) (cells h p)"
      "cells h'' p = map_option (\<lambda>c. c\<lparr>nextp := m\<rparr>) (cells h' p)"
      using assms unfolding same_payload_def by blast
    then show ?thesis
      by (cases "cells h p") auto
  qed
  then show ?thesis
    using assms by (simp add: same_payload_def)
qed

lemma insert_retry_ok:
  assumes "cells h t = Some c" "t \<noteq> 0"
  shows "insert_retry spurious t oldHead head h =
     Inr (head, t, h\<lparr>cells := (cells h)(t \<mapsto> c\<lparr>nextp := head\<rparr>)\<rparr>)"
  using assms
proof (induction spurious t oldHead head h arbitrary: c rule: insert_retry.induct)
  case (1 spurious t oldHead head h)
  let ?h = "h\<lparr>cells := (cells h)(t \<mapsto> c\<lparr>nextp := oldHead\<rparr>)\<rparr>"
  have s: "set_next h t oldHead = Inr ?h"
    using "1.prems" by (simp add: set_next_def heap_simps)
  show ?case
    using "1.IH" [of ?h "c\<lparr>nextp := oldHead\<rparr>"] "1.prems" s
    by (subst insert_retry.simps) (auto simp: fun_upd_def cong: if_cong)
qed

lemma insertHead_ok:
  assumes "cells h t = Some c" "t \<noteq> 0" "nextp c = 0 \<or> ndebug"
  shows "insertHead ndebug spurious t (head, h) =
     Inr (head = 0, t, h\<lparr>cells := (cells h)(t \<mapsto> c\<lparr>nextp := head\<rparr>)\<rparr>)"
  using assms
  by (auto simp: insertHead_def get_next_def heap_simps c_assert_def insert_retry_ok [OF assms(1,2)])

lemma set_next_live:
  "cells h t = Some c \<Longrightarrow> t \<noteq> 0 \<Longrightarrow> set_next h t n = Inr (h\<lparr>cells := (cells h)(t \<mapsto> c\<lparr>nextp := n\<rparr>)\<rparr>)"
  by (simp add: set_next_def heap_simps)

lemma get_next_live: "cells h t = Some c \<Longrightarrow> t \<noteq> 0 \<Longrightarrow> get_next h t = Inr (nextp c)"
  by (simp add: get_next_def heap_simps)

lemma reverse_from_ok:
  assumes "linked h head ps" "linked h rhead qs" "set ps \<inter> set qs = {}"
  shows "\<exists>r h'. reverse_from head rhead h = Some (Inr (r, h')) \<and> linked h' r (rev ps @ qs) \<and> same_payload h h' \<and>
    (\<forall>p. p \<notin> set ps \<longrightarrow> cells h' p = cells h p)"
  using assms
proof (induction ps arbitrary: head rhead qs h)
  case Nil
  then show ?case by (simp add: reverse_from.simps same_payload_refl)
next
  case (Cons p ps)
  then obtain c where c: "cells h p = Some c" "linked h (nextp c) ps" "head = p" "p \<noteq> 0"
    by (auto split: option.splits)
  let ?h = "h\<lparr>cells := (cells h)(p \<mapsto> c\<lparr>nextp := rhead\<rparr>)\<rparr>"
  have "p \<notin> set ps" "p \<notin> set qs"
    using linked_distinct [OF Cons.prems(1)] Cons.prems(3) by auto
  then have "linked ?h (nextp c) ps" "linked ?h p (p # qs)" "set ps \<inter> set (p # qs) = {}"
    using c Cons.prems linked_update [of p _ h] by auto
  from Cons.IH [OF this] obtain r h' where
    "reverse_from (nextp c) p ?h = Some (Inr (r, h'))" "linked h' r (rev ps @ p # qs)" "same_payload ?h h'"
    "\<forall>q. q \<notin> set ps \<longrightarrow> cells h' q = cells ?h q"
    by blast
  moreover have "same_payload h h'"
    using same_payload_trans [OF same_payload_next [OF same_payload_refl c(1)] \<open>same_payload ?h h'\<close>] .
  ultimately show ?case
    using c by (subst reverse_from.simps) (simp add: get_next_live set_next_live)
qed

text \<open>A callback that frees the node it gets and hands its payload to \<open>g\<close>.\<close>

definition consuming :: "('x hook_scheme \<Rightarrow> 'w \<Rightarrow> 'w) \<Rightarrow> ('x, 'w) node_cb \<Rightarrow> bool" where
  "consuming g func \<longleftrightarrow> (\<forall>t s h w c. t \<noteq> 0 \<longrightarrow> cells h t = Some c \<longrightarrow>
     func t (s, h, w) = Inr (s, h\<lparr>cells := (cells h)(t := None)\<rparr>, g c w)) \<and>
     (\<forall>c n w. g (c\<lparr>nextp := n\<rparr>) w = g c w)"

lemma unlinkAll_ok:
  assumes "consuming g func" "linked h head ps"
  shows "unlinkAll func head (s, h, w) =
    Some (Inr (s, h\<lparr>cells := (\<lambda>p. if p \<in> set ps then None else cells h p)\<rparr>,
               fold g (map (the \<circ> cells h) ps) w))"
  using assms(2)
proof (induction ps arbitrary: head h w)
  case Nil
  then show ?case by (simp add: unlinkAll.simps)
next
  case (Cons p ps)
  then obtain c where c: "cells h p = Some c" "linked h (nextp c) ps" "head = p" "p \<noteq> 0"
    by (auto split: option.splits)
  let ?h = "h\<lparr>cells := (cells h)(p := None)\<rparr>"
  have p: "p \<notin> set ps"
    using linked_distinct [OF Cons.prems] by simp
  have "func p (s, h\<lparr>cells := (cells h)(p \<mapsto> c\<lparr>nextp := 0\<rparr>)\<rparr>, w) = Inr (s, ?h, g c w)"
    using assms(1) c(4) by (simp add: consuming_def)
  then have "unlinkAll func head (s, h, w) = unlinkAll func (nextp c) (s, ?h, g c w)"
    using c by (subst unlinkAll.simps) (simp add: get_next_live set_next_live)
  also have "\<dots> = Some (Inr (s, ?h\<lparr>cells := (\<lambda>q. if q \<in> set ps then None else cells ?h q)\<rparr>,
      fold g (map (the \<circ> cells ?h) ps) (g c w)))"
    by (rule Cons.IH) (use c p in \<open>simp add: linked_update\<close>)
  also have "?h\<lparr>cells := (\<lambda>q. if q \<in> set ps then None else cells ?h q)\<rparr> =
      h\<lparr>cells := (\<lambda>q. if q \<in> set (p # ps) then None else cells h q)\<rparr>"
    by (auto simp: fun_eq_iff)
  also have "map (the \<circ> cells ?h) ps = map (the \<circ> cells h) ps"
    using p by auto
  finally show ?case
    using c by (simp add: comp_def)
qed

text \<open>
  The abstract value of an owning list: the data of its nodes from head to tail, with no
  other node on the store, so that a leaked node is visible.
\<close>

definition list_repr :: "ptr \<Rightarrow> 'a node_store \<Rightarrow> 'a list \<Rightarrow> bool" where
  "list_repr head h xs \<longleftrightarrow> heap_ok h \<and>
     (\<exists>ps. linked h head ps \<and> dom (cells h) = set ps \<and> map (data \<circ> the \<circ> cells h) ps = xs)"

lemma list_repr_empty: "list_repr 0 empty_store []"
  by (auto simp: list_repr_def heap_ok_empty) (simp add: empty_store_def)

lemma consume_wrapper_consuming: "consuming (f \<circ> data) (consume_wrapper (pure_cb f))"
  by (simp add: consuming_def consume_wrapper_def pure_cb_def heap_simps)

lemma list_repr_reverse:
  assumes "list_repr head h xs"
  shows "\<exists>r h' ps. reverse head h = Some (Inr (r, h')) \<and> heap_ok h' \<and> linked h' r ps \<and>
    dom (cells h') = set ps \<and> map (data \<circ> the \<circ> cells h') ps = rev xs"
proof -
  from assms obtain ps where ps: "linked h head ps" "dom (cells h) = set ps" "map (data \<circ> the \<circ> cells h) ps = xs"
    and ok: "heap_ok h"
    by (auto simp: list_repr_def)
  from reverse_from_ok [OF ps(1), of 0 "[]"] obtain r h' where
    r: "reverse head h = Some (Inr (r, h'))" "linked h' r (rev ps)" and same: "same_payload h h'"
    by (auto simp: reverse_def)
  have cell: "\<exists>n. cells h' p = map_option (\<lambda>c. c\<lparr>nextp := n\<rparr>) (cells h p)" for p
    using same by (simp add: same_payload_def)
  have dom: "cells h' p = None \<longleftrightarrow> cells h p = None" for p
    using cell [of p] by auto
  have "data (the (cells h' p)) = data (the (cells h p))" if "p \<in> set ps" for p
    using cell [of p] linked_live [OF ps(1) that] by auto
  then have "map (data \<circ> the \<circ> cells h') (rev ps) = rev xs"
    using ps(3) by (auto simp: rev_map [symmetric])
  moreover have "dom (cells h') = set (rev ps)"
    using ps(2) dom by (auto simp: dom_def)
  moreover have "heap_ok h'"
    using ok same dom by (auto simp: heap_ok_def same_payload_def)
  ultimately show ?thesis
    using r by blast
qed

lemma consume_all:
  fixes h :: "'a node_store"
  assumes "heap_ok h" "linked h r ps" "dom (cells h) = set ps"
  shows "\<exists>h'. unlinkAll (consume_wrapper (pure_cb f)) r (s, h, w) =
    Some (Inr (s, h', fold f (map (data \<circ> the \<circ> cells h) ps) w)) \<and> list_repr 0 h' []"
proof -
  have "(\<lambda>p. if p \<in> set ps then None else cells h p) = (\<lambda>_. None)"
    using assms(3) by (auto simp: fun_eq_iff)
  then show ?thesis
    using unlinkAll_ok [OF consume_wrapper_consuming assms(2), of f s w] assms(1)
    by (simp add: list_repr_def heap_ok_def fold_map comp_def)
qed

lemma list_sweep_ok:
  assumes "list_repr head h xs"
  shows "\<exists>h'. list_sweep (pure_cb f) (head, h, w) = Some (Inr (0, h', fold f (rev xs) w)) \<and> list_repr 0 h' []"
proof (cases "head = 0")
  case True
  then show ?thesis
    using assms by (auto simp: list_sweep_def sweep.simps list_repr_def)
next
  case False
  from list_repr_reverse [OF assms] obtain r h' ps where r: "reverse head h = Some (Inr (r, h'))"
    "heap_ok h'" "linked h' r ps" "dom (cells h') = set ps" "map (data \<circ> the \<circ> cells h') ps = rev xs"
    by blast
  from consume_all [OF r(2-4), of f 0 w] r(5) obtain h'' where
    "unlinkAll (consume_wrapper (pure_cb f)) r (0, h', w) = Some (Inr (0, h'', fold f (rev xs) w))" "list_repr 0 h'' []"
    by auto
  with False r(1) show ?thesis
    by (simp add: list_sweep_def sweep.simps)
qed

lemma list_reverseSweep_ok:
  assumes "list_repr head h xs"
  shows "\<exists>h'. list_reverseSweep (pure_cb f) (head, h, w) = Some (Inr (0, h', fold f xs w)) \<and> list_repr 0 h' []"
  using assms consume_all [of h head _ f 0 w] by (auto simp: list_repr_def list_reverseSweep_def reverseSweep_def)

lemma list_insertHead_ok:
  assumes "list_repr head h xs"
  shows "\<exists>head' h'. list_insertHead ndebug spurious x (head, h) = Inr (xs = [], head', h') \<and>
    list_repr head' h' (x # xs)"
proof -
  from assms obtain ps where ps: "linked h head ps" "dom (cells h) = set ps" "map (data \<circ> the \<circ> cells h) ps = xs"
    and ok: "heap_ok h"
    by (auto simp: list_repr_def)
  let ?h = "snd (heap_new \<lparr>nextp = head, data = x\<rparr> h)"
  have new: "fresh h \<notin> set ps" "fresh h \<noteq> 0"
    using ps(2) ok by (auto simp: heap_ok_def)
  have ins: "list_insertHead ndebug spurious x (head, h) = Inr (head = 0, fresh h, ?h)"
    using new by (simp add: list_insertHead_def heap_new_def insertHead_ok)
  have empty: "head = 0 \<longleftrightarrow> xs = []"
    using ps(1,3) by (cases ps) auto
  have "linked ?h (fresh h) (fresh h # ps)"
    using ps(1) new linked_cong [of ps ?h h head] by (simp add: heap_new_def) force
  moreover have "map (data \<circ> the \<circ> cells ?h) (fresh h # ps) = x # xs"
    using ps(3) new by (auto simp: heap_new_def)
  moreover have "dom (cells ?h) = set (fresh h # ps)"
    using ps(2) by (auto simp: heap_new_def)
  ultimately have "list_repr (fresh h) ?h (x # xs)"
    unfolding list_repr_def using heap_ok_new [OF ok] by (intro conjI exI [of _ "fresh h # ps"])
  with ins empty show ?thesis by simp
qed

subsection \<open>Inserting threads and a sweeping thread, interleaved\<close>

text \<open>
  Any number of threads run \<open>insertHead\<close>; the allocator may hand out any address that
  is not in use, one that was just freed included.  One thread sweeps: it takes the whole
  list by one exchange and then works on nodes no other thread reaches.  \<open>inserted\<close> lists
  the data in the order of the successful exchanges, \<open>delivered\<close> what the callback got.
\<close>

datatype ins_pc = InsIdle | InsLink ptr ptr | InsCas ptr ptr

datatype sweep_pc = SwIdle | SwGot ptr

record 'a list_system =
  lhead :: ptr
  nodes :: "'a node_store"
  pcs :: "nat \<Rightarrow> ins_pc"
  sweeper :: sweep_pc
  inserted :: "'a list"
  delivered :: "'a list"

definition collect :: "'a \<Rightarrow> 'a list \<Rightarrow> 'a list" where
  "collect x acc = acc @ [x]"

inductive list_step :: "'a list_system \<Rightarrow> 'a list_system \<Rightarrow> bool" where
  ins_begin: "pcs s i = InsIdle \<Longrightarrow> t \<noteq> 0 \<Longrightarrow> cells (nodes s) t = None \<Longrightarrow>
     list_step s (s\<lparr>nodes := (nodes s)\<lparr>cells := (cells (nodes s))(t \<mapsto> \<lparr>nextp = 0, data = x\<rparr>)\<rparr>,
                   pcs := (pcs s)(i := InsLink t (lhead s))\<rparr>)"
| ins_link: "pcs s i = InsLink t old \<Longrightarrow> set_next (nodes s) t old = Inr h \<Longrightarrow>
     list_step s (s\<lparr>nodes := h, pcs := (pcs s)(i := InsCas t old)\<rparr>)"
| ins_cas: "pcs s i = InsCas t old \<Longrightarrow> lhead s = old \<Longrightarrow>
     list_step s (s\<lparr>lhead := t, pcs := (pcs s)(i := InsIdle),
                   inserted := inserted s @ [data (the (cells (nodes s) t))]\<rparr>)"
| ins_retry: "pcs s i = InsCas t old \<Longrightarrow> list_step s (s\<lparr>pcs := (pcs s)(i := InsLink t (lhead s))\<rparr>)"
| sw_take: "sweeper s = SwIdle \<Longrightarrow> lhead s \<noteq> 0 \<Longrightarrow> list_step s (s\<lparr>lhead := 0, sweeper := SwGot (lhead s)\<rparr>)"
| sw_deliver: "sweeper s = SwGot p \<Longrightarrow> reverse p (nodes s) = Some (Inr (r, h)) \<Longrightarrow>
     unlinkAll (consume_wrapper (pure_cb collect)) r (lhead s, h, delivered s) = Some (Inr (hd', h', out)) \<Longrightarrow>
     list_step s (s\<lparr>lhead := hd', nodes := h', sweeper := SwIdle, delivered := out\<rparr>)"

definition list_init :: "'a list_system" where
  "list_init = \<lparr>lhead = 0, nodes = empty_store, pcs = (\<lambda>_. InsIdle), sweeper = SwIdle, inserted = [], delivered = []\<rparr>"

inductive list_reach :: "'a list_system \<Rightarrow> bool" where
  start: "list_reach list_init"
| step: "list_reach s \<Longrightarrow> list_step s s' \<Longrightarrow> list_reach s'"

fun pending :: "ins_pc \<Rightarrow> ptr option" where
  "pending InsIdle = None"
| "pending (InsLink t old) = Some t"
| "pending (InsCas t old) = Some t"

fun held :: "sweep_pc \<Rightarrow> ptr" where
  "held SwIdle = 0"
| "held (SwGot p) = p"

definition datas :: "'a node_store \<Rightarrow> ptr list \<Rightarrow> 'a list" where
  "datas h ps = map (data \<circ> the \<circ> cells h) ps"

definition list_inv :: "'a list_system \<Rightarrow> ptr list \<Rightarrow> ptr list \<Rightarrow> bool" where
  "list_inv s ps qs \<longleftrightarrow> linked (nodes s) (lhead s) ps \<and> linked (nodes s) (held (sweeper s)) qs \<and>
     set ps \<inter> set qs = {} \<and>
     (\<forall>i t. pending (pcs s i) = Some t \<longrightarrow> t \<noteq> 0 \<and> cells (nodes s) t \<noteq> None \<and> t \<notin> set ps \<union> set qs) \<and>
     (\<forall>i j t. pending (pcs s i) = Some t \<longrightarrow> pending (pcs s j) = Some t \<longrightarrow> i = j) \<and>
     (\<forall>i t old. pcs s i = InsCas t old \<longrightarrow> map_option nextp (cells (nodes s) t) = Some old) \<and>
     inserted s = delivered s @ rev (datas (nodes s) qs) @ rev (datas (nodes s) ps)"

lemma list_invD:
  assumes "list_inv s ps qs"
  shows "linked (nodes s) (lhead s) ps" "linked (nodes s) (held (sweeper s)) qs" "set ps \<inter> set qs = {}"
    "pending (pcs s i) = Some t \<Longrightarrow> t \<noteq> 0 \<and> cells (nodes s) t \<noteq> None \<and> t \<notin> set ps \<union> set qs"
    "pending (pcs s i) = Some t \<Longrightarrow> pending (pcs s j) = Some t \<Longrightarrow> i = j"
    "pcs s i = InsCas t old \<Longrightarrow> map_option nextp (cells (nodes s) t) = Some old"
    "inserted s = delivered s @ rev (datas (nodes s) qs) @ rev (datas (nodes s) ps)"
  using assms unfolding list_inv_def by blast+

lemma datas_cong: "(\<And>p. p \<in> set ps \<Longrightarrow> cells h' p = cells h p) \<Longrightarrow> datas h' ps = datas h ps"
  by (simp add: datas_def)

text \<open>Writing a node that is in neither list, by the thread that owns it.\<close>

lemma list_inv_own:
  assumes "list_inv s ps qs" "t \<notin> set ps \<union> set qs" "t \<noteq> 0" "pending pc = Some t"
    and "\<And>j. j \<noteq> i \<Longrightarrow> pending (pcs s j) \<noteq> Some t"
    and "\<And>old. pc = InsCas t old \<Longrightarrow> nextp c = old"
  shows "list_inv (s\<lparr>nodes := (nodes s)\<lparr>cells := (cells (nodes s))(t \<mapsto> c)\<rparr>, pcs := (pcs s)(i := pc)\<rparr>) ps qs"
    (is "list_inv ?s ps qs")
proof -
  note D = list_invD [OF assms(1)]
  have old: "map_option nextp (cells (nodes ?s) u) = Some n" if "pcs ?s j = InsCas u n" for j u n
  proof (cases "j = i")
    case True
    then show ?thesis
      using that assms(4,6) by auto
  next
    case False
    then have "u \<noteq> t"
      using that assms(5) [OF False] by auto
    then show ?thesis
      using that False D(6) [of j u n] by simp
  qed
  have "datas (nodes ?s) ps = datas (nodes s) ps" "datas (nodes ?s) qs = datas (nodes s) qs"
    using assms(2) by (intro datas_cong; auto)+
  then show ?thesis
    unfolding list_inv_def using D(1-3,7) assms(2-5) old D(4,5)
    by (auto simp: linked_update split: if_splits)
qed

lemma list_inv_pc:
  assumes "list_inv s ps qs" "pending pc = pending (pcs s i)" "\<And>t old. pc \<noteq> InsCas t old"
  shows "list_inv (s\<lparr>pcs := (pcs s)(i := pc)\<rparr>) ps qs"
  unfolding list_inv_def using list_invD [OF assms(1)] assms(2,3) by (auto split: if_splits)

lemma cas_inv:
  assumes "list_inv s ps qs" "pcs s i = InsCas t old" "lhead s = old"
  shows "list_inv (s\<lparr>lhead := t, pcs := (pcs s)(i := InsIdle),
      inserted := inserted s @ [data (the (cells (nodes s) t))]\<rparr>) (t # ps) qs"
proof -
  note D = list_invD [OF assms(1)]
  have t: "t \<noteq> 0" "t \<notin> set ps" "t \<notin> set qs"
    using D(4) [of i t] assms(2) by auto
  obtain c where c: "cells (nodes s) t = Some c" "nextp c = old"
    using D(6) [OF assms(2)] by auto
  have other: "pending (pcs s j) \<noteq> Some t" if "j \<noteq> i" for j
    using D(5) [of i t j] assms(2) that by auto
  show ?thesis
    unfolding list_inv_def using D(1-3) D(4-6) t c other assms(3) D(7)
    by (auto simp: datas_def split: if_splits)
qed

lemma deliver_inv:
  assumes "list_inv s ps qs" "sweeper s = SwGot p"
  shows "\<exists>r h h'. reverse p (nodes s) = Some (Inr (r, h)) \<and>
    unlinkAll (consume_wrapper (pure_cb collect)) r (lhead s, h, delivered s) =
      Some (Inr (lhead s, h', delivered s @ rev (datas (nodes s) qs))) \<and>
    list_inv (s\<lparr>lhead := lhead s, nodes := h', sweeper := SwIdle, delivered := delivered s @ rev (datas (nodes s) qs)\<rparr>) ps []"
proof -
  note D = list_invD [OF assms(1)]
  have qs: "linked (nodes s) p qs"
    using D(2) assms(2) by simp
  from reverse_from_ok [OF qs, of 0 "[]"] obtain r h where
    r: "reverse p (nodes s) = Some (Inr (r, h))" "linked h r (rev qs)" and same: "same_payload (nodes s) h"
    and frame: "\<forall>q. q \<notin> set qs \<longrightarrow> cells h q = cells (nodes s) q"
    by (auto simp: reverse_def)
  let ?h = "h\<lparr>cells := (\<lambda>q. if q \<in> set (rev qs) then None else cells h q)\<rparr>"
  have "data (the (cells h q)) = data (the (cells (nodes s) q))" if "q \<in> set qs" for q
  proof -
    obtain n where "cells h q = map_option (\<lambda>c. c\<lparr>nextp := n\<rparr>) (cells (nodes s) q)"
      using same unfolding same_payload_def by blast
    then show ?thesis
      using linked_live [OF qs that] by auto
  qed
  then have "map (data \<circ> the \<circ> cells h) (rev qs) = rev (datas (nodes s) qs)"
    by (auto simp: datas_def rev_map)
  moreover have "fold (collect \<circ> data) (map (the \<circ> cells h) xs) acc = acc @ map (data \<circ> the \<circ> cells h) xs" for xs acc
    by (induction xs arbitrary: acc) (auto simp: collect_def)
  ultimately have out: "fold (collect \<circ> data) (map (the \<circ> cells h) (rev qs)) (delivered s) =
      delivered s @ rev (datas (nodes s) qs)"
    by metis
  have u: "unlinkAll (consume_wrapper (pure_cb collect)) r (lhead s, h, delivered s) =
      Some (Inr (lhead s, ?h, delivered s @ rev (datas (nodes s) qs)))"
    unfolding unlinkAll_ok [OF consume_wrapper_consuming r(2)] out by simp
  have keep: "cells ?h q = cells (nodes s) q" if "q \<notin> set qs" for q
    using frame that by simp
  have "list_inv (s\<lparr>lhead := lhead s, nodes := ?h, sweeper := SwIdle, delivered := delivered s @ rev (datas (nodes s) qs)\<rparr>) ps []"
    (is "list_inv ?s ps []")
  proof -
    have ps: "linked ?h (lhead s) ps" "datas ?h ps = datas (nodes s) ps"
      using D(1,3) keep linked_cong [of ps ?h "nodes s"] by (blast, intro datas_cong, blast)
    have "t \<notin> set qs" if "pcs s i = InsCas t old" for i t old
      using D(4) [of i t] that by simp
    then show ?thesis
      unfolding list_inv_def using ps D(4-7) keep by (auto simp: datas_def)
  qed
  with r(1) u show ?thesis by blast
qed

lemma list_step_inv:
  assumes "list_step s s'" "list_inv s ps qs"
  shows "\<exists>ps' qs'. list_inv s' ps' qs'"
  using assms
proof (induction rule: list_step.induct)
  case (ins_begin s i t x)
  note D = list_invD [OF ins_begin.prems]
  have "t \<notin> set ps \<union> set qs" "pending (pcs s j) \<noteq> Some t" for j
    using ins_begin.hyps(3) D(4) [of j t] linked_live [OF D(1), of t] linked_live [OF D(2), of t] by auto
  then show ?case
    using list_inv_own [OF ins_begin.prems, of t "InsLink t (lhead s)" i] ins_begin.hyps(2) by fastforce
next
  case (ins_link s i t old h)
  note D = list_invD [OF ins_link.prems]
  have t: "t \<noteq> 0" "t \<notin> set ps \<union> set qs" "\<And>j. j \<noteq> i \<Longrightarrow> pending (pcs s j) \<noteq> Some t"
    using D(4) [of i t] D(5) [of i t] ins_link.hyps(1) by auto
  obtain c where c: "cells (nodes s) t = Some c"
    using D(4) [of i t] ins_link.hyps(1) by auto
  then have "h = (nodes s)\<lparr>cells := (cells (nodes s))(t \<mapsto> c\<lparr>nextp := old\<rparr>)\<rparr>"
    using ins_link.hyps(2) t(1) by (simp add: set_next_live)
  then show ?case
    using list_inv_own [OF ins_link.prems t(2,1), of "InsCas t old" i "c\<lparr>nextp := old\<rparr>"] t(3) by auto
next
  case (ins_cas s i t old)
  then show ?case
    using cas_inv by blast
next
  case (ins_retry s i t old)
  then show ?case
    using list_inv_pc [OF ins_retry.prems, of "InsLink t (lhead s)" i] by auto
next
  case (sw_take s)
  note D = list_invD [OF sw_take.prems]
  have "qs = []"
    using D(2) sw_take.hyps(1) by simp
  then have "list_inv (s\<lparr>lhead := 0, sweeper := SwGot (lhead s)\<rparr>) [] ps"
    unfolding list_inv_def using D by (auto simp: datas_def)
  then show ?case by blast
next
  case (sw_deliver s p r h hd' h' out)
  from deliver_inv [OF sw_deliver.prems sw_deliver.hyps(1)] sw_deliver.hyps(2,3) show ?case by auto
qed

lemma list_reach_inv: "list_reach s \<Longrightarrow> \<exists>ps qs. list_inv s ps qs"
proof (induction rule: list_reach.induct)
  case start
  have "list_inv (list_init :: 'a list_system) [] []"
    by (simp add: list_inv_def list_init_def datas_def)
  then show ?case by blast
qed (blast dest: list_step_inv)

subsection \<open>Properties\<close>

text \<open>
  The owning list from one thread: \<open>insertHead\<close> puts its argument in front, says
  whether it is the only element, and does not depend on how often the exchange fails
  spuriously; \<open>sweep\<close> hands the elements to the callback from tail to head, in the order
  they were inserted, \<open>reverseSweep\<close> from head to tail, and both end with an empty list and
  every node freed.
\<close>

theorem atomic_list_spec:
  assumes "list_repr head h xs"
  shows "(\<exists>head' h'. list_insertHead ndebug spurious x (head, h) = Inr (xs = [], head', h') \<and> list_repr head' h' (x # xs)) \<and>
    (\<exists>h'. list_sweep (pure_cb f) (head, h, w) = Some (Inr (0, h', fold f (rev xs) w)) \<and> list_repr 0 h' []) \<and>
    (\<exists>h'. list_reverseSweep (pure_cb f) (head, h, w) = Some (Inr (0, h', fold f xs w)) \<and> list_repr 0 h' []) \<and>
    (\<exists>h'. destroy_list ndebug (head, h) = Some (Inr (0, h')) \<and> list_repr 0 h' [])"
proof -
  from list_sweep_ok [OF assms, of "\<lambda>_ w. w" "()"] obtain h' where
    "list_sweep (pure_cb (\<lambda>_ w. w)) (head, h, ()) = Some (Inr (0, h', ()))" "list_repr 0 h' []"
    by auto
  then have "destroy_list ndebug (head, h) = Some (Inr (0, h'))" "list_repr 0 h' []"
    by (simp_all add: destroy_list_def destroy_intrusive_def list_empty_def c_assert_def)
  then show ?thesis
    using list_insertHead_ok [OF assms, of ndebug spurious x] list_sweep_ok [OF assms, of f w]
      list_reverseSweep_ok [OF assms, of f w] by blast
qed

theorem atomic_list_spec_witness:
  "\<exists>head h. list_insertHead True 2 (CHR ''x'') (0, empty_store) = Inr (True, head, h) \<and> list_repr head h ''x''"
  using atomic_list_spec [OF list_repr_empty, of True 2 "CHR ''x''" "\<lambda>_ w. w" "()"] by simp

text \<open>
  (C16) Any number of inserting threads and one sweeping thread: the data delivered is
  always a prefix of the data inserted, in the order of the successful exchanges, and all
  of it once the list is empty and the sweeper idle; no thread dereferences a null or
  freed node, and the sweeper's loops end.
\<close>

theorem atomic_list_concurrent:
  assumes "list_reach s"
  shows "\<exists>rest. inserted s = delivered s @ rest \<and>
    (lhead s = 0 \<and> sweeper s = SwIdle \<longrightarrow> rest = []) \<and>
    (\<forall>i t old. pcs s i = InsLink t old \<longrightarrow> (\<exists>h. set_next (nodes s) t old = Inr h)) \<and>
    (\<forall>p. sweeper s = SwGot p \<longrightarrow> (\<exists>r h h' out. reverse p (nodes s) = Some (Inr (r, h)) \<and>
       unlinkAll (consume_wrapper (pure_cb collect)) r (lhead s, h, delivered s) = Some (Inr (lhead s, h', out))))"
proof -
  from list_reach_inv [OF assms] obtain ps qs where inv: "list_inv s ps qs" by blast
  note D = list_invD [OF inv]
  have "\<exists>h. set_next (nodes s) t old = Inr h" if "pcs s i = InsLink t old" for i t old
    using D(4) [of i t] that by (auto simp: set_next_live)
  moreover have "\<exists>r h h' out. reverse p (nodes s) = Some (Inr (r, h)) \<and>
       unlinkAll (consume_wrapper (pure_cb collect)) r (lhead s, h, delivered s) = Some (Inr (lhead s, h', out))"
    if "sweeper s = SwGot p" for p
    using deliver_inv [OF inv that] by blast
  moreover have "lhead s = 0 \<Longrightarrow> sweeper s = SwIdle \<Longrightarrow> ps = [] \<and> qs = []"
    using D(1,2) by simp
  ultimately show ?thesis
    using D(7) by (intro exI [of _ "rev (datas (nodes s) qs) @ rev (datas (nodes s) ps)"]) (auto simp: datas_def)
qed

theorem atomic_list_concurrent_witness:
  "\<exists>s :: bool list_system. list_reach s \<and> pcs s 0 = InsLink 7 0 \<and> (\<exists>rest. inserted s = delivered s @ rest) \<and>
     (\<exists>h. set_next (nodes s) 7 (0::nat) = Inr h)"
proof -
  let ?i = "list_init :: bool list_system"
  let ?s = "?i\<lparr>nodes := (nodes ?i)\<lparr>cells := (cells (nodes ?i))(7 \<mapsto> \<lparr>nextp = 0, data = True\<rparr>)\<rparr>,
                pcs := (pcs ?i)(0 := InsLink 7 (lhead ?i))\<rparr>"
  have r: "list_reach ?s"
    by (rule list_reach.step [OF list_reach.start]) (rule list_step.ins_begin; simp add: list_init_def empty_store_def)
  have "pcs ?s 0 = InsLink 7 0"
    by (simp add: list_init_def)
  with atomic_list_concurrent [OF r] r show ?thesis by blast
qed

end
