(* ===== verification/Object_Pools.thy ===== *)
theory Object_Pools
  imports Atomic_List
begin

text \<open>
  The object pools of \<open>src/libs\<close>: the pool of message packages of
  \<open>object_pool.hpp\<close> with its two allocators, the deque pool of \<open>objects.h\<close>, the
  smart pool of \<open>objpool.h\<close> and the intrusive pool of \<open>pool.h\<close>, behind one
  contract: an acquired object is live and is not handed out again before it is released.
\<close>

subsection \<open>The contract\<close>

datatype pool_op = Acquire | Release nat

text \<open>\<open>Release k\<close> gives back the \<open>k\<close>-th of the objects in use.\<close>

fun pool_run ::
  "('p \<Rightarrow> (ptr \<times> 'p) result option) \<Rightarrow> (ptr \<Rightarrow> 'p \<Rightarrow> 'p result) \<Rightarrow> pool_op list \<Rightarrow> ptr list \<times> 'p \<Rightarrow>
   (ptr list \<times> 'p) result option" where
  "pool_run acq rel [] st = Some (Inr st)"
| "pool_run acq rel (Acquire # ops) (used, p) =
     (case acq p of None \<Rightarrow> None | Some (Inl e) \<Rightarrow> Some (Inl e)
      | Some (Inr (x, p')) \<Rightarrow> pool_run acq rel ops (used @ [x], p'))"
| "pool_run acq rel (Release k # ops) (used, p) =
     (if k < length used then
        (case rel (used ! k) p of Inl e \<Rightarrow> Some (Inl e)
         | Inr p' \<Rightarrow> pool_run acq rel ops (take k used @ drop (Suc k) used, p'))
      else pool_run acq rel ops (used, p))"

lemma remove_nth:
  assumes "distinct xs" "k < length xs"
  shows "distinct (take k xs @ drop (Suc k) xs)" "set (take k xs @ drop (Suc k) xs) = set xs - {xs ! k}"
proof -
  have "xs = take k xs @ xs ! k # drop (Suc k) xs"
    using assms(2) by (rule id_take_nth_drop)
  then obtain ys x zs where "xs = ys @ x # zs" "take k xs = ys" "drop (Suc k) xs = zs" "xs ! k = x"
    by blast
  with assms(1) show "distinct (take k xs @ drop (Suc k) xs)" "set (take k xs @ drop (Suc k) xs) = set xs - {xs ! k}"
    by auto
qed

locale object_pool =
  fixes inv :: "'p \<Rightarrow> ptr set \<Rightarrow> bool"
    and acquire :: "'p \<Rightarrow> (ptr \<times> 'p) result option"
    and release :: "ptr \<Rightarrow> 'p \<Rightarrow> 'p result"
  assumes acquire_law: "inv p used \<Longrightarrow>
      \<exists>x p'. acquire p = Some (Inr (x, p')) \<and> x \<noteq> 0 \<and> x \<notin> used \<and> inv p' (insert x used)"
    and release_law: "inv p used \<Longrightarrow> x \<in> used \<Longrightarrow> \<exists>p'. release x p = Inr p' \<and> inv p' (used - {x})"
begin

lemma run_distinct:
  assumes "inv p (set used)" "distinct used" "0 \<notin> set used"
  shows "\<exists>used' p'. pool_run acquire release ops (used, p) = Some (Inr (used', p')) \<and>
    distinct used' \<and> 0 \<notin> set used' \<and> inv p' (set used')"
  using assms
proof (induction ops arbitrary: used p)
  case (Cons op ops)
  show ?case
  proof (cases op)
    case Acquire
    from acquire_law [OF Cons.prems(1)] obtain x p' where x:
      "acquire p = Some (Inr (x, p'))" "x \<noteq> 0" "x \<notin> set used" "inv p' (set (used @ [x]))"
      by auto
    from Cons.IH [OF x(4)] x Cons.prems Acquire show ?thesis by auto
  next
    case (Release k)
    show ?thesis
    proof (cases "k < length used")
      case True
      let ?rest = "take k used @ drop (Suc k) used"
      note rest = remove_nth [OF Cons.prems(2) True]
      from release_law [OF Cons.prems(1), of "used ! k"] True obtain p' where p':
        "release (used ! k) p = Inr p'" "inv p' (set ?rest)"
        using rest(2) by auto
      from Cons.IH [OF p'(2) rest(1)] rest(2) Cons.prems(3) p'(1) True Release show ?thesis by auto
    next
      case False
      with Cons.IH [OF Cons.prems] Release show ?thesis by auto
    qed
  qed
qed simp

end

subsection \<open>The message pool of object_pool.hpp\<close>

definition MemoryAlloc_alloc :: "'t \<Rightarrow> 't store \<Rightarrow> ptr \<times> 't store" where
  "MemoryAlloc_alloc t0 objs = heap_new t0 objs"

definition MemoryAlloc_release :: "ptr \<Rightarrow> 't store \<Rightarrow> 't store result" where
  "MemoryAlloc_release pObj objs = heap_delete pObj objs"

text \<open>
  The atomic allocator keeps pointers to its objects in an owning list.  \<open>t0\<close> is the
  value a new object is constructed with and \<open>dtor\<close> the effect of the explicit destructor
  call.
\<close>

record 't atomic_allocator =
  objs :: "'t store"
  listHead :: ptr
  wrappers :: "ptr node_store"

fun fill :: "bool \<Rightarrow> nat \<Rightarrow> 't \<Rightarrow> nat \<Rightarrow> 't atomic_allocator \<Rightarrow> 't atomic_allocator result" where
  "fill ndebug spurious t0 0 a = Inr a"
| "fill ndebug spurious t0 (Suc n) a =
     (let (pObj, objs') = heap_new t0 (objs a) in
      rbind (list_insertHead ndebug spurious pObj (listHead a, wrappers a)) (\<lambda>(_, head', wr').
        fill ndebug spurious t0 n (a\<lparr>objs := objs', listHead := head', wrappers := wr'\<rparr>)))"

definition atomic_alloc ::
  "bool \<Rightarrow> nat \<Rightarrow> 't \<Rightarrow> 't atomic_allocator \<Rightarrow> (ptr \<times> 't atomic_allocator) result option" where
  "atomic_alloc ndebug spurious t0 a =
     (case (if list_empty (listHead a) then fill ndebug spurious t0 20 a else Inr a) of
        Inl e \<Rightarrow> Some (Inl e)
      | Inr a' \<Rightarrow>
         (case list_sweep (pure_cb (\<lambda>pObj pItem. pObj)) (listHead a', wrappers a', 0) of
            None \<Rightarrow> None
          | Some (Inl e) \<Rightarrow> Some (Inl e)
          | Some (Inr (head', wr', pItem)) \<Rightarrow> Some (Inr (pItem, a'\<lparr>listHead := head', wrappers := wr'\<rparr>))))"

definition atomic_release ::
  "bool \<Rightarrow> nat \<Rightarrow> ('t \<Rightarrow> 't) \<Rightarrow> ptr \<Rightarrow> 't atomic_allocator \<Rightarrow> 't atomic_allocator result" where
  "atomic_release ndebug spurious dtor pObj a =
     rbind (deref (objs a) pObj) (\<lambda>t.
     rbind (assign (objs a) pObj (dtor t)) (\<lambda>objs'.
     rbind (list_insertHead ndebug spurious pObj (listHead a, wrappers a)) (\<lambda>(_, head', wr').
       Inr (a\<lparr>objs := objs', listHead := head', wrappers := wr'\<rparr>))))"

record 't message_pool =
  pool_alloc :: "'t atomic_allocator"
  m_grow :: int
  m_alloc_count :: int
  m_release_count :: int

definition ObjectPool :: "'t atomic_allocator \<Rightarrow> int \<Rightarrow> int \<Rightarrow> 't message_pool" where
  "ObjectPool alloc sz grow = \<lparr>pool_alloc = alloc, m_grow = grow, m_alloc_count = 0, m_release_count = 0\<rparr>"

definition pool_acquire ::
  "bool \<Rightarrow> nat \<Rightarrow> 't \<Rightarrow> 't message_pool \<Rightarrow> (ptr \<times> 't message_pool) result option" where
  "pool_acquire ndebug spurious t0 p =
     (let p = p\<lparr>m_alloc_count := s32 (m_alloc_count p + 1)\<rparr> in
      case atomic_alloc ndebug spurious t0 (pool_alloc p) of None \<Rightarrow> None | Some (Inl e) \<Rightarrow> Some (Inl e)
      | Some (Inr (pT, a)) \<Rightarrow> Some (Inr (pT, p\<lparr>pool_alloc := a\<rparr>)))"

definition pool_release ::
  "bool \<Rightarrow> nat \<Rightarrow> ('t \<Rightarrow> 't) \<Rightarrow> ptr \<Rightarrow> 't message_pool \<Rightarrow> 't message_pool result" where
  "pool_release ndebug spurious dtor pItem p =
     (let p = p\<lparr>m_release_count := s32 (m_release_count p + 1)\<rparr> in
      rbind (atomic_release ndebug spurious dtor pItem (pool_alloc p)) (\<lambda>a. Inr (p\<lparr>pool_alloc := a\<rparr>)))"

definition pool_empty :: "'t message_pool \<Rightarrow> bool" where
  "pool_empty p = False"

text \<open>The subtraction is done in \<open>int\<close> and converted to the 64-bit \<open>size_t\<close>.\<close>

definition pool_size :: "'t message_pool \<Rightarrow> int" where
  "pool_size p = (let left = s32 (m_alloc_count p - m_release_count p + 1) mod 2 ^ 64 in
     if left < 1 then 1 else left)"

text \<open>The pointers waiting in the free list, newest first.\<close>

definition alloc_repr :: "'t atomic_allocator \<Rightarrow> ptr list \<Rightarrow> bool" where
  "alloc_repr a free \<longleftrightarrow> list_repr (listHead a) (wrappers a) free \<and> heap_ok (objs a) \<and>
     distinct free \<and> (\<forall>x \<in> set free. live (objs a) x)"

definition alloc_inv :: "'t atomic_allocator \<Rightarrow> ptr set \<Rightarrow> bool" where
  "alloc_inv a used \<longleftrightarrow> (\<exists>free. alloc_repr a free \<and> set free \<inter> used = {}) \<and>
     (\<forall>x \<in> used. live (objs a) x)"

lemma live_new: "heap_ok h \<Longrightarrow> live (snd (heap_new t h)) x \<longleftrightarrow> x = fresh h \<or> live h x"
  by (auto simp: heap_new_def live_def heap_ok_def)

lemma fresh_not_live: "heap_ok h \<Longrightarrow> \<not> live h (fresh h)"
  by (simp add: heap_ok_def live_def)

lemma fill_ok:
  assumes "alloc_repr a free"
  shows "\<exists>a' new. fill ndebug spurious t0 n a = Inr a' \<and> alloc_repr a' (new @ free) \<and> length new = n \<and>
    (\<forall>x. live (objs a') x \<longleftrightarrow> x \<in> set new \<or> live (objs a) x) \<and> (\<forall>x \<in> set new. \<not> live (objs a) x) \<and>
    (\<forall>x. live (objs a) x \<longrightarrow> cells (objs a') x = cells (objs a) x)"
  using assms
proof (induction n arbitrary: a free)
  case (Suc n)
  have ok: "heap_ok (objs a)" and lr: "list_repr (listHead a) (wrappers a) free"
    using Suc.prems by (auto simp: alloc_repr_def)
  let ?p = "fresh (objs a)" and ?o = "snd (heap_new t0 (objs a))"
  from list_insertHead_ok [OF lr, of ndebug spurious ?p] obtain head' wr' where
    ins: "list_insertHead ndebug spurious ?p (listHead a, wrappers a) = Inr (free = [], head', wr')"
      "list_repr head' wr' (?p # free)"
    by blast
  let ?a = "a\<lparr>objs := ?o, listHead := head', wrappers := wr'\<rparr>"
  have "alloc_repr ?a (?p # free)"
    using Suc.prems ins(2) heap_ok_new [OF ok] live_new [OF ok] fresh_not_live [OF ok]
    by (auto simp: alloc_repr_def)
  from Suc.IH [OF this] obtain a' new where IH:
    "fill ndebug spurious t0 n ?a = Inr a'" "alloc_repr a' (new @ ?p # free)" "length new = n"
    "\<forall>x. live (objs a') x \<longleftrightarrow> x \<in> set new \<or> live ?o x" "\<forall>x \<in> set new. \<not> live ?o x"
    "\<forall>x. live ?o x \<longrightarrow> cells (objs a') x = cells ?o x"
    by auto
  have "fill ndebug spurious t0 (Suc n) a = Inr a'"
    using ins(1) IH(1) by (simp add: heap_new_def)
  moreover have "cells (objs a') x = cells (objs a) x" if "live (objs a) x" for x
  proof -
    have "x \<noteq> ?p"
      using that fresh_not_live [OF ok] by blast
    then show ?thesis
      using IH(6) that live_new [OF ok] by (simp add: heap_new_def)
  qed
  ultimately show ?case
    using IH(2-5) live_new [OF ok] fresh_not_live [OF ok]
    by (intro exI [of _ a'] exI [of _ "new @ [?p]"]) auto
qed simp

lemma last_swept: "fold (\<lambda>pObj pItem. pObj) (rev free) 0 = (case free of [] \<Rightarrow> 0 | x # _ \<Rightarrow> x)" for free :: "ptr list"
  by (cases free) simp_all

lemma atomic_alloc_ok:
  assumes "alloc_inv a used"
  obtains x a' where "atomic_alloc ndebug spurious t0 a = Some (Inr (x, a'))" "x \<noteq> 0" "x \<notin> used"
    "alloc_inv a' (insert x used)" "listHead a' = 0" "\<And>y. live (objs a) y \<Longrightarrow> cells (objs a') y = cells (objs a) y"
proof -
  from assms obtain free where free: "alloc_repr a free" "set free \<inter> used = {}" and used: "\<forall>x \<in> used. live (objs a) x"
    by (auto simp: alloc_inv_def)
  have "\<exists>a1 x xs. (if list_empty (listHead a) then fill ndebug spurious t0 20 a else Inr a) = Inr a1 \<and>
      alloc_repr a1 (x # xs) \<and> x \<notin> used \<and> (\<forall>y. live (objs a) y \<longrightarrow> cells (objs a1) y = cells (objs a) y)"
  proof (cases "listHead a = 0")
    case True
    then have "free = []"
      using free(1) by (auto simp: alloc_repr_def list_repr_def)
    with fill_ok [OF free(1), of ndebug spurious t0 20] obtain a1 new where
      "fill ndebug spurious t0 20 a = Inr a1" "alloc_repr a1 new" "length new = 20"
      "\<forall>x. live (objs a1) x \<longleftrightarrow> x \<in> set new \<or> live (objs a) x" "\<forall>x \<in> set new. \<not> live (objs a) x"
      "\<forall>x. live (objs a) x \<longrightarrow> cells (objs a1) x = cells (objs a) x"
      by auto
    with used True show ?thesis
      by (cases new) (auto simp: list_empty_def)
  next
    case False
    then have "free \<noteq> []"
      using free(1) by (auto simp: alloc_repr_def list_repr_def)
    with free False show ?thesis
      by (cases free) (auto simp: list_empty_def)
  qed
  then obtain a1 x xs where a1: "(if list_empty (listHead a) then fill ndebug spurious t0 20 a else Inr a) = Inr a1"
    "alloc_repr a1 (x # xs)" "x \<notin> used" "\<forall>y. live (objs a) y \<longrightarrow> cells (objs a1) y = cells (objs a) y"
    by blast
  from a1(2) have "list_repr (listHead a1) (wrappers a1) (x # xs)"
    by (simp add: alloc_repr_def)
  from list_sweep_ok [OF this, of "\<lambda>pObj pItem. pObj" 0] obtain wr' where
    sw: "list_sweep (pure_cb (\<lambda>pObj pItem. pObj)) (listHead a1, wrappers a1, 0) = Some (Inr (0, wr', x))" "list_repr 0 wr' []"
    by (auto simp: last_swept)
  let ?a = "a1\<lparr>listHead := 0, wrappers := wr'\<rparr>"
  have x: "live (objs a1) x" "x \<noteq> 0" "heap_ok (objs a1)"
    using a1(2) by (auto simp: alloc_repr_def live_def)
  have "alloc_repr ?a []"
    using sw(2) x(3) by (simp add: alloc_repr_def)
  then have "alloc_inv ?a (insert x used)"
    using x(1) used a1(4) by (auto simp: alloc_inv_def live_def)
  with that [of x ?a] a1 sw(1) x(2) show thesis
    by (simp add: atomic_alloc_def)
qed

lemma atomic_release_ok:
  assumes "alloc_inv a used" "x \<in> used"
  obtains a' where "atomic_release ndebug spurious dtor x a = Inr a'" "alloc_inv a' (used - {x})"
proof -
  from assms obtain free where free: "alloc_repr a free" "set free \<inter> used = {}" and used: "\<forall>x \<in> used. live (objs a) x"
    by (auto simp: alloc_inv_def)
  from used assms(2) obtain t where t: "cells (objs a) x = Some t" "x \<noteq> 0"
    by (auto simp: live_def)
  let ?o = "(objs a)\<lparr>cells := (cells (objs a))(x \<mapsto> dtor t)\<rparr>"
  from free(1) have "list_repr (listHead a) (wrappers a) free"
    by (simp add: alloc_repr_def)
  from list_insertHead_ok [OF this, of ndebug spurious x] obtain head' wr' where
    ins: "list_insertHead ndebug spurious x (listHead a, wrappers a) = Inr (free = [], head', wr')" "list_repr head' wr' (x # free)"
    by blast
  have live: "live ?o y \<longleftrightarrow> live (objs a) y" for y
    using t by (auto simp: live_def)
  have "alloc_repr (a\<lparr>objs := ?o, listHead := head', wrappers := wr'\<rparr>) (x # free)"
    using ins(2) free assms(2) used t heap_ok_update [of "objs a" x "Some (dtor t)"] live
    by (auto simp: alloc_repr_def)
  then have "alloc_inv (a\<lparr>objs := ?o, listHead := head', wrappers := wr'\<rparr>) (used - {x})"
    unfolding alloc_inv_def using free(2) used live by (intro conjI exI [of _ "x # free"]) auto
  with that ins(1) t show thesis
    by (simp add: atomic_release_def heap_simps)
qed

text \<open>The two counters of the pool wrap around; their difference still counts the objects in use.\<close>

definition pool_inv :: "'t message_pool \<Rightarrow> ptr set \<Rightarrow> bool" where
  "pool_inv p used \<longleftrightarrow> alloc_inv (pool_alloc p) used \<and> finite used \<and>
     (m_alloc_count p - m_release_count p) mod 2 ^ 32 = int (card used) mod 2 ^ 32"

lemma s32_mod: "s32 x mod 2 ^ 32 = x mod 2 ^ 32"
  by (simp add: s32_def mod_simps)

lemma count_step:
  fixes a r c :: int
  assumes "(a - r) mod 2 ^ 32 = c mod 2 ^ 32"
  shows "(s32 (a + 1) - r) mod 2 ^ 32 = (c + 1) mod 2 ^ 32" "(a - s32 (r + 1)) mod 2 ^ 32 = (c - 1) mod 2 ^ 32"
proof -
  have "(s32 (a + 1) - r) mod 2 ^ 32 = (a + 1 - r) mod 2 ^ 32"
    by (metis mod_diff_left_eq s32_mod)
  also have "\<dots> = ((a - r) mod 2 ^ 32 + 1) mod 2 ^ 32"
    by (simp add: mod_simps algebra_simps)
  finally show "(s32 (a + 1) - r) mod 2 ^ 32 = (c + 1) mod 2 ^ 32"
    unfolding assms by (simp add: mod_simps)
  have "(a - s32 (r + 1)) mod 2 ^ 32 = (a - (r + 1)) mod 2 ^ 32"
    by (metis mod_diff_right_eq s32_mod)
  also have "\<dots> = ((a - r) mod 2 ^ 32 - 1) mod 2 ^ 32"
    by (simp add: mod_simps algebra_simps)
  finally show "(a - s32 (r + 1)) mod 2 ^ 32 = (c - 1) mod 2 ^ 32"
    unfolding assms by (simp add: mod_simps)
qed

lemma pool_acquire_ok:
  assumes "pool_inv p used"
  shows "\<exists>x p'. pool_acquire ndebug spurious t0 p = Some (Inr (x, p')) \<and> x \<noteq> 0 \<and> x \<notin> used \<and> pool_inv p' (insert x used)"
proof -
  have inv: "alloc_inv (pool_alloc p) used" "finite used"
    and c: "(m_alloc_count p - m_release_count p) mod 2 ^ 32 = int (card used) mod 2 ^ 32"
    using assms by (simp_all add: pool_inv_def)
  obtain x a where "atomic_alloc ndebug spurious t0 (pool_alloc p) = Some (Inr (x, a))" "x \<noteq> 0" "x \<notin> used"
    "alloc_inv a (insert x used)"
    using atomic_alloc_ok [OF inv(1)] by metis
  then show ?thesis
    using inv(2) count_step(1) [OF c] by (auto simp: pool_acquire_def pool_inv_def algebra_simps)
qed

lemma pool_acquire_frame:
  assumes "pool_inv p used" "pool_acquire ndebug spurious t0 p = Some (Inr (x, p'))" "y \<in> used"
  shows "cells (objs (pool_alloc p')) y = cells (objs (pool_alloc p)) y"
proof -
  have inv: "alloc_inv (pool_alloc p) used"
    using assms(1) by (simp add: pool_inv_def)
  then have y: "live (objs (pool_alloc p)) y"
    using assms(3) by (simp add: alloc_inv_def)
  show ?thesis
  proof (rule atomic_alloc_ok [OF inv, of ndebug spurious t0])
    fix x' a'
    assume "atomic_alloc ndebug spurious t0 (pool_alloc p) = Some (Inr (x', a'))"
      and frame: "\<And>y. live (objs (pool_alloc p)) y \<Longrightarrow> cells (objs a') y = cells (objs (pool_alloc p)) y"
    then have "pool_alloc p' = a'"
      using assms(2) by (auto simp: pool_acquire_def)
    with frame [OF y] show ?thesis by simp
  qed
qed

lemma pool_release_ok:
  assumes "pool_inv p used" "x \<in> used"
  shows "\<exists>p'. pool_release ndebug spurious dtor x p = Inr p' \<and> pool_inv p' (used - {x})"
proof -
  have inv: "alloc_inv (pool_alloc p) used" "finite used"
    and c: "(m_alloc_count p - m_release_count p) mod 2 ^ 32 = int (card used) mod 2 ^ 32"
    using assms by (simp_all add: pool_inv_def)
  obtain a where a: "atomic_release ndebug spurious dtor x (pool_alloc p) = Inr a" "alloc_inv a (used - {x})"
    using atomic_release_ok [OF inv(1) assms(2)] by metis
  have "Suc (card (used - {x})) = card used"
    by (rule card.remove [OF inv(2) assms(2), symmetric])
  then have "int (card (used - {x})) = int (card used) - 1"
    by simp
  with a show ?thesis
    using inv(2) count_step(2) [OF c] by (auto simp: pool_release_def pool_inv_def)
qed

interpretation msg_pool: object_pool pool_inv
  "pool_acquire ndebug spurious t0" "pool_release ndebug spurious dtor" for ndebug spurious t0 dtor
  by unfold_locales (rule pool_acquire_ok pool_release_ok; assumption)+

text \<open>
  A freshly built pool after \<open>n\<close> acquisitions without a release: each one found the
  free list empty, built twenty objects and dropped all but one of them.
\<close>

lemma atomic_alloc_grows:
  assumes "alloc_inv a used" "listHead a = 0"
  shows "\<exists>x a'. atomic_alloc ndebug spurious t0 a = Some (Inr (x, a')) \<and> listHead a' = 0 \<and>
    card {y. live (objs a') y} = card {y. live (objs a) y} + 20"
proof -
  from assms obtain free where free: "alloc_repr a free"
    by (auto simp: alloc_inv_def)
  with assms(2) have "free = []"
    by (auto simp: alloc_repr_def list_repr_def)
  with fill_ok [OF free, of ndebug spurious t0 20] obtain a1 new where f:
    "fill ndebug spurious t0 20 a = Inr a1" "alloc_repr a1 new" "length new = 20"
    "\<forall>x. live (objs a1) x \<longleftrightarrow> x \<in> set new \<or> live (objs a) x" "\<forall>x \<in> set new. \<not> live (objs a) x"
    by auto
  from f(2) have "list_repr (listHead a1) (wrappers a1) new" "distinct new" "heap_ok (objs a)"
    using free by (simp_all add: alloc_repr_def)
  from list_sweep_ok [OF this(1), of "\<lambda>pObj pItem. pObj" 0] obtain wr' x where
    "list_sweep (pure_cb (\<lambda>pObj pItem. pObj)) (listHead a1, wrappers a1, 0) = Some (Inr (0, wr', x))"
    by auto
  moreover have "{y. live (objs a1) y} = set new \<union> {y. live (objs a) y}" "set new \<inter> {y. live (objs a) y} = {}"
    using f(4,5) by auto
  moreover have "finite {y. live (objs a) y}"
    using \<open>heap_ok (objs a)\<close> by (rule finite_live)
  ultimately show ?thesis
    using f(1,3) assms(2) distinct_card [OF \<open>distinct new\<close>]
    by (simp add: atomic_alloc_def list_empty_def card_Un_disjoint)
qed

subsection \<open>The deque pool of objects.h\<close>

text \<open>
  The pool hands out raw memory, so its objects carry no value.  \<open>inflate\<close> gets a
  \<open>size_t\<close>: a negative \<open>m_grow\<close> becomes a huge count, which the allocator cannot
  satisfy.
\<close>

record deque_pool =
  raw :: "unit store"
  m_pool :: "ptr list"
  d_grow :: int
  d_alloc_count :: int
  d_release_count :: int

fun inflate_n :: "nat \<Rightarrow> deque_pool \<Rightarrow> deque_pool" where
  "inflate_n 0 p = p"
| "inflate_n (Suc n) p =
     (let (x, raw') = heap_new () (raw p) in inflate_n n (p\<lparr>raw := raw', m_pool := m_pool p @ [x]\<rparr>))"

definition deque_inflate :: "int \<Rightarrow> deque_pool \<Rightarrow> deque_pool result" where
  "deque_inflate count p = (let n = count mod 2 ^ 64 in
     if n < 2 ^ 31 then Inr (inflate_n (nat n) p) else Inl BadAlloc)"

definition deque_new :: "int \<Rightarrow> int \<Rightarrow> unit store \<Rightarrow> deque_pool result" where
  "deque_new sz grow h =
     deque_inflate sz \<lparr>raw = h, m_pool = [], d_grow = grow, d_alloc_count = 0, d_release_count = 0\<rparr>"

definition deque_empty :: "deque_pool \<Rightarrow> bool" where
  "deque_empty p = (m_pool p = [])"

definition deque_size :: "deque_pool \<Rightarrow> int" where
  "deque_size p = int (length (m_pool p))"

definition deque_acquire :: "deque_pool \<Rightarrow> (ptr \<times> deque_pool) result option" where
  "deque_acquire p =
     (case (if deque_empty p then deque_inflate (d_grow p) p else Inr p) of
        Inl e \<Rightarrow> Some (Inl e)
      | Inr p' \<Rightarrow> Some (case m_pool p' of [] \<Rightarrow> Inl OutOfBounds
          | item # rest \<Rightarrow> Inr (item, p'\<lparr>m_pool := rest, d_alloc_count := s32 (d_alloc_count p' + 1)\<rparr>)))"

definition deque_release :: "ptr \<Rightarrow> deque_pool \<Rightarrow> deque_pool result" where
  "deque_release pItem p =
     Inr (p\<lparr>d_release_count := s32 (d_release_count p + 1), m_pool := m_pool p @ [pItem]\<rparr>)"

definition deque_inv :: "deque_pool \<Rightarrow> ptr set \<Rightarrow> bool" where
  "deque_inv p used \<longleftrightarrow> heap_ok (raw p) \<and> 1 \<le> d_grow p \<and> d_grow p < 2 ^ 31 \<and> distinct (m_pool p) \<and>
     set (m_pool p) \<inter> used = {} \<and> {x. live (raw p) x} = set (m_pool p) \<union> used"

lemma inflate_n_ok:
  "deque_inv p used \<Longrightarrow> deque_inv (inflate_n n p) used \<and> length (m_pool (inflate_n n p)) = length (m_pool p) + n"
proof (induction n arbitrary: p)
  case (Suc n)
  let ?p = "p\<lparr>raw := snd (heap_new () (raw p)), m_pool := m_pool p @ [fresh (raw p)]\<rparr>"
  have ok: "heap_ok (raw p)"
    using Suc.prems by (simp add: deque_inv_def)
  have "fresh (raw p) \<notin> set (m_pool p) \<union> used"
    using Suc.prems fresh_not_live [OF ok] unfolding deque_inv_def by blast
  then have "deque_inv ?p used"
    using Suc.prems heap_ok_new [OF ok] live_new [OF ok] by (auto simp: deque_inv_def)
  from Suc.IH [OF this] show ?case
    by (simp add: heap_new_def)
qed simp

interpretation deque: object_pool deque_inv deque_acquire deque_release
proof unfold_locales
  fix p used
  assume inv: "deque_inv p used"
  obtain p' where p': "(if deque_empty p then deque_inflate (d_grow p) p else Inr p) = Inr p'" "deque_inv p' used" "m_pool p' \<noteq> []"
  proof (cases "deque_empty p")
    case True
    have "deque_inv (inflate_n (nat (d_grow p)) p) used" "m_pool (inflate_n (nat (d_grow p)) p) \<noteq> []"
      using inflate_n_ok [OF inv, of "nat (d_grow p)"] inv by (auto simp: deque_inv_def simp flip: length_greater_0_conv)
    with True that [of "inflate_n (nat (d_grow p)) p"] inv show thesis
      by (auto simp: deque_inv_def deque_inflate_def)
  next
    case False
    with that [of p] inv show thesis by (auto simp: deque_empty_def)
  qed
  then obtain x rest where "m_pool p' = x # rest"
    by (auto simp: neq_Nil_conv)
  moreover from this p'(2) have "live (raw p') x" "x \<notin> used" "x \<noteq> 0"
    by (auto simp: deque_inv_def live_def)
  ultimately show "\<exists>x p'. deque_acquire p = Some (Inr (x, p')) \<and> x \<noteq> 0 \<and> x \<notin> used \<and> deque_inv p' (insert x used)"
    using p' by (auto simp: deque_acquire_def deque_inv_def)
  fix y
  assume "y \<in> used"
  with inv show "\<exists>p'. deque_release y p = Inr p' \<and> deque_inv p' (used - {y})"
    by (auto simp: deque_release_def deque_inv_def)
qed

subsection \<open>The smart pool of objpool.h\<close>

text \<open>
  \<open>alive\<close> is whether the pool, and with it the shared pointer its deleters watch,
  still exists.
\<close>

record 't smart_pool =
  sobjs :: "'t store"
  spool :: "ptr list"
  alive :: bool

definition SmartObjectPool :: "'t store \<Rightarrow> 't smart_pool" where
  "SmartObjectPool h = \<lparr>sobjs = h, spool = [], alive = True\<rparr>"

definition smart_add :: "ptr \<Rightarrow> 't smart_pool \<Rightarrow> 't smart_pool" where
  "smart_add x p = p\<lparr>spool := x # spool p\<rparr>"

definition smart_empty :: "'t smart_pool \<Rightarrow> bool" where
  "smart_empty p = (spool p = [])"

definition smart_size :: "'t smart_pool \<Rightarrow> int" where
  "smart_size p = int (length (spool p))"

definition smart_acquire :: "'t smart_pool \<Rightarrow> (ptr \<times> 't smart_pool) result" where
  "smart_acquire p =
     (if smart_empty p then Inl OutOfRange
      else (let tmp = hd (spool p) in Inr (tmp, p\<lparr>spool := tl (spool p)\<rparr>)))"

definition smart_deleter :: "ptr \<Rightarrow> 't smart_pool \<Rightarrow> 't smart_pool result" where
  "smart_deleter x p =
     (if alive p then Inr (smart_add x p)
      else rbind (heap_delete x (sobjs p)) (\<lambda>h. Inr (p\<lparr>sobjs := h\<rparr>)))"

fun delete_all :: "ptr list \<Rightarrow> 't store \<Rightarrow> 't store result" where
  "delete_all [] h = Inr h"
| "delete_all (x # xs) h = rbind (heap_delete x h) (delete_all xs)"

definition destroy_smart :: "'t smart_pool \<Rightarrow> 't smart_pool result" where
  "destroy_smart p = rbind (delete_all (spool p) (sobjs p)) (\<lambda>h. Inr \<lparr>sobjs = h, spool = [], alive = False\<rparr>)"

text \<open>A client: it adds objects, acquires them, drops its smart pointers, and destroys the pool, in any order.\<close>

inductive smart_step :: "'t smart_pool \<times> ptr list \<Rightarrow> 't smart_pool \<times> ptr list \<Rightarrow> bool" where
  add: "alive p \<Longrightarrow> heap_new t (sobjs p) = (x, h) \<Longrightarrow> smart_step (p, used) (smart_add x (p\<lparr>sobjs := h\<rparr>), used)"
| acquire: "alive p \<Longrightarrow> smart_acquire p = Inr (x, p') \<Longrightarrow> smart_step (p, used) (p', used @ [x])"
| drop: "k < length used \<Longrightarrow> smart_deleter (used ! k) p = Inr p' \<Longrightarrow>
     smart_step (p, used) (p', take k used @ drop (Suc k) used)"
| destroy: "alive p \<Longrightarrow> destroy_smart p = Inr p' \<Longrightarrow> smart_step (p, used) (p', used)"

inductive smart_reach :: "'t smart_pool \<times> ptr list \<Rightarrow> bool" where
  start: "smart_reach (SmartObjectPool empty_store, [])"
| step: "smart_reach s \<Longrightarrow> smart_step s s' \<Longrightarrow> smart_reach s'"

definition smart_inv :: "'t smart_pool \<Rightarrow> ptr list \<Rightarrow> bool" where
  "smart_inv p used \<longleftrightarrow> heap_ok (sobjs p) \<and> distinct (spool p @ used) \<and>
     {x. live (sobjs p) x} = set (spool p) \<union> set used \<and> (\<not> alive p \<longrightarrow> spool p = [])"

lemma heap_delete_ok:
  assumes "heap_ok h" "live h x"
  obtains h' where "heap_delete x h = Inr h'" "heap_ok h'" "\<And>y. live h' y \<longleftrightarrow> y \<noteq> x \<and> live h y"
proof -
  from assms(2) obtain c where c: "cells h x = Some c" "x \<noteq> 0"
    by (auto simp: live_def)
  show thesis
    by (rule that [OF heap_delete_live [OF c] heap_ok_update [OF assms]]) (auto simp: live_def)
qed

lemma delete_all_ok:
  assumes "heap_ok h" "distinct xs" "\<And>x. x \<in> set xs \<Longrightarrow> live h x"
  shows "\<exists>h'. delete_all xs h = Inr h' \<and> heap_ok h' \<and> (\<forall>y. live h' y \<longleftrightarrow> y \<notin> set xs \<and> live h y)"
  using assms
proof (induction xs arbitrary: h)
  case (Cons x xs)
  obtain h1 where h1: "heap_delete x h = Inr h1" "heap_ok h1" "\<And>y. live h1 y \<longleftrightarrow> y \<noteq> x \<and> live h y"
    using heap_delete_ok [OF Cons.prems(1)] Cons.prems(3) by (metis list.set_intros(1))
  have "\<And>y. y \<in> set xs \<Longrightarrow> live h1 y"
    using h1(3) Cons.prems by auto
  from Cons.IH [OF h1(2)] this Cons.prems(2) h1(1,3) show ?case by auto
qed simp

lemma smart_deleter_ok:
  assumes "smart_inv p used" "k < length used"
  shows "\<exists>p'. smart_deleter (used ! k) p = Inr p' \<and> smart_inv p' (take k used @ drop (Suc k) used)"
proof (cases "alive p")
  case True
  have "distinct used"
    using assms(1) by (simp add: smart_inv_def)
  note rest = remove_nth [OF this assms(2)]
  show ?thesis
    using True assms rest by (auto simp: smart_deleter_def smart_add_def smart_inv_def simp del: set_append)
next
  case False
  have d: "distinct used" "heap_ok (sobjs p)" "spool p = []" "{x. live (sobjs p) x} = set used"
    using assms(1) False by (auto simp: smart_inv_def)
  note rest = remove_nth [OF d(1) assms(2)]
  have "live (sobjs p) (used ! k)"
    using d(4) assms(2) nth_mem by blast
  from heap_delete_ok [OF d(2) this] obtain h where h:
    "heap_delete (used ! k) (sobjs p) = Inr h" "heap_ok h" "\<And>y. live h y \<longleftrightarrow> y \<noteq> used ! k \<and> live (sobjs p) y"
    by metis
  have "{x. live h x} = set (take k used @ drop (Suc k) used)"
    using h(3) d(4) rest(2) by blast
  then show ?thesis
    using False h(1,2) d(3) rest(1) by (simp add: smart_deleter_def smart_inv_def)
qed

lemma destroy_smart_ok:
  assumes "smart_inv p used"
  shows "\<exists>p'. destroy_smart p = Inr p' \<and> smart_inv p' used"
proof -
  have d: "distinct (spool p @ used)" "heap_ok (sobjs p)" "{x. live (sobjs p) x} = set (spool p) \<union> set used"
    using assms by (simp_all add: smart_inv_def)
  have "\<And>x. x \<in> set (spool p) \<Longrightarrow> live (sobjs p) x"
    using d(3) by blast
  from delete_all_ok [OF d(2), of "spool p"] this d(1) obtain h where h: "delete_all (spool p) (sobjs p) = Inr h" "heap_ok h"
    "\<forall>y. live h y \<longleftrightarrow> y \<notin> set (spool p) \<and> live (sobjs p) y"
    by auto
  then have "{x. live h x} = set used"
    using d(1,3) by auto
  with h(1,2) d(1) show ?thesis
    by (simp add: destroy_smart_def smart_inv_def)
qed

lemma smart_step_inv: "smart_step s s' \<Longrightarrow> smart_inv (fst s) (snd s) \<Longrightarrow> smart_inv (fst s') (snd s')"
proof (induction rule: smart_step.induct)
  case (add p t x h used)
  have ok: "heap_ok (sobjs p)"
    using add.prems by (simp add: smart_inv_def)
  have h: "h = snd (heap_new t (sobjs p))" "x = fresh (sobjs p)"
    using add.hyps(2) by (auto simp: heap_new_def)
  have "x \<notin> set (spool p) \<union> set used"
    using add.prems fresh_not_live [OF ok] unfolding smart_inv_def h by auto
  then show ?case
    using add heap_ok_new [OF ok] live_new [OF ok] by (auto simp: smart_inv_def smart_add_def h)
next
  case (acquire p x p' used)
  then show ?case
    by (cases "spool p") (auto simp: smart_acquire_def smart_empty_def smart_inv_def)
next
  case (drop k used p p')
  then show ?case
    using smart_deleter_ok [of p used k] by auto
next
  case (destroy p p' used)
  then show ?case
    using destroy_smart_ok [of p used] by auto
qed

lemma smart_reach_inv: "smart_reach s \<Longrightarrow> smart_inv (fst s) (snd s)"
proof (induction rule: smart_reach.induct)
  case start
  show ?case
    by (simp add: smart_inv_def SmartObjectPool_def heap_ok_empty live_empty)
qed (rule smart_step_inv)

subsection \<open>The intrusive pool of pool.h\<close>

text \<open>
  \<open>built_as_T\<close> records which of the pool's elements were built as a \<open>T\<close>:
  \<open>inflate\<close> builds plain \<open>Element\<close>s.
\<close>

record element = hook +
  built_as_T :: bool

record elem_pool =
  eheap :: "element store"
  e_head :: ptr
  e_tail :: ptr
  e_grow :: int

fun elem_inflate :: "nat \<Rightarrow> elem_pool \<Rightarrow> elem_pool result" where
  "elem_inflate 0 p = Inr p"
| "elem_inflate (Suc n) p =
     (let pTmp = e_tail p in
      if pTmp \<noteq> 0 then
        (let (e, h) = heap_new \<lparr>nextp = 0, built_as_T = False\<rparr> (eheap p) in
         rbind (set_next h pTmp e) (\<lambda>h'. elem_inflate n (p\<lparr>eheap := h', e_tail := e\<rparr>)))
      else elem_inflate n p)"

definition Pool :: "int \<Rightarrow> int \<Rightarrow> element store \<Rightarrow> elem_pool result" where
  "Pool sz grow h =
     (let (pItem, h') = heap_new \<lparr>nextp = 0, built_as_T = True\<rparr> h in
      elem_inflate (nat grow) \<lparr>eheap = h', e_head = pItem, e_tail = pItem, e_grow = grow\<rparr>)"

text \<open>With assertions off the function ends without returning a value.\<close>

definition elem_acquire :: "bool \<Rightarrow> elem_pool \<Rightarrow> (ptr \<times> elem_pool) result" where
  "elem_acquire ndebug p =
     (if e_head p \<noteq> 0 then
        (let pItem = e_head p in
         rbind (get_next (eheap p) pItem) (\<lambda>n.
           let p' = p\<lparr>e_head := n\<rparr> in
           rbind (if n = 0 then elem_inflate (nat (e_grow p)) p' else Inr p') (\<lambda>p''. Inr (pItem, p''))))
      else rbind (c_assert ndebug False) (\<lambda>_. Inl Uninitialised))"

definition elem_release :: "bool \<Rightarrow> ptr \<Rightarrow> elem_pool \<Rightarrow> elem_pool result" where
  "elem_release ndebug pElem p =
     (if e_tail p \<noteq> 0 then
        rbind (set_next (eheap p) (e_tail p) pElem) (\<lambda>h.
        rbind (set_next h pElem 0) (\<lambda>h'. Inr (p\<lparr>eheap := h', e_tail := pElem\<rparr>)))
      else rbind (c_assert ndebug False) (\<lambda>_. Inr p))"

fun elem_acquire_n :: "bool \<Rightarrow> nat \<Rightarrow> elem_pool \<Rightarrow> (ptr list \<times> elem_pool) result" where
  "elem_acquire_n ndebug 0 p = Inr ([], p)"
| "elem_acquire_n ndebug (Suc n) p =
     rbind (elem_acquire ndebug p) (\<lambda>(x, p').
     rbind (elem_acquire_n ndebug n p') (\<lambda>(xs, p''). Inr (x # xs, p'')))"

lemma elem_inflate_ok:
  assumes "heap_ok (eheap p)" "cells (eheap p) (e_tail p) = Some c" "nextp c = 0"
  shows "\<exists>p' new. elem_inflate n p = Inr p' \<and> e_head p' = e_head p \<and> e_grow p' = e_grow p \<and> heap_ok (eheap p') \<and>
    (\<exists>c. cells (eheap p') (e_tail p') = Some c \<and> nextp c = 0) \<and> length new = n \<and>
    (\<forall>q qs. linked (eheap p) q (qs @ [e_tail p]) \<longrightarrow> linked (eheap p') q (qs @ e_tail p # new) \<and>
        e_tail p' = last (e_tail p # new))"
  using assms
proof (induction n arbitrary: p c)
  case (Suc n)
  note ok = Suc.prems(1)
  let ?e = "fresh (eheap p)" and ?t = "e_tail p"
  let ?h1 = "snd (heap_new \<lparr>nextp = 0, built_as_T = False\<rparr> (eheap p))"
  let ?h = "?h1\<lparr>cells := (cells ?h1)(?t \<mapsto> c\<lparr>nextp := ?e\<rparr>)\<rparr>"
  have t: "?t \<noteq> 0" "?t \<noteq> ?e" "?e \<noteq> 0" "cells (eheap p) ?e = None"
    using live_nonzero [OF ok Suc.prems(2)] live_below_fresh [OF ok Suc.prems(2)] ok by (auto simp: heap_ok_def)
  have h1: "cells ?h1 ?t = Some c" "cells ?h1 ?e = Some \<lparr>nextp = 0, built_as_T = False\<rparr>"
    using t Suc.prems(2) by (simp_all add: heap_new_def)
  let ?p = "p\<lparr>eheap := ?h, e_tail := ?e\<rparr>"
  have step: "elem_inflate (Suc n) p = elem_inflate n ?p"
    using t set_next_live [OF h1(1) t(1)] by (simp add: heap_new_def)
  have okh: "heap_ok (eheap ?p)"
    using heap_ok_update [OF heap_ok_new [OF ok], of "\<lparr>nextp = 0, built_as_T = False\<rparr>" ?t] h1(1) t(1) by (simp add: live_def)
  have ce: "cells (eheap ?p) (e_tail ?p) = Some \<lparr>nextp = 0, built_as_T = False\<rparr>"
    using t by (simp add: heap_new_def)
  have grow: "linked ?h q (qs @ [?t, ?e])" if l: "linked (eheap p) q (qs @ [?t])" for q qs
  proof -
    have "?t \<notin> set qs" "?e \<notin> set (qs @ [?t])"
      using linked_distinct [OF l] linked_live [OF l, of ?e] t by auto
    with l show ?thesis
      using t by (induction qs arbitrary: q) (auto simp: heap_new_def split: option.splits if_splits)
  qed
  from Suc.IH [OF okh ce] obtain p' new where IH: "elem_inflate n ?p = Inr p'" "e_head p' = e_head p" "e_grow p' = e_grow p"
    "heap_ok (eheap p')" "\<exists>c. cells (eheap p') (e_tail p') = Some c \<and> nextp c = 0" "length new = n"
    "\<And>q qs. linked ?h q (qs @ [?e]) \<Longrightarrow> linked (eheap p') q (qs @ ?e # new) \<and> e_tail p' = last (?e # new)"
    by auto
  have "linked (eheap p') q (qs @ ?t # ?e # new) \<and> e_tail p' = last (?t # ?e # new)"
    if "linked (eheap p) q (qs @ [?t])" for q qs
    using IH(7) [of q "qs @ [?t]"] grow [OF that] by simp
  with IH(1-6) step show ?case
    by (intro exI [of _ p'] exI [of _ "?e # new"]) auto
qed auto

lemma elem_acquire_all:
  assumes "heap_ok (eheap p)" "linked (eheap p) (e_head p) ps" "ps \<noteq> []" "last ps = e_tail p"
  shows "\<exists>p'. elem_acquire_n ndebug (length ps) p = Inr (ps, p') \<and> e_head p' = 0"
  using assms
proof (induction ps arbitrary: p)
  case (Cons x ps)
  from Cons.prems(2) obtain c where c: "cells (eheap p) x = Some c" "linked (eheap p) (nextp c) ps" "e_head p = x" "x \<noteq> 0"
    by (auto split: option.splits)
  show ?case
  proof (cases "ps = []")
    case True
    with c have "nextp c = 0" by simp
    moreover have "x = e_tail p"
      using Cons.prems(4) True by simp
    moreover obtain p' where "elem_inflate (nat (e_grow p)) (p\<lparr>e_head := 0\<rparr>) = Inr p'" "e_head p' = 0"
      using elem_inflate_ok [of "p\<lparr>e_head := 0\<rparr>" c "nat (e_grow p)"] Cons.prems(1) c(1) calculation by auto
    ultimately show ?thesis
      using True c by (simp add: elem_acquire_def get_next_live)
  next
    case False
    then have n: "nextp c \<noteq> 0"
      using c(2) by (cases ps) auto
    obtain p' where "elem_acquire_n ndebug (length ps) (p\<lparr>e_head := nextp c\<rparr>) = Inr (ps, p')" "e_head p' = 0"
      using Cons.IH [of "p\<lparr>e_head := nextp c\<rparr>"] Cons.prems(1,4) c(2) False by auto
    with n c show ?thesis
      by (simp add: elem_acquire_def get_next_live)
  qed
qed simp

lemma Pool_ok:
  assumes "0 \<le> grow"
  shows "\<exists>p ps. Pool sz grow empty_store = Inr p \<and> heap_ok (eheap p) \<and> linked (eheap p) (e_head p) ps \<and>
    length ps = nat grow + 1 \<and> last ps = e_tail p"
proof -
  let ?h = "snd (heap_new \<lparr>nextp = 0, built_as_T = True\<rparr> empty_store)"
  let ?p = "\<lparr>eheap = ?h, e_head = 1, e_tail = 1, e_grow = grow\<rparr>"
  have "heap_ok ?h"
    by (intro heap_ok_new heap_ok_empty)
  moreover have "cells ?h 1 = Some \<lparr>nextp = 0, built_as_T = True\<rparr>"
    by (simp add: heap_new_def empty_store_def)
  moreover from this have "linked ?h 1 ([] @ [1])"
    by simp
  ultimately obtain p new where "elem_inflate (nat grow) ?p = Inr p" "e_head p = 1" "heap_ok (eheap p)" "length new = nat grow"
    "linked (eheap p) 1 ([] @ 1 # new)" "e_tail p = last (1 # new)"
    using elem_inflate_ok [of ?p "\<lparr>nextp = 0, built_as_T = True\<rparr>" "nat grow"] by (auto simp del: append_Nil)
  then show ?thesis
    by (intro exI [of _ p] exI [of _ "1 # new"]) (auto simp: Pool_def heap_new_def empty_store_def)
qed

subsection \<open>Properties\<close>

definition fresh_alloc :: "'t atomic_allocator" where
  "fresh_alloc = \<lparr>objs = empty_store, listHead = 0, wrappers = empty_store\<rparr>"

lemma alloc_repr_fresh: "alloc_repr fresh_alloc []"
  by (simp add: alloc_repr_def fresh_alloc_def list_repr_empty heap_ok_empty)

lemma pool_inv_fresh: "pool_inv (ObjectPool fresh_alloc sz grow) {}"
  using alloc_repr_fresh by (auto simp: pool_inv_def alloc_inv_def ObjectPool_def)


text \<open>
  The atomic allocator leaks: after \<open>n\<close> acquisitions from a new pool, \<open>n\<close>
  objects are in use, \<open>20 * n\<close> objects exist, and the free list is empty, so that no
  later call ever returns the other \<open>19 * n\<close>.
\<close>

theorem pool_leaks:
  "\<exists>used p. pool_run (pool_acquire ndebug spurious t0) (pool_release ndebug spurious dtor) (replicate n Acquire)
      ([], ObjectPool fresh_alloc sz grow) = Some (Inr (used, p)) \<and>
    length used = n \<and> listHead (pool_alloc p) = 0 \<and> card {x. live (objs (pool_alloc p)) x} = 20 * n"
proof -
  have "\<exists>used' q. pool_run (pool_acquire ndebug spurious t0) (pool_release ndebug spurious dtor) (replicate n Acquire)
      (used, p) = Some (Inr (used', q)) \<and> length used' = length used + n \<and> listHead (pool_alloc q) = 0 \<and>
      card {x. live (objs (pool_alloc q)) x} = card {x. live (objs (pool_alloc p)) x} + 20 * n"
    if "pool_inv p (set used)" "listHead (pool_alloc p) = 0" for used and p :: "'a message_pool"
    using that
  proof (induction n arbitrary: used p)
    case (Suc n)
    from pool_acquire_ok [OF Suc.prems(1), of ndebug spurious t0] obtain x p' where
      x: "pool_acquire ndebug spurious t0 p = Some (Inr (x, p'))" "pool_inv p' (set (used @ [x]))"
      by auto
    have "alloc_inv (pool_alloc p) (set used)"
      using Suc.prems(1) by (simp add: pool_inv_def)
    from atomic_alloc_grows [OF this Suc.prems(2), of ndebug spurious t0] x(1)
    have "listHead (pool_alloc p') = 0"
      "card {y. live (objs (pool_alloc p')) y} = card {y. live (objs (pool_alloc p)) y} + 20"
      by (auto simp: pool_acquire_def)
    with Suc.IH [OF x(2)] x(1) show ?case by auto
  qed simp
  from this [of "ObjectPool fresh_alloc sz grow" "[]"] pool_inv_fresh [of sz grow] show ?thesis
    by (auto simp: ObjectPool_def fresh_alloc_def live_empty)
qed

text \<open>
  The deque pool with a positive growth step: acquisitions and releases in any order
  return without a fault and never hand out an object twice.
\<close>

theorem deque_pool_hands_out_once:
  assumes "0 \<le> sz" "sz < 2 ^ 31" "1 \<le> grow" "grow < 2 ^ 31"
  shows "\<exists>p0 used p. deque_new sz grow empty_store = Inr p0 \<and> deque_size p0 = sz \<and>
    pool_run deque_acquire deque_release ops ([], p0) = Some (Inr (used, p)) \<and> distinct used \<and> 0 \<notin> set used"
proof -
  let ?e = "\<lparr>raw = empty_store, m_pool = [], d_grow = grow, d_alloc_count = 0, d_release_count = 0\<rparr>"
  have "deque_inv ?e {}"
    using assms by (simp add: deque_inv_def heap_ok_empty live_empty)
  from inflate_n_ok [OF this, of "nat sz"] assms have "deque_inv (inflate_n (nat sz) ?e) (set [])"
    "int (length (m_pool (inflate_n (nat sz) ?e))) = sz"
    by simp_all
  with deque.run_distinct [OF this(1), of ops] assms show ?thesis
    by (auto simp: deque_new_def deque_inflate_def deque_size_def)
qed

theorem deque_pool_hands_out_once_witness:
  "\<exists>p0 used p. deque_new 100 10 empty_store = Inr p0 \<and> deque_size p0 = 100 \<and>
    pool_run deque_acquire deque_release [Acquire, Acquire, Release 0, Acquire] ([], p0) = Some (Inr (used, p)) \<and>
    distinct used \<and> 0 \<notin> set used"
  by (rule deque_pool_hands_out_once) simp_all

text \<open>
  The smart pool: whatever the client does, destroying the pool before or after its
  smart pointers included, every live object is either in the pool or held by exactly one
  smart pointer, nothing is deleted twice, and once the pool is gone only the objects
  still held are live.
\<close>

theorem smart_pool_no_leak:
  assumes "smart_reach (p, used)"
  shows "distinct (spool p @ used) \<and> {x. live (sobjs p) x} = set (spool p) \<union> set used \<and>
    (\<not> alive p \<longrightarrow> {x. live (sobjs p) x} = set used) \<and>
    (\<forall>k < length used. \<exists>p'. smart_deleter (used ! k) p = Inr p') \<and> (\<exists>p'. destroy_smart p = Inr p')"
proof -
  have inv: "smart_inv p used"
    using smart_reach_inv [OF assms] by simp
  have "\<forall>k < length used. \<exists>p'. smart_deleter (used ! k) p = Inr p'" "\<exists>p'. destroy_smart p = Inr p'"
    using smart_deleter_ok [OF inv] destroy_smart_ok [OF inv] by blast+
  moreover have "distinct (spool p @ used)" "{x. live (sobjs p) x} = set (spool p) \<union> set used" "\<not> alive p \<longrightarrow> spool p = []"
    using inv by (simp_all add: smart_inv_def)
  ultimately show ?thesis
    by auto
qed

theorem smart_pool_no_leak_witness:
  "\<exists>p :: nat smart_pool. smart_reach (p, [1]) \<and> spool p = [] \<and> {x. live (sobjs p) x} = {1} \<and> (\<exists>p'. smart_deleter 1 p = Inr p')"
proof -
  let ?h = "snd (heap_new (5 :: nat) empty_store)"
  let ?p = "smart_add 1 (SmartObjectPool ?h)"
  have "smart_step (SmartObjectPool (empty_store :: nat store), []) (smart_add 1 ((SmartObjectPool empty_store)\<lparr>sobjs := ?h\<rparr>), [])"
    by (rule smart_step.add [of _ 5]) (simp_all add: SmartObjectPool_def heap_new_def empty_store_def)
  then have r: "smart_reach (?p, [])"
    using smart_reach.step [OF smart_reach.start] by (simp add: SmartObjectPool_def)
  have "smart_step (?p, []) (SmartObjectPool ?h, [] @ [1])"
    by (rule smart_step.acquire) (simp_all add: SmartObjectPool_def smart_add_def smart_acquire_def smart_empty_def)
  then have r: "smart_reach (SmartObjectPool ?h, [1])"
    using smart_reach.step [OF r] by simp
  from smart_pool_no_leak [OF r] r show ?thesis
    by (intro exI [of _ "SmartObjectPool ?h"]) (auto simp: SmartObjectPool_def)
qed

text \<open>
  The intrusive pool does not grow: it hands out \<open>grow + 1\<close> distinct elements, and
  from then on every acquisition fails, also after elements have been released.
\<close>

theorem elem_pool_exhausts:
  assumes "0 \<le> grow"
  shows "\<exists>p0 xs p. Pool sz grow empty_store = Inr p0 \<and> elem_acquire_n ndebug (nat grow + 1) p0 = Inr (xs, p) \<and>
    distinct xs \<and> elem_acquire ndebug p = Inl (if ndebug then Uninitialised else AssertFail) \<and>
    (\<forall>x p'. elem_release ndebug x p = Inr p' \<longrightarrow>
       elem_acquire ndebug p' = Inl (if ndebug then Uninitialised else AssertFail))"
proof -
  from Pool_ok [OF assms, of sz] obtain p0 ps where p0: "Pool sz grow empty_store = Inr p0" "heap_ok (eheap p0)"
    "linked (eheap p0) (e_head p0) ps" "length ps = nat grow + 1" "last ps = e_tail p0"
    by blast
  moreover from p0(4) have "ps \<noteq> []" by auto
  ultimately obtain p where "elem_acquire_n ndebug (nat grow + 1) p0 = Inr (ps, p)" "e_head p = 0"
    using elem_acquire_all [of p0 ps ndebug] by auto
  moreover from this have "e_head p' = 0" if "elem_release ndebug x p = Inr p'" for x p'
    using that by (auto simp: elem_release_def rbind_eq_Inr split: if_splits)
  ultimately show ?thesis
    using p0(1) linked_distinct [OF p0(3)] by (auto simp: elem_acquire_def c_assert_def)
qed

theorem elem_pool_exhausts_witness:
  "\<exists>p0 xs p. Pool 20 20 empty_store = Inr p0 \<and> elem_acquire_n True 21 p0 = Inr (xs, p) \<and>
    distinct xs \<and> elem_acquire True p = Inl Uninitialised"
  using elem_pool_exhausts [of 20 20 True] by auto

end
