(* ===== verification/Byte_Channel.thy ===== *)
theory Byte_Channel
  imports Net_Prelude
begin

text \<open>
  The contract between a session and its outgoing buffer.  Both back ends queue bytes
  with a \<open>put\<close> that may refuse and hand the queued bytes to the socket with a
  \<open>drain\<close> whose argument says how many of them the socket took (zero or less when
  \<open>send\<close> failed).  The client lemma is the stream property: whatever is accepted
  reaches the wire in order, without loss and without repetition.
\<close>

datatype 'a chan_op = Put "'a list" | Drain "'a list \<Rightarrow> int"

definition taken :: "('a list \<Rightarrow> int) \<Rightarrow> 'a list \<Rightarrow> 'a list" where
  "taken h bs = take (nat (h bs)) bs"

fun channel_run ::
  "('a list \<Rightarrow> 'b \<Rightarrow> (bool \<times> 'b) result) \<Rightarrow> (('a list \<Rightarrow> int) \<Rightarrow> 'b \<Rightarrow> 'b result) \<Rightarrow>
   ('b \<Rightarrow> 'a list) \<Rightarrow> 'a chan_op list \<Rightarrow> 'b \<Rightarrow> ('a list \<times> 'a list \<times> 'b) result" where
  "channel_run put drain contents [] b = Inr ([], [], b)"
| "channel_run put drain contents (Put xs # ops) b =
     rbind (put xs b) (\<lambda>(ok, b').
     rbind (channel_run put drain contents ops b') (\<lambda>(accepted, wire, b'').
       Inr ((if ok then xs else []) @ accepted, wire, b'')))"
| "channel_run put drain contents (Drain h # ops) b =
     rbind (drain h b) (\<lambda>b'.
     rbind (channel_run put drain contents ops b') (\<lambda>(accepted, wire, b'').
       Inr (accepted, taken h (contents b) @ wire, b'')))"

fun op_ok :: "('a list \<Rightarrow> bool) \<Rightarrow> 'a chan_op \<Rightarrow> bool" where
  "op_ok admissible (Put xs) = admissible xs"
| "op_ok admissible (Drain h) = (\<forall>bs. h bs \<le> int (length bs))"

locale byte_channel =
  fixes inv :: "'b \<Rightarrow> bool"
    and contents :: "'b \<Rightarrow> 'a list"
    and admissible :: "'a list \<Rightarrow> bool"
    and put :: "'a list \<Rightarrow> 'b \<Rightarrow> (bool \<times> 'b) result"
    and drain :: "('a list \<Rightarrow> int) \<Rightarrow> 'b \<Rightarrow> 'b result"
  assumes put_law: "inv b \<Longrightarrow> admissible xs \<Longrightarrow>
      \<exists>ok b'. put xs b = Inr (ok, b') \<and> inv b' \<and> contents b' = (if ok then contents b @ xs else contents b)"
    and drain_law: "inv b \<Longrightarrow> h (contents b) \<le> int (length (contents b)) \<Longrightarrow>
      \<exists>b'. drain h b = Inr b' \<and> inv b' \<and> contents b' = drop (nat (h (contents b))) (contents b)"
begin

lemma stream:
  assumes "inv b" and "list_all (op_ok admissible) ops"
  shows "\<exists>accepted wire b'. channel_run put drain contents ops b = Inr (accepted, wire, b') \<and>
           inv b' \<and> contents b @ accepted = wire @ contents b'"
  using assms
proof (induction ops arbitrary: b)
  case Nil
  then show ?case by simp
next
  case (Cons op ops)
  show ?case
  proof (cases op)
    case (Put xs)
    with Cons.prems have "inv b" "admissible xs" and ops: "list_all (op_ok admissible) ops"
      by auto
    from put_law [OF this(1,2)] obtain ok b1 where step: "put xs b = Inr (ok, b1)" "inv b1"
      "contents b1 = (if ok then contents b @ xs else contents b)"
      by blast
    from Cons.IH [OF step(2) ops] obtain a w b' where
      "channel_run put drain contents ops b1 = Inr (a, w, b')" "inv b'" "contents b1 @ a = w @ contents b'"
      by blast
    with step Put show ?thesis by (auto split: if_splits)
  next
    case (Drain h)
    with Cons.prems have "inv b" "h (contents b) \<le> int (length (contents b))"
      and ops: "list_all (op_ok admissible) ops"
      by auto
    from drain_law [of b h, OF this(1,2)] obtain b1 where step: "drain h b = Inr b1" "inv b1"
      "contents b1 = drop (nat (h (contents b))) (contents b)"
      by blast
    from Cons.IH [OF step(2) ops] obtain a w b' where run:
      "channel_run put drain contents ops b1 = Inr (a, w, b')" "inv b'" "contents b1 @ a = w @ contents b'"
      by blast
    have "contents b @ a = taken h (contents b) @ contents b1 @ a"
      by (simp add: taken_def step(3))
    with step run Drain show ?thesis by simp
  qed
qed

end

end
