(* ===== verification/Send_Buffer.thy ===== *)
theory Send_Buffer
  imports Byte_Channel
begin

text \<open>
  The outgoing byte buffer of a session (\<open>src/detail/sendbuffer.hpp\<close>): a linear
  array with a head and a tail index, compacted on demand.  The template parameter
  \<open>BufferSize\<close> is the argument \<open>N\<close>.  The theory holds the two operations
  \<open>push\<close> and \<open>pop\<close>, the byte-channel interface they implement, and a
  step relation that splits \<open>pop\<close> at its lock boundaries, so that a concurrent
  \<open>push\<close> can run between them.
\<close>

record send_buffer =
  dataHead :: int
  dataTail :: int
  dataBuf :: "byte list"

definition SendBuffer :: "byte list \<Rightarrow> send_buffer" where
  "SendBuffer mem = \<lparr>dataHead = 0, dataTail = 0, dataBuf = mem\<rparr>"

text \<open>
  \<open>push\<close>: the first test compacts or gives up, the second one copies or gives up.
  Both compare the \<open>int\<close> difference \<open>BufferSize - dataTail\<close> with the
  \<open>unsigned int\<close> length, so the difference is converted first.
\<close>

definition make_room :: "int \<Rightarrow> send_buffer \<Rightarrow> int \<Rightarrow> (bool \<times> send_buffer) result" where
  "make_room N sb dataLen =
     (if u32 (N - dataTail sb) < dataLen then
        (if dataHead sb > 0 then
           (let leftSize = dataTail sb - dataHead sb in
            if leftSize > 0 then
              rbind (memmove (dataBuf sb) 0 (dataHead sb) leftSize)
                (\<lambda>buf. Inr (True, sb\<lparr>dataBuf := buf, dataHead := 0, dataTail := leftSize\<rparr>))
            else Inr (True, sb\<lparr>dataHead := 0, dataTail := 0\<rparr>))
         else Inr (False, sb))
      else Inr (True, sb))"

definition push :: "bool \<Rightarrow> int \<Rightarrow> send_buffer \<Rightarrow> byte list \<Rightarrow> int \<Rightarrow> (bool \<times> send_buffer) result" where
  "push ndebug N sb pData dataLen =
     rbind (c_assert ndebug (dataLen \<le> u32 N)) (\<lambda>_.
     rbind (make_room N sb dataLen) (\<lambda>(go_on, sb).
       if \<not> go_on then Inr (False, sb)
       else if u32 (N - dataTail sb) > dataLen then
         rbind (memcpy (dataBuf sb) (dataTail sb) pData dataLen)
           (\<lambda>buf. Inr (True, sb\<lparr>dataBuf := buf, dataTail := s32 (u32 (dataTail sb) + dataLen)\<rparr>))
       else Inr (False, sb)))"

text \<open>
  \<open>pop\<close> in its three parts: measuring under the lock, the call of the handler
  without the lock, and the update under the lock again.  The handler sees the array from
  \<open>dataHead\<close> on and the measured length.
\<close>

definition pop_measure :: "send_buffer \<Rightarrow> int" where
  "pop_measure sb = dataTail sb - dataHead sb"

definition pop_finish :: "send_buffer \<Rightarrow> int \<Rightarrow> int \<Rightarrow> bool \<times> send_buffer" where
  "pop_finish sb dataLen popLen =
     (if popLen \<le> 0 then (False, sb)
      else if popLen < dataLen then (True, sb\<lparr>dataHead := dataHead sb + popLen\<rparr>)
      else (True, sb\<lparr>dataHead := 0, dataTail := 0\<rparr>))"

type_synonym 'w data_handler = "byte list \<Rightarrow> int \<Rightarrow> 'w \<Rightarrow> int \<times> 'w"

definition pop :: "'w data_handler \<Rightarrow> send_buffer \<Rightarrow> 'w \<Rightarrow> (bool \<times> send_buffer \<times> 'w) result" where
  "pop handler sb w =
     (let dataLen = pop_measure sb in
      rbind (mem_read (dataBuf sb) (dataHead sb) dataLen) (\<lambda>bytes.
        let (popLen, w') = handler bytes (u32 dataLen) w;
            (ok, sb') = pop_finish sb dataLen popLen
        in Inr (ok, sb', w')))"

definition sb_inv :: "int \<Rightarrow> send_buffer \<Rightarrow> bool" where
  "sb_inv N sb \<longleftrightarrow>
     0 < N \<and> N < 2 ^ 31 \<and> int (length (dataBuf sb)) = N \<and>
     0 \<le> dataHead sb \<and> dataHead sb \<le> dataTail sb \<and> dataTail sb \<le> N"

definition sb_contents :: "send_buffer \<Rightarrow> byte list" where
  "sb_contents sb = region (dataBuf sb) (dataHead sb) (dataTail sb)"

lemma sb_inv_init: "0 < length mem \<Longrightarrow> int (length mem) < 2 ^ 31 \<Longrightarrow>
    sb_inv (int (length mem)) (SendBuffer mem) \<and> sb_contents (SendBuffer mem) = []"
  by (simp add: sb_inv_def SendBuffer_def sb_contents_def)

lemma length_sb_contents: "sb_inv N sb \<Longrightarrow> int (length (sb_contents sb)) = dataTail sb - dataHead sb"
  by (simp add: sb_inv_def sb_contents_def length_region)

text \<open>Making room never faults, keeps the invariant and keeps the queued bytes.\<close>

lemma make_room_ok:
  assumes "sb_inv N sb"
  obtains ok sb' where "make_room N sb dataLen = Inr (ok, sb')" "sb_inv N sb'"
    "sb_contents sb' = sb_contents sb"
    "ok \<longleftrightarrow> \<not> (N - dataTail sb < dataLen \<and> dataHead sb = 0)"
    "N - dataTail sb < dataLen \<and> dataHead sb > 0 \<longrightarrow> dataTail sb' = dataTail sb - dataHead sb"
    "N - dataTail sb \<ge> dataLen \<or> dataHead sb = 0 \<longrightarrow> sb' = sb"
proof -
  have u: "u32 (N - dataTail sb) = N - dataTail sb"
    using assms by (simp add: sb_inv_def)
  let ?l = "dataTail sb - dataHead sb"
  show thesis
  proof (cases "N - dataTail sb < dataLen \<and> dataHead sb > 0 \<and> ?l > 0")
    case True
    obtain buf where "memmove (dataBuf sb) 0 (dataHead sb) ?l = Inr buf"
      and "length buf = length (dataBuf sb)" "region buf 0 ?l = sb_contents sb"
      using assms by (rule_tac memmove_front [of "dataHead sb" ?l "dataBuf sb"])
        (auto simp: sb_inv_def sb_contents_def)
    then show thesis
      using assms True
      by (intro that [of True "sb\<lparr>dataBuf := buf, dataHead := 0, dataTail := ?l\<rparr>"])
        (auto simp: make_room_def u Let_def sb_inv_def sb_contents_def)
  next
    case False
    then show thesis
      using assms
      by (intro that [of "\<not> (N - dataTail sb < dataLen \<and> dataHead sb = 0)"
            "if N - dataTail sb < dataLen \<and> dataHead sb > 0
             then sb\<lparr>dataHead := 0, dataTail := 0\<rparr> else sb"])
        (auto simp: make_room_def u Let_def sb_inv_def sb_contents_def)
  qed
qed

definition push_fits :: "int \<Rightarrow> send_buffer \<Rightarrow> int \<Rightarrow> bool" where
  "push_fits N sb dataLen \<longleftrightarrow>
     dataLen < N - dataTail sb \<or>
     dataHead sb > 0 \<and> N - dataTail sb < dataLen \<and> dataLen < N - (dataTail sb - dataHead sb)"

lemma push_ok:
  assumes inv: "sb_inv N sb" and len: "0 \<le> dataLen" "dataLen < 2 ^ 32" "dataLen \<le> int (length pData)"
    and nd: "ndebug \<or> dataLen \<le> N"
  obtains sb' where "push ndebug N sb pData dataLen = Inr (push_fits N sb dataLen, sb')"
    "sb_inv N sb'"
    "sb_contents sb' =
       (if push_fits N sb dataLen then sb_contents sb @ take (nat dataLen) pData else sb_contents sb)"
proof -
  obtain ok sb1 where room: "make_room N sb dataLen = Inr (ok, sb1)" and inv1: "sb_inv N sb1"
    and cont: "sb_contents sb1 = sb_contents sb"
    and ok: "ok \<longleftrightarrow> \<not> (N - dataTail sb < dataLen \<and> dataHead sb = 0)"
    and moved: "N - dataTail sb < dataLen \<and> dataHead sb > 0 \<longrightarrow> dataTail sb1 = dataTail sb - dataHead sb"
    and stays: "N - dataTail sb \<ge> dataLen \<or> dataHead sb = 0 \<longrightarrow> sb1 = sb"
    using make_room_ok [OF inv] .
  have u: "u32 N = N" "u32 (N - dataTail sb1) = N - dataTail sb1" "u32 (dataTail sb1) = dataTail sb1"
    using inv1 by (simp_all add: sb_inv_def)
  have fits: "push_fits N sb dataLen \<longleftrightarrow> ok \<and> dataLen < N - dataTail sb1"
    using ok moved stays inv by (auto simp: push_fits_def sb_inv_def)
  let ?d = "take (nat dataLen) pData"
  show thesis
  proof (cases "push_fits N sb dataLen")
    case True
    let ?t = "dataTail sb1"
    let ?buf = "take (nat ?t) (dataBuf sb1) @ ?d @ drop (nat ?t + nat dataLen) (dataBuf sb1)"
    have copied: "memcpy (dataBuf sb1) ?t pData dataLen = Inr ?buf"
      using inv1 True fits len by (intro memcpy_ok) (auto simp: sb_inv_def)
    have "s32 (?t + dataLen) = ?t + dataLen"
      using inv1 True fits len by (simp add: sb_inv_def)
    then have "push ndebug N sb pData dataLen = Inr (True, sb1\<lparr>dataBuf := ?buf, dataTail := ?t + dataLen\<rparr>)"
      using True fits nd len copied by (simp add: push_def room u c_assert_def)
    moreover have "region ?buf (dataHead sb1) (?t + dataLen) = sb_contents sb1 @ ?d"
      using region_write_append [of "dataHead sb1" ?t "dataBuf sb1" ?d] inv1 len
      by (simp add: sb_inv_def sb_contents_def)
    ultimately show thesis
      using True fits inv1 len cont memcpy_length [OF copied]
      by (intro that [of "sb1\<lparr>dataBuf := ?buf, dataTail := ?t + dataLen\<rparr>"])
        (auto simp: sb_inv_def sb_contents_def)
  next
    case False
    then have "push ndebug N sb pData dataLen = Inr (False, sb1)"
      using fits nd by (auto simp: push_def room u c_assert_def)
    then show thesis
      using False inv1 cont by (intro that [of sb1]) auto
  qed
qed

lemma pop_finish_ok:
  assumes "sb_inv N sb" and "popLen \<le> pop_measure sb"
  shows "sb_inv N (snd (pop_finish sb (pop_measure sb) popLen))"
    and "sb_contents (snd (pop_finish sb (pop_measure sb) popLen)) = drop (nat popLen) (sb_contents sb)"
    and "fst (pop_finish sb (pop_measure sb) popLen) \<longleftrightarrow> 0 < popLen"
  using assms length_sb_contents [OF assms(1)]
  by (auto simp: pop_finish_def pop_measure_def sb_inv_def sb_contents_def drop_region)

lemma pop_ok:
  assumes inv: "sb_inv N sb" and h: "handler (sb_contents sb) (int (length (sb_contents sb))) w = (popLen, w')"
    and bound: "popLen \<le> int (length (sb_contents sb))"
  obtains sb' where "pop handler sb w = Inr (0 < popLen, sb', w')" "sb_inv N sb'"
    "sb_contents sb' = drop (nat popLen) (sb_contents sb)"
proof -
  let ?n = "pop_measure sb"
  have n: "int (length (sb_contents sb)) = ?n" "u32 ?n = ?n"
    using inv length_sb_contents [OF inv] by (auto simp: pop_measure_def sb_inv_def)
  have "mem_read (dataBuf sb) (dataHead sb) ?n = Inr (sb_contents sb)"
    using inv by (simp add: mem_read_ok sb_inv_def sb_contents_def pop_measure_def)
  then have "pop handler sb w = Inr (fst (pop_finish sb ?n popLen), snd (pop_finish sb ?n popLen), w')"
    using h by (simp add: pop_def n Let_def split: prod.splits)
  then show thesis
    using pop_finish_ok [OF inv, of popLen] bound n that by simp
qed

definition sb_put :: "int \<Rightarrow> byte list \<Rightarrow> send_buffer \<Rightarrow> (bool \<times> send_buffer) result" where
  "sb_put N xs sb = push True N sb xs (int (length xs))"

definition sb_drain :: "(byte list \<Rightarrow> int) \<Rightarrow> send_buffer \<Rightarrow> send_buffer result" where
  "sb_drain h sb = rbind (pop (\<lambda>bytes len _. (h bytes, ())) sb ()) (\<lambda>(_, sb', _). Inr sb')"

definition u32_sized :: "'a list \<Rightarrow> bool" where
  "u32_sized xs \<longleftrightarrow> int (length xs) < 2 ^ 32"

interpretation sb_chan: byte_channel "sb_inv N" sb_contents u32_sized "sb_put N" sb_drain
  for N :: int
proof unfold_locales
  fix sb and xs :: "byte list"
  assume "sb_inv N sb" "u32_sized xs"
  then show "\<exists>ok sb'. sb_put N xs sb = Inr (ok, sb') \<and> sb_inv N sb' \<and>
      sb_contents sb' = (if ok then sb_contents sb @ xs else sb_contents sb)"
    by (rule_tac push_ok [of N sb "int (length xs)" xs True]) (auto simp: sb_put_def u32_sized_def)
next
  fix sb h
  assume "sb_inv N sb" "h (sb_contents sb) \<le> int (length (sb_contents sb))"
  then show "\<exists>sb'. sb_drain h sb = Inr sb' \<and> sb_inv N sb' \<and>
      sb_contents sb' = drop (nat (h (sb_contents sb))) (sb_contents sb)"
    by (rule_tac pop_ok [of N sb "\<lambda>bytes len _. (h bytes, ())" "()"]) (auto simp: sb_drain_def)
qed

subsection \<open>Concurrent use\<close>

text \<open>
  \<open>async_send\<close> may be called from any thread while the event loop is inside
  \<open>pop\<close>.  One step is one critical section, or the call of the handler, which
  runs without the lock.  \<open>accepted\<close> and \<open>wire\<close> are history variables:
  the bytes whose \<open>push\<close> returned true, and the bytes the handler sent.
\<close>

datatype pop_pc = PopIdle | Measured int | Handled int int

record send_system =
  sbuf :: send_buffer
  popper :: pop_pc
  accepted :: "byte list"
  wire :: "byte list"

definition send_init :: "byte list \<Rightarrow> send_system" where
  "send_init mem = \<lparr>sbuf = SendBuffer mem, popper = PopIdle, accepted = [], wire = []\<rparr>"

inductive send_step :: "int \<Rightarrow> send_system \<Rightarrow> send_system \<Rightarrow> bool" for N :: int where
  push_step: "u32_sized pData \<Longrightarrow> push True N (sbuf s) pData (int (length pData)) = Inr (ok, sb') \<Longrightarrow>
     send_step N s (s\<lparr>sbuf := sb', accepted := accepted s @ (if ok then pData else [])\<rparr>)"
| measure_step: "popper s = PopIdle \<Longrightarrow>
     send_step N s (s\<lparr>popper := Measured (pop_measure (sbuf s))\<rparr>)"
| handle_step: "popper s = Measured n \<Longrightarrow> mem_read (dataBuf (sbuf s)) (dataHead (sbuf s)) n = Inr bytes \<Longrightarrow>
     k \<le> n \<Longrightarrow> send_step N s (s\<lparr>popper := Handled n k, wire := wire s @ take (nat k) bytes\<rparr>)"
| finish_step: "popper s = Handled n k \<Longrightarrow>
     send_step N s (s\<lparr>sbuf := snd (pop_finish (sbuf s) n k), popper := PopIdle\<rparr>)"

text \<open>
  A pop is overtaken when the handler took everything that was measured although more was
  queued meanwhile: \<open>pop\<close> then resets both indices.
\<close>

fun overtaken :: "send_system \<Rightarrow> bool" where
  "overtaken s = (case popper s of
     Handled n k \<Rightarrow> 0 < k \<and> n \<le> k \<and> n < pop_measure (sbuf s) | _ \<Rightarrow> False)"

inductive send_reach :: "bool \<Rightarrow> int \<Rightarrow> send_system \<Rightarrow> send_system \<Rightarrow> bool"
  for race :: bool and N :: int and s0 :: send_system where
  start: "send_reach race N s0 s0"
| step: "send_reach race N s0 s \<Longrightarrow> send_step N s s' \<Longrightarrow> race \<or> \<not> overtaken s \<Longrightarrow> send_reach race N s0 s'"

fun pop_bounds :: "send_buffer \<Rightarrow> pop_pc \<Rightarrow> bool" where
  "pop_bounds sb PopIdle = True"
| "pop_bounds sb (Measured n) = (0 \<le> n \<and> n \<le> pop_measure sb)"
| "pop_bounds sb (Handled n k) = (k \<le> n \<and> 0 \<le> n \<and> n \<le> pop_measure sb)"

fun in_flight :: "pop_pc \<Rightarrow> int" where
  "in_flight (Handled n k) = k"
| "in_flight _ = 0"

definition safe_inv :: "int \<Rightarrow> send_system \<Rightarrow> bool" where
  "safe_inv N s \<longleftrightarrow> sb_inv N (sbuf s) \<and> pop_bounds (sbuf s) (popper s)"

definition stream_inv :: "send_system \<Rightarrow> bool" where
  "stream_inv s \<longleftrightarrow> accepted s = wire s @ drop (nat (in_flight (popper s))) (sb_contents (sbuf s))"

lemma measure_contents: "sb_inv N sb \<Longrightarrow> pop_measure sb = int (length (sb_contents sb))"
  by (simp add: length_sb_contents pop_measure_def)

lemma push_contents:
  assumes "sb_inv N sb" "u32_sized pData" "push True N sb pData (int (length pData)) = Inr (ok, sb')"
  shows "sb_inv N sb' \<and> sb_contents sb' = sb_contents sb @ (if ok then pData else [])"
  using sb_chan.put_law [OF assms(1,2)] assms(3) by (auto simp: sb_put_def)

lemma pop_bounds_mono:
  "pop_bounds sb pc \<Longrightarrow> pop_measure sb \<le> pop_measure sb' \<Longrightarrow> pop_bounds sb' pc"
  by (cases pc) auto

lemma pop_finish_inv:
  assumes "sb_inv N sb" "k \<le> n" "n \<le> pop_measure sb"
  shows "sb_inv N (snd (pop_finish sb n k))"
  using assms by (auto simp: pop_finish_def sb_inv_def pop_measure_def)

lemma safe_inv_step: "send_step N s s' \<Longrightarrow> safe_inv N s \<Longrightarrow> safe_inv N s'"
proof (induction rule: send_step.induct)
  case (push_step pData s ok sb')
  then have inv: "sb_inv N (sbuf s)"
    by (simp add: safe_inv_def)
  note pushed = push_contents [OF inv push_step.hyps]
  then have "pop_measure (sbuf s) \<le> pop_measure sb'"
    using measure_contents [OF inv] measure_contents [of N sb'] by simp
  with pushed push_step.prems show ?case
    by (auto simp: safe_inv_def intro: pop_bounds_mono)
next
  case (finish_step s n k)
  then show ?case by (simp add: safe_inv_def pop_finish_inv)
qed (auto simp: safe_inv_def pop_measure_def sb_inv_def)

lemma finish_contents:
  assumes "sb_inv N sb" "k \<le> n" "n \<le> pop_measure sb" "\<not> (0 < k \<and> n \<le> k \<and> n < pop_measure sb)"
  shows "sb_contents (snd (pop_finish sb n k)) = drop (nat k) (sb_contents sb)"
proof (cases "n = pop_measure sb")
  case True
  then show ?thesis
    using pop_finish_ok(2) [OF assms(1), of k] assms(2) by simp
next
  case False
  with assms show ?thesis
    by (auto simp: pop_finish_def sb_contents_def drop_region sb_inv_def)
qed

lemma stream_inv_step:
  "send_step N s s' \<Longrightarrow> safe_inv N s \<Longrightarrow> \<not> overtaken s \<Longrightarrow> stream_inv s \<Longrightarrow> stream_inv s'"
proof (induction rule: send_step.induct)
  case (push_step pData s ok sb')
  then have inv: "sb_inv N (sbuf s)" and "pop_bounds (sbuf s) (popper s)"
    by (simp_all add: safe_inv_def)
  then have "nat (in_flight (popper s)) \<le> length (sb_contents (sbuf s))"
    using measure_contents [OF inv] by (cases "popper s") auto
  with push_contents [OF inv push_step.hyps] push_step.prems show ?case
    by (simp add: stream_inv_def)
next
  case (handle_step s n bytes k)
  let ?c = "sb_contents (sbuf s)"
  from handle_step have inv: "sb_inv N (sbuf s)" and n: "0 \<le> n" "n \<le> int (length ?c)"
    using measure_contents [of N "sbuf s"] by (auto simp: safe_inv_def)
  have "bytes = take (nat n) ?c"
    using handle_step.hyps(2) n inv
    by (auto simp: mem_read_def sb_contents_def region_def min_def sb_inv_def split: if_splits)
  then have "take (nat k) bytes = take (nat k) ?c"
    using handle_step.hyps(3) by (simp add: min_def nat_mono)
  then show ?case
    using handle_step by (simp add: stream_inv_def)
next
  case (finish_step s n k)
  then show ?case
    by (simp add: stream_inv_def safe_inv_def finish_contents [of N])
qed (auto simp: stream_inv_def)

lemma safe_inv_init:
  "0 < length mem \<Longrightarrow> int (length mem) < 2 ^ 31 \<Longrightarrow> safe_inv (int (length mem)) (send_init mem)"
  using sb_inv_init by (simp add: safe_inv_def send_init_def)

lemma send_reach_safe:
  "send_reach race N s0 s \<Longrightarrow> safe_inv N s0 \<Longrightarrow> safe_inv N s"
  by (induction rule: send_reach.induct) (auto intro: safe_inv_step)

lemma send_reach_stream:
  "send_reach False N s0 s \<Longrightarrow> safe_inv N s0 \<Longrightarrow> stream_inv s0 \<Longrightarrow> stream_inv s"
  by (induction rule: send_reach.induct) (auto intro: stream_inv_step send_reach_safe)

text \<open>An overtaken pop always loses the bytes queued behind its back.\<close>

lemma overtaken_loses:
  assumes "safe_inv N s" "stream_inv s" "overtaken s" "popper s = Handled n k"
  shows "accepted s \<noteq> wire s @ sb_contents (snd (pop_finish (sbuf s) n k))"
  using assms measure_contents [of N "sbuf s"]
  by (auto simp: safe_inv_def stream_inv_def pop_finish_def sb_contents_def)

subsection \<open>Properties\<close>



text \<open>
  (C6) The stream property of the outgoing buffer: any sequence of pushes and pops, with a
  \<open>send\<close> that takes at most what it is offered, runs without fault, and the bytes put on
  the wire followed by the bytes still queued are exactly the bytes queued at the start
  followed by the accepted ones, in order.
\<close>

theorem sendbuffer_stream:
  assumes "sb_inv N sb" and "list_all (op_ok u32_sized) ops"
  shows "\<exists>acc w sb'. channel_run (sb_put N) sb_drain sb_contents ops sb = Inr (acc, w, sb') \<and>
           sb_inv N sb' \<and> sb_contents sb @ acc = w @ sb_contents sb'"
  using assms by (rule sb_chan.stream)

theorem sendbuffer_stream_witness:
  "\<exists>acc w sb'. channel_run (sb_put 4) sb_drain sb_contents
       [Put [1, 2, 3], Drain (\<lambda>bs. min 2 (int (length bs))), Put [4, 5]] (SendBuffer [0, 0, 0, 0]) =
       Inr (acc, w, sb') \<and> sb_inv 4 sb' \<and> [] @ acc = w @ sb_contents sb'"
  using sendbuffer_stream [of 4 "SendBuffer [0, 0, 0, 0]"
      "[Put [1, 2, 3], Drain (\<lambda>bs. min 2 (int (length bs))), Put [4, 5]]"]
  by (simp add: sb_inv_def SendBuffer_def u32_sized_def sb_contents_def)

text \<open>
  Memory safety under concurrency: in every interleaving of pushes with the three parts of
  \<open>pop\<close>, the buffer stays well formed and the range the handler reads without the lock
  lies inside the array.
\<close>

theorem sendbuffer_race_safe:
  assumes "send_reach True N (send_init mem) s" and "N = int (length mem)"
    and "0 < length mem" and "int (length mem) < 2 ^ 31"
  shows "sb_inv N (sbuf s) \<and>
         (\<forall>n. popper s = Measured n \<longrightarrow>
            (\<exists>bytes. mem_read (dataBuf (sbuf s)) (dataHead (sbuf s)) n = Inr bytes))"
proof -
  have "safe_inv N s"
    using send_reach_safe [OF assms(1)] safe_inv_init [OF assms(3,4)] assms(2) by simp
  then show ?thesis
    by (auto simp: safe_inv_def sb_inv_def pop_measure_def mem_read_def)
qed

lemma send_run_measured:
  "send_reach False 4 (send_init [0, 0, 0, 0])
     \<lparr>sbuf = \<lparr>dataHead = 0, dataTail = 1, dataBuf = [1, 0, 0, 0]\<rparr>, popper = Measured 1,
      accepted = [1], wire = []\<rparr>"
proof -
  let ?s1 = "\<lparr>sbuf = \<lparr>dataHead = 0, dataTail = 1, dataBuf = [1, 0, 0, 0]\<rparr>, popper = PopIdle,
      accepted = [1], wire = []\<rparr> :: send_system"
  have "push True 4 (sbuf (send_init [0, 0, 0, 0])) [1] (int (length [1::byte])) =
      Inr (True, \<lparr>dataHead = 0, dataTail = 1, dataBuf = [1, 0, 0, 0]\<rparr>)"
    by (simp add: push_def make_room_def memcpy_def mem_read_def mem_write_def send_init_def SendBuffer_def)
  then have "send_step 4 (send_init [0, 0, 0, 0]) ?s1"
    using send_step.push_step [of "[1]" 4 "send_init [0, 0, 0, 0]"]
    by (simp add: u32_sized_def send_init_def)
  moreover have "send_step 4 ?s1 (?s1\<lparr>popper := Measured 1\<rparr>)"
    using send_step.measure_step [of ?s1 4] by (simp add: pop_measure_def)
  ultimately show ?thesis
    using send_reach.step [OF send_reach.step [OF send_reach.start]]
    by (fastforce simp: send_init_def)
qed

lemma send_reach_race: "send_reach False N s0 s \<Longrightarrow> send_reach race N s0 s"
  by (induction rule: send_reach.induct) (auto intro: send_reach.intros)

theorem sendbuffer_race_safe_witness:
  "\<exists>s. send_reach True 4 (send_init [0, 0, 0, 0]) s \<and> popper s = Measured 1 \<and>
       (\<exists>bytes. mem_read (dataBuf (sbuf s)) (dataHead (sbuf s)) 1 = Inr bytes)"
proof -
  obtain s where s: "send_reach True 4 (send_init [0, 0, 0, 0]) s" "popper s = Measured 1"
    using send_reach_race [OF send_run_measured] by fastforce
  with sendbuffer_race_safe [OF s(1)] show ?thesis
    by auto
qed



text \<open>
  The lock is given up during the handler, and this loses data: a push accepted while the
  handler runs is dropped when the handler took everything that had been measured.
\<close>

theorem sendbuffer_race_loses:
  "\<exists>s. send_reach True 4 (send_init [0, 0, 0, 0]) s \<and> popper s = PopIdle \<and>
       accepted s = [1, 2] \<and> wire s = [1] \<and> sb_contents (sbuf s) = []"
proof -
  let ?b = "\<lambda>h t. \<lparr>dataHead = h, dataTail = t, dataBuf = [1, 2, 0, 0]\<rparr> :: send_buffer"
  let ?s0 = "\<lparr>sbuf = \<lparr>dataHead = 0, dataTail = 1, dataBuf = [1, 0, 0, 0]\<rparr>, popper = Measured 1,
      accepted = [1], wire = []\<rparr> :: send_system"
  let ?s1 = "\<lparr>sbuf = ?b 0 2, popper = Measured 1, accepted = [1, 2], wire = []\<rparr> :: send_system"
  let ?s2 = "?s1\<lparr>popper := Handled 1 1, wire := [1]\<rparr>"
  let ?s3 = "?s2\<lparr>sbuf := ?b 0 0, popper := PopIdle\<rparr>"
  have "push True 4 (sbuf ?s0) [2] (int (length [2::byte])) = Inr (True, ?b 0 2)"
    by (simp add: push_def make_room_def memcpy_def mem_read_def mem_write_def numeral_2_eq_2)
  then have 1: "send_step 4 ?s0 ?s1"
    using send_step.push_step [of "[2]" 4 ?s0] by (simp add: u32_sized_def)
  have 2: "send_step 4 ?s1 ?s2"
    using send_step.handle_step [of ?s1 1 "[1]" 1 4] by (simp add: mem_read_def)
  have 3: "send_step 4 ?s2 ?s3"
    using send_step.finish_step [of ?s2 1 1 4] by (simp add: pop_finish_def)
  have "send_reach True 4 (send_init [0, 0, 0, 0]) ?s3"
    by (rule send_reach.step [OF send_reach.step [OF send_reach.step
          [OF send_reach_race [OF send_run_measured] 1] 2] 3]) auto
  then show ?thesis
    by (intro exI [of _ ?s3]) (simp add: sb_contents_def)
qed

end
