(* ===== verification/Net_World.thy ===== *)
theory Net_World
  imports Recv_Loop Spsc_Ring Object_Pools Send_Buffer
begin

text \<open>
  What the back ends share: the types of \<open>src/tinynet.hpp\<close>, the limits of
  \<open>src/detail/plat.h\<close>, the state of the running program and its interface to the
  outside.  The operating system is a parameter: one function from a system call and the
  kernel's state to the call's outcome and the kernel's new state.  Every call made is also
  recorded in \<open>trace\<close> with its return value, and \<open>errno\<close> keeps its old value when a
  call succeeds.  The user's session class, the session factory and the event handler
  are parameters too; a method of the session class gets its own address, the session and the
  rest of the program's state.
\<close>

subsection \<open>Enumerations and constants\<close>

definition RET_OK :: int where "RET_OK = 0"
definition RET_ERR :: int where "RET_ERR = -1"
definition RET_ERR_SOCKET :: int where "RET_ERR_SOCKET = -100"
definition RET_ERR_CONNECT :: int where "RET_ERR_CONNECT = -101"
definition RET_ERR_LISTEN :: int where "RET_ERR_LISTEN = -102"
definition RET_ERR_BIND :: int where "RET_ERR_BIND = -103"
definition RET_ERR_BUFSIZE :: int where "RET_ERR_BUFSIZE = -104"

lemmas net_rets = RET_OK_def RET_ERR_def RET_ERR_SOCKET_def RET_ERR_CONNECT_def RET_ERR_LISTEN_def
  RET_ERR_BIND_def RET_ERR_BUFSIZE_def

datatype NetEvent =
    EVT_BIND | EVT_LISTEN | EVT_LISTEN_FAIL | EVT_CONNECT | EVT_CONNECT_FAIL | EVT_RECV | EVT_SEND
  | EVT_DISCONNECT | EVT_SESSION_CREATE | EVT_SESSION_RELEASE

definition MAX_THREAD :: int where "MAX_THREAD = 50"
definition MAX_WAIT_EVENT :: int where "MAX_WAIT_EVENT = 128"

definition EAGAIN :: int where "EAGAIN = 11"
definition EWOULDBLOCK :: int where "EWOULDBLOCK = 11"
definition EINVAL :: int where "EINVAL = 22"

record properties =
  parser :: bool
  reuse :: bool
  app_run :: bool
  cfg_backlogs :: int
  scheds :: int
  cfg_threads :: int

definition Properties :: properties where
  "Properties = \<lparr>parser = False, reuse = True, app_run = False, cfg_backlogs = 0, scheds = 1, cfg_threads = 1\<rparr>"

record 'm MsgPackage =
  pkg_session :: ptr
  pkg_message :: "'m option"

text \<open>\<open>SessionFactory\<close>, the default factory.\<close>

definition factory_create :: "'s \<Rightarrow> 's store \<Rightarrow> ptr \<times> 's store" where
  "factory_create t0 h = heap_new t0 h"

definition factory_release :: "ptr \<Rightarrow> 's store \<Rightarrow> 's store result" where
  "factory_release pT h = heap_delete pT h"

subsection \<open>System calls\<close>

datatype ev_data = DataPtr ptr | DataFd int

fun data_ptr :: "ev_data \<Rightarrow> ptr" where
  "data_ptr (DataPtr p) = p"
| "data_ptr (DataFd f) = nat (u32 f)"

fun data_fd :: "ev_data \<Rightarrow> int" where
  "data_fd (DataFd f) = f"
| "data_fd (DataPtr p) = s32 (int p)"

record epoll_event =
  ev_events :: "32 word"
  ev_data :: ev_data

datatype epoll_op = EPOLL_CTL_ADD | EPOLL_CTL_MOD | EPOLL_CTL_DEL

text \<open>A change to a kqueue, or an event it reports: descriptor, filter, flags and user data.\<close>

record kevent =
  kident :: int
  kfilter :: int
  kflags :: int
  kudata :: ev_data

datatype thread_fn = ProcessorRun int | AppRun | ListenerRun | SchedulerRun int

datatype sys_call =
    Epoll_create int
  | Epoll_ctl int epoll_op int "epoll_event option"
  | Epoll_wait int int int
  | Fcntl_setfd int int
  | Fcntl_getfl int
  | Fcntl_setfl int int
  | Close int
  | Recv int int
  | Send int "byte list"
  | Socket
  | Setsockopt_reuse int
  | Bind int int int
  | Listen int int
  | Accept int
  | Connect int int int
  | Thread_create thread_fn
  | Thread_join thread_fn
  | Usleep int
  | Kqueue
  | Kevent_change int "kevent list"
  | Kevent_wait int int int
  | Read int int
  | Write int "byte list"
  | Getpeername int
  | CreateIoCompletionPort int int ptr int
  | CloseHandle int
  | PostQueuedCompletionStatus int int ptr
  | GetQueuedCompletionStatus int
  | WSASocket
  | WSAAccept int
  | WSARecv int int
  | Closesocket int
  | Shutdown int
  | Sleep int
  | Clock_gettime
  | Sem_init int
  | Sem_destroy
  | Sem_wait
  | Sem_trywait
  | Sem_timedwait int int
  | Sem_post

text \<open>
  What a call brings back: its value, the error number of a failure, the bytes read, the events
  reported, the peer's address or the time in seconds and nanoseconds, and the key of a completed
  operation.
\<close>

record sys_ret =
  ret :: int
  err :: int
  rdata :: "byte list"
  revents :: "epoll_event list"
  raddr :: "int \<times> int"
  rkevents :: "kevent list"
  rkey :: ptr

type_synonym 'k os = "sys_call \<Rightarrow> 'k \<Rightarrow> sys_ret \<times> 'k"

text \<open>
  What is relied on of \<open>recv\<close>: it stores at most as many bytes as it was given room for,
  and exactly as many as it returns.
\<close>

definition recv_documented :: "'k os \<Rightarrow> bool" where
  "recv_documented os \<longleftrightarrow> (\<forall>f n k. let r = fst (os (Recv f n) k) in
     int (length (rdata r)) = max 0 (ret r) \<and> ret r \<le> max 0 n)"

subsection \<open>The program's state\<close>

record 'k os_state =
  kernel :: 'k
  errno :: int
  trace :: "(sys_call \<times> int) list"

definition os_call :: "'k os \<Rightarrow> sys_call \<Rightarrow> ('k, 'z) os_state_scheme \<Rightarrow> sys_ret \<times> ('k, 'z) os_state_scheme" where
  "os_call sys c st =
     (let (r, k') = sys c (kernel st) in
      (r, st\<lparr>kernel := k', errno := (if ret r < 0 then err r else errno st),
            trace := trace st @ [(c, ret r)]\<rparr>))"

definition os_do :: "'k os \<Rightarrow> sys_call \<Rightarrow> ('k, 'z) os_state_scheme \<Rightarrow> ('k, 'z) os_state_scheme" where
  "os_do sys c st = snd (os_call sys c st)"

definition calls :: "('k, 'z) os_state_scheme \<Rightarrow> sys_call list" where
  "calls st = map fst (trace st)"

lemma calls_syscall [simp]: "calls (snd (os_call sys c st)) = calls st @ [c]"
  by (simp add: calls_def os_call_def split: prod.splits)

lemma calls_do_call [simp]: "calls (os_do sys c st) = calls st @ [c]"
  by (simp add: os_do_def)

lemma more_os_call [simp]: "os_state.more (snd (os_call sys c st)) = os_state.more st"
  by (simp add: os_call_def split: prod.splits)

lemma more_os_do [simp]: "os_state.more (os_do sys c st) = os_state.more st"
  by (simp add: os_do_def)

record scheduler =
  epollFd :: int
  procFds :: "int list"
  sched_threads :: int

record ('s, 'k) session_net = "'k os_state" +
  sessions :: "'s store"

record ('s, 'm, 'k) net = "('s, 'k) session_net" +
  scheder :: scheduler
  running :: bool
  procThreads :: "int list"
  msgQueues :: "ptr spscqueue list"
  msgPool :: "'m MsgPackage message_pool"
  config :: properties
  appThread :: bool

type_synonym ('s, 'm, 'k) event_handler =
  "NetEvent \<Rightarrow> ptr \<Rightarrow> ('s, 'm, 'k) net \<Rightarrow> (ptr \<times> ('s, 'm, 'k) net) result"

type_synonym ('s, 'm, 'k) callback = "ptr \<Rightarrow> 's \<times> ('s, 'm, 'k) net \<Rightarrow> ('s \<times> ('s, 'm, 'k) net) result"

record ('s, 'm, 'k) env =
  os :: "'k os"
  ndebug :: bool
  read_packet :: framer
  on_connect :: "('s, 'm, 'k) callback"
  on_disconnect :: "('s, 'm, 'k) callback"
  on_recv :: "byte list \<Rightarrow> ('s, 'm, 'k) callback"
  on_send :: "int \<Rightarrow> int \<Rightarrow> ('s, 'm, 'k) callback"
  parse_message :: "byte list \<Rightarrow> 'm option"
  on_message :: "'m option \<Rightarrow> ('s, 'm, 'k) callback"
  create :: "'s store \<Rightarrow> ptr \<times> 's store"
  release :: "ptr \<Rightarrow> 's store \<Rightarrow> 's store result"
  handler :: "('s, 'm, 'k) event_handler option"

abbreviation syscall :: "('s, 'm, 'k) env \<Rightarrow> sys_call \<Rightarrow> ('s, 'm, 'k) net \<Rightarrow> sys_ret \<times> ('s, 'm, 'k) net" where
  "syscall env \<equiv> os_call (os env)"

abbreviation do_call :: "('s, 'm, 'k) env \<Rightarrow> sys_call \<Rightarrow> ('s, 'm, 'k) net \<Rightarrow> ('s, 'm, 'k) net" where
  "do_call env \<equiv> os_do (os env)"

lemmas syscall_def = os_call_def
lemmas do_call_def = os_do_def

text \<open>A method called through a pointer to its session.\<close>

definition with_session ::
  "ptr \<Rightarrow> (ptr \<Rightarrow> 's \<times> ('s, 'k, 'z) session_net_scheme \<Rightarrow> ('s \<times> ('s, 'k, 'z) session_net_scheme) result) \<Rightarrow>
   ('s, 'k, 'z) session_net_scheme \<Rightarrow> ('s, 'k, 'z) session_net_scheme result" where
  "with_session p f st =
     rbind (deref (sessions st) p) (\<lambda>s.
     rbind (f p (s, st)) (\<lambda>(s', st').
     rbind (assign (sessions st') p s') (\<lambda>h. Inr (st'\<lparr>sessions := h\<rparr>))))"

definition notify :: "('s, 'm, 'k) env \<Rightarrow> NetEvent \<Rightarrow> ptr \<Rightarrow> ('s, 'm, 'k) net \<Rightarrow> ('s, 'm, 'k) net result" where
  "notify env evt p st =
     (case handler env of None \<Rightarrow> Inr st | Some h \<Rightarrow> rbind (h evt p st) (\<lambda>(_, st'). Inr st'))"

lemma sessions_os_call [simp]:
  "sessions (snd (os_call sys c st)) = sessions st" for st :: "('s, 'k, 'z) session_net_scheme"
  by (simp add: os_call_def split: prod.splits)

lemma sessions_after: "os_call sys c st = (r, st') \<Longrightarrow> sessions st' = sessions st"
  for st :: "('s, 'k, 'z) session_net_scheme"
  using sessions_os_call [of sys c st] by simp

lemma calls_after: "os_call sys c st = (r, st') \<Longrightarrow> calls st' = calls st @ [c]"
  using calls_syscall [of sys c st] by simp

lemma sessions_os_do [simp]:
  "sessions (os_do sys c st) = sessions st" for st :: "('s, 'k, 'z) session_net_scheme"
  by (simp add: os_do_def)

lemma syscall_simps [simp]:
  "scheder (snd (os_call sys c st)) = scheder st"
  "running (snd (os_call sys c st)) = running st"
  "procThreads (snd (os_call sys c st)) = procThreads st"
  "msgQueues (snd (os_call sys c st)) = msgQueues st"
  "msgPool (snd (os_call sys c st)) = msgPool st"
  "config (snd (os_call sys c st)) = config st"
  "appThread (snd (os_call sys c st)) = appThread st"
  for st :: "('s, 'm, 'k) net"
  by (simp_all add: os_call_def split: prod.splits)

lemma do_call_simps [simp]:
  "scheder (os_do sys c st) = scheder st"
  "running (os_do sys c st) = running st"
  "procThreads (os_do sys c st) = procThreads st"
  "msgQueues (os_do sys c st) = msgQueues st"
  "msgPool (os_do sys c st) = msgPool st"
  "config (os_do sys c st) = config st"
  "appThread (os_do sys c st) = appThread st"
  for st :: "('s, 'm, 'k) net"
  by (simp_all add: os_do_def)

lemma syscall_snd: "os_call sys c st = (r, st') \<Longrightarrow> st' = os_do sys c st"
  by (simp add: os_do_def)

subsection \<open>The older back ends\<close>

text \<open>
  What the kqueue and the completion-port back end take from outside.  Their virtual
  \<open>on_connect\<close> is called inside a \<open>try\<close> block, so it also tells whether it threw; the
  state a callback leaves when it throws is the one the handler of the exception finds.
\<close>

datatype owner = NoOwner | OwnedByListener | OwnedByConnector | OwnedByService

type_synonym ('s, 'w) method_of = "ptr \<Rightarrow> 's \<times> 'w \<Rightarrow> ('s \<times> 'w) result"
type_synonym ('s, 'w) throwing_of = "ptr \<Rightarrow> 's \<times> 'w \<Rightarrow> (int option \<times> 's \<times> 'w) result"
type_synonym 'w event_handler_of = "NetEvent \<Rightarrow> ptr \<Rightarrow> 'w \<Rightarrow> (ptr \<times> 'w) result"

record ('s, 'k, 'w) old_env =
  old_os :: "'k os"
  no_assert :: bool
  cut_packet :: framer
  connected :: "('s, 'w) throwing_of"
  disconnected :: "('s, 'w) method_of"
  arrived :: "byte list \<Rightarrow> ('s, 'w) method_of"
  sent_out :: "int \<Rightarrow> ('s, 'w) method_of"
  new_session :: 's
  make_session :: "'s store \<Rightarrow> ptr \<times> 's store"
  proc_handler :: "'w event_handler_of option"
  user_handler :: "'w event_handler_of option"

definition rethrow :: "('s, 'w) throwing_of \<Rightarrow> ('s, 'w) method_of" where
  "rethrow f p sw = rbind (f p sw) (\<lambda>(e, s, w). case e of None \<Rightarrow> Inr (s, w) | Some n \<Rightarrow> Inl (Thrown n))"

definition tell :: "'w event_handler_of option \<Rightarrow> NetEvent \<Rightarrow> ptr \<Rightarrow> 'w \<Rightarrow> 'w result" where
  "tell h evt p w = (case h of None \<Rightarrow> Inr w | Some f \<Rightarrow> rbind (f evt p w) (\<lambda>(_, w'). Inr w'))"

text \<open>The remainder of two signed integers truncates towards zero.\<close>

definition c_rem :: "int \<Rightarrow> int \<Rightarrow> int result" where
  "c_rem a b = (if b = 0 then Inl DivByZero else Inr (sgn a * (\<bar>a\<bar> mod \<bar>b\<bar>)))"

lemma c_rem_range: "0 \<le> a \<Longrightarrow> 0 < b \<Longrightarrow> c_rem a b = Inr (a mod b)"
  by (cases "a = 0") (simp_all add: c_rem_def)

text \<open>\<open>htons\<close> and \<open>ntohs\<close> exchange the two bytes of a 16-bit number.\<close>

definition htons :: "int \<Rightarrow> int" where
  "htons x = (x mod 256) * 256 + (x div 256) mod 256"

lemma htons_involution: "0 \<le> x \<Longrightarrow> x < 65536 \<Longrightarrow> htons (htons x) = x"
  by (simp add: htons_def)

end
