(* ===== verification/Epoll_Net.thy ===== *)
theory Epoll_Net
  imports Net_World
begin

unbundle bit_operations_syntax

text \<open>
  The Linux back end, \<open>src/detail/epollnet.hpp\<close>: the scheduler that owns the epoll
  descriptors, the processor with its worker threads and its application thread, listeners,
  connectors, sessions (\<open>EventHandler\<close>) and the service that ties them together.  The
  blocking waits take what the other threads do meanwhile as a parameter \<open>others\<close>.
\<close>

definition EPOLLIN :: "32 word" where "EPOLLIN = 1"
definition EPOLLOUT :: "32 word" where "EPOLLOUT = 4"
definition EPOLLERR :: "32 word" where "EPOLLERR = 8"

record session = conn +
  procFd :: int
  sendBuffer :: send_buffer
  ctx :: owner

type_synonym ('x, 'm, 'k) enet = "('x session_scheme, 'm, 'k) net"
type_synonym ('x, 'w) session_cb = "byte list \<Rightarrow> 'x session_scheme \<times> 'w \<Rightarrow> ('x session_scheme \<times> 'w) result"
type_synonym ('x, 'm, 'k) eenv = "('x session_scheme, 'm, 'k) env"

subsection \<open>Scheduler\<close>

fun create_procs :: "('s, 'm, 'k) env \<Rightarrow> nat \<Rightarrow> int list \<times> ('s, 'm, 'k) net \<Rightarrow> (int list \<times> ('s, 'm, 'k) net) result" where
  "create_procs env 0 (fds, st) = Inr (fds, st)"
| "create_procs env (Suc n) (fds, st) =
     (let (r, st') = syscall env (Epoll_create 10) st in
      if ret r = -1 then Inl (Thrown (errno st')) else create_procs env n (fds @ [ret r], st'))"

definition Scheduler_start :: "('s, 'm, 'k) env \<Rightarrow> ('s, 'm, 'k) net \<Rightarrow> ('s, 'm, 'k) net result" where
  "Scheduler_start env st =
     (let (r, st) = syscall env (Epoll_create 10) st;
          st = st\<lparr>scheder := (scheder st)\<lparr>epollFd := ret r\<rparr>\<rparr> in
      if ret r = -1 then Inl (Thrown (errno st))
      else (let (f, st) = syscall env (Fcntl_setfd (ret r) 1) st in
        rbind (c_assert (ndebug env) (ret f \<noteq> -1)) (\<lambda>_.
        rbind (create_procs env (nat MAX_THREAD) ([], st)) (\<lambda>(fds, st).
          Inr (st\<lparr>scheder := (scheder st)\<lparr>procFds := fds\<rparr>\<rparr>)))))"

definition close_all :: "('s, 'm, 'k) env \<Rightarrow> int list \<Rightarrow> ('s, 'm, 'k) net \<Rightarrow> ('s, 'm, 'k) net" where
  "close_all env fds st = fold (\<lambda>f. do_call env (Close f)) fds st"

definition Scheduler_stop :: "('s, 'm, 'k) env \<Rightarrow> ('s, 'm, 'k) net \<Rightarrow> ('s, 'm, 'k) net" where
  "Scheduler_stop env st =
     (let st = do_call env (Close (epollFd (scheder st))) st;
          st = st\<lparr>scheder := (scheder st)\<lparr>epollFd := 0xFFFFFF\<rparr>\<rparr>;
          st = close_all env (procFds (scheder st)) st
      in st\<lparr>scheder := (scheder st)\<lparr>procFds := replicate (length (procFds (scheder st))) 0xFFFFFF\<rparr>\<rparr>)"

text \<open>\<open>fd % threads\<close> is an unsigned remainder.\<close>

definition proc_index :: "int \<Rightarrow> int \<Rightarrow> int result" where
  "proc_index f threads = (if u32 threads = 0 then Inl DivByZero else Inr (s32 (u32 f mod u32 threads)))"

definition Scheduler_push :: "('x, 'm, 'k) eenv \<Rightarrow> ptr \<Rightarrow> ('x, 'm, 'k) enet \<Rightarrow> ('x, 'm, 'k) enet result" where
  "Scheduler_push env pSession st =
     rbind (deref (sessions st) pSession) (\<lambda>s.
     rbind (proc_index (fd s) (sched_threads (scheder st))) (\<lambda>procIdx.
     rbind (list_at (procFds (scheder st)) procIdx) (\<lambda>procFd'.
     rbind (assign (sessions st) pSession (s\<lparr>procFd := procFd'\<rparr>)) (\<lambda>h.
       let st = st\<lparr>sessions := h\<rparr>;
           event = \<lparr>ev_events = EPOLLIN OR EPOLLERR, ev_data = DataPtr pSession\<rparr>;
           st = do_call env (Epoll_ctl procFd' EPOLL_CTL_ADD (fd s) (Some event)) st
       in with_session pSession (on_connect env) st))))"

subsection \<open>Sessions\<close>

text \<open>
  The constructor leaves the context, the address and the passive flag uninitialised: they are
  the values the memory happened to hold.
\<close>

definition EventHandler :: "byte list \<Rightarrow> byte list \<Rightarrow> owner \<Rightarrow> int \<Rightarrow> int \<Rightarrow> bool \<Rightarrow> session" where
  "EventHandler recvMem sendMem ctx0 ip0 port0 passive0 =
     \<lparr>fd = -1, ip = ip0, port = port0, isPassive = passive0, recvBuf = recvMem, recvBufPos = 0,
      procFd = -1, sendBuffer = SendBuffer sendMem, ctx = ctx0\<rparr>"

definition recv_size :: "'x session_scheme \<Rightarrow> int" where
  "recv_size s = int (length (recvBuf s)) - recvBufPos s"

definition send_cap :: "'x session_scheme \<Rightarrow> int" where
  "send_cap s = int (length (dataBuf (sendBuffer s)))"

definition async_send ::
  "('x, 'm, 'k) eenv \<Rightarrow> ptr \<Rightarrow> byte list \<Rightarrow> 'x session_scheme \<times> ('x, 'm, 'k) enet \<Rightarrow>
   (int \<times> 'x session_scheme \<times> ('x, 'm, 'k) enet) result" where
  "async_send env self pData = (\<lambda>(s, st).
     rbind (push (ndebug env) (send_cap s) (sendBuffer s) pData (int (length pData))) (\<lambda>(ok, sb).
       let s = s\<lparr>sendBuffer := sb\<rparr>;
           event = \<lparr>ev_events = EPOLLIN OR EPOLLOUT OR EPOLLERR, ev_data = DataPtr self\<rparr>;
           st = do_call env (Epoll_ctl (procFd s) EPOLL_CTL_MOD (fd s) (Some event)) st
       in Inr (if ok then RET_OK else RET_ERR, s, st)))"

text \<open>
  \<open>on_send\<close> gets the offset of its pointer in the caller's data and the length converted
  to \<open>unsigned int\<close>.
\<close>

definition sync_send ::
  "('x, 'm, 'k) eenv \<Rightarrow> ptr \<Rightarrow> byte list \<Rightarrow> 'x session_scheme \<times> ('x, 'm, 'k) enet \<Rightarrow>
   (int \<times> 'x session_scheme \<times> ('x, 'm, 'k) enet) result" where
  "sync_send env self pData = (\<lambda>(s, st).
     let (r, st) = syscall env (Send (fd s) pData) st; sntLen = ret r in
     rbind (c_assert (ndebug env) (sntLen = int (length pData))) (\<lambda>_.
     rbind (on_send env sntLen (u32 sntLen) self (s, st)) (\<lambda>(s, st). Inr (s32 sntLen, s, st))))"

definition session_close :: "('x, 'm, 'k) eenv \<Rightarrow> ('x session_scheme, 'm, 'k) callback" where
  "session_close env self = (\<lambda>(s, st). Inr (s, do_call env (Close (fd s)) st))"

text \<open>The virtual methods a session class may leave as they are.\<close>

definition default_method :: "('x session_scheme, 'm, 'k) callback" where
  "default_method self sw = Inr sw"

definition default_parse_message :: "byte list \<Rightarrow> byte list option" where
  "default_parse_message pData = Some pData"

subsection \<open>Processor\<close>

text \<open>
  The processor owns a factory only when it made one; built from a given factory it leaves
  \<open>innerFactory\<close> uninitialised (\<open>None\<close>), and the destructor reads it all the same.
\<close>

record factories =
  innerFactory :: "ptr option"
  factory :: ptr

definition Processor_new :: "unit store \<Rightarrow> factories \<times> unit store" where
  "Processor_new h = (let (f, h') = heap_new () h in (\<lparr>innerFactory = Some f, factory = f\<rparr>, h'))"

definition Processor_given :: "ptr \<Rightarrow> factories" where
  "Processor_given given = \<lparr>innerFactory = None, factory = given\<rparr>"

definition Processor_destroy :: "factories \<Rightarrow> unit store \<Rightarrow> unit store result" where
  "Processor_destroy f h =
     (case innerFactory f of None \<Rightarrow> Inl Uninitialised
      | Some p \<Rightarrow> if p \<noteq> 0 then heap_delete p h else Inr h)"

text \<open>The packet callback of worker \<open>procIdx\<close> for the session at \<open>self\<close>.\<close>

definition post_message ::
  "('x, 'm, 'k) eenv \<Rightarrow> int \<Rightarrow> ptr \<Rightarrow> 'm option \<Rightarrow> ('x, 'm, 'k) enet \<Rightarrow> ('x, 'm, 'k) enet result" where
  "post_message env procIdx self pMsg st =
     rbind (list_at (msgQueues st) procIdx) (\<lambda>q.
     rbind (wait_for (pool_acquire (ndebug env) 0 \<lparr>pkg_session = 0, pkg_message = None\<rparr> (msgPool st))) (\<lambda>(pMsgPkg, pool).
     rbind (assign (objs (pool_alloc pool)) pMsgPkg \<lparr>pkg_session = self, pkg_message = pMsg\<rparr>) (\<lambda>o'.
     rbind (enqueue pMsgPkg q) (\<lambda>(_, q').
       Inr (st\<lparr>msgPool := pool\<lparr>pool_alloc := (pool_alloc pool)\<lparr>objs := o'\<rparr>\<rparr>,
              msgQueues := (msgQueues st)[nat procIdx := q']\<rparr>)))))"

definition packet_arrived ::
  "('x, 'm, 'k) eenv \<Rightarrow> int \<Rightarrow> ptr \<Rightarrow> ('x, ('x, 'm, 'k) enet) session_cb" where
  "packet_arrived env procIdx self pkt sw =
     rbind (on_recv env pkt self sw) (\<lambda>(s, st).
       if app_run (config st) then
         rbind (post_message env procIdx self (parse_message env pkt) st) (\<lambda>st. Inr (s, st))
       else if parser (config st) then on_message env (parse_message env pkt) self (s, st)
       else Inr (s, st))"

text \<open>The session goes: an error or the end of the stream was read.\<close>

definition drop_session ::
  "('x, 'm, 'k) eenv \<Rightarrow> int \<Rightarrow> ptr \<Rightarrow> ('x, 'm, 'k) enet \<Rightarrow> ('x, 'm, 'k) enet result" where
  "drop_session env procFd' pSession st =
     rbind (deref (sessions st) pSession) (\<lambda>s.
       let st = do_call env (Epoll_ctl procFd' EPOLL_CTL_DEL (fd s) None) st;
           st = do_call env (Close (fd s)) st in
       rbind (with_session pSession (on_disconnect env) st) (\<lambda>st.
       rbind (release env pSession (sessions st)) (\<lambda>h.
         notify env EVT_SESSION_RELEASE pSession (st\<lparr>sessions := h\<rparr>))))"

definition on_epollin ::
  "('x, 'm, 'k) eenv \<Rightarrow> int \<Rightarrow> int \<Rightarrow> ptr \<Rightarrow> ('x, 'm, 'k) enet \<Rightarrow> ('x, 'm, 'k) enet result option" where
  "on_epollin env procIdx procFd' pSession st =
     obind (Some (deref (sessions st) pSession)) (\<lambda>s.
       let (r, st) = syscall env (Recv (fd s) (recv_size s)) st; len = ret r in
       if len < 0 then Some (drop_session env procFd' pSession st)
       else if len = 0 then Some (drop_session env procFd' pSession st)
       else
         obind (recv_chunk False (read_packet env) (packet_arrived env procIdx pSession) (s, st) (rdata r)) (\<lambda>(s, st).
         obind (Some (assign (sessions st) pSession s)) (\<lambda>h. Some (Inr (st\<lparr>sessions := h\<rparr>)))))"

definition send_handler :: "('s, 'm, 'k) env \<Rightarrow> int \<Rightarrow> ('s, 'm, 'k) net data_handler" where
  "send_handler env f pData dataLen st = (let (r, st') = syscall env (Send f pData) st in (s32 (ret r), st'))"

definition on_epollout ::
  "('x, 'm, 'k) eenv \<Rightarrow> ptr \<Rightarrow> ('x, 'm, 'k) enet \<Rightarrow> ('x, 'm, 'k) enet result" where
  "on_epollout env pSession st =
     rbind (deref (sessions st) pSession) (\<lambda>s.
     rbind (pop (send_handler env (fd s)) (sendBuffer s) st) (\<lambda>(_, sb, st).
     rbind (assign (sessions st) pSession (s\<lparr>sendBuffer := sb\<rparr>)) (\<lambda>h.
       let st = st\<lparr>sessions := h\<rparr> in
       if errno st = EAGAIN \<or> errno st = EWOULDBLOCK then
         Inr (do_call env (Epoll_ctl (procFd s) EPOLL_CTL_MOD (fd s)
                (Some \<lparr>ev_events = EPOLLIN OR EPOLLOUT OR EPOLLERR, ev_data = DataPtr pSession\<rparr>)) st)
       else
         Inr (do_call env (Epoll_ctl (procFd s) EPOLL_CTL_MOD (fd s)
                (Some \<lparr>ev_events = EPOLLIN OR EPOLLERR, ev_data = DataPtr pSession\<rparr>)) st))))"

definition on_epollerr ::
  "('x, 'm, 'k) eenv \<Rightarrow> int \<Rightarrow> ptr \<Rightarrow> ('x, 'm, 'k) enet \<Rightarrow> ('x, 'm, 'k) enet result" where
  "on_epollerr env procFd' pSession st =
     rbind (deref (sessions st) pSession) (\<lambda>s.
       let st = do_call env (Epoll_ctl procFd' EPOLL_CTL_DEL (fd s) None) st;
           st = do_call env (Close (fd s)) st in
       rbind (release env pSession (sessions st)) (\<lambda>h. Inr (st\<lparr>sessions := h\<rparr>)))"

definition handle_event ::
  "('x, 'm, 'k) eenv \<Rightarrow> int \<Rightarrow> int \<Rightarrow> epoll_event \<Rightarrow> ('x, 'm, 'k) enet \<Rightarrow> ('x, 'm, 'k) enet result option" where
  "handle_event env procIdx procFd' ev st =
     (let pSession = data_ptr (ev_data ev) in
      if pSession = 0 then Some (Inr st)
      else if EPOLLIN = (ev_events ev AND EPOLLIN) then on_epollin env procIdx procFd' pSession st
      else if EPOLLOUT = (ev_events ev AND EPOLLOUT) then Some (on_epollout env pSession st)
      else if EPOLLERR = (ev_events ev AND EPOLLERR) then Some (on_epollerr env procFd' pSession st)
      else Some (rbind (deref (sessions st) pSession) (\<lambda>s.
             Inr (do_call env (Epoll_ctl procFd' EPOLL_CTL_DEL (fd s) None) st))))"

fun handle_events ::
  "('x, 'm, 'k) eenv \<Rightarrow> int \<Rightarrow> int \<Rightarrow> epoll_event list \<Rightarrow> ('x, 'm, 'k) enet \<Rightarrow> ('x, 'm, 'k) enet result option" where
  "handle_events env procIdx procFd' [] st = Some (Inr st)"
| "handle_events env procIdx procFd' (ev # evs) st =
     obind (handle_event env procIdx procFd' ev st) (handle_events env procIdx procFd' evs)"

text \<open>One turn of the worker's loop.\<close>

definition worker_turn ::
  "('x, 'm, 'k) eenv \<Rightarrow> int \<Rightarrow> int \<Rightarrow> ('x, 'm, 'k) enet \<Rightarrow> ('x, 'm, 'k) enet result option" where
  "worker_turn env procIdx procFd' st =
     (let (r, st) = syscall env (Epoll_wait procFd' MAX_WAIT_EVENT (-1)) st in
      if ret r < 0 then Some (rbind (c_assert (ndebug env) False) (\<lambda>_. Inr st))
      else handle_events env procIdx procFd' (take (nat (ret r)) (revents r)) st)"

partial_function (option) worker_loop ::
  "('x, 'm, 'k) eenv \<Rightarrow> (('x, 'm, 'k) enet \<Rightarrow> ('x, 'm, 'k) enet) \<Rightarrow> int \<Rightarrow> int \<Rightarrow>
   ('x, 'm, 'k) enet \<Rightarrow> ('x, 'm, 'k) enet result option" where
  "worker_loop env others procIdx procFd' st =
     (if running st then
        (case worker_turn env procIdx procFd' (others st) of
           None \<Rightarrow> None | Some (Inl e) \<Rightarrow> Some (Inl e)
         | Some (Inr st') \<Rightarrow> worker_loop env others procIdx procFd' st')
      else Some (Inr st))"

definition Processor_run ::
  "('x, 'm, 'k) eenv \<Rightarrow> (('x, 'm, 'k) enet \<Rightarrow> ('x, 'm, 'k) enet) \<Rightarrow> int \<Rightarrow>
   ('x, 'm, 'k) enet \<Rightarrow> ('x, 'm, 'k) enet result option" where
  "Processor_run env others procIdx st =
     obind (Some (list_at (procFds (scheder st)) procIdx)) (\<lambda>procFd'. worker_loop env others procIdx procFd' st)"

text \<open>The application thread takes at most one message per queue and turn.\<close>

definition app_queue :: "('x, 'm, 'k) eenv \<Rightarrow> nat \<Rightarrow> ('x, 'm, 'k) enet \<Rightarrow> ('x, 'm, 'k) enet result" where
  "app_queue env i st =
     rbind (list_at (msgQueues st) (int i)) (\<lambda>q.
       if \<not> isEmpty q then
         rbind (try_dequeue q) (\<lambda>(result, q').
           let st = st\<lparr>msgQueues := (msgQueues st)[i := q']\<rparr> in
           case result of
             Some pMsgPkg \<Rightarrow>
               (if pMsgPkg \<noteq> 0 then
                  rbind (deref (objs (pool_alloc (msgPool st))) pMsgPkg) (\<lambda>pkg.
                  rbind (with_session (pkg_session pkg) (on_message env (pkg_message pkg)) st) (\<lambda>st.
                  rbind (pool_release (ndebug env) 0 (\<lambda>p. p) pMsgPkg (msgPool st)) (\<lambda>pool.
                    Inr (st\<lparr>msgPool := pool\<rparr>))))
                else Inr st)
           | None \<Rightarrow> Inr st)
       else Inr (do_call env (Usleep 1) st))"

fun app_queues :: "('x, 'm, 'k) eenv \<Rightarrow> nat list \<Rightarrow> ('x, 'm, 'k) enet \<Rightarrow> ('x, 'm, 'k) enet result" where
  "app_queues env [] st = Inr st"
| "app_queues env (i # is) st = rbind (app_queue env i st) (app_queues env is)"

definition app_turn :: "('x, 'm, 'k) eenv \<Rightarrow> ('x, 'm, 'k) enet \<Rightarrow> ('x, 'm, 'k) enet result" where
  "app_turn env st = app_queues env [0..<length (msgQueues st)] st"

partial_function (option) Processor_app_run ::
  "('x, 'm, 'k) eenv \<Rightarrow> (('x, 'm, 'k) enet \<Rightarrow> ('x, 'm, 'k) enet) \<Rightarrow>
   ('x, 'm, 'k) enet \<Rightarrow> ('x, 'm, 'k) enet result option" where
  "Processor_app_run env others st =
     (if running st then
        (case app_turn env (others st) of Inl e \<Rightarrow> Some (Inl e) | Inr st' \<Rightarrow> Processor_app_run env others st')
      else Some (Inr st))"

text \<open>Starting a thread throws when the system refuses.\<close>

definition spawn :: "('s, 'm, 'k) env \<Rightarrow> thread_fn \<Rightarrow> ('s, 'm, 'k) net \<Rightarrow> ('s, 'm, 'k) net result" where
  "spawn env f st = (let (r, st) = syscall env (Thread_create f) st in
     if ret r < 0 then Inl (Thrown (errno st)) else Inr st)"

fun start_workers :: "('s, 'm, 'k) env \<Rightarrow> int list \<Rightarrow> ('s, 'm, 'k) net \<Rightarrow> ('s, 'm, 'k) net result" where
  "start_workers env [] st = Inr st"
| "start_workers env (i # is) st =
     rbind (spscqueue (ndebug env) True 100) (\<lambda>q.
     rbind (spawn env (ProcessorRun i) (st\<lparr>msgQueues := msgQueues st @ [q]\<rparr>)) (\<lambda>st.
       start_workers env is (st\<lparr>procThreads := procThreads st @ [i]\<rparr>)))"

definition Processor_start ::
  "('s, 'm, 'k) env \<Rightarrow> properties \<Rightarrow> ('s, 'm, 'k) net \<Rightarrow> (int \<times> ('s, 'm, 'k) net) result" where
  "Processor_start env cfg st =
     (if running st then Inr (0, st)
      else
        (let st = st\<lparr>running := True, config := cfg\<rparr>;
             threads = (if cfg_threads cfg > MAX_THREAD then MAX_THREAD else cfg_threads cfg);
             st = st\<lparr>scheder := (scheder st)\<lparr>sched_threads := u32 threads\<rparr>\<rparr> in
         rbind (start_workers env [0..threads - 1] st) (\<lambda>st.
           if app_run cfg then rbind (spawn env AppRun st) (\<lambda>st. Inr (0, st\<lparr>appThread := True\<rparr>))
           else Inr (0, st))))"

text \<open>Joining a thread object that runs no thread throws.\<close>

definition Processor_stop :: "('s, 'm, 'k) env \<Rightarrow> ('s, 'm, 'k) net \<Rightarrow> ('s, 'm, 'k) net result" where
  "Processor_stop env st =
     (if \<not> running st then Inr st
      else
        (let st = st\<lparr>running := False\<rparr>;
             st = do_call env (Close (epollFd (scheder st))) st;
             st = fold (\<lambda>i. do_call env (Thread_join (ProcessorRun i))) (procThreads st) st;
             st = st\<lparr>procThreads := [], msgQueues := []\<rparr> in
         if appThread st then Inr ((do_call env (Thread_join AppRun) st)\<lparr>appThread := False\<rparr>)
         else Inl (Thrown EINVAL)))"

subsection \<open>Listener\<close>

record listener =
  l_ip :: int
  l_port :: int
  l_backlogs :: int
  lisFd :: int
  l_running :: bool
  l_thread :: bool

definition setSockNonBlock :: "('s, 'm, 'k) env \<Rightarrow> int \<Rightarrow> ('s, 'm, 'k) net \<Rightarrow> ('s, 'm, 'k) net" where
  "setSockNonBlock env sock st =
     (let (r, st) = syscall env (Fcntl_getfl sock) st in
      if ret r < 0 then st else do_call env (Fcntl_setfl sock (ret r OR 2048)) st)"

definition Listener_start ::
  "('s, 'm, 'k) env \<Rightarrow> properties \<Rightarrow> listener \<Rightarrow> ('s, 'm, 'k) net \<Rightarrow> int \<times> listener \<times> ('s, 'm, 'k) net" where
  "Listener_start env cfg l st =
     (let l = l\<lparr>l_running := True\<rparr>;
          (r, st) = syscall env Socket st;
          l = l\<lparr>lisFd := ret r\<rparr> in
      if ret r = -1 then (RET_ERR_SOCKET, l, st)
      else
        (let st = (if reuse cfg then do_call env (Setsockopt_reuse (lisFd l)) st else st);
             st = setSockNonBlock env (lisFd l) st;
             (b, st) = syscall env (Bind (lisFd l) (l_ip l) (htons (l_port l))) st in
         if ret b = -1 then (RET_ERR_BIND, l, do_call env (Close (lisFd l)) st)
         else
           (let (n, st) = syscall env (Listen (lisFd l) (l_backlogs l)) st in
            if ret n = -1 then (RET_ERR_LISTEN, l, do_call env (Close (lisFd l)) st)
            else
              (let (t, st) = syscall env (Thread_create ListenerRun) st in
               if ret t < 0 then (0, l\<lparr>lisFd := -1\<rparr>, do_call env (Close (lisFd l)) st)
               else (0, l\<lparr>l_thread := True\<rparr>, st)))))"

definition Listener_stop :: "('s, 'm, 'k) env \<Rightarrow> listener \<Rightarrow> ('s, 'm, 'k) net \<Rightarrow> (listener \<times> ('s, 'm, 'k) net) result" where
  "Listener_stop env l st =
     (let l = (if \<not> l_running l then l\<lparr>l_running := False\<rparr> else l);
          st = do_call env (Close (lisFd l)) st;
          st = do_call env (Close (epollFd (scheder st))) st in
      if l_thread l then Inr (l\<lparr>l_thread := False\<rparr>, do_call env (Thread_join ListenerRun) st)
      else Inl (Thrown EINVAL))"

text \<open>A session from the factory, or else from the event handler; null when neither has one.\<close>

definition obtain_session :: "('s, 'm, 'k) env \<Rightarrow> ('s, 'm, 'k) net \<Rightarrow> (ptr \<times> ('s, 'm, 'k) net) result" where
  "obtain_session env st =
     (let (pSession, h) = create env (sessions st); st = st\<lparr>sessions := h\<rparr> in
      rbind (if pSession = 0 then
               (case handler env of None \<Rightarrow> Inr (0, st) | Some h \<Rightarrow> h EVT_SESSION_CREATE pSession st)
             else Inr (pSession, st)) (\<lambda>(p, st).
      rbind (c_assert (ndebug env) (p \<noteq> 0)) (\<lambda>_. Inr (p, st))))"

definition adopt ::
  "('x, 'm, 'k) eenv \<Rightarrow> int \<Rightarrow> int \<times> int \<Rightarrow> owner \<Rightarrow> bool \<Rightarrow> ptr \<Rightarrow> ('x, 'm, 'k) enet \<Rightarrow> ('x, 'm, 'k) enet result" where
  "adopt env newFd addr own passive pSession st =
     rbind (deref (sessions st) pSession) (\<lambda>s.
     rbind (assign (sessions st) pSession
             (s\<lparr>fd := newFd, ip := fst addr, port := htons (snd addr), isPassive := passive, ctx := own\<rparr>)) (\<lambda>h.
       Scheduler_push env pSession (st\<lparr>sessions := h\<rparr>)))"

text \<open>
  A connection is accepted.  The address stored in the session is the variable \<open>addr\<close> of
  the surrounding function, which nothing ever assigns, and not the accepted
  \<open>lisAddr\<close>: it is the parameter \<open>addr0\<close>.
\<close>

definition accept_one ::
  "('x, 'm, 'k) eenv \<Rightarrow> int \<times> int \<Rightarrow> listener \<Rightarrow> ('x, 'm, 'k) enet \<Rightarrow> ('x, 'm, 'k) enet result" where
  "accept_one env addr0 l st =
     (let (r, st) = syscall env (Accept (lisFd l)) st; newFd = ret r in
      if newFd < 0 then
        (if errno st = EAGAIN \<or> errno st = EWOULDBLOCK then Inr st else Inl (Thrown (errno st)))
      else
        (let st = setSockNonBlock env newFd st in
         rbind (obtain_session env st) (\<lambda>(pSession, st).
           adopt env newFd addr0 OwnedByListener True pSession st)))"

text \<open>The test \<open>EPOLLIN == events & EPOLLIN\<close> compares first: it holds for \<open>events\<close> equal to \<open>EPOLLIN\<close> only.\<close>

definition listen_event ::
  "('x, 'm, 'k) eenv \<Rightarrow> int \<times> int \<Rightarrow> listener \<Rightarrow> epoll_event \<Rightarrow> ('x, 'm, 'k) enet \<Rightarrow> ('x, 'm, 'k) enet result" where
  "listen_event env addr0 l ev st =
     (if lisFd l = data_fd (ev_data ev) \<and> (of_bool (EPOLLIN = ev_events ev) AND EPOLLIN) \<noteq> 0
      then accept_one env addr0 l st else Inr st)"

fun listen_events ::
  "('x, 'm, 'k) eenv \<Rightarrow> int \<times> int \<Rightarrow> listener \<Rightarrow> epoll_event list \<Rightarrow> ('x, 'm, 'k) enet \<Rightarrow> ('x, 'm, 'k) enet result" where
  "listen_events env addr0 l [] st = Inr st"
| "listen_events env addr0 l (ev # evs) st = rbind (listen_event env addr0 l ev st) (listen_events env addr0 l evs)"

partial_function (option) listen_loop ::
  "('x, 'm, 'k) eenv \<Rightarrow> (listener \<times> ('x, 'm, 'k) enet \<Rightarrow> listener \<times> ('x, 'm, 'k) enet) \<Rightarrow> int \<times> int \<Rightarrow> int \<Rightarrow>
   listener \<Rightarrow> ('x, 'm, 'k) enet \<Rightarrow> (listener \<times> ('x, 'm, 'k) enet) result option" where
  "listen_loop env others addr0 efd l st =
     (if l_running l then
        (let (r, st) = syscall env (Epoll_wait efd MAX_WAIT_EVENT (-1)) st; (l, st) = others (l, st) in
         if ret r < 0 then Some (Inr (l, st))
         else (case listen_events env addr0 l (take (nat (ret r)) (revents r)) st of
                 Inl e \<Rightarrow> Some (Inl e)
               | Inr st \<Rightarrow> listen_loop env others addr0 efd l st))
      else Some (Inr (l, st)))"

definition Listener_run ::
  "('x, 'm, 'k) eenv \<Rightarrow> (listener \<times> ('x, 'm, 'k) enet \<Rightarrow> listener \<times> ('x, 'm, 'k) enet) \<Rightarrow> int \<times> int \<Rightarrow>
   listener \<Rightarrow> ('x, 'm, 'k) enet \<Rightarrow> (listener \<times> ('x, 'm, 'k) enet) result option" where
  "Listener_run env others addr0 l st =
     (let efd = epollFd (scheder st);
          (r, st) = syscall env (Epoll_ctl efd EPOLL_CTL_ADD (lisFd l) (Some \<lparr>ev_events = EPOLLIN, ev_data = DataFd (lisFd l)\<rparr>)) st in
      if ret r = -1 then Some (Inl (Thrown (errno st)))
      else listen_loop env others addr0 efd l st)"

subsection \<open>Connector\<close>

record connector =
  c_ip :: int
  c_port :: int
  c_fd :: int
  c_session :: ptr

definition Connector_connect ::
  "('x, 'm, 'k) eenv \<Rightarrow> connector \<Rightarrow> ('x, 'm, 'k) enet \<Rightarrow> (int \<times> connector \<times> ('x, 'm, 'k) enet) result" where
  "Connector_connect env c st =
     (let (r, st) = syscall env Socket st; c = c\<lparr>c_fd := ret r\<rparr> in
      if ret r = -1 then Inr (RET_ERR_SOCKET, c, st)
      else
        (let addr = (c_ip c, htons (c_port c)); (r, st) = syscall env (Connect (c_fd c) (fst addr) (snd addr)) st in
         if ret r = -1 then
           (case handler env of None \<Rightarrow> Inl BadFunction
            | Some h \<Rightarrow> rbind (h EVT_CONNECT_FAIL 0 st) (\<lambda>(_, st). Inr (RET_ERR_CONNECT, c, st)))
         else
           rbind (obtain_session env st) (\<lambda>(p, st).
           rbind (adopt env (c_fd c) addr OwnedByConnector False p st) (\<lambda>st.
             Inr (RET_OK, c\<lparr>c_session := p\<rparr>, st)))))"

definition Connector_stop :: "('s, 'm, 'k) env \<Rightarrow> connector \<Rightarrow> ('s, 'm, 'k) net \<Rightarrow> ('s, 'm, 'k) net" where
  "Connector_stop env c st = do_call env (Close (c_fd c)) st"

subsection \<open>TCPService\<close>

record service =
  lstListener :: "listener list"
  lstConnector :: "connector list"
  svc_config :: properties

definition TCPService :: service where
  "TCPService = \<lparr>lstListener = [], lstConnector = [], svc_config = Properties\<rparr>"

text \<open>\<open>addr\<close> is the address \<open>inet_addr\<close> gives; \<open>fd0\<close> is the uninitialised descriptor of the new connector.\<close>

definition addListener :: "int \<Rightarrow> int \<Rightarrow> service \<Rightarrow> service" where
  "addListener addr port' v = v\<lparr>lstListener := lstListener v @
     [\<lparr>l_ip = addr, l_port = port', l_backlogs = cfg_backlogs (svc_config v), lisFd = -1, l_running = False, l_thread = False\<rparr>]\<rparr>"

definition addConnector :: "int \<Rightarrow> int \<Rightarrow> int \<Rightarrow> service \<Rightarrow> service" where
  "addConnector fd0 addr port' v = v\<lparr>lstConnector := lstConnector v @
     [\<lparr>c_ip = addr, c_port = port', c_fd = fd0, c_session = 0\<rparr>]\<rparr>"

fun start_listeners ::
  "('s, 'm, 'k) env \<Rightarrow> properties \<Rightarrow> listener list \<Rightarrow> ('s, 'm, 'k) net \<Rightarrow> (listener list \<times> ('s, 'm, 'k) net) result" where
  "start_listeners env cfg [] st = Inr ([], st)"
| "start_listeners env cfg (l # ls) st =
     (let (r, l, st) = Listener_start env cfg l st in
      rbind (notify env (if r = 0 then EVT_LISTEN else EVT_LISTEN_FAIL) 0 st) (\<lambda>st.
      rbind (start_listeners env cfg ls st) (\<lambda>(ls, st). Inr (l # ls, st))))"

fun start_connectors ::
  "('x, 'm, 'k) eenv \<Rightarrow> connector list \<Rightarrow> ('x, 'm, 'k) enet \<Rightarrow> (connector list \<times> ('x, 'm, 'k) enet) result" where
  "start_connectors env [] st = Inr ([], st)"
| "start_connectors env (c # cs) st =
     rbind (Connector_connect env c st) (\<lambda>(r, c, st).
     rbind (notify env (if r = 0 then EVT_CONNECT else EVT_CONNECT_FAIL) 0 st) (\<lambda>st.
     rbind (start_connectors env cs st) (\<lambda>(cs, st). Inr (c # cs, st))))"

definition fix_config :: "properties \<Rightarrow> properties" where
  "fix_config cfg =
     (let cfg = (if cfg_backlogs cfg \<le> 0 then cfg\<lparr>cfg_backlogs := 10\<rparr> else cfg) in
      if cfg_threads cfg \<le> 0 then cfg\<lparr>cfg_threads := 1\<rparr> else cfg)"

definition TCPService_start ::
  "('x, 'm, 'k) eenv \<Rightarrow> service \<Rightarrow> ('x, 'm, 'k) enet \<Rightarrow> (int \<times> service \<times> ('x, 'm, 'k) enet) result" where
  "TCPService_start env v st =
     (let v = v\<lparr>svc_config := fix_config (svc_config v)\<rparr> in
      rbind (Scheduler_start env st) (\<lambda>st.
      rbind (Processor_start env (svc_config v) st) (\<lambda>(_, st).
      rbind (start_listeners env (svc_config v) (lstListener v) st) (\<lambda>(ls, st).
      rbind (start_connectors env (lstConnector v) (do_call env (Usleep 1000) st)) (\<lambda>(cs, st).
        Inr (0, v\<lparr>lstListener := ls, lstConnector := cs\<rparr>, st))))))"

fun stop_listeners ::
  "('s, 'm, 'k) env \<Rightarrow> listener list \<Rightarrow> ('s, 'm, 'k) net \<Rightarrow> (listener list \<times> ('s, 'm, 'k) net) result" where
  "stop_listeners env [] st = Inr ([], st)"
| "stop_listeners env (l # ls) st =
     rbind (Listener_stop env l st) (\<lambda>(l, st).
     rbind (stop_listeners env ls st) (\<lambda>(ls, st). Inr (l # ls, st)))"

definition TCPService_stop ::
  "('s, 'm, 'k) env \<Rightarrow> service \<Rightarrow> ('s, 'm, 'k) net \<Rightarrow> (service \<times> ('s, 'm, 'k) net) result" where
  "TCPService_stop env v st =
     rbind (stop_listeners env (lstListener v) st) (\<lambda>(ls, st).
       Inr (v\<lparr>lstListener := ls\<rparr>,
            fold (Connector_stop env) (lstConnector v) (do_call env (Usleep 1000) st)))"

end
