(* ===== verification/Epoll_Props.thy ===== *)
theory Epoll_Props
  imports Epoll_Net
begin

text \<open>
  What the Linux back end guarantees and where it does not: worker dispatch, the receive and
  the send path of one session, a whole batch of events, accepting, connecting, starting and
  stopping.
\<close>

subsection \<open>Well-formed states and well-behaved callbacks\<close>

definition sess_ok :: "'x session_scheme \<Rightarrow> bool" where
  "sess_ok s \<longleftrightarrow> conn_inv s \<and> sb_inv (send_cap s) (sendBuffer s)"

definition queues_ok :: "('s, 'm, 'k) net \<Rightarrow> bool" where
  "queues_ok st \<longleftrightarrow> (\<forall>q \<in> set (msgQueues st). spsc_inv q) \<and> (\<exists>used. pool_inv (msgPool st) used)"

definition net_ok :: "('x, 'm, 'k) enet \<Rightarrow> bool" where
  "net_ok st \<longleftrightarrow> heap_ok (sessions st) \<and> (\<forall>p s. cells (sessions st) p = Some s \<longrightarrow> sess_ok s) \<and> queues_ok st"

text \<open>The part of the state a callback leaves to the library.\<close>

definition same_core :: "('s, 'm, 'k) net \<Rightarrow> ('s, 'm, 'k) net \<Rightarrow> bool" where
  "same_core st st' \<longleftrightarrow> sessions st' = sessions st \<and> config st' = config st \<and> scheder st' = scheder st \<and>
     msgQueues st' = msgQueues st \<and> msgPool st' = msgPool st"

definition benign :: "('x session_scheme, 'm, 'k) callback \<Rightarrow> bool" where
  "benign f \<longleftrightarrow>
     (\<forall>self s st s' st'. f self (s, st) = Inr (s', st') \<longrightarrow> recvBuf s' = recvBuf s \<and> recvBufPos s' = recvBufPos s) \<and>
     (\<forall>self s st. sess_ok s \<longrightarrow> (\<exists>s' st'. f self (s, st) = Inr (s', st') \<and> sess_ok s' \<and> same_core st st'))"

definition send_documented :: "'k os \<Rightarrow> bool" where
  "send_documented sys \<longleftrightarrow> (\<forall>f d k. let r = fst (sys (Send f d) k) in -1 \<le> ret r \<and> ret r \<le> int (length d))"

definition benign_env :: "('x, 'm, 'k) eenv \<Rightarrow> bool" where
  "benign_env env \<longleftrightarrow> recv_documented (os env) \<and> send_documented (os env) \<and> bounded_framer (read_packet env) \<and>
     benign (on_connect env) \<and> benign (on_disconnect env) \<and> (\<forall>pkt. benign (on_recv env pkt)) \<and>
     (\<forall>m. benign (on_message env m)) \<and> release env = factory_release \<and>
     (\<forall>h evt p st. handler env = Some h \<longrightarrow> (\<exists>q st'. h evt p st = Inr (q, st') \<and> same_core st st'))"

lemma same_core_refl [simp]: "same_core st st"
  by (simp add: same_core_def)

lemma same_core_trans: "same_core a b \<Longrightarrow> same_core b c \<Longrightarrow> same_core a c"
  by (simp add: same_core_def)

lemma same_core_do_call [simp]: "same_core st (do_call env c st)"
  by (simp add: same_core_def)

lemma same_core_syscall: "syscall env c st = (r, st') \<Longrightarrow> same_core st st'"
  using same_core_do_call [of st env c] by (simp add: do_call_def)

lemma calls_sessions [simp]: "calls (st\<lparr>sessions := h\<rparr>) = calls st"
  by (simp add: calls_def)

text \<open>The library's own operations are well-behaved callbacks.\<close>

lemma benign_skip: "benign (\<lambda>self sw. Inr sw)"
  by (auto simp: benign_def)

lemma benign_default: "benign default_method"
  by (auto simp: benign_def default_method_def)

lemma benign_close: "benign (session_close env)"
  by (auto simp: benign_def session_close_def)

lemma send_cap_sb: "sb_inv N sb \<Longrightarrow> int (length (dataBuf sb)) = N"
  by (simp add: sb_inv_def)

lemma async_send_ok:
  assumes "sess_ok s" "ndebug env \<or> int (length pData) \<le> send_cap s" "int (length pData) < 2 ^ 32"
  shows "\<exists>s' st'. async_send env self pData (s, st) =
      Inr (if push_fits (send_cap s) (sendBuffer s) (int (length pData)) then RET_OK else RET_ERR, s', st') \<and>
    sess_ok s' \<and> same_core st st' \<and> recvBuf s' = recvBuf s \<and> recvBufPos s' = recvBufPos s \<and>
    sb_contents (sendBuffer s') = sb_contents (sendBuffer s) @
      (if push_fits (send_cap s) (sendBuffer s) (int (length pData)) then pData else [])"
proof -
  have inv: "sb_inv (send_cap s) (sendBuffer s)"
    using assms(1) by (simp add: sess_ok_def)
  obtain sb where sb: "push (ndebug env) (send_cap s) (sendBuffer s) pData (int (length pData)) =
      Inr (push_fits (send_cap s) (sendBuffer s) (int (length pData)), sb)"
    "sb_inv (send_cap s) sb"
    "sb_contents sb = (if push_fits (send_cap s) (sendBuffer s) (int (length pData))
       then sb_contents (sendBuffer s) @ pData else sb_contents (sendBuffer s))"
    using assms(2,3) by (rule_tac push_ok [OF inv, of "int (length pData)" pData "ndebug env"]) simp_all
  then show ?thesis
    using assms(1) send_cap_sb [OF sb(2)]
    by (auto simp: async_send_def sess_ok_def conn_inv_def send_cap_def Let_def)
qed

definition send_packet :: "('x, 'm, 'k) eenv \<Rightarrow> byte list \<Rightarrow> ('x session_scheme, 'm, 'k) callback" where
  "send_packet env pData self sw = rbind (async_send env self pData sw) (\<lambda>(_, sw'). Inr sw')"

lemma benign_send_packet:
  fixes env :: "('x, 'm, 'k) eenv"
  assumes "ndebug env" "int (length pData) < 2 ^ 32"
  shows "benign (send_packet env pData)"
  unfolding benign_def
proof (intro conjI allI impI)
  fix self and s s' :: "'x session_scheme" and st st' :: "('x, 'm, 'k) enet"
  assume "send_packet env pData self (s, st) = Inr (s', st')"
  then show "recvBuf s' = recvBuf s" "recvBufPos s' = recvBufPos s"
    by (auto simp: send_packet_def async_send_def rbind_eq_Inr Let_def)
next
  fix self and s :: "'x session_scheme" and st :: "('x, 'm, 'k) enet"
  assume "sess_ok s"
  from async_send_ok [OF this, of env pData self st] assms
  show "\<exists>s' st'. send_packet env pData self (s, st) = Inr (s', st') \<and> sess_ok s' \<and> same_core st st'"
    by (auto simp: send_packet_def)
qed

subsection \<open>Handing packets on\<close>

lemma alloc_inv_assign:
  assumes "alloc_inv a used" "assign (objs a) x v = Inr h"
  shows "alloc_inv (a\<lparr>objs := h\<rparr>) used"
proof -
  have h: "live (objs a) x" "h = (objs a)\<lparr>cells := (cells (objs a))(x \<mapsto> v)\<rparr>"
    using assms(2) by (auto simp: assign_eq_Inr)
  then have "live h y \<longleftrightarrow> live (objs a) y" for y
    by (auto simp: live_def)
  then show ?thesis
    using assms(1) heap_ok_update [OF _ h(1), of "Some v"] h(2) by (auto simp: alloc_inv_def alloc_repr_def)
qed

lemma post_message_ok:
  assumes "queues_ok st" "0 \<le> i" "i < int (length (msgQueues st))"
  shows "\<exists>st'. post_message env i self m st = Inr st' \<and> queues_ok st' \<and> sessions st' = sessions st \<and>
    config st' = config st \<and> scheder st' = scheder st \<and> length (msgQueues st') = length (msgQueues st)"
proof -
  from assms(1) obtain used where pool: "pool_inv (msgPool st) used"
    and qs: "\<forall>q \<in> set (msgQueues st). spsc_inv q"
    by (auto simp: queues_ok_def)
  let ?q = "msgQueues st ! nat i"
  have "spsc_inv ?q"
    using qs assms(2,3) by (simp add: nat_less_iff)
  then obtain ok q' where enq: "\<And>x. \<exists>ok q'. enqueue x ?q = Inr (ok, q') \<and> spsc_inv q'"
    using ring.enq_law [of ?q] by metis
  from pool_acquire_ok [OF pool] obtain x p' where acq:
    "pool_acquire (ndebug env) 0 \<lparr>pkg_session = 0, pkg_message = None\<rparr> (msgPool st) = Some (Inr (x, p'))"
    "x \<noteq> 0" "pool_inv p' (insert x used)"
    by blast
  have live: "live (objs (pool_alloc p')) x"
    using acq(3) by (simp add: pool_inv_def alloc_inv_def)
  then obtain o' where o': "assign (objs (pool_alloc p')) x \<lparr>pkg_session = self, pkg_message = m\<rparr> = Inr o'"
    by (simp add: assign_eq_Inr)
  from enq [of x] obtain ok q' where q': "enqueue x ?q = Inr (ok, q')" "spsc_inv q'" by blast
  let ?p = "p'\<lparr>pool_alloc := (pool_alloc p')\<lparr>objs := o'\<rparr>\<rparr>"
  have "pool_inv ?p (insert x used)"
    using acq(3) alloc_inv_assign [OF _ o'] by (simp add: pool_inv_def)
  moreover have "\<forall>q \<in> set ((msgQueues st)[nat i := q']). spsc_inv q"
    using qs q'(2) set_update_subset_insert [of "msgQueues st" "nat i" q'] by blast
  ultimately have "queues_ok (st\<lparr>msgPool := ?p, msgQueues := (msgQueues st)[nat i := q']\<rparr>)"
    by (auto simp: queues_ok_def)
  moreover have "post_message env i self m st = Inr (st\<lparr>msgPool := ?p, msgQueues := (msgQueues st)[nat i := q']\<rparr>)"
    using assms(2,3) acq(1) o' q'(1) by (simp add: post_message_def list_at_ok)
  ultimately show ?thesis by auto
qed

lemma benignD:
  assumes "benign f" "sess_ok s"
  obtains s' st' where "f self (s, st) = Inr (s', st')" "sess_ok s'" "same_core st st'"
    "recvBuf s' = recvBuf s" "recvBufPos s' = recvBufPos s"
proof -
  from assms obtain s' st' where r: "f self (s, st) = Inr (s', st')" "sess_ok s'" "same_core st st'"
    unfolding benign_def by blast
  moreover from assms(1) r(1) have "recvBuf s' = recvBuf s" "recvBufPos s' = recvBufPos s"
    unfolding benign_def by blast+
  ultimately show thesis by (rule that)
qed

text \<open>What holds of the state outside the session while its packets are delivered.\<close>

definition delivering :: "int \<Rightarrow> ('x, 'm, 'k) enet \<Rightarrow> ('x, 'm, 'k) enet \<Rightarrow> bool" where
  "delivering i st st' \<longleftrightarrow> queues_ok st' \<and> sessions st' = sessions st \<and> config st' = config st \<and>
     scheder st' = scheder st \<and> 0 \<le> i \<and> i < int (length (msgQueues st'))"

lemma delivering_core: "delivering i st a \<Longrightarrow> same_core a b \<Longrightarrow> delivering i st b"
  by (simp add: delivering_def same_core_def queues_ok_def)

lemma packet_arrived_ok:
  assumes "benign_env env" "sess_ok s" "delivering i st0 st"
  shows "\<exists>s' st'. packet_arrived env i self pkt (s, st) = Inr (s', st') \<and> sess_ok s' \<and> delivering i st0 st'"
proof -
  have recv: "benign (on_recv env pkt)" and msg: "benign (on_message env m)" for m
    using assms(1) by (auto simp: benign_env_def)
  obtain s1 st1 where r: "on_recv env pkt self (s, st) = Inr (s1, st1)" "sess_ok s1" "same_core st st1"
    using benignD [OF recv assms(2)] by metis
  have d1: "delivering i st0 st1"
    using delivering_core [OF assms(3) r(3)] .
  obtain s2 st2 where m: "on_message env (parse_message env pkt) self (s1, st1) = Inr (s2, st2)" "sess_ok s2" "same_core st1 st2"
    using benignD [OF msg r(2)] by metis
  obtain st3 where p: "post_message env i self (parse_message env pkt) st1 = Inr st3" "delivering i st0 st3"
    using post_message_ok [of st1 i env self "parse_message env pkt"] d1 by (auto simp: delivering_def)
  from r m p delivering_core [OF d1 m(3)] d1 show ?thesis
    by (auto simp: packet_arrived_def)
qed

lemma packet_arrived_keeps:
  assumes "benign_env env"
  shows "keeps_buffer (packet_arrived env i self)"
  unfolding keeps_buffer_def
proof (intro allI impI)
  fix p s w s' w'
  assume a: "packet_arrived env i self p (s, w) = Inr (s', w')"
  have b: "f self (s, st) = Inr (s', st') \<Longrightarrow> recvBuf s' = recvBuf s \<and> recvBufPos s' = recvBufPos s"
    if "benign f" for f s st s' st'
    using that unfolding benign_def by blast
  have ben: "benign (on_recv env p)" "benign (on_message env (parse_message env p))"
    using assms by (auto simp: benign_env_def)
  from a obtain s1 w1 where r: "on_recv env p self (s, w) = Inr (s1, w1)"
    and rest: "s' = s1 \<or> on_message env (parse_message env p) self (s1, w1) = Inr (s', w')"
    by (auto simp: packet_arrived_def rbind_eq_Inr split: if_splits)
  from rest b [OF ben(1) r] b [OF ben(2), of s1 w1 s' w'] show "recvBuf s' = recvBuf s \<and> recvBufPos s' = recvBufPos s"
    by auto
qed

lemma deliver_packets_ok:
  assumes "benign_env env"
  shows "sess_ok s \<Longrightarrow> delivering i st0 st \<Longrightarrow>
    \<exists>s' st'. deliver_list (packet_arrived env i self) ps (s, st) = Inr (s', st') \<and> sess_ok s' \<and> delivering i st0 st'"
proof (induction ps arbitrary: s st)
  case (Cons p ps)
  from packet_arrived_ok [OF assms Cons.prems, of self p] obtain s1 st1 where
    "packet_arrived env i self p (s, st) = Inr (s1, st1)" "sess_ok s1" "delivering i st0 st1"
    by blast
  with Cons.IH show ?case by simp
qed simp

subsection \<open>One event\<close>

definition touches_only :: "int \<Rightarrow> ptr \<Rightarrow> ('x, 'm, 'k) enet \<Rightarrow> ('x, 'm, 'k) enet \<Rightarrow> bool" where
  "touches_only i p st st' \<longleftrightarrow> net_ok st' \<and> 0 \<le> i \<and> i < int (length (msgQueues st')) \<and>
     (\<forall>q. q \<noteq> p \<longrightarrow> cells (sessions st') q = cells (sessions st) q)"

lemma touches_only_core: "touches_only i p st a \<Longrightarrow> same_core a b \<Longrightarrow> touches_only i p st b"
  by (simp add: touches_only_def same_core_def net_ok_def queues_ok_def)

lemma touches_only_assign:
  assumes "net_ok st" "live (sessions st) p" "sess_ok s" "delivering i st st'"
  shows "\<exists>h. assign (sessions st') p s = Inr h \<and> touches_only i p st (st'\<lparr>sessions := h\<rparr>)"
proof -
  have "assign (sessions st') p s = Inr ((sessions st)\<lparr>cells := (cells (sessions st))(p \<mapsto> s)\<rparr>)"
    using assms(2,4) by (simp add: assign_eq_Inr delivering_def)
  moreover have "heap_ok ((sessions st)\<lparr>cells := (cells (sessions st))(p \<mapsto> s)\<rparr>)"
    using heap_ok_update [OF _ assms(2)] assms(1) by (simp add: net_ok_def)
  ultimately show ?thesis
    using assms by (auto simp: touches_only_def net_ok_def delivering_def queues_ok_def)
qed

lemma touches_only_delete:
  assumes "net_ok st" "live (sessions st) p" "delivering i st st'"
  shows "\<exists>h. factory_release p (sessions st') = Inr h \<and> \<not> live h p \<and> touches_only i p st (st'\<lparr>sessions := h\<rparr>)"
proof -
  have ok: "heap_ok (sessions st)"
    using assms(1) by (simp add: net_ok_def)
  have "factory_release p (sessions st') = Inr ((sessions st)\<lparr>cells := (cells (sessions st))(p := None)\<rparr>)"
    using assms(2,3) by (auto simp: factory_release_def heap_delete_def delivering_def live_def heap_simps)
  moreover have "heap_ok ((sessions st)\<lparr>cells := (cells (sessions st))(p := None)\<rparr>)"
    using heap_ok_update [OF ok assms(2)] .
  ultimately show ?thesis
    using assms by (auto simp: touches_only_def net_ok_def delivering_def queues_ok_def live_def)
qed

lemma live_session:
  assumes "net_ok st" "live (sessions st) p"
  obtains s where "cells (sessions st) p = Some s" "deref (sessions st) p = Inr s" "sess_ok s"
proof -
  from assms(2) obtain s where s: "cells (sessions st) p = Some s" "p \<noteq> 0"
    by (auto simp: live_def)
  with assms(1) that [of s] show thesis
    by (simp add: net_ok_def heap_simps)
qed

text \<open>After a method call through the pointer, the session is still there.\<close>

lemma with_session_ok:
  assumes "net_ok st" "live (sessions st) p" "benign f" "delivering i st st1"
  shows "\<exists>s' st2. with_session p f st1 = Inr st2 \<and> touches_only i p st st2 \<and> cells (sessions st2) p = Some s' \<and>
     scheder st2 = scheder st"
proof -
  obtain s where s: "cells (sessions st) p = Some s" "deref (sessions st) p = Inr s" "sess_ok s"
    using live_session [OF assms(1,2)] .
  obtain s' st' where f: "f p (s, st1) = Inr (s', st')" "sess_ok s'" "same_core st1 st'"
    using benignD [OF assms(3) s(3)] by metis
  have d: "delivering i st st'"
    using delivering_core [OF assms(4) f(3)] .
  from touches_only_assign [OF assms(1,2) f(2) d] obtain h where h: "assign (sessions st') p s' = Inr h"
    "touches_only i p st (st'\<lparr>sessions := h\<rparr>)"
    by blast
  moreover have "cells h p = Some s'"
    using h(1) by (auto simp: assign_eq_Inr)
  ultimately show ?thesis
    using s(2) f(1) d assms(4) by (auto simp: with_session_def delivering_def)
qed

lemma touches_only_delivering: "touches_only i p st st' \<Longrightarrow> delivering i st' st'"
  by (simp add: touches_only_def delivering_def net_ok_def)

lemma touches_only_trans: "touches_only i p a b \<Longrightarrow> touches_only i p b c \<Longrightarrow> touches_only i p a c"
  by (simp add: touches_only_def)

lemma notify_ok:
  assumes "benign_env env"
  shows "\<exists>st'. notify env evt p st = Inr st' \<and> same_core st st'"
proof (cases "handler env")
  case (Some h)
  with assms obtain q st' where "h evt p st = Inr (q, st')" "same_core st st'"
    unfolding benign_env_def by blast
  with Some show ?thesis by (simp add: notify_def)
qed (simp add: notify_def)

lemma drop_session_ok:
  assumes "benign_env env" "net_ok st" "live (sessions st) p" "delivering i st st1"
  shows "\<exists>st'. drop_session env pf p st1 = Inr st' \<and> touches_only i p st st' \<and> \<not> live (sessions st') p"
proof -
  obtain s where s: "deref (sessions st) p = Inr s"
    using live_session [OF assms(2,3)] .
  let ?st = "do_call env (Close (fd s)) (do_call env (Epoll_ctl pf EPOLL_CTL_DEL (fd s) None) st1)"
  have "benign (on_disconnect env)" "release env = factory_release"
    using assms(1) by (simp_all add: benign_env_def)
  moreover have "delivering i st ?st"
    using assms(4) delivering_core same_core_trans [OF same_core_do_call same_core_do_call] by blast
  ultimately obtain s' st2 where w: "with_session p (on_disconnect env) ?st = Inr st2" "touches_only i p st st2"
    "cells (sessions st2) p = Some s'"
    using with_session_ok [OF assms(2,3)] by metis
  have "net_ok st2" "live (sessions st2) p"
    using w(2,3) assms(3) by (auto simp: touches_only_def live_def)
  from touches_only_delete [OF this touches_only_delivering [OF w(2)]] obtain h where
    h: "factory_release p (sessions st2) = Inr h" "\<not> live h p" "touches_only i p st2 (st2\<lparr>sessions := h\<rparr>)"
    by blast
  obtain st' where n: "notify env EVT_SESSION_RELEASE p (st2\<lparr>sessions := h\<rparr>) = Inr st'" "same_core (st2\<lparr>sessions := h\<rparr>) st'"
    using notify_ok [OF assms(1)] by blast
  have "touches_only i p st st'" "sessions st' = h"
    using touches_only_core [OF touches_only_trans [OF w(2) h(3)] n(2)] n(2) by (simp_all add: same_core_def)
  with w(1) h(1,2) n(1) s assms(4) \<open>release env = factory_release\<close> show ?thesis
    by (simp add: drop_session_def delivering_def Let_def)
qed

lemma recv_documentedD:
  assumes "recv_documented (os env)" "syscall env (Recv f n) st = (r, st')"
  shows "int (length (rdata r)) = max 0 (ret r)" "ret r \<le> max 0 n"
proof -
  have "r = fst (os env (Recv f n) (kernel st))"
    using assms(2) by (auto simp: syscall_def split: prod.splits)
  with assms(1) show "int (length (rdata r)) = max 0 (ret r)" "ret r \<le> max 0 n"
    by (auto simp: recv_documented_def Let_def)
qed

text \<open>The packets a receive call delivers, and the state it leaves.\<close>

lemma receive_ok:
  assumes "benign_env env" "net_ok st" "deref (sessions st) p = Inr s" "delivering i st st1"
    "length (received s) + length bytes \<le> length (recvBuf s)"
  shows "\<exists>s1 s2 st2 st3. recv_chunk False (read_packet env) (packet_arrived env i p) (s, st1) bytes = Some (Inr (s2, st2)) \<and>
    deliver_list (packet_arrived env i p) (fst (frames (read_packet env) (received s @ bytes))) (s1, st1) = Inr (st3, st2) \<and>
    received s2 = snd (frames (read_packet env) (received s @ bytes)) \<and> sess_ok s2 \<and> delivering i st st2"
proof -
  let ?fr = "frames (read_packet env) (received s @ bytes)"
  have s: "sess_ok s" "conn_inv s"
    using assms(2,3) by (auto simp: net_ok_def deref_eq_Inr sess_ok_def)
  have "bounded_framer (read_packet env)"
    using assms(1) by (simp add: benign_env_def)
  then obtain s1 r where c: "recv_chunk False (read_packet env) (packet_arrived env i p) (s, st1) bytes = Some r"
    "conn_inv s1" "length (recvBuf s1) = length (recvBuf s)" "loop_result (packet_arrived env i p) ?fr (s1, st1) r"
    "s1 = s\<lparr>recvBuf := recvBuf s1, recvBufPos := recvBufPos s1\<rparr>"
    using recv_chunk_ok [OF _ packet_arrived_keeps [OF assms(1)] s(2) assms(5)] by metis
  have "sendBuffer s1 = sendBuffer s"
    by (subst c(5)) simp
  then have "sess_ok s1"
    using s(1) c(2) by (simp add: sess_ok_def send_cap_def)
  from deliver_packets_ok [OF assms(1) this assms(4)] obtain s3 st2 where d:
    "deliver_list (packet_arrived env i p) (fst ?fr) (s1, st1) = Inr (s3, st2)" "sess_ok s3" "delivering i st st2"
    by blast
  with c(4) obtain s2 where r: "r = Inr (s2, st2)" "conn_inv s2" "received s2 = snd ?fr"
    "s2 = s3\<lparr>recvBuf := recvBuf s2, recvBufPos := recvBufPos s2\<rparr>"
    by (auto simp: loop_result_def)
  have "sendBuffer s2 = sendBuffer s3"
    by (subst r(4)) simp
  then have "sess_ok s2"
    using d(2) r(2) by (simp add: sess_ok_def send_cap_def)
  with c(1) d r show ?thesis by blast
qed

lemma delivering_start: "net_ok st \<Longrightarrow> 0 \<le> i \<Longrightarrow> i < int (length (msgQueues st)) \<Longrightarrow> delivering i st st"
  by (simp add: delivering_def net_ok_def)

lemma on_epollin_ok:
  assumes "benign_env env" "net_ok st" "live (sessions st) p" "0 \<le> i" "i < int (length (msgQueues st))"
  shows "\<exists>st'. on_epollin env i pf p st = Some (Inr st') \<and> touches_only i p st st'"
proof -
  obtain s where s: "deref (sessions st) p = Inr s" "sess_ok s"
    using live_session [OF assms(2,3)] .
  obtain r st1 where r: "syscall env (Recv (fd s) (recv_size s)) st = (r, st1)"
    by fastforce
  have d: "delivering i st st1"
    using delivering_core [OF delivering_start [OF assms(2,4,5)] same_core_syscall [OF r]] .
  show ?thesis
  proof (cases "ret r \<le> 0")
    case True
    then show ?thesis
      using drop_session_ok [OF assms(1-3) d, of pf] s r by (auto simp: on_epollin_def Let_def)
  next
    case False
    have "recv_documented (os env)"
      using assms(1) by (simp add: benign_env_def)
    note rd = recv_documentedD [OF this r]
    have "int (length (received s)) = recvBufPos s"
      using s(2) by (simp add: sess_ok_def conn_inv_def received_def length_region)
    then have "length (received s) + length (rdata r) \<le> length (recvBuf s)"
      using False rd s(2) by (simp add: recv_size_def sess_ok_def conn_inv_def)
    from receive_ok [OF assms(1,2) s(1) d this] obtain s2 st2 where c:
      "recv_chunk False (read_packet env) (packet_arrived env i p) (s, st1) (rdata r) = Some (Inr (s2, st2))"
      "sess_ok s2" "delivering i st st2"
      by blast
    from touches_only_assign [OF assms(2,3) c(2,3)] False s(1) r c(1) show ?thesis
      by (auto simp: on_epollin_def Let_def)
  qed
qed

text \<open>The send path: what \<open>send\<close> took is gone from the buffer, and the interest is re-registered.\<close>

lemma on_epollout_eq:
  assumes "benign_env env" "net_ok st" "deref (sessions st) p = Inr s"
    "syscall env (Send (fd s) (sb_contents (sendBuffer s))) st = (r, st1)"
  shows "\<exists>sb. sb_inv (send_cap s) sb \<and> sb_contents sb = drop (nat (ret r)) (sb_contents (sendBuffer s)) \<and>
    on_epollout env p st =
      Inr (do_call env (Epoll_ctl (procFd s) EPOLL_CTL_MOD (fd s)
             (Some \<lparr>ev_events = (if errno st1 = EAGAIN then EPOLLIN OR EPOLLOUT OR EPOLLERR else EPOLLIN OR EPOLLERR),
                    ev_data = DataPtr p\<rparr>))
           (st1\<lparr>sessions := (sessions st)\<lparr>cells := (cells (sessions st))(p \<mapsto> s\<lparr>sendBuffer := sb\<rparr>)\<rparr>\<rparr>))"
proof -
  have s: "sb_inv (send_cap s) (sendBuffer s)" "live (sessions st) p"
    using assms(2,3) by (auto simp: net_ok_def deref_eq_Inr sess_ok_def live_def)
  have "r = fst (os env (Send (fd s) (sb_contents (sendBuffer s))) (kernel st))"
    using assms(4) by (auto simp: syscall_def split: prod.splits)
  then have r: "-1 \<le> ret r" "ret r \<le> int (length (sb_contents (sendBuffer s)))"
    using assms(1) by (auto simp: benign_env_def send_documented_def Let_def)
  moreover have "int (length (sb_contents (sendBuffer s))) < 2 ^ 31"
    using length_sb_contents [OF s(1)] s(1) by (simp add: sb_inv_def)
  ultimately have "s32 (ret r) = ret r"
    by (intro s32_id) auto
  then have h: "send_handler env (fd s) (sb_contents (sendBuffer s)) (int (length (sb_contents (sendBuffer s)))) st = (ret r, st1)"
    using assms(4) by (simp add: send_handler_def)
  obtain sb where sb: "pop (send_handler env (fd s)) (sendBuffer s) st = Inr (0 < ret r, sb, st1)" "sb_inv (send_cap s) sb"
    "sb_contents sb = drop (nat (ret r)) (sb_contents (sendBuffer s))"
    using pop_ok [where handler = "send_handler env (fd s)", OF s(1) h r(2)] .
  have same: "sessions st1 = sessions st"
    using same_core_syscall [OF assms(4)] by (simp add: same_core_def)
  then have "assign (sessions st1) p (s\<lparr>sendBuffer := sb\<rparr>) =
      Inr ((sessions st)\<lparr>cells := (cells (sessions st))(p \<mapsto> s\<lparr>sendBuffer := sb\<rparr>)\<rparr>)"
    using s(2) by (simp add: assign_eq_Inr)
  with sb assms(3) show ?thesis
    by (intro exI [of _ sb]) (simp add: on_epollout_def Let_def EAGAIN_def EWOULDBLOCK_def)
qed

lemma on_epollout_ok:
  assumes "benign_env env" "net_ok st" "live (sessions st) p" "0 \<le> i" "i < int (length (msgQueues st))"
  shows "\<exists>st'. on_epollout env p st = Inr st' \<and> touches_only i p st st'"
proof -
  obtain s where s: "deref (sessions st) p = Inr s" "sess_ok s"
    using live_session [OF assms(2,3)] .
  obtain r st1 where r: "syscall env (Send (fd s) (sb_contents (sendBuffer s))) st = (r, st1)"
    by fastforce
  have d: "delivering i st st1"
    using delivering_core [OF delivering_start [OF assms(2,4,5)] same_core_syscall [OF r]] .
  from on_epollout_eq [OF assms(1,2) s(1) r] obtain sb where sb: "sb_inv (send_cap s) sb"
    and eq: "on_epollout env p st =
      Inr (do_call env (Epoll_ctl (procFd s) EPOLL_CTL_MOD (fd s)
             (Some \<lparr>ev_events = (if errno st1 = EAGAIN then EPOLLIN OR EPOLLOUT OR EPOLLERR else EPOLLIN OR EPOLLERR),
                    ev_data = DataPtr p\<rparr>))
           (st1\<lparr>sessions := (sessions st)\<lparr>cells := (cells (sessions st))(p \<mapsto> s\<lparr>sendBuffer := sb\<rparr>)\<rparr>\<rparr>))"
    by blast
  have "sess_ok (s\<lparr>sendBuffer := sb\<rparr>)"
    using s(2) sb send_cap_sb [OF sb] by (simp add: sess_ok_def conn_inv_def send_cap_def)
  from touches_only_assign [OF assms(2,3) this d] d
  have "touches_only i p st (st1\<lparr>sessions := (sessions st)\<lparr>cells := (cells (sessions st))(p \<mapsto> s\<lparr>sendBuffer := sb\<rparr>)\<rparr>\<rparr>)"
    by (auto simp: assign_eq_Inr delivering_def)
  with eq touches_only_core [OF this same_core_do_call] show ?thesis by blast
qed

lemma on_epollerr_ok:
  assumes "benign_env env" "net_ok st" "live (sessions st) p" "0 \<le> i" "i < int (length (msgQueues st))"
  shows "\<exists>st'. on_epollerr env pf p st = Inr st' \<and> touches_only i p st st'"
proof -
  obtain s where s: "deref (sessions st) p = Inr s"
    using live_session [OF assms(2,3)] .
  let ?st = "do_call env (Close (fd s)) (do_call env (Epoll_ctl pf EPOLL_CTL_DEL (fd s) None) st)"
  have "delivering i st ?st"
    using delivering_start [OF assms(2,4,5)] delivering_core same_core_trans [OF same_core_do_call same_core_do_call] by blast
  from touches_only_delete [OF assms(2,3) this] s assms(1) show ?thesis
    by (auto simp: on_epollerr_def benign_env_def Let_def)
qed

lemma handle_event_ok:
  assumes "benign_env env" "net_ok st" "0 \<le> i" "i < int (length (msgQueues st))"
    "data_ptr (ev_data ev) = 0 \<or> live (sessions st) (data_ptr (ev_data ev))"
  shows "\<exists>st'. handle_event env i pf ev st = Some (Inr st') \<and> touches_only i (data_ptr (ev_data ev)) st st'"
proof (cases "data_ptr (ev_data ev) = 0")
  case True
  then show ?thesis
    using assms(2-4) by (simp add: handle_event_def touches_only_def)
next
  case False
  let ?p = "data_ptr (ev_data ev)"
  have live: "live (sessions st) ?p"
    using assms(5) False by simp
  obtain s where s: "deref (sessions st) ?p = Inr s"
    using live_session [OF assms(2) live] .
  have "touches_only i ?p st st"
    using assms(2-4) by (simp add: touches_only_def)
  from touches_only_core [OF this same_core_do_call]
  have "touches_only i ?p st (do_call env (Epoll_ctl pf EPOLL_CTL_DEL (fd s) None) st)" .
  then show ?thesis
    using False s on_epollin_ok [OF assms(1,2) live assms(3,4), of pf] on_epollout_ok [OF assms(1,2) live assms(3,4)]
      on_epollerr_ok [OF assms(1,2) live assms(3,4), of pf]
    by (simp add: handle_event_def Let_def)
qed

definition event_ptrs :: "epoll_event list \<Rightarrow> ptr list" where
  "event_ptrs evs = filter (\<lambda>p. p \<noteq> 0) (map (data_ptr \<circ> ev_data) evs)"

lemma handle_events_ok:
  assumes "benign_env env"
  shows "net_ok st \<Longrightarrow> 0 \<le> i \<Longrightarrow> i < int (length (msgQueues st)) \<Longrightarrow> distinct (event_ptrs evs) \<Longrightarrow>
    (\<forall>p \<in> set (event_ptrs evs). live (sessions st) p) \<Longrightarrow>
    \<exists>st'. handle_events env i pf evs st = Some (Inr st') \<and> net_ok st' \<and> length (msgQueues st') > nat i \<and>
      (\<forall>q. q \<notin> set (event_ptrs evs) \<longrightarrow> q \<noteq> 0 \<longrightarrow> cells (sessions st') q = cells (sessions st) q)"
proof (induction evs arbitrary: st)
  case Nil
  then show ?case by auto
next
  case (Cons ev evs)
  let ?p = "data_ptr (ev_data ev)"
  have ptrs: "event_ptrs (ev # evs) = (if ?p = 0 then [] else [?p]) @ event_ptrs evs"
    by (simp add: event_ptrs_def)
  from handle_event_ok [OF assms Cons.prems(1-3), of ev pf] Cons.prems(5) obtain st1 where
    e: "handle_event env i pf ev st = Some (Inr st1)" "touches_only i ?p st st1"
    unfolding ptrs by (auto split: if_splits)
  have "live (sessions st1) q" if "q \<in> set (event_ptrs evs)" for q
  proof -
    have "q \<noteq> 0"
      using that by (auto simp: event_ptrs_def)
    moreover from this have "q \<noteq> ?p"
      using that Cons.prems(4) unfolding ptrs by (auto split: if_splits)
    ultimately show ?thesis
      using e(2) Cons.prems(5) that unfolding ptrs by (auto simp: touches_only_def live_def)
  qed
  with Cons.IH [of st1] e(2) Cons.prems(4) obtain st' where
    "handle_events env i pf evs st1 = Some (Inr st')" "net_ok st'" "length (msgQueues st') > nat i"
    "\<forall>q. q \<notin> set (event_ptrs evs) \<longrightarrow> q \<noteq> 0 \<longrightarrow> cells (sessions st') q = cells (sessions st1) q"
    unfolding ptrs by (auto simp: touches_only_def split: if_splits)
  with e show ?case
    unfolding ptrs by (auto simp: touches_only_def)
qed

subsection \<open>Starting\<close>

definition threads_start :: "'k os \<Rightarrow> bool" where
  "threads_start sys \<longleftrightarrow> (\<forall>f k. 0 \<le> ret (fst (sys (Thread_create f) k)))"

lemma spawn_ok:
  assumes "threads_start (os env)"
  shows "spawn env f st = Inr (do_call env (Thread_create f) st)"
proof -
  obtain r st' where r: "syscall env (Thread_create f) st = (r, st')"
    by fastforce
  then have "r = fst (os env (Thread_create f) (kernel st))"
    by (auto simp: syscall_def split: prod.splits)
  then have "0 \<le> ret r"
    using assms by (simp add: threads_start_def)
  with r show ?thesis
    by (simp add: spawn_def do_call_def)
qed

lemma fresh_ring: "\<exists>q. spscqueue nd True 100 = Inr q \<and> spsc_inv q \<and> spsc_contents q = []"
  using spsc_init [of 100 nd] by auto

lemma start_workers_ok:
  assumes "threads_start (os env)"
  shows "\<exists>st'. start_workers env is st = Inr st' \<and> procThreads st' = procThreads st @ is \<and>
    scheder st' = scheder st \<and> config st' = config st \<and> running st' = running st \<and> appThread st' = appThread st \<and>
    (\<exists>qs. msgQueues st' = msgQueues st @ qs \<and> length qs = length is \<and>
       (\<forall>q \<in> set qs. spsc_inv q \<and> spsc_contents q = []))"
proof (induction "is" arbitrary: st)
  case (Cons i "is")
  from fresh_ring [of "ndebug env"] obtain q :: "ptr spscqueue" where q: "spscqueue (ndebug env) True 100 = Inr q" "spsc_inv q" "spsc_contents q = []"
    by blast
  let ?st = "(do_call env (Thread_create (ProcessorRun i)) (st\<lparr>msgQueues := msgQueues st @ [q]\<rparr>))
      \<lparr>procThreads := procThreads st @ [i]\<rparr>"
  from Cons.IH [of ?st] obtain st' qs where IH: "start_workers env is ?st = Inr st'" "procThreads st' = procThreads st @ i # is"
    "scheder st' = scheder st" "config st' = config st" "running st' = running st" "appThread st' = appThread st"
    "msgQueues st' = msgQueues st @ q # qs" "length qs = length is" "\<forall>q \<in> set qs. spsc_inv q \<and> spsc_contents q = []"
    by auto
  have "start_workers env (i # is) st = Inr st'"
    using q(1) IH(1) by (simp add: spawn_ok [OF assms])
  with IH(2-9) q(2,3) show ?case
    by (intro exI [of _ st'] conjI exI [of _ "q # qs"]) auto
qed auto

lemma processor_start_ok:
  assumes "threads_start (os env)" "\<not> running st" "1 \<le> cfg_threads cfg" "procThreads st = []" "msgQueues st = []"
  shows "\<exists>st'. Processor_start env cfg st = Inr (0, st') \<and> running st' \<and> config st' = cfg \<and>
    procThreads st' = [0..min (cfg_threads cfg) 50 - 1] \<and> sched_threads (scheder st') = min (cfg_threads cfg) 50 \<and>
    procFds (scheder st') = procFds (scheder st) \<and> epollFd (scheder st') = epollFd (scheder st) \<and>
    int (length (msgQueues st')) = min (cfg_threads cfg) 50 \<and>
    (\<forall>q \<in> set (msgQueues st'). spsc_inv q \<and> spsc_contents q = []) \<and>
    appThread st' = (app_run cfg \<or> appThread st)"
proof -
  let ?n = "min (cfg_threads cfg) 50"
  let ?st = "st\<lparr>running := True, config := cfg, scheder := (scheder st)\<lparr>sched_threads := u32 ?n\<rparr>\<rparr>"
  have n: "(if cfg_threads cfg > MAX_THREAD then MAX_THREAD else cfg_threads cfg) = ?n" "u32 ?n = ?n"
    using assms(3) by (auto simp: MAX_THREAD_def min_def)
  from start_workers_ok [OF assms(1), of "[0..?n - 1]" ?st] obtain st1 qs where w:
    "start_workers env [0..?n - 1] ?st = Inr st1" "procThreads st1 = [0..?n - 1]" "scheder st1 = scheder ?st"
    "config st1 = cfg" "running st1" "appThread st1 = appThread st" "msgQueues st1 = qs" "length qs = length [0..?n - 1]"
    "\<forall>q \<in> set qs. spsc_inv q \<and> spsc_contents q = []"
    using assms(4,5) by auto
  have start: "Processor_start env cfg st = rbind (start_workers env [0..?n - 1] ?st) (\<lambda>st.
      if app_run cfg then rbind (spawn env AppRun st) (\<lambda>st. Inr (0, st\<lparr>appThread := True\<rparr>)) else Inr (0, st))"
    using assms(2) n by (simp add: Processor_start_def Let_def)
  have "int (length [0..?n - 1]) = ?n"
    using assms(3) by simp
  then show ?thesis
    using w n(2) unfolding start by (auto simp: spawn_ok [OF assms(1)])
qed

lemma proc_index_ok:
  assumes "1 \<le> threads" "threads \<le> 50" "0 \<le> f" "f < 2 ^ 31"
  shows "proc_index f threads = Inr (f mod threads)" "0 \<le> f mod threads" "f mod threads < threads"
proof -
  show range: "0 \<le> f mod threads" "f mod threads < threads"
    using assms by simp_all
  have "s32 (f mod threads) = f mod threads"
    using range assms(2) by (intro s32_id) auto
  then show "proc_index f threads = Inr (f mod threads)"
    using assms by (simp add: proc_index_def)
qed

text \<open>A session is pushed to the worker its descriptor selects.\<close>

lemma scheduler_push_eq:
  assumes "deref (sessions st) p = Inr s" "1 \<le> sched_threads (scheder st)" "sched_threads (scheder st) \<le> 50"
    "length (procFds (scheder st)) = 50" "0 \<le> fd s" "fd s < 2 ^ 31"
  defines "pf \<equiv> procFds (scheder st) ! nat (fd s mod sched_threads (scheder st))"
  shows "Scheduler_push env p st = with_session p (on_connect env)
    (do_call env (Epoll_ctl pf EPOLL_CTL_ADD (fd s) (Some \<lparr>ev_events = EPOLLIN OR EPOLLERR, ev_data = DataPtr p\<rparr>))
      (st\<lparr>sessions := (sessions st)\<lparr>cells := (cells (sessions st))(p \<mapsto> s\<lparr>procFd := pf\<rparr>)\<rparr>\<rparr>))"
proof -
  note idx = proc_index_ok [OF assms(2,3,5,6)]
  have "list_at (procFds (scheder st)) (fd s mod sched_threads (scheder st)) = Inr pf"
    using idx(2,3) assms(3,4) by (simp add: list_at_def pf_def)
  then show ?thesis
    using assms(1) idx(1) by (simp add: Scheduler_push_def Let_def assign_def)
qed

subsection \<open>A concrete program\<close>

text \<open>
  A system in which every read gives one byte, every write takes one, and everything else
  succeeds; an echoing session class; and a state with one session at address 2.
\<close>

definition demo_os :: "unit os" where
  "demo_os c k = (\<lparr>ret = (case c of Recv f n \<Rightarrow> (if 0 < n then 1 else 0) | Send f d \<Rightarrow> min 1 (int (length d))
       | Epoll_create n \<Rightarrow> 5 | Socket \<Rightarrow> 6 | Accept f \<Rightarrow> 9 | _ \<Rightarrow> 0), err = 0,
     rdata = (case c of Recv f n \<Rightarrow> (if 0 < n then [7] else []) | _ \<Rightarrow> []), revents = [], raddr = (1, 2), rkevents = [], rkey = 0\<rparr>, ())"

definition demo_base :: "(unit, unit, unit) eenv" where
  "demo_base = \<lparr>os = demo_os, ndebug = True, read_packet = default_read_packet, on_connect = (\<lambda>_ sw. Inr sw),
     on_disconnect = (\<lambda>_ sw. Inr sw), on_recv = (\<lambda>_ _ sw. Inr sw), on_send = (\<lambda>_ _ _ sw. Inr sw),
     parse_message = (\<lambda>_. Some ()), on_message = (\<lambda>_ _ sw. Inr sw),
     create = factory_create (EventHandler [0, 0, 0, 0] [0, 0, 0, 0] NoOwner 0 0 False),
     release = factory_release, handler = Some (\<lambda>evt p st. Inr (0, st))\<rparr>"

definition demo_env :: "(unit, unit, unit) eenv" where
  "demo_env = demo_base\<lparr>on_recv := (\<lambda>pkt. send_packet demo_base (take 4 pkt))\<rparr>"

definition demo_session :: session where
  "demo_session = (EventHandler [0, 0, 0, 0] [1, 2, 3, 0] NoOwner 0 0 False)
     \<lparr>fd := 7, sendBuffer := \<lparr>dataHead = 0, dataTail = 3, dataBuf = [1, 2, 3, 0]\<rparr>\<rparr>"

definition demo_net :: "properties \<Rightarrow> (unit, unit, unit) enet" where
  "demo_net cfg = \<lparr>kernel = (), errno = 0, trace = [], sessions = \<lparr>cells = [2 \<mapsto> demo_session], fresh = 3\<rparr>,
     scheder = \<lparr>epollFd = 3, procFds = replicate 50 5, sched_threads = 1\<rparr>, running = True, procThreads = [0],
     msgQueues = [\<lparr>queueSize = 3, records = [None, None, None], readIndex = 0, writeIndex = 0\<rparr>],
     msgPool = ObjectPool fresh_alloc 100 10, config = cfg, appThread = True\<rparr>"

lemma demo_env_benign: "benign_env demo_env"
proof -
  have "recv_documented demo_os" "send_documented demo_os"
    by (auto simp: recv_documented_def send_documented_def demo_os_def Let_def)
  moreover have "benign (send_packet demo_base (take 4 pkt))" for pkt
    by (rule benign_send_packet) (simp_all add: demo_base_def)
  moreover have "bounded_framer default_read_packet"
    by (rule default_framer.bounded_framer)
  ultimately show ?thesis
    using benign_skip by (auto simp: benign_env_def demo_env_def demo_base_def)
qed

lemma demo_ring: "spsc_inv (\<lparr>queueSize = 3, records = [None, None, None], readIndex = 0, writeIndex = 0\<rparr> :: 'a spscqueue)"
proof -
  have "spscqueue True True 2 = Inr (\<lparr>queueSize = 3, records = [None, None, None], readIndex = 0, writeIndex = 0\<rparr> :: 'a spscqueue)"
    by (simp add: spscqueue_def eval_nat_numeral)
  from spscqueue_ok(1) [OF _ _ this] show ?thesis by simp
qed

lemma demo_net_ok: "net_ok (demo_net cfg)"
proof -
  have "pool_inv (ObjectPool fresh_alloc 100 10) {}"
    by (rule pool_inv_fresh)
  moreover have "sess_ok demo_session"
    by (simp add: demo_session_def EventHandler_def sess_ok_def conn_inv_def sb_inv_def send_cap_def)
  ultimately show ?thesis
    using demo_ring by (auto simp: net_ok_def demo_net_def heap_ok_def queues_ok_def split: if_splits)
qed

lemma demo_live: "live (sessions (demo_net cfg)) 2"
  by (simp add: demo_net_def live_def)

lemma demo_deref: "deref (sessions (demo_net cfg)) 2 = Inr demo_session"
  by (simp add: demo_net_def deref_def)

subsection \<open>Properties\<close>

text \<open>
  (C1) A worker handles a batch of events: if the events name different sessions, all of
  them live, then every branch of the dispatch returns without a fault, whatever the peers
  do and whatever packets arrive; all sessions, message queues and the message pool stay
  well formed, and no session outside the batch is touched.
\<close>

theorem worker_batch_safe:
  assumes "benign_env env" "net_ok st" "0 \<le> procIdx" "procIdx < int (length (msgQueues st))"
    "distinct (event_ptrs evs)" "\<forall>p \<in> set (event_ptrs evs). live (sessions st) p"
  shows "\<exists>st'. handle_events env procIdx procFd' evs st = Some (Inr st') \<and> net_ok st' \<and>
    (\<forall>q. q \<notin> set (event_ptrs evs) \<longrightarrow> q \<noteq> 0 \<longrightarrow> cells (sessions st') q = cells (sessions st) q)"
  using handle_events_ok [OF assms, of procFd'] by blast

theorem worker_batch_safe_witness:
  "\<exists>st'. handle_events demo_env 0 5 [\<lparr>ev_events = EPOLLIN, ev_data = DataPtr 2\<rparr>] (demo_net Properties) = Some (Inr st') \<and> net_ok st'"
proof -
  have ptrs: "event_ptrs [\<lparr>ev_events = EPOLLIN, ev_data = DataPtr 2\<rparr>] = [2]"
    by (simp add: event_ptrs_def)
  have "\<exists>st'. handle_events demo_env 0 5 [\<lparr>ev_events = EPOLLIN, ev_data = DataPtr 2\<rparr>] (demo_net Properties) = Some (Inr st') \<and> net_ok st' \<and>
    (\<forall>q. q \<notin> set (event_ptrs [\<lparr>ev_events = EPOLLIN, ev_data = DataPtr 2\<rparr>]) \<longrightarrow> q \<noteq> 0 \<longrightarrow>
      cells (sessions st') q = cells (sessions (demo_net Properties)) q)"
    by (rule worker_batch_safe [OF demo_env_benign demo_net_ok])
      (use demo_live in \<open>auto simp: ptrs demo_net_def\<close>)
  then show ?thesis by blast
qed

text \<open>
  (C4) Data arrives for a session: the packets handed to the session, in order, are exactly
  the packets the framer cuts from the bytes kept from before followed by the bytes just
  read, and the session keeps the rest.
\<close>

theorem epollin_delivers:
  assumes "benign_env env" "net_ok st" "deref (sessions st) p = Inr s" "0 \<le> procIdx" "procIdx < int (length (msgQueues st))"
    "syscall env (Recv (fd s) (recv_size s)) st = (r, st1)" "0 < ret r"
  defines "fr \<equiv> frames (read_packet env) (received s @ rdata r)"
  shows "\<exists>s1 s2 s3 st2 h. deliver_list (packet_arrived env procIdx p) (fst fr) (s1, st1) = Inr (s3, st2) \<and>
    on_epollin env procIdx procFd' p st = Some (Inr (st2\<lparr>sessions := h\<rparr>)) \<and>
    cells h p = Some s2 \<and> received s2 = snd fr \<and> concat (fst fr) @ snd fr = received s @ rdata r"
proof -
  have live: "live (sessions st) p"
    using assms(3) by (auto simp: deref_eq_Inr live_def)
  have s: "sess_ok s"
    using assms(2,3) by (auto simp: net_ok_def deref_eq_Inr)
  have d: "delivering procIdx st st1"
    using delivering_core [OF delivering_start [OF assms(2,4,5)] same_core_syscall [OF assms(6)]] .
  have "recv_documented (os env)"
    using assms(1) by (simp add: benign_env_def)
  note rd = recv_documentedD [OF this assms(6)]
  have "int (length (received s)) = recvBufPos s"
    using s by (simp add: sess_ok_def conn_inv_def received_def length_region)
  then have "length (received s) + length (rdata r) \<le> length (recvBuf s)"
    using assms(7) rd s by (simp add: recv_size_def sess_ok_def conn_inv_def)
  from receive_ok [OF assms(1-3) d this] obtain s1 s2 st2 s3 where c:
    "recv_chunk False (read_packet env) (packet_arrived env procIdx p) (s, st1) (rdata r) = Some (Inr (s2, st2))"
    "deliver_list (packet_arrived env procIdx p) (fst fr) (s1, st1) = Inr (s3, st2)"
    "received s2 = snd fr" "sess_ok s2" "delivering procIdx st st2"
    unfolding fr_def by blast
  from touches_only_assign [OF assms(2) live c(4,5)] obtain h where h: "assign (sessions st2) p s2 = Inr h" by blast
  then have "cells h p = Some s2"
    by (auto simp: assign_eq_Inr)
  moreover have "on_epollin env procIdx procFd' p st = Some (Inr (st2\<lparr>sessions := h\<rparr>))"
    using assms(3,6,7) c(1) h by (simp add: on_epollin_def Let_def)
  ultimately show ?thesis
    using c(2,3) frames_concat [of "read_packet env" "received s @ rdata r"] unfolding fr_def by blast
qed

theorem epollin_delivers_witness:
  "\<exists>s2 st' h. on_epollin demo_env 0 5 2 (demo_net Properties) = Some (Inr st') \<and> cells (sessions st') 2 = Some s2 \<and>
     received s2 = snd (frames default_read_packet [7])"
proof -
  obtain r st1 where r: "syscall demo_env (Recv (fd demo_session) (recv_size demo_session)) (demo_net Properties) = (r, st1)"
    by fastforce
  have rr: "ret r = 1" "rdata r = [7]"
    using r by (auto simp: syscall_def demo_env_def demo_base_def demo_os_def demo_session_def EventHandler_def recv_size_def)
  have "received demo_session = []" "read_packet demo_env = default_read_packet"
    by (simp_all add: demo_session_def EventHandler_def received_def demo_env_def demo_base_def)
  with epollin_delivers [OF demo_env_benign demo_net_ok demo_deref _ _ r, of 0 5] rr show ?thesis
    by (fastforce simp: demo_net_def)
qed

text \<open>
  (C17) The end of a session: when \<open>recv\<close> fails or reports the end of the stream, the
  descriptor is taken out of the epoll set and closed, \<open>on_disconnect\<close> runs on the
  session while it is still alive, then the session is deleted, and only then the event handler is
  told, with the address of the deleted session.
\<close>

theorem session_end_releases:
  assumes "benign_env env" "net_ok st" "deref (sessions st) p = Inr s" "0 \<le> procIdx" "procIdx < int (length (msgQueues st))"
    "syscall env (Recv (fd s) (recv_size s)) st = (r, st1)" "ret r \<le> 0"
  shows "\<exists>s' st2 st3.
    with_session p (on_disconnect env)
      (do_call env (Close (fd s)) (do_call env (Epoll_ctl procFd' EPOLL_CTL_DEL (fd s) None) st1)) = Inr st2 \<and>
    cells (sessions st2) p = Some s' \<and>
    st3 = st2\<lparr>sessions := (sessions st2)\<lparr>cells := (cells (sessions st2))(p := None)\<rparr>\<rparr> \<and>
    on_epollin env procIdx procFd' p st = Some (notify env EVT_SESSION_RELEASE p st3) \<and> \<not> live (sessions st3) p"
proof -
  have live: "live (sessions st) p" "p \<noteq> 0"
    using assms(3) by (auto simp: deref_eq_Inr live_def)
  let ?st = "do_call env (Close (fd s)) (do_call env (Epoll_ctl procFd' EPOLL_CTL_DEL (fd s) None) st1)"
  have d1: "delivering procIdx st st1"
    using delivering_core [OF delivering_start [OF assms(2,4,5)] same_core_syscall [OF assms(6)]] .
  then have "delivering procIdx st ?st"
    using delivering_core same_core_trans [OF same_core_do_call same_core_do_call] by blast
  moreover have "benign (on_disconnect env)" "release env = factory_release"
    using assms(1) by (simp_all add: benign_env_def)
  ultimately obtain s' st2 where w: "with_session p (on_disconnect env) ?st = Inr st2" "cells (sessions st2) p = Some s'"
    using with_session_ok [OF assms(2) live(1)] by metis
  have "deref (sessions st1) p = Inr s"
    using assms(3) d1 by (simp add: delivering_def)
  then have "on_epollin env procIdx procFd' p st = Some (notify env EVT_SESSION_RELEASE p
      (st2\<lparr>sessions := (sessions st2)\<lparr>cells := (cells (sessions st2))(p := None)\<rparr>\<rparr>))"
    using assms(3,6,7) w live(2) \<open>release env = factory_release\<close>
    by (auto simp: on_epollin_def drop_session_def Let_def factory_release_def heap_delete_live)
  with w show ?thesis
    by (auto simp: live_def)
qed

theorem session_end_releases_witness:
  "\<exists>st'. on_epollin (demo_env\<lparr>os := (\<lambda>c k. (\<lparr>ret = 0, err = 0, rdata = [], revents = [], raddr = (0, 0), rkevents = [], rkey = 0\<rparr>, k))\<rparr>) 0 5 2
      (demo_net Properties) = Some (Inr st') \<and> \<not> live (sessions st') 2"
proof -
  let ?os = "\<lambda>c k. (\<lparr>ret = 0, err = 0, rdata = [], revents = [], raddr = (0, 0), rkevents = [], rkey = 0\<rparr>, k)"
  let ?env = "demo_env\<lparr>os := ?os\<rparr>"
  have "benign_env ?env"
    using demo_env_benign by (simp add: benign_env_def recv_documented_def send_documented_def)
  moreover obtain r st1 where r: "syscall ?env (Recv (fd demo_session) (recv_size demo_session)) (demo_net Properties) = (r, st1)" "ret r = 0"
    by (simp add: syscall_def)
  ultimately show ?thesis
    using session_end_releases [OF _ demo_net_ok demo_deref _ _ r(1), of 0 5]
    by (auto simp: demo_net_def notify_def demo_env_def demo_base_def)
qed

text \<open>
  A receive buffer that is full and holds no complete packet ends the session: the next
  read has no room, so \<open>recv\<close> returns nothing, which the code takes for the end of the
  stream.
\<close>

theorem full_buffer_ends_session:
  assumes "recv_documented (os env)" "deref (sessions st) p = Inr s" "recvBufPos s = int (length (recvBuf s))"
    "syscall env (Recv (fd s) 0) st = (r, st1)"
  shows "on_epollin env procIdx procFd' p st = Some (drop_session env procFd' p st1)"
proof -
  have "ret r \<le> 0"
    using recv_documentedD(2) [OF assms(1,4)] by simp
  then show ?thesis
    using assms by (auto simp: on_epollin_def recv_size_def Let_def)
qed

theorem full_buffer_ends_session_witness:
  "\<exists>st1. on_epollin demo_env 0 5 2 ((demo_net Properties)\<lparr>sessions := \<lparr>cells = [2 \<mapsto> demo_session\<lparr>recvBufPos := 4\<rparr>], fresh = 3\<rparr>\<rparr>) =
     Some (drop_session demo_env 5 2 st1)"
proof -
  let ?s = "demo_session\<lparr>recvBufPos := 4\<rparr>"
  let ?st = "(demo_net Properties)\<lparr>sessions := \<lparr>cells = [2 \<mapsto> ?s], fresh = 3\<rparr>\<rparr>"
  have "recv_documented (os demo_env)"
    using demo_env_benign by (simp add: benign_env_def)
  moreover have "deref (sessions ?st) 2 = Inr ?s" "recvBufPos ?s = int (length (recvBuf ?s))"
    by (simp_all add: deref_def demo_session_def EventHandler_def)
  moreover obtain r st1 where "syscall demo_env (Recv (fd ?s) 0) ?st = (r, st1)"
    by fastforce
  ultimately show ?thesis
    using full_buffer_ends_session by blast
qed

text \<open>
  A writable session: \<open>send\<close> is offered exactly the buffered bytes, what it takes
  leaves the buffer and nothing else does, and the session stays registered for reading, and for
  writing only if \<open>errno\<close> says the socket would block.
\<close>

theorem epollout_sends_prefix:
  assumes "benign_env env" "net_ok st" "deref (sessions st) p = Inr s"
    "syscall env (Send (fd s) (sb_contents (sendBuffer s))) st = (r, st1)"
  shows "\<exists>sb st'. on_epollout env p st = Inr st' \<and> cells (sessions st') p = Some (s\<lparr>sendBuffer := sb\<rparr>) \<and>
    sb_inv (send_cap s) sb \<and> sb_contents sb = drop (nat (ret r)) (sb_contents (sendBuffer s)) \<and>
    calls st' = calls st @ [Send (fd s) (sb_contents (sendBuffer s)), Epoll_ctl (procFd s) EPOLL_CTL_MOD (fd s)
      (Some \<lparr>ev_events = (if errno st1 = EAGAIN then EPOLLIN OR EPOLLOUT OR EPOLLERR else EPOLLIN OR EPOLLERR), ev_data = DataPtr p\<rparr>)]"
proof -
  have st1: "calls st1 = calls st @ [Send (fd s) (sb_contents (sendBuffer s))]"
    using syscall_snd [OF assms(4)] by simp
  from on_epollout_eq [OF assms] st1 show ?thesis
    by auto
qed

theorem epollout_sends_prefix_witness:
  "\<exists>sb st'. on_epollout demo_env 2 (demo_net Properties) = Inr st' \<and>
     cells (sessions st') 2 = Some (demo_session\<lparr>sendBuffer := sb\<rparr>) \<and> sb_contents sb = [2, 3]"
proof -
  have c: "sb_contents (sendBuffer demo_session) = [1, 2, 3]"
    by (simp add: demo_session_def EventHandler_def sb_contents_def region_def eval_nat_numeral)
  obtain r st1 where r: "syscall demo_env (Send (fd demo_session) (sb_contents (sendBuffer demo_session))) (demo_net Properties) = (r, st1)"
    by fastforce
  have "ret r = 1"
    using r by (auto simp: c syscall_def demo_env_def demo_base_def demo_os_def)
  with epollout_sends_prefix [OF demo_env_benign demo_net_ok demo_deref r] c show ?thesis
    by auto
qed



text \<open>
  \<open>async_send\<close> from a callback or another thread: the answer is \<open>RET_OK\<close>
  exactly when the message fits, then all of it is appended to the bytes waiting to be sent,
  and otherwise nothing is; the session is registered for writing in both cases.
\<close>

theorem async_send_spec:
  assumes "sess_ok s" "ndebug env \<or> int (length pData) \<le> send_cap s" "int (length pData) < 2 ^ 32"
  shows "\<exists>ok s' st'. async_send env self pData (s, st) = Inr (if ok then RET_OK else RET_ERR, s', st') \<and>
    (ok \<longleftrightarrow> push_fits (send_cap s) (sendBuffer s) (int (length pData))) \<and> sess_ok s' \<and>
    sb_contents (sendBuffer s') = sb_contents (sendBuffer s) @ (if ok then pData else []) \<and>
    calls st' = calls st @ [Epoll_ctl (procFd s) EPOLL_CTL_MOD (fd s)
      (Some \<lparr>ev_events = EPOLLIN OR EPOLLOUT OR EPOLLERR, ev_data = DataPtr self\<rparr>)]"
proof -
  from async_send_ok [OF assms, of self st] obtain s' st' where a: "async_send env self pData (s, st) =
      Inr (if push_fits (send_cap s) (sendBuffer s) (int (length pData)) then RET_OK else RET_ERR, s', st')"
    "sess_ok s'" "sb_contents (sendBuffer s') = sb_contents (sendBuffer s) @
      (if push_fits (send_cap s) (sendBuffer s) (int (length pData)) then pData else [])"
    by blast
  moreover have "calls st' = calls st @ [Epoll_ctl (procFd s) EPOLL_CTL_MOD (fd s)
      (Some \<lparr>ev_events = EPOLLIN OR EPOLLOUT OR EPOLLERR, ev_data = DataPtr self\<rparr>)]"
    using a(1) by (auto simp: async_send_def rbind_eq_Inr Let_def)
  ultimately show ?thesis by blast
qed

theorem async_send_spec_witness:
  "\<exists>ok s' st'. async_send demo_env 2 [9] (demo_session\<lparr>sendBuffer := SendBuffer [0, 0, 0, 0]\<rparr>, demo_net Properties) =
     Inr (if ok then RET_OK else RET_ERR, s', st') \<and> ok \<and> sb_contents (sendBuffer s') = [9]"
proof -
  let ?s = "demo_session\<lparr>sendBuffer := SendBuffer [0, 0, 0, 0]\<rparr>"
  have ok: "sess_ok ?s" "ndebug demo_env \<or> int (length [9 :: byte]) \<le> send_cap ?s" "int (length [9 :: byte]) < 2 ^ 32"
    by (simp_all add: demo_session_def EventHandler_def sess_ok_def conn_inv_def sb_inv_def send_cap_def SendBuffer_def)
  have fits: "push_fits (send_cap ?s) (sendBuffer ?s) (int (length [9 :: byte]))"
    by (simp add: push_fits_def send_cap_def SendBuffer_def)
  have empty: "sb_contents (sendBuffer ?s) = []"
    by (simp add: SendBuffer_def sb_contents_def)
  from async_send_spec [OF ok, of 2 "demo_net Properties"] obtain ok' s' st' where
    a: "async_send demo_env 2 [9] (?s, demo_net Properties) = Inr (if ok' then RET_OK else RET_ERR, s', st')"
      "ok' \<longleftrightarrow> push_fits (send_cap ?s) (sendBuffer ?s) (int (length [9 :: byte]))"
      "sb_contents (sendBuffer s') = sb_contents (sendBuffer ?s) @ (if ok' then [9] else [])"
    by blast
  then have "ok'" "sb_contents (sendBuffer s') = [9]"
    using fits empty by simp_all
  with a(1) show ?thesis by blast
qed

text \<open>
  Starting and stopping the processor: it starts as many workers as configured, at most
  fifty, each with an empty well-formed queue; starting again changes nothing; stopping works
  exactly when the application thread runs, and throws otherwise.
\<close>

theorem processor_life_cycle:
  assumes "threads_start (os env)" "\<not> running st" "1 \<le> cfg_threads cfg" "procThreads st = []" "msgQueues st = []" "\<not> appThread st"
  shows "\<exists>st'. Processor_start env cfg st = Inr (0, st') \<and> Processor_start env cfg st' = Inr (0, st') \<and>
    int (length (procThreads st')) = min (cfg_threads cfg) 50 \<and> length (msgQueues st') = length (procThreads st') \<and>
    (\<forall>q \<in> set (msgQueues st'). spsc_inv q \<and> spsc_contents q = []) \<and>
    (app_run cfg \<longrightarrow> (\<exists>st''. Processor_stop env st' = Inr st'' \<and> \<not> running st'' \<and> procThreads st'' = [] \<and> msgQueues st'' = [])) \<and>
    (\<not> app_run cfg \<longrightarrow> Processor_stop env st' = Inl (Thrown EINVAL))"
proof -
  obtain st' where p: "Processor_start env cfg st = Inr (0, st')" "running st'"
    "procThreads st' = [0..min (cfg_threads cfg) 50 - 1]" "int (length (msgQueues st')) = min (cfg_threads cfg) 50"
    "\<forall>q \<in> set (msgQueues st'). spsc_inv q \<and> spsc_contents q = []" "appThread st' = app_run cfg"
    using processor_start_ok [OF assms(1-5)] assms(6) by blast
  have fold: "appThread (fold (\<lambda>i. do_call env (Thread_join (ProcessorRun i))) xs a) = appThread a"
    "running (fold (\<lambda>i. do_call env (Thread_join (ProcessorRun i))) xs a) = running a" for xs a
    by (induction xs arbitrary: a) simp_all
  have "int (length (procThreads st')) = min (cfg_threads cfg) 50"
    using p(3) assms(3) by simp
  moreover from this p(4) have "length (msgQueues st') = length (procThreads st')"
    by linarith
  moreover have "Processor_start env cfg st' = Inr (0, st')"
    using p(2) by (simp add: Processor_start_def)
  ultimately show ?thesis
    using p by (auto simp: Processor_stop_def Let_def fold)
qed

definition idle_net :: "(unit, unit, unit) enet" where
  "idle_net = (demo_net Properties)\<lparr>running := False, procThreads := [], msgQueues := [], appThread := False\<rparr>"

theorem processor_life_cycle_witness:
  "\<exists>st'. Processor_start demo_env Properties idle_net = Inr (0, st') \<and> Processor_stop demo_env st' = Inl (Thrown EINVAL)"
proof -
  have "threads_start (os demo_env)"
    by (simp add: threads_start_def demo_env_def demo_base_def demo_os_def)
  from processor_life_cycle [OF this, of idle_net Properties] show ?thesis
    by (auto simp: idle_net_def Properties_def)
qed

lemma create_procs_length:
  "create_procs env n (fds, st) = Inr (fds', st') \<Longrightarrow> length fds' = length fds + n \<and> (\<forall>f \<in> set fds'. f \<in> set fds \<or> f \<noteq> -1)"
  by (induction n arbitrary: fds st) (force simp: Let_def split: prod.splits if_splits)+

lemma scheduler_start_fds:
  assumes "Scheduler_start env st = Inr st'"
  shows "length (procFds (scheder st')) = 50 \<and> (\<forall>f \<in> set (procFds (scheder st')). f \<noteq> -1)"
  using assms by (auto simp: Scheduler_start_def rbind_eq_Inr MAX_THREAD_def Let_def dest!: create_procs_length
      split: prod.splits if_splits)

text \<open>
  (C19) Once the scheduler and the processor have been started from a configuration the
  service has checked, handing a session to a worker never divides by zero or reads outside
  the descriptor table: the session goes to worker \<open>fd % threads\<close>, is registered
  there for reading and errors, and then \<open>on_connect\<close> runs.
\<close>

theorem dispatch_in_range:
  assumes "threads_start (os env)" "Scheduler_start env st0 = Inr st1" "\<not> running st1" "procThreads st1 = []" "msgQueues st1 = []"
    "Processor_start env (fix_config cfg) st1 = Inr (x, st2)" "scheder st = scheder st2"
    "deref (sessions st) p = Inr s" "0 \<le> fd s" "fd s < 2 ^ 31"
  shows "\<exists>n pf. n = min (cfg_threads (fix_config cfg)) 50 \<and> 1 \<le> n \<and> pf = procFds (scheder st) ! nat (fd s mod n) \<and> pf \<noteq> -1 \<and>
    Scheduler_push env p st = with_session p (on_connect env)
      (do_call env (Epoll_ctl pf EPOLL_CTL_ADD (fd s) (Some \<lparr>ev_events = EPOLLIN OR EPOLLERR, ev_data = DataPtr p\<rparr>))
        (st\<lparr>sessions := (sessions st)\<lparr>cells := (cells (sessions st))(p \<mapsto> s\<lparr>procFd := pf\<rparr>)\<rparr>\<rparr>))"
proof -
  have c: "1 \<le> cfg_threads (fix_config cfg)"
    by (auto simp: fix_config_def Let_def)
  obtain st2' where p: "Processor_start env (fix_config cfg) st1 = Inr (0, st2')"
    "sched_threads (scheder st2') = min (cfg_threads (fix_config cfg)) 50" "procFds (scheder st2') = procFds (scheder st1)"
    using processor_start_ok [OF assms(1,3) c assms(4,5)] by blast
  have sch: "sched_threads (scheder st) = min (cfg_threads (fix_config cfg)) 50" "procFds (scheder st) = procFds (scheder st1)"
    using p assms(6,7) by auto
  have fds: "length (procFds (scheder st)) = 50" "\<forall>f \<in> set (procFds (scheder st)). f \<noteq> -1"
    using scheduler_start_fds [OF assms(2)] sch(2) by simp_all
  let ?n = "min (cfg_threads (fix_config cfg)) 50"
  have n: "1 \<le> ?n" "?n \<le> 50"
    using c by auto
  have "nat (fd s mod ?n) < 50"
    using n pos_mod_bound [of ?n "fd s"] by linarith
  then have "procFds (scheder st) ! nat (fd s mod ?n) \<noteq> -1"
    using fds nth_mem by fastforce
  moreover have "1 \<le> sched_threads (scheder st)" "sched_threads (scheder st) \<le> 50"
    using n sch(1) by simp_all
  ultimately show ?thesis
    using scheduler_push_eq [OF assms(8) _ _ fds(1) assms(9,10), of env] n(1) sch(1) by simp
qed

lemma create_procs_demo:
  "\<exists>st'. create_procs demo_env n (fds, st) = Inr (fds @ replicate n 5, st') \<and> same_core st st' \<and> running st' = running st \<and>
     procThreads st' = procThreads st"
proof (induction n arbitrary: fds st)
  case (Suc n)
  obtain r st1 where r: "syscall demo_env (Epoll_create 10) st = (r, st1)"
    by fastforce
  then have "ret r = 5"
    by (auto simp: syscall_def demo_env_def demo_base_def demo_os_def)
  moreover have "same_core st st1" "running st1 = running st" "procThreads st1 = procThreads st"
    using syscall_snd [OF r] by simp_all
  ultimately show ?case
    using r Suc.IH [of "fds @ [5]" st1] by (auto simp: same_core_def replicate_append_same)
qed auto

lemma scheduler_start_demo:
  "\<exists>st'. Scheduler_start demo_env idle_net = Inr st' \<and> \<not> running st' \<and> procThreads st' = [] \<and> msgQueues st' = [] \<and>
     sessions st' = sessions idle_net"
proof -
  obtain r st1 where r: "syscall demo_env (Epoll_create 10) idle_net = (r, st1)"
    by fastforce
  let ?st1 = "st1\<lparr>scheder := (scheder st1)\<lparr>epollFd := ret r\<rparr>\<rparr>"
  obtain f st2 where f: "syscall demo_env (Fcntl_setfd (ret r) 1) ?st1 = (f, st2)"
    by fastforce
  have rets: "ret r = 5" "ret f = 0"
    using r f by (auto simp: syscall_def demo_env_def demo_base_def demo_os_def)
  have "running st2 = running idle_net" "procThreads st2 = procThreads idle_net" "msgQueues st2 = msgQueues idle_net" "sessions st2 = sessions idle_net"
    using syscall_snd [OF r] syscall_snd [OF f] by simp_all
  moreover from create_procs_demo [of "nat MAX_THREAD" "[]" st2] obtain st3 where
    "create_procs demo_env (nat MAX_THREAD) ([], st2) = Inr (replicate (nat MAX_THREAD) 5, st3)" "same_core st2 st3"
    "running st3 = running st2" "procThreads st3 = procThreads st2"
    by auto
  ultimately show ?thesis
    using r f rets by (simp add: Scheduler_start_def Let_def same_core_def) (simp add: idle_net_def)
qed

theorem dispatch_in_range_witness:
  "\<exists>st1 st2 pf. Scheduler_start demo_env idle_net = Inr st1 \<and> Processor_start demo_env (fix_config Properties) st1 = Inr (0, st2) \<and>
     pf = procFds (scheder st2) ! 0 \<and> pf \<noteq> -1 \<and>
     Scheduler_push demo_env 2 ((demo_net Properties)\<lparr>scheder := scheder st2\<rparr>) = with_session 2 (on_connect demo_env)
      (do_call demo_env (Epoll_ctl pf EPOLL_CTL_ADD 7 (Some \<lparr>ev_events = EPOLLIN OR EPOLLERR, ev_data = DataPtr 2\<rparr>))
        ((demo_net Properties)\<lparr>scheder := scheder st2, sessions := (sessions (demo_net Properties))\<lparr>cells :=
           (cells (sessions (demo_net Properties)))(2 \<mapsto> demo_session\<lparr>procFd := pf\<rparr>)\<rparr>\<rparr>))"
proof -
  have t: "threads_start (os demo_env)"
    by (simp add: threads_start_def demo_env_def demo_base_def demo_os_def)
  from scheduler_start_demo obtain st1 where st1: "Scheduler_start demo_env idle_net = Inr st1" "\<not> running st1"
    "procThreads st1 = []" "msgQueues st1 = []"
    by blast
  have one: "cfg_threads (fix_config Properties) = 1"
    by (simp add: fix_config_def Properties_def)
  obtain st2 where st2: "Processor_start demo_env (fix_config Properties) st1 = Inr (0, st2)"
    using processor_start_ok [OF t st1(2) _ st1(3,4), of "fix_config Properties"] one by auto
  let ?st = "(demo_net Properties)\<lparr>scheder := scheder st2\<rparr>"
  have "deref (sessions ?st) 2 = Inr demo_session" "scheder ?st = scheder st2" "fd demo_session = 7"
    using demo_deref by (simp_all add: demo_session_def)
  with dispatch_in_range [OF t st1 st2, of ?st 2 demo_session] st1(1) st2 one show ?thesis
    by auto
qed

text \<open>
  Starting a listener: the code returned tells socket, bind and listen failures apart;
  whenever a socket was opened and no listening thread runs in the end, the last call made
  closes that socket; and a thread that cannot be started is reported as success.
\<close>

theorem listener_start_spec:
  assumes "syscall env Socket st = (r0, st0)" "Listener_start env cfg l st = (r, l', st')" "\<not> l_thread l"
  shows "r \<in> {RET_OK, RET_ERR_SOCKET, RET_ERR_BIND, RET_ERR_LISTEN} \<and> (ret r0 = -1 \<longleftrightarrow> r = RET_ERR_SOCKET) \<and>
    (ret r0 \<noteq> -1 \<and> \<not> l_thread l' \<longrightarrow> last (calls st') = Close (ret r0)) \<and>
    (l_thread l' \<longrightarrow> r = RET_OK \<and> lisFd l' = ret r0 \<and> last (calls st') = Thread_create ListenerRun) \<and>
    (r = RET_OK \<and> \<not> l_thread l' \<longrightarrow> lisFd l' = -1)"
  using assms
  by (auto simp: Listener_start_def Let_def net_rets dest!: syscall_snd split: prod.splits if_splits)

theorem listener_start_spec_witness:
  "\<exists>l' st'. Listener_start demo_env Properties \<lparr>l_ip = 0, l_port = 80, l_backlogs = 10, lisFd = -1, l_running = False, l_thread = False\<rparr>
      idle_net = (RET_OK, l', st') \<and> l_thread l' \<and> lisFd l' = 6"
proof -
  let ?l = "\<lparr>l_ip = 0, l_port = 80, l_backlogs = 10, lisFd = -1, l_running = False, l_thread = False\<rparr>"
  obtain r0 st0 where r0: "syscall demo_env Socket idle_net = (r0, st0)"
    by fastforce
  obtain r l' st' where s: "Listener_start demo_env Properties ?l idle_net = (r, l', st')"
    by (metis prod_cases3)
  have "ret r0 = 6"
    using r0 by (auto simp: syscall_def demo_env_def demo_base_def demo_os_def)
  moreover have "l_thread l'"
    using s by (auto simp: Listener_start_def Let_def syscall_def demo_env_def demo_base_def demo_os_def setSockNonBlock_def
        split: prod.splits if_splits)
  ultimately show ?thesis
    using listener_start_spec [OF r0 s] s by simp
qed

end
