(* ===== verification/Epoll_Service_Props.thy ===== *)
theory Epoll_Service_Props
  imports Epoll_Props
begin

text \<open>
  Accepting and opening connections, the application thread, and the service of the Linux
  back end.
\<close>

subsection \<open>New connections\<close>

lemma obtain_session_default:
  assumes "create env = factory_create t0" "heap_ok (sessions st)"
  shows "obtain_session env st = Inr (fresh (sessions st), st\<lparr>sessions := snd (heap_new t0 (sessions st))\<rparr>)"
  using assms by (simp add: obtain_session_def factory_create_def heap_new_def heap_ok_def)

lemma adopt_eq:
  assumes "create env = factory_create t0" "on_connect env = (\<lambda>_ sw. Inr sw)" "heap_ok (sessions st)"
    "1 \<le> sched_threads (scheder st)" "sched_threads (scheder st) \<le> 50" "length (procFds (scheder st)) = 50"
    "0 \<le> f" "f < 2 ^ 31"
  defines "pf \<equiv> procFds (scheder st) ! nat (f mod sched_threads (scheder st))"
  defines "p \<equiv> fresh (sessions st)"
  shows "\<exists>st'. rbind (obtain_session env st) (\<lambda>(p, st). adopt env f addr own passive p st) = Inr st' \<and>
    cells (sessions st') p = Some (t0\<lparr>fd := f, ip := fst addr, port := htons (snd addr), isPassive := passive, ctx := own, procFd := pf\<rparr>) \<and>
    (\<forall>q. q \<noteq> p \<longrightarrow> cells (sessions st') q = cells (sessions st) q) \<and>
    calls st' = calls st @ [Epoll_ctl pf EPOLL_CTL_ADD f (Some \<lparr>ev_events = EPOLLIN OR EPOLLERR, ev_data = DataPtr p\<rparr>)]"
proof -
  let ?s = "t0\<lparr>fd := f, ip := fst addr, port := htons (snd addr), isPassive := passive, ctx := own\<rparr>"
  let ?h = "snd (heap_new t0 (sessions st))"
  let ?st = "st\<lparr>sessions := ?h\<lparr>cells := (cells ?h)(p \<mapsto> ?s)\<rparr>\<rparr>"
  have p: "p \<noteq> 0" "cells ?h p = Some t0"
    using assms(3) by (simp_all add: p_def heap_ok_def heap_new_def)
  have d: "deref (sessions ?st) p = Inr ?s"
    using p by (simp add: deref_def)
  have fds: "fd ?s = f" "0 \<le> fd ?s" "fd ?s < 2 ^ 31"
    using assms(7,8) by simp_all
  have "rbind (obtain_session env st) (\<lambda>(p, st). adopt env f addr own passive p st) = Scheduler_push env p ?st"
    using p by (simp add: obtain_session_default [OF assms(1,3)] adopt_def assign_def deref_live p_def [symmetric])
  also have "\<dots> = with_session p (on_connect env)
    (do_call env (Epoll_ctl pf EPOLL_CTL_ADD f (Some \<lparr>ev_events = EPOLLIN OR EPOLLERR, ev_data = DataPtr p\<rparr>))
      (?st\<lparr>sessions := (sessions ?st)\<lparr>cells := (cells (sessions ?st))(p \<mapsto> ?s\<lparr>procFd := pf\<rparr>)\<rparr>\<rparr>))"
    using scheduler_push_eq [OF d _ _ _ fds(2,3), of env] assms(4-6) fds(1) by (simp add: pf_def)
  finally have eq: "rbind (obtain_session env st) (\<lambda>(p, st). adopt env f addr own passive p st) =
    with_session p (on_connect env)
    (do_call env (Epoll_ctl pf EPOLL_CTL_ADD f (Some \<lparr>ev_events = EPOLLIN OR EPOLLERR, ev_data = DataPtr p\<rparr>))
      (?st\<lparr>sessions := (sessions ?st)\<lparr>cells := (cells (sessions ?st))(p \<mapsto> ?s\<lparr>procFd := pf\<rparr>)\<rparr>\<rparr>))" .
  show ?thesis
    unfolding eq using p(1) assms(2)
    by (auto simp: with_session_def deref_def assign_def heap_new_def p_def)
qed

text \<open>
  (C20) A connection is accepted: a new session is created, gets the accepted descriptor, is
  marked passive and is registered with the worker its descriptor selects; no other session
  changes.  Its recorded address, however, is whatever the listening thread's uninitialised
  \<open>addr\<close> holds, and never the address of the peer that \<open>accept\<close> reported.
\<close>

theorem accept_registers:
  assumes "create env = factory_create t0" "on_connect env = (\<lambda>_ sw. Inr sw)" "heap_ok (sessions st)"
    "1 \<le> sched_threads (scheder st)" "sched_threads (scheder st) \<le> 50" "length (procFds (scheder st)) = 50"
    "syscall env (Accept (lisFd l)) st = (r, st1)" "0 \<le> ret r" "ret r < 2 ^ 31"
  shows "\<exists>st' s. accept_one env addr0 l st = Inr st' \<and> cells (sessions st') (fresh (sessions st)) = Some s \<and>
    fd s = ret r \<and> isPassive s \<and> ctx s = OwnedByListener \<and>
    procFd s = procFds (scheder st) ! nat (ret r mod sched_threads (scheder st)) \<and>
    last (calls st') = Epoll_ctl (procFd s) EPOLL_CTL_ADD (ret r)
      (Some \<lparr>ev_events = EPOLLIN OR EPOLLERR, ev_data = DataPtr (fresh (sessions st))\<rparr>) \<and>
    (\<forall>q. q \<noteq> fresh (sessions st) \<longrightarrow> cells (sessions st') q = cells (sessions st) q) \<and>
    ip s = fst addr0 \<and> port s = htons (snd addr0)"
proof -
  let ?st = "setSockNonBlock env (ret r) st1"
  have same: "sessions ?st = sessions st" "scheder ?st = scheder st"
    using syscall_snd [OF assms(7)] by (auto simp: setSockNonBlock_def Let_def dest!: syscall_snd split: prod.splits)
  have "accept_one env addr0 l st = rbind (obtain_session env ?st) (\<lambda>(p, st). adopt env (ret r) addr0 OwnedByListener True p st)"
    using assms(7,8) by (simp add: accept_one_def Let_def)
  then show ?thesis
    using adopt_eq [OF assms(1,2), of ?st "ret r" addr0 OwnedByListener True] assms(3-6,8,9) same by auto
qed

theorem accept_registers_witness:
  "\<exists>st' s. accept_one demo_base (77, 88) \<lparr>l_ip = 0, l_port = 80, l_backlogs = 10, lisFd = 6, l_running = True, l_thread = True\<rparr>
      (demo_net Properties) = Inr st' \<and> cells (sessions st') 3 = Some s \<and> fd s = 9 \<and> ip s = 77"
proof -
  let ?l = "\<lparr>l_ip = 0, l_port = 80, l_backlogs = 10, lisFd = 6, l_running = True, l_thread = True\<rparr>"
  obtain r st1 where r: "syscall demo_base (Accept (lisFd ?l)) (demo_net Properties) = (r, st1)"
    by fastforce
  have "ret r = 9"
    using r by (auto simp: syscall_def demo_base_def demo_os_def)
  moreover have "heap_ok (sessions (demo_net Properties))" "fresh (sessions (demo_net Properties)) = 3"
    "create demo_base = factory_create (EventHandler [0, 0, 0, 0] [0, 0, 0, 0] NoOwner 0 0 False)"
    "on_connect demo_base = (\<lambda>_ sw. Inr sw)" "sched_threads (scheder (demo_net Properties)) = 1"
    "length (procFds (scheder (demo_net Properties))) = 50"
    using demo_net_ok [of Properties] by (simp_all add: net_ok_def demo_net_def demo_base_def)
  ultimately show ?thesis
    using accept_registers [OF _ _ _ _ _ _ r, of _ "(77, 88)"] by fastforce
qed

text \<open>
  A refused outgoing connection: without an event handler the call of the empty handler
  throws; with one, the service reports the same failure to it twice, and the socket is
  never closed.
\<close>

theorem connect_failure:
  assumes "syscall env Socket st = (r0, st0)" "ret r0 \<noteq> -1"
    "syscall env (Connect (ret r0) (c_ip c) (htons (c_port c))) st0 = (r1, st1)" "ret r1 = -1"
  shows "(handler env = None \<longrightarrow> start_connectors env [c] st = Inl BadFunction) \<and>
    (\<forall>h. handler env = Some h \<longrightarrow> start_connectors env [c] st =
       rbind (h EVT_CONNECT_FAIL 0 st1) (\<lambda>(_, st2). rbind (h EVT_CONNECT_FAIL 0 st2) (\<lambda>(_, st3). Inr ([c\<lparr>c_fd := ret r0\<rparr>], st3)))) \<and>
    Close (ret r0) \<notin> set (drop (length (calls st)) (calls st1))"
proof -
  have calls: "calls st1 = calls st @ [Socket, Connect (ret r0) (c_ip c) (htons (c_port c))]"
    using syscall_snd [OF assms(1)] syscall_snd [OF assms(3)] by simp
  have fail: "Connector_connect env c st = (case handler env of None \<Rightarrow> Inl BadFunction
      | Some h \<Rightarrow> rbind (h EVT_CONNECT_FAIL 0 st1) (\<lambda>(_, st). Inr (RET_ERR_CONNECT, c\<lparr>c_fd := ret r0\<rparr>, st)))"
    using assms by (simp add: Connector_connect_def Let_def)
  have "start_connectors env [c] st =
       rbind (h EVT_CONNECT_FAIL 0 st1) (\<lambda>(_, st2). rbind (h EVT_CONNECT_FAIL 0 st2) (\<lambda>(_, st3). Inr ([c\<lparr>c_fd := ret r0\<rparr>], st3)))"
    if "handler env = Some h" for h
    using that by (cases "h EVT_CONNECT_FAIL 0 st1")
      (auto simp: fail notify_def net_rets rbind_def split: sum.splits prod.splits)
  then show ?thesis
    using fail calls by simp
qed

definition refusing_os :: "unit os" where
  "refusing_os c k = (\<lparr>ret = (case c of Socket \<Rightarrow> 6 | Connect f i p \<Rightarrow> -1 | _ \<Rightarrow> 0), err = 111, rdata = [], revents = [], raddr = (0, 0), rkevents = [], rkey = 0\<rparr>, ())"

theorem connect_failure_witness:
  "start_connectors (demo_base\<lparr>os := refusing_os, handler := None\<rparr>) [\<lparr>c_ip = 1, c_port = 80, c_fd = 0, c_session = 0\<rparr>] idle_net = Inl BadFunction"
proof -
  let ?env = "demo_base\<lparr>os := refusing_os, handler := None\<rparr>"
  let ?c = "\<lparr>c_ip = 1, c_port = 80, c_fd = 0, c_session = 0\<rparr>"
  obtain r0 st0 where r0: "syscall ?env Socket idle_net = (r0, st0)"
    by fastforce
  obtain r1 st1 where r1: "syscall ?env (Connect (ret r0) (c_ip ?c) (htons (c_port ?c))) st0 = (r1, st1)"
    by fastforce
  have "ret r0 \<noteq> -1" "ret r1 = -1"
    using r0 r1 by (auto simp: syscall_def refusing_os_def)
  from connect_failure [OF r0 this(1) r1 this(2)] show ?thesis by simp
qed

text \<open>
  An outgoing connection that succeeds: the connector's session carries the address and
  port asked for, after the round trip through network byte order, is marked active and
  registered, and the call returns \<open>RET_OK\<close>.
\<close>

theorem connect_registers:
  assumes "create env = factory_create t0" "on_connect env = (\<lambda>_ sw. Inr sw)" "heap_ok (sessions st)"
    "1 \<le> sched_threads (scheder st)" "sched_threads (scheder st) \<le> 50" "length (procFds (scheder st)) = 50"
    "syscall env Socket st = (r0, st0)" "0 \<le> ret r0" "ret r0 < 2 ^ 31"
    "syscall env (Connect (ret r0) (c_ip c) (htons (c_port c))) st0 = (r1, st1)" "ret r1 \<noteq> -1"
    "0 \<le> c_port c" "c_port c < 65536"
  shows "\<exists>st' c' s. Connector_connect env c st = Inr (RET_OK, c', st') \<and> c_session c' = fresh (sessions st) \<and> c_fd c' = ret r0 \<and>
    cells (sessions st') (c_session c') = Some s \<and> fd s = ret r0 \<and> ip s = c_ip c \<and> port s = c_port c \<and> \<not> isPassive s \<and>
    procFd s = procFds (scheder st) ! nat (ret r0 mod sched_threads (scheder st))"
proof -
  have same: "sessions st1 = sessions st" "scheder st1 = scheder st"
    using syscall_snd [OF assms(7)] syscall_snd [OF assms(10)] by simp_all
  let ?addr = "(c_ip c, htons (c_port c))"
  have eq: "Connector_connect env c st = rbind (obtain_session env st1) (\<lambda>(p, st).
      rbind (adopt env (ret r0) ?addr OwnedByConnector False p st) (\<lambda>st. Inr (RET_OK, c\<lparr>c_fd := ret r0, c_session := p\<rparr>, st)))"
    using assms(7,8,10,11) by (simp add: Connector_connect_def Let_def)
  have o: "obtain_session env st1 = Inr (fresh (sessions st), st1\<lparr>sessions := snd (heap_new t0 (sessions st))\<rparr>)"
    using obtain_session_default [OF assms(1), of st1] assms(3) same by simp
  show ?thesis
    using adopt_eq [OF assms(1,2), of st1 "ret r0" ?addr OwnedByConnector False] assms(3-6,8,9) same htons_involution [OF assms(12,13)]
    by (auto simp: eq o)
qed

theorem connect_registers_witness:
  "\<exists>st' c' s. Connector_connect demo_base \<lparr>c_ip = 1, c_port = 8080, c_fd = 0, c_session = 0\<rparr> (demo_net Properties) = Inr (RET_OK, c', st') \<and>
     cells (sessions st') (c_session c') = Some s \<and> ip s = 1 \<and> port s = 8080"
proof -
  let ?c = "\<lparr>c_ip = 1, c_port = 8080, c_fd = 0, c_session = 0\<rparr>"
  obtain r0 st0 where r0: "syscall demo_base Socket (demo_net Properties) = (r0, st0)"
    by fastforce
  obtain r1 st1 where r1: "syscall demo_base (Connect (ret r0) (c_ip ?c) (htons (c_port ?c))) st0 = (r1, st1)"
    by fastforce
  have "ret r0 = 6" "ret r1 = 0"
    using r0 r1 by (auto simp: syscall_def demo_base_def demo_os_def)
  moreover have "heap_ok (sessions (demo_net Properties))"
    "create demo_base = factory_create (EventHandler [0, 0, 0, 0] [0, 0, 0, 0] NoOwner 0 0 False)"
    "on_connect demo_base = (\<lambda>_ sw. Inr sw)" "sched_threads (scheder (demo_net Properties)) = 1"
    "length (procFds (scheder (demo_net Properties))) = 50"
    using demo_net_ok [of Properties] by (simp_all add: net_ok_def demo_net_def demo_base_def)
  ultimately show ?thesis
    using connect_registers [OF _ _ _ _ _ _ r0 _ _ r1] by fastforce
qed

subsection \<open>The application thread\<close>

lemma app_queue_eq:
  assumes "i < length (msgQueues st)" "spsc_inv (msgQueues st ! i)" "spsc_contents (msgQueues st ! i) = pkg # rest" "pkg \<noteq> 0"
  shows "\<exists>q'. spsc_inv q' \<and> spsc_contents q' = rest \<and>
    app_queue env i st =
      (let st1 = st\<lparr>msgQueues := (msgQueues st)[i := q']\<rparr> in
       rbind (deref (objs (pool_alloc (msgPool st))) pkg) (\<lambda>m.
       rbind (with_session (pkg_session m) (on_message env (pkg_message m)) st1) (\<lambda>st.
       rbind (pool_release (ndebug env) 0 (\<lambda>p. p) pkg (msgPool st)) (\<lambda>pool. Inr (st\<lparr>msgPool := pool\<rparr>)))))"
proof -
  obtain q' where q': "try_dequeue (msgQueues st ! i) = Inr (Some pkg, q')" "spsc_inv q'" "spsc_contents q' = rest"
    using try_dequeue_ok [OF assms(2)] assms(3) by (metis list.sel(3) list.simps(5))
  have "\<not> isEmpty (msgQueues st ! i)"
    using observers_exact(1) [OF assms(2)] assms(3) by simp
  then have "app_queue env i st =
      (let st1 = st\<lparr>msgQueues := (msgQueues st)[i := q']\<rparr> in
       rbind (deref (objs (pool_alloc (msgPool st))) pkg) (\<lambda>m.
       rbind (with_session (pkg_session m) (on_message env (pkg_message m)) st1) (\<lambda>st.
       rbind (pool_release (ndebug env) 0 (\<lambda>p. p) pkg (msgPool st)) (\<lambda>pool. Inr (st\<lparr>msgPool := pool\<rparr>)))))"
    using assms(1,4) q'(1) by (simp add: app_queue_def list_at_def Let_def)
  with q'(2,3) show ?thesis by blast
qed

text \<open>A state with one message waiting, from the session at \<open>p\<close>.\<close>

definition busy_ring :: "ptr spscqueue" where
  "busy_ring = \<lparr>queueSize = 3, records = [Some 4, None, None], readIndex = 0, writeIndex = 1\<rparr>"

definition busy_pool :: "ptr \<Rightarrow> unit MsgPackage message_pool" where
  "busy_pool p = \<lparr>pool_alloc = \<lparr>objs = \<lparr>cells = [4 \<mapsto> \<lparr>pkg_session = p, pkg_message = Some ()\<rparr>], fresh = 5\<rparr>,
     listHead = 0, wrappers = empty_store\<rparr>, m_grow = 10, m_alloc_count = 1, m_release_count = 0\<rparr>"

definition busy_net :: "ptr \<Rightarrow> (unit, unit, unit) enet" where
  "busy_net p = (demo_net Properties)\<lparr>msgQueues := [busy_ring], msgPool := busy_pool p\<rparr>"

lemma busy_ring_ok: "spsc_inv busy_ring" "spsc_contents busy_ring = [4]"
proof -
  have less3: "0 \<le> k \<and> k < 3 \<longleftrightarrow> k = 0 \<or> k = 1 \<or> k = 2" for k :: int
    by auto
  show "spsc_inv busy_ring"
    unfolding spsc_inv_def indices_ok_def slot_def count_def busy_ring_def by (simp add: less3)
  show "spsc_contents busy_ring = [4]"
    by (simp add: spsc_contents_def slot_def count_def busy_ring_def)
qed

lemma busy_pool_ok: "pool_inv (busy_pool p) {4}"
proof -
  have "alloc_repr (pool_alloc (busy_pool p)) []"
    by (simp add: alloc_repr_def busy_pool_def list_repr_empty heap_ok_def)
  then show ?thesis
    by (auto simp: pool_inv_def alloc_inv_def busy_pool_def live_def)
qed

lemma busy_net_ok: "net_ok (busy_net p)"
  using demo_net_ok [of Properties] busy_ring_ok(1) busy_pool_ok [of p]
  by (auto simp: net_ok_def queues_ok_def busy_net_def)

lemma busy_facts:
  "0 < length (msgQueues (busy_net p))" "spsc_inv (msgQueues (busy_net p) ! 0)" "spsc_contents (msgQueues (busy_net p) ! 0) = 4 # []"
  "deref (objs (pool_alloc (msgPool (busy_net p)))) 4 = Inr \<lparr>pkg_session = p, pkg_message = Some ()\<rparr>"
  using busy_ring_ok by (simp_all add: busy_net_def busy_pool_def deref_def)

text \<open>
  The application thread takes the oldest message of a queue: the session the message
  came from gets it through \<open>on_message\<close>, the message leaves the queue, and its package goes
  back to the pool.
\<close>

theorem app_delivers_oldest:
  assumes "i < length (msgQueues st)" "spsc_inv (msgQueues st ! i)" "spsc_contents (msgQueues st ! i) = pkg # rest"
    "pool_inv (msgPool st) used" "pkg \<in> used" "deref (objs (pool_alloc (msgPool st))) pkg = Inr \<lparr>pkg_session = p, pkg_message = m\<rparr>"
    "net_ok st" "live (sessions st) p" "benign (on_message env m)"
  shows "\<exists>st' q' s. app_queue env i st = Inr st' \<and> msgQueues st' = (msgQueues st)[i := q'] \<and> spsc_inv q' \<and> spsc_contents q' = rest \<and>
    pool_inv (msgPool st') (used - {pkg}) \<and>
    (\<exists>st1. on_message env m p (the (cells (sessions st) p), st\<lparr>msgQueues := (msgQueues st)[i := q']\<rparr>) = Inr (s, st1)) \<and>
    cells (sessions st') p = Some s"
proof -
  have "pkg \<noteq> 0"
    using assms(6) by (simp add: deref_eq_Inr)
  from app_queue_eq [OF assms(1-3) this, of env] obtain q' where q': "spsc_inv q'" "spsc_contents q' = rest"
    and eq: "app_queue env i st =
      (let st1 = st\<lparr>msgQueues := (msgQueues st)[i := q']\<rparr> in
       rbind (deref (objs (pool_alloc (msgPool st))) pkg) (\<lambda>m.
       rbind (with_session (pkg_session m) (on_message env (pkg_message m)) st1) (\<lambda>st.
       rbind (pool_release (ndebug env) 0 (\<lambda>p. p) pkg (msgPool st)) (\<lambda>pool. Inr (st\<lparr>msgPool := pool\<rparr>)))))"
    by blast
  let ?st = "st\<lparr>msgQueues := (msgQueues st)[i := q']\<rparr>"
  obtain s where s: "cells (sessions st) p = Some s" "deref (sessions st) p = Inr s" "sess_ok s"
    using live_session [OF assms(7,8)] .
  obtain s' st1 where f: "on_message env m p (s, ?st) = Inr (s', st1)" "same_core ?st st1"
    using benignD [OF assms(9) s(3)] by metis
  obtain pool where pool: "pool_release (ndebug env) 0 (\<lambda>p. p) pkg (msgPool st) = Inr pool" "pool_inv pool (used - {pkg})"
    using pool_release_ok [OF assms(4,5)] by blast
  have "app_queue env i st = Inr (st1\<lparr>sessions := (sessions st)\<lparr>cells := (cells (sessions st))(p \<mapsto> s')\<rparr>, msgPool := pool\<rparr>)"
    using assms(6,8) s(2) f pool(1) by (simp add: eq with_session_def same_core_def assign_def)
  then show ?thesis
    using q' pool(2) f s(1) by (auto simp: same_core_def)
qed

theorem app_delivers_oldest_witness:
  "\<exists>st' q'. app_queue demo_base 0 (busy_net 2) = Inr st' \<and> msgQueues st' = [q'] \<and> spsc_contents q' = [] \<and> pool_inv (msgPool st') {}"
proof -
  have "pool_inv (msgPool (busy_net 2)) {4}" "live (sessions (busy_net 2)) 2" "benign (on_message demo_base (Some ()))"
    using busy_pool_ok [of 2] demo_live [of Properties] benign_skip by (simp_all add: busy_net_def demo_base_def)
  with app_delivers_oldest [OF busy_facts(1-3) _ _ busy_facts(4) busy_net_ok] show ?thesis
    by (fastforce simp: busy_net_def)
qed



end
