(* ===== verification/Message_Pipeline.thy ===== *)
theory Message_Pipeline
  imports Epoll_Service_Props
begin

text \<open>
  From the worker that reads a packet to the application thread that handles it: the message
  pool, the ring and the processor together.
\<close>

text \<open>The messages waiting in queue \<open>i\<close>, each with the session it came from, oldest first.\<close>

definition queued :: "('s, 'm, 'k) net \<Rightarrow> nat \<Rightarrow> (ptr \<times> 'm option) list" where
  "queued st i = map (\<lambda>x. let pkg = the (cells (objs (pool_alloc (msgPool st))) x) in (pkg_session pkg, pkg_message pkg))
     (spsc_contents (msgQueues st ! i))"

definition pipe_ok :: "nat \<Rightarrow> ('s, 'm, 'k) net \<Rightarrow> ptr set \<Rightarrow> bool" where
  "pipe_ok i st used \<longleftrightarrow> i < length (msgQueues st) \<and> spsc_inv (msgQueues st ! i) \<and> pool_inv (msgPool st) used \<and>
     set (spsc_contents (msgQueues st ! i)) \<subseteq> used"

definition queue_cap :: "('s, 'm, 'k) net \<Rightarrow> nat \<Rightarrow> int" where
  "queue_cap st i = queueSize (msgQueues st ! i) - 1"

lemma post_message_queues:
  assumes "pipe_ok i st used"
  shows "\<exists>st' used'. post_message env (int i) p m st = Inr st' \<and> pipe_ok i st' used' \<and> queue_cap st' i = queue_cap st i \<and>
    queued st' i = queued st i @ (if int (length (queued st i)) < queue_cap st i then [(p, m)] else [])"
proof -
  let ?q = "msgQueues st ! i"
  have i: "i < length (msgQueues st)" and q: "spsc_inv ?q" and pool: "pool_inv (msgPool st) used"
    and sub: "set (spsc_contents ?q) \<subseteq> used"
    using assms by (simp_all add: pipe_ok_def)
  from pool_acquire_ok [OF pool] obtain x pl where acq:
    "pool_acquire (ndebug env) 0 \<lparr>pkg_session = 0, pkg_message = None\<rparr> (msgPool st) = Some (Inr (x, pl))"
    "x \<noteq> 0" "x \<notin> used" "pool_inv pl (insert x used)"
    by blast
  have "live (objs (pool_alloc pl)) x"
    using acq(4) by (simp add: pool_inv_def alloc_inv_def)
  then obtain o' where o': "assign (objs (pool_alloc pl)) x \<lparr>pkg_session = p, pkg_message = m\<rparr> = Inr o'"
    and cells: "cells o' = (cells (objs (pool_alloc pl)))(x \<mapsto> \<lparr>pkg_session = p, pkg_message = m\<rparr>)"
    by (simp add: assign_eq_Inr)
  obtain q' where q': "enqueue x ?q = Inr (count ?q < queueSize ?q - 1, q')" "spsc_inv q'" "queueSize q' = queueSize ?q"
    "spsc_contents q' = (if count ?q < queueSize ?q - 1 then spsc_contents ?q @ [x] else spsc_contents ?q)"
    using enqueue_ok [OF q] by metis
  let ?pl = "pl\<lparr>pool_alloc := (pool_alloc pl)\<lparr>objs := o'\<rparr>\<rparr>"
  let ?st = "st\<lparr>msgPool := ?pl, msgQueues := (msgQueues st)[i := q']\<rparr>"
  have post: "post_message env (int i) p m st = Inr ?st"
    using i acq(1) o' q'(1) by (simp add: post_message_def list_at_def)
  have "pool_inv ?pl (insert x used)"
    using acq(4) alloc_inv_assign [OF _ o'] by (simp add: pool_inv_def)
  then have pipe: "pipe_ok i ?st (insert x used)"
    using i q'(2,4) sub by (auto simp: pipe_ok_def split: if_splits)
  have keep: "cells o' y = cells (objs (pool_alloc (msgPool st))) y" if "y \<in> set (spsc_contents ?q)" for y
    using pool_acquire_frame [OF pool acq(1), of y] that sub acq(3) by (auto simp: cells)
  have "count ?q = int (length (queued st i))"
    using q length_spsc_contents [of ?q] by (simp add: queued_def spsc_inv_def)
  moreover have "queued ?st i = queued st i @ (if count ?q < queueSize ?q - 1 then [(p, m)] else [])"
    using i keep cells by (simp add: queued_def q'(4))
  ultimately show ?thesis
    using post pipe i q'(3) by (intro exI [of _ ?st] exI [of _ "insert x used"]) (simp add: queue_cap_def)
qed

fun post_all :: "('x, 'm, 'k) eenv \<Rightarrow> nat \<Rightarrow> (ptr \<times> 'm option) list \<Rightarrow> ('x, 'm, 'k) enet \<Rightarrow> ('x, 'm, 'k) enet result" where
  "post_all env i [] st = Inr st"
| "post_all env i ((p, m) # ms) st = rbind (post_message env (int i) p m st) (post_all env i ms)"

text \<open>
  (C14) The messages a worker posts reach the application thread in order: posting to a queue
  with enough room appends exactly these messages, in order, behind the waiting ones; a full
  queue drops every message silently.
\<close>

theorem messages_in_order:
  assumes "pipe_ok i st used"
  shows "\<exists>st' used'. post_all env i ms st = Inr st' \<and> pipe_ok i st' used' \<and>
    queued st' i = take (max (length (queued st i)) (nat (queue_cap st i))) (queued st i @ ms)"
  using assms
proof (induction ms arbitrary: st used)
  case Nil
  then show ?case by auto
next
  case (Cons pm ms)
  obtain p m where pm: "pm = (p, m)"
    by fastforce
  from post_message_queues [OF Cons.prems, of env p m] obtain st1 used1 where
    1: "post_message env (int i) p m st = Inr st1" "pipe_ok i st1 used1" "queue_cap st1 i = queue_cap st i"
    "queued st1 i = queued st i @ (if int (length (queued st i)) < queue_cap st i then [(p, m)] else [])"
    by blast
  from Cons.IH [OF 1(2)] obtain st' used' where 2: "post_all env i ms st1 = Inr st'" "pipe_ok i st' used'"
    "queued st' i = take (max (length (queued st1 i)) (nat (queue_cap st1 i))) (queued st1 i @ ms)"
    by blast
  have "queued st' i = take (max (length (queued st i)) (nat (queue_cap st i))) (queued st i @ pm # ms)"
  proof (cases "int (length (queued st i)) < queue_cap st i")
    case True
    then show ?thesis
      using 1(3,4) 2(3) pm by (auto simp: max_def nat_le_iff zless_nat_eq_int_zless)
  next
    case False
    then show ?thesis
      using 1(3,4) 2(3) pm by (simp add: max_def)
  qed
  with 1(1) 2(1,2) pm show ?case by auto
qed

theorem messages_in_order_witness:
  "\<exists>st'. post_all demo_base 0 [(2, None), (2, Some ())] (busy_net 2) = Inr st' \<and> queued st' 0 = [(2, Some ()), (2, None)]"
proof -
  have "pipe_ok 0 (busy_net 2) {4}"
    using busy_ring_ok busy_pool_ok [of 2] by (simp add: pipe_ok_def busy_net_def)
  moreover have "queued (busy_net 2) 0 = [(2, Some ())]" "queue_cap (busy_net 2) 0 = 2"
    using busy_ring_ok(2) by (simp_all add: queued_def busy_net_def busy_pool_def queue_cap_def) (simp add: busy_ring_def)
  ultimately show ?thesis
    using messages_in_order [of 0 "busy_net 2" "{4}" demo_base "[(2, None), (2, Some ())]"] by auto
qed

end
