(* ===== verification/Linked_Queue.thy ===== *)
theory Linked_Queue
  imports Net_Heap Fifo_Spec
begin

text \<open>
  \<open>SPSCQueue\<close> of \<open>src/libs/spscqueue.h\<close>: an unbounded queue for one producer and
  one consumer, a chain of nodes from \<open>first_\<close> to \<open>head_\<close>.  The consumer owns
  \<open>tail_\<close>; the nodes behind it wait for the producer to use them again.  The theory
  shows that the chain is a FIFO queue that never refuses, reuses its nodes and frees them all, and
  that producer and consumer may run at the same time.
\<close>

subsection \<open>The queue\<close>

text \<open>A new node holds no value yet.\<close>

record 'a node =
  next_node :: ptr
  value_of :: "'a option"

record 'a linked_queue =
  nodes :: "'a node store"
  tail :: ptr
  head :: ptr
  first :: ptr
  tail_copy :: ptr

definition load_next :: "'a linked_queue \<Rightarrow> ptr \<Rightarrow> ptr result" where
  "load_next q p = rbind (deref (nodes q) p) (\<lambda>c. Inr (next_node c))"

definition store_next :: "ptr \<Rightarrow> ptr \<Rightarrow> 'a linked_queue \<Rightarrow> 'a linked_queue result" where
  "store_next p n q =
     rbind (deref (nodes q) p) (\<lambda>c.
     rbind (assign (nodes q) p (c\<lparr>next_node := n\<rparr>)) (\<lambda>h. Inr (q\<lparr>nodes := h\<rparr>)))"

definition store_value :: "ptr \<Rightarrow> 'a \<Rightarrow> 'a linked_queue \<Rightarrow> 'a linked_queue result" where
  "store_value p v q =
     rbind (deref (nodes q) p) (\<lambda>c.
     rbind (assign (nodes q) p (c\<lparr>value_of := Some v\<rparr>)) (\<lambda>h. Inr (q\<lparr>nodes := h\<rparr>)))"

definition load_value :: "'a linked_queue \<Rightarrow> ptr \<Rightarrow> 'a result" where
  "load_value q p = rbind (deref (nodes q) p) (\<lambda>c.
     case value_of c of None \<Rightarrow> Inl Uninitialised | Some v \<Rightarrow> Inr v)"

definition SPSCQueue :: "'a node store \<Rightarrow> 'a linked_queue" where
  "SPSCQueue h = (let (n, h) = heap_new \<lparr>next_node = 0, value_of = None\<rparr> h in
     \<lparr>nodes = h, tail = n, head = n, first = n, tail_copy = n\<rparr>)"

definition from_cache :: "'a linked_queue \<Rightarrow> (ptr \<times> 'a linked_queue) result" where
  "from_cache q = (let n = first q in
     rbind (load_next q (first q)) (\<lambda>p. Inr (n, q\<lparr>first := p\<rparr>)))"

definition alloc_node :: "'a linked_queue \<Rightarrow> (ptr \<times> 'a linked_queue) result" where
  "alloc_node q =
     (if first q \<noteq> tail_copy q then from_cache q
      else let q = q\<lparr>tail_copy := tail q\<rparr> in
        if first q \<noteq> tail_copy q then from_cache q
        else let (n, h) = heap_new \<lparr>next_node = 0, value_of = None\<rparr> (nodes q) in
          Inr (n, q\<lparr>nodes := h\<rparr>))"

text \<open>The part of \<open>enqueue\<close> that is private to the producer, and the part that publishes the node.\<close>

definition prepare_node :: "'a \<Rightarrow> 'a linked_queue \<Rightarrow> (ptr \<times> 'a linked_queue) result" where
  "prepare_node v q =
     rbind (alloc_node q) (\<lambda>(n, q).
     rbind (store_next n 0 q) (\<lambda>q.
     rbind (store_value n v q) (\<lambda>q. Inr (n, q))))"

definition link_node :: "ptr \<Rightarrow> 'a linked_queue \<Rightarrow> 'a linked_queue result" where
  "link_node n q = rbind (store_next (head q) n q) (\<lambda>q. Inr (q\<lparr>head := n\<rparr>))"

definition SPSCQueue_enqueue :: "'a \<Rightarrow> 'a linked_queue \<Rightarrow> 'a linked_queue result" where
  "SPSCQueue_enqueue v q = rbind (prepare_node v q) (\<lambda>(n, q). link_node n q)"

definition SPSCQueue_try_dequeue :: "'a linked_queue \<Rightarrow> ('a option \<times> 'a linked_queue) result" where
  "SPSCQueue_try_dequeue q =
     rbind (load_next q (tail q)) (\<lambda>n.
     if n \<noteq> 0 then
       rbind (load_next q (tail q)) (\<lambda>n.
       rbind (load_value q n) (\<lambda>v.
       rbind (load_next q (tail q)) (\<lambda>n. Inr (Some v, q\<lparr>tail := n\<rparr>))))
     else Inr (None, q))"

fun repeat_call :: "nat \<Rightarrow> ('q \<Rightarrow> 'q result) \<Rightarrow> 'q \<Rightarrow> 'q result" where
  "repeat_call 0 f q = Inr q"
| "repeat_call (Suc n) f q = rbind (f q) (repeat_call n f)"

definition SPSCQueue_prealloc :: "'a \<Rightarrow> nat \<Rightarrow> 'a node store \<Rightarrow> 'a linked_queue result" where
  "SPSCQueue_prealloc dummy prealloc h =
     rbind (repeat_call prealloc (SPSCQueue_enqueue dummy) (SPSCQueue h)) (\<lambda>q.
     repeat_call prealloc (\<lambda>q. rbind (SPSCQueue_try_dequeue q) (\<lambda>(_, q). Inr q)) q)"

text \<open>The loop of the destructor; it need not end on a cyclic chain, hence the option.\<close>

partial_function (option) delete_nodes :: "ptr \<Rightarrow> 'a node store \<Rightarrow> 'a node store result option" where
  "delete_nodes n h =
     (case deref h n of Inl e \<Rightarrow> Some (Inl e)
      | Inr c \<Rightarrow>
        (case heap_delete n h of Inl e \<Rightarrow> Some (Inl e)
         | Inr h \<Rightarrow> if next_node c \<noteq> 0 then delete_nodes (next_node c) h else Some (Inr h)))"

definition SPSCQueue_destroy :: "'a linked_queue \<Rightarrow> 'a node store result option" where
  "SPSCQueue_destroy q = delete_nodes (first q) (nodes q)"

subsection \<open>Chains\<close>

fun chain :: "'a node store \<Rightarrow> ptr \<Rightarrow> ptr list \<Rightarrow> bool" where
  "chain h p [] \<longleftrightarrow> p = 0"
| "chain h p (x # xs) \<longleftrightarrow> p = x \<and> x \<noteq> 0 \<and> (\<exists>c. cells h x = Some c \<and> chain h (next_node c) xs)"

text \<open>The nodes reached from a pointer; the fuel is the number of addresses handed out.\<close>

fun walk :: "nat \<Rightarrow> 'a node store \<Rightarrow> ptr \<Rightarrow> ptr list" where
  "walk 0 h p = []"
| "walk (Suc n) h p = (if p = 0 then [] else
     case cells h p of None \<Rightarrow> [] | Some c \<Rightarrow> p # walk n h (next_node c))"

definition values_at :: "'a node store \<Rightarrow> ptr list \<Rightarrow> 'a list" where
  "values_at h xs = map (\<lambda>x. the (value_of (the (cells h x)))) xs"

text \<open>\<open>cache\<close> are the nodes from \<open>first_\<close> to \<open>tail_\<close>, \<open>items\<close> those with the queued values.\<close>

definition lq_repr :: "'a linked_queue \<Rightarrow> ptr list \<Rightarrow> ptr list \<Rightarrow> bool" where
  "lq_repr q cache items \<longleftrightarrow> heap_ok (nodes q) \<and> chain (nodes q) (first q) (cache @ items) \<and>
     distinct (cache @ items) \<and> cache \<noteq> [] \<and> tail q = last cache \<and> tail_copy q \<in> set cache \<and>
     head q = last (cache @ items) \<and>
     (\<forall>x \<in> set items. value_of (the (cells (nodes q) x)) \<noteq> None)"

definition lq_inv :: "'a linked_queue \<Rightarrow> bool" where
  "lq_inv q \<longleftrightarrow> (\<exists>cache items. lq_repr q cache items \<and> {x. live (nodes q) x} = set (cache @ items))"

definition lq_contents :: "'a linked_queue \<Rightarrow> 'a list" where
  "lq_contents q = (let h = nodes q in
     case cells h (tail q) of None \<Rightarrow> [] | Some c \<Rightarrow> values_at h (walk (fresh h) h (next_node c)))"

lemma chain_live: "chain h p xs \<Longrightarrow> x \<in> set xs \<Longrightarrow> x \<noteq> 0 \<and> (\<exists>c. cells h x = Some c)"
  by (induction xs arbitrary: p) auto

lemma chain_cong: "chain h p xs \<Longrightarrow> \<forall>x \<in> set xs. cells h' x = cells h x \<Longrightarrow> chain h' p xs"
  by (induction xs arbitrary: p) auto

lemma chain_last:
  "chain h p (xs @ ys) \<Longrightarrow> xs \<noteq> [] \<Longrightarrow> \<exists>c. cells h (last xs) = Some c \<and> chain h (next_node c) ys"
proof (induction xs arbitrary: p)
  case (Cons x xs)
  then show ?case by (cases "xs = []") auto
qed simp

lemma chain_tail: "chain h p (x # xs) \<Longrightarrow> cells h x = Some c \<Longrightarrow> chain h (next_node c) xs"
  by auto

lemma chain_link:
  assumes "chain h p xs" "xs \<noteq> []" "distinct xs" "n \<notin> set xs" "n \<noteq> 0" "cells h n = Some d" "next_node d = 0"
    "cells h (last xs) = Some c"
  shows "chain (h\<lparr>cells := (cells h)(last xs \<mapsto> c\<lparr>next_node := n\<rparr>)\<rparr>) p (xs @ [n])"
  using assms
proof (induction xs arbitrary: p)
  case (Cons x xs)
  show ?case
  proof (cases "xs = []")
    case False
    from Cons.prems(1) obtain e where "cells h x = Some e" "chain h (next_node e) xs" "p = x" "x \<noteq> 0"
      by auto
    moreover have "x \<noteq> last xs"
      using Cons.prems(3) False by auto
    ultimately show ?thesis
      using Cons.IH [of "next_node e"] Cons.prems False by auto
  qed (use Cons.prems in auto)
qed simp

lemma walk_chain: "chain h p xs \<Longrightarrow> length xs \<le> n \<Longrightarrow> walk n h p = xs"
proof (induction xs arbitrary: p n)
  case Nil
  then show ?case by (cases n) auto
next
  case (Cons x xs)
  then show ?case by (cases n) auto
qed

lemma chain_short:
  assumes "heap_ok h" "chain h p xs" "distinct xs"
  shows "length xs \<le> fresh h"
proof -
  have "set xs \<subseteq> {..< fresh h}"
    using chain_live [OF assms(2)] live_below_fresh [OF assms(1)] by fastforce
  then have "card (set xs) \<le> fresh h"
    using card_mono [of "{..< fresh h}"] by simp
  with assms(3) show ?thesis by (simp add: distinct_card)
qed

lemma lq_contents_repr:
  assumes "lq_repr q cache items"
  shows "lq_contents q = values_at (nodes q) items"
proof -
  from assms chain_last [of "nodes q" "first q" cache items] obtain c where
    c: "cells (nodes q) (tail q) = Some c" "chain (nodes q) (next_node c) items"
    by (auto simp: lq_repr_def)
  have "length items \<le> fresh (nodes q)"
    using assms chain_short [OF _ c(2)] by (auto simp: lq_repr_def)
  from walk_chain [OF c(2) this] c(1) show ?thesis by (simp add: lq_contents_def Let_def)
qed

subsection \<open>The operations on a well-formed chain\<close>

lemma from_cache_ok:
  assumes "lq_repr q cache items" "first q \<noteq> last cache" "tail_copy q \<noteq> first q"
  shows "\<exists>cache'. cache = first q # cache' \<and> first q \<noteq> 0 \<and>
    (\<exists>p. from_cache q = Inr (first q, q\<lparr>first := p\<rparr>) \<and> lq_repr (q\<lparr>first := p\<rparr>) cache' items)"
proof -
  from assms(1) obtain cache' c where c: "cache = first q # cache'" "cells (nodes q) (first q) = Some c"
    "chain (nodes q) (next_node c) (cache' @ items)" "first q \<noteq> 0"
    by (cases cache) (auto simp: lq_repr_def)
  moreover from this assms(2) have "cache' \<noteq> []" by auto
  ultimately show ?thesis
    using assms by (auto simp: lq_repr_def from_cache_def load_next_def deref_live)
qed

text \<open>A node for the producer alone: taken from the cache or new.\<close>

definition spare :: "'a linked_queue \<Rightarrow> ptr \<Rightarrow> ptr list \<Rightarrow> bool" where
  "spare q n xs \<longleftrightarrow> n \<noteq> 0 \<and> n \<notin> set xs \<and> cells (nodes q) n \<noteq> None"

lemma alloc_node_ok:
  assumes "lq_repr q cache items"
  shows "\<exists>n q' cache'. alloc_node q = Inr (n, q') \<and> lq_repr q' cache' items \<and> spare q' n (cache' @ items) \<and>
    tail q' = tail q \<and> insert n (set cache') = insert n (set cache) \<and>
    (\<forall>x. x \<noteq> n \<longrightarrow> cells (nodes q') x = cells (nodes q) x) \<and> n \<notin> set items"
proof -
  let ?q = "q\<lparr>tail_copy := tail q\<rparr>"
  have r: "lq_repr ?q cache items"
    using assms by (auto simp: lq_repr_def)
  have d: "distinct (cache @ items)" "tail q = last cache" "cache \<noteq> []" "heap_ok (nodes q)"
    "tail_copy q \<in> set cache" "chain (nodes q) (first q) (cache @ items)"
    using assms by (auto simp: lq_repr_def)
  have h: "first q = hd cache"
    using d(3,6) by (cases cache) auto
  have single: "cache = [first q]" if "first q = last cache"
    using that d(1,3) h by (cases cache) (auto split: if_splits)
  consider "first q \<noteq> tail_copy q" | "first q = tail_copy q" "first q \<noteq> tail q"
    | "first q = tail_copy q" "first q = tail q"
    by blast
  then show ?thesis
  proof cases
    case 1
    have "first q \<noteq> last cache"
    proof
      assume "first q = last cache"
      from single [OF this] have "set cache = {first q}" by (metis empty_set list.simps(15))
      with d(5) 1 show False by simp
    qed
    from from_cache_ok [OF assms this 1 [symmetric]] obtain cache' p where
      "cache = first q # cache'" "first q \<noteq> 0" "from_cache q = Inr (first q, q\<lparr>first := p\<rparr>)"
      "lq_repr (q\<lparr>first := p\<rparr>) cache' items"
      by blast
    with 1 d(1) chain_live [OF d(6), of "first q"] show ?thesis
      by (auto simp: alloc_node_def spare_def)
  next
    case 2
    then have "first ?q \<noteq> last cache" "tail_copy ?q \<noteq> first ?q"
      using d(2) by auto
    from from_cache_ok [OF r this] obtain cache' p where
      "cache = first q # cache'" "first q \<noteq> 0" "from_cache ?q = Inr (first q, ?q\<lparr>first := p\<rparr>)"
      "lq_repr (?q\<lparr>first := p\<rparr>) cache' items"
      by auto
    with 2 d(1) chain_live [OF d(6), of "first q"] show ?thesis
      by (auto simp: alloc_node_def spare_def Let_def)
  next
    case 3
    let ?n = "fresh (nodes q)" and ?h = "snd (heap_new \<lparr>next_node = 0, value_of = None\<rparr> (nodes q))"
    have new: "?n \<noteq> 0" "cells (nodes q) ?n = None" "heap_ok ?h"
      using heap_new_fresh [OF d(4)] heap_ok_new [OF d(4)] by (auto simp: heap_new_def)
    then have n: "?n \<notin> set (cache @ items)"
      using chain_live [OF d(6)] by fastforce
    then have "chain ?h (first q) (cache @ items)"
      by (intro chain_cong [OF d(6)]) (auto simp: heap_new_def)
    then have "lq_repr (?q\<lparr>nodes := ?h\<rparr>) cache items"
      using r new(3) n by (auto simp: lq_repr_def heap_new_def)
    moreover have "alloc_node q = Inr (?n, ?q\<lparr>nodes := ?h\<rparr>)"
      using 3 by (simp add: alloc_node_def heap_new_def Let_def)
    moreover have "cells ?h ?n \<noteq> None" "\<forall>x. x \<noteq> ?n \<longrightarrow> cells ?h x = cells (nodes q) x"
      by (simp_all add: heap_new_def)
    ultimately show ?thesis
      using n new(1) by (intro exI [of _ ?n] exI [of _ "?q\<lparr>nodes := ?h\<rparr>"] exI [of _ cache]) (simp add: spare_def)
  qed
qed

lemma lq_repr_write_spare:
  assumes "lq_repr q cache items" "spare q n (cache @ items)"
  shows "lq_repr (q\<lparr>nodes := nodes q\<lparr>cells := (cells (nodes q))(n \<mapsto> c)\<rparr>\<rparr>) cache items"
proof -
  have "chain (nodes q\<lparr>cells := (cells (nodes q))(n \<mapsto> c)\<rparr>) (first q) (cache @ items)"
    using assms by (rule_tac chain_cong [of "nodes q"]) (auto simp: lq_repr_def spare_def)
  moreover have "heap_ok (nodes q\<lparr>cells := (cells (nodes q))(n \<mapsto> c)\<rparr>)"
    using assms by (rule_tac heap_ok_update) (auto simp: lq_repr_def spare_def live_def)
  ultimately show ?thesis
    using assms by (auto simp: lq_repr_def spare_def)
qed

lemma values_at_cong: "\<forall>x \<in> set xs. cells h' x = cells h x \<Longrightarrow> values_at h' xs = values_at h xs"
  by (simp add: values_at_def)

lemma prepare_node_ok:
  assumes "lq_repr q cache items"
  shows "\<exists>n q' cache'. prepare_node v q = Inr (n, q') \<and> lq_repr q' cache' items \<and> n \<noteq> 0 \<and>
    n \<notin> set (cache' @ items) \<and> cells (nodes q') n = Some \<lparr>next_node = 0, value_of = Some v\<rparr> \<and>
    tail q' = tail q \<and> insert n (set cache') = insert n (set cache) \<and>
    (\<forall>x. x \<noteq> n \<longrightarrow> cells (nodes q') x = cells (nodes q) x)"
proof -
  from alloc_node_ok [OF assms] obtain n q1 cache' where a: "alloc_node q = Inr (n, q1)"
    "lq_repr q1 cache' items" "spare q1 n (cache' @ items)" "tail q1 = tail q"
    "insert n (set cache') = insert n (set cache)" "\<forall>x. x \<noteq> n \<longrightarrow> cells (nodes q1) x = cells (nodes q) x"
    by blast
  let ?q = "q1\<lparr>nodes := nodes q1\<lparr>cells := (cells (nodes q1))(n \<mapsto> \<lparr>next_node = 0, value_of = Some v\<rparr>)\<rparr>\<rparr>"
  from a(3) obtain c where c: "cells (nodes q1) n = Some c" "n \<noteq> 0"
    by (auto simp: spare_def)
  have "prepare_node v q = Inr (n, ?q)"
    using a(1) c by (cases c) (simp add: prepare_node_def store_next_def store_value_def deref_live assign_live)
  moreover have "lq_repr ?q cache' items"
    by (rule lq_repr_write_spare [OF a(2,3)])
  ultimately show ?thesis
    using a by (intro exI [of _ n] exI [of _ ?q] exI [of _ cache']) (auto simp: spare_def)
qed

lemma link_node_ok:
  assumes "lq_repr q cache items" "n \<noteq> 0" "n \<notin> set (cache @ items)"
    "cells (nodes q) n = Some \<lparr>next_node = 0, value_of = Some v\<rparr>"
  shows "\<exists>q'. link_node n q = Inr q' \<and> lq_repr q' cache (items @ [n]) \<and> tail q' = tail q \<and>
    values_at (nodes q') (items @ [n]) = values_at (nodes q) items @ [v] \<and>
    {x. live (nodes q') x} = {x. live (nodes q) x}"
proof -
  let ?L = "cache @ items"
  have L: "chain (nodes q) (first q) ?L" "?L \<noteq> []" "distinct ?L" "heap_ok (nodes q)" "head q = last ?L"
    using assms(1) by (auto simp: lq_repr_def)
  from chain_last [of "nodes q" "first q" ?L "[]"] L obtain c where c: "cells (nodes q) (last ?L) = Some c"
    by auto
  with chain_live [OF L(1)] L(2) have nz: "last ?L \<noteq> 0" "last ?L \<in> set ?L"
    by (metis last_in_set) (metis L(2) last_in_set)
  let ?h = "nodes q\<lparr>cells := (cells (nodes q))(last ?L \<mapsto> c\<lparr>next_node := n\<rparr>)\<rparr>"
  have "link_node n q = Inr (q\<lparr>nodes := ?h, head := n\<rparr>)"
    using c nz(1) L(5) by (simp add: link_node_def store_next_def deref_live assign_live)
  moreover have "chain ?h (first q) (?L @ [n])"
    using chain_link [OF L(1,2,3) assms(3,2,4) _ c] by simp
  moreover have "heap_ok ?h"
    using c nz by (intro heap_ok_update L(4)) (simp add: live_def)
  moreover have "values_at ?h (items @ [n]) = values_at (nodes q) items @ [v]"
    using assms(3,4) c nz(2) by (auto simp: values_at_def)
  moreover have "{x. live ?h x} = {x. live (nodes q) x}"
    using c by (auto simp: live_def)
  moreover have "\<forall>x \<in> set (items @ [n]). value_of (the (cells ?h x)) \<noteq> None"
    using assms c nz(2) by (auto simp: lq_repr_def)
  ultimately show ?thesis
    using assms(1,3) by (auto simp: lq_repr_def)
qed

lemma empty_next: "lq_repr q cache [] \<Longrightarrow> load_next q (tail q) = Inr 0"
  using chain_last [of "nodes q" "first q" cache "[]"] chain_live [of "nodes q" "first q" cache "last cache"]
  by (auto simp: lq_repr_def load_next_def deref_live)

lemma item_next:
  assumes "lq_repr q cache (x # items)"
  shows "load_next q (tail q) = Inr x" "x \<noteq> 0"
    "load_value q x = Inr (hd (values_at (nodes q) (x # items)))" "lq_repr (q\<lparr>tail := x\<rparr>) (cache @ [x]) items"
proof -
  have L: "chain (nodes q) (first q) (cache @ x # items)" "cache \<noteq> []" "tail q = last cache"
    using assms by (auto simp: lq_repr_def)
  from chain_last [OF L(1,2)] obtain c where "cells (nodes q) (last cache) = Some c" "next_node c = x"
    by auto
  with chain_live [OF L(1), of "last cache"] L(2,3) show "load_next q (tail q) = Inr x"
    by (simp add: load_next_def deref_live)
  from chain_live [OF L(1), of x] obtain d where d: "x \<noteq> 0" "cells (nodes q) x = Some d"
    by auto
  with assms show "x \<noteq> 0" "load_value q x = Inr (hd (values_at (nodes q) (x # items)))"
    by (auto simp: lq_repr_def load_value_def deref_live values_at_def)
  from assms show "lq_repr (q\<lparr>tail := x\<rparr>) (cache @ [x]) items"
    by (auto simp: lq_repr_def)
qed

subsection \<open>The queue as an unbounded FIFO\<close>

lemma live_insert:
  assumes "\<forall>x. x \<noteq> n \<longrightarrow> cells h' x = cells h x" "n \<noteq> 0" "cells h' n \<noteq> None"
  shows "{x. live h' x} = insert n {x. live h x}"
proof (rule set_eqI)
  fix x
  show "x \<in> {x. live h' x} \<longleftrightarrow> x \<in> insert n {x. live h x}"
    using assms by (cases "x = n") (auto simp: live_def)
qed

lemma lq_invI: "lq_repr q cache items \<Longrightarrow> {x. live (nodes q) x} = set (cache @ items) \<Longrightarrow> lq_inv q"
  by (auto simp: lq_inv_def)

lemma lq_inv_new: "lq_inv (SPSCQueue empty_store)" "lq_contents (SPSCQueue empty_store) = []"
proof -
  let ?q = "SPSCQueue empty_store"
  have r: "lq_repr ?q [1] []"
    by (simp add: lq_repr_def SPSCQueue_def heap_new_def empty_store_def heap_ok_def)
  then show "lq_inv ?q"
    by (rule lq_invI) (auto simp: SPSCQueue_def heap_new_def empty_store_def live_def split: if_splits)
  show "lq_contents ?q = []"
    using lq_contents_repr [OF r] by (simp add: values_at_def)
qed

lemma linked_enqueue_ok:
  assumes "lq_inv q"
  shows "\<exists>q'. SPSCQueue_enqueue v q = Inr q' \<and> lq_inv q' \<and> lq_contents q' = lq_contents q @ [v]"
proof -
  from assms obtain cache items where r: "lq_repr q cache items" "{x. live (nodes q) x} = set (cache @ items)"
    by (auto simp: lq_inv_def)
  from prepare_node_ok [OF r(1), of v] obtain n q1 cache' where p: "prepare_node v q = Inr (n, q1)"
    "lq_repr q1 cache' items" "n \<noteq> 0" "n \<notin> set (cache' @ items)"
    "cells (nodes q1) n = Some \<lparr>next_node = 0, value_of = Some v\<rparr>"
    "insert n (set cache') = insert n (set cache)" "\<forall>x. x \<noteq> n \<longrightarrow> cells (nodes q1) x = cells (nodes q) x"
    by blast
  from link_node_ok [OF p(2-5)] obtain q2 where l: "link_node n q1 = Inr q2" "lq_repr q2 cache' (items @ [n])"
    "values_at (nodes q2) (items @ [n]) = values_at (nodes q1) items @ [v]"
    "{x. live (nodes q2) x} = {x. live (nodes q1) x}"
    by blast
  have "{x. live (nodes q1) x} = insert n (set (cache @ items))"
    using live_insert [OF p(7,3)] p(5) r(2) by simp
  then have "lq_inv q2"
    using p(6) l(4) by (intro lq_invI [OF l(2)]) auto
  moreover have "values_at (nodes q1) items = values_at (nodes q) items"
    using p(4,7) by (intro values_at_cong) auto
  ultimately show ?thesis
    using p(1) l(1,3) lq_contents_repr [OF r(1)] lq_contents_repr [OF l(2)] by (simp add: SPSCQueue_enqueue_def)
qed

lemma linked_dequeue_ok:
  assumes "lq_inv q"
  shows "\<exists>q'. SPSCQueue_try_dequeue q = Inr (case lq_contents q of [] \<Rightarrow> None | v # _ \<Rightarrow> Some v, q') \<and>
    lq_inv q' \<and> lq_contents q' = tl (lq_contents q)"
proof -
  from assms obtain cache items where r: "lq_repr q cache items" "{x. live (nodes q) x} = set (cache @ items)"
    by (auto simp: lq_inv_def)
  note c = lq_contents_repr [OF r(1)]
  show ?thesis
  proof (cases items)
    case Nil
    then show ?thesis
      using assms c empty_next [of q cache] r(1) by (simp add: SPSCQueue_try_dequeue_def values_at_def)
  next
    case (Cons x rest)
    note n = item_next [OF r(1) [unfolded Cons]]
    have "lq_inv (q\<lparr>tail := x\<rparr>)"
      using r(2) Cons by (intro lq_invI [OF n(4)]) simp
    then show ?thesis
      using n(1-3) c lq_contents_repr [OF n(4)] Cons
      by (simp add: SPSCQueue_try_dequeue_def values_at_def)
  qed
qed

definition lq_enq :: "'a \<Rightarrow> 'a linked_queue \<Rightarrow> (bool \<times> 'a linked_queue) result" where
  "lq_enq v q = rbind (SPSCQueue_enqueue v q) (\<lambda>q. Inr (True, q))"

interpretation lq: unbounded_fifo lq_inv lq_contents lq_enq SPSCQueue_try_dequeue
proof unfold_locales
  fix q :: "'a linked_queue" and x ok q'
  show "\<exists>ok q'. lq_enq x q = Inr (ok, q') \<and> lq_inv q' \<and>
      lq_contents q' = (if ok then lq_contents q @ [x] else lq_contents q)" if "lq_inv q"
    using linked_enqueue_ok [OF that, of x] by (auto simp: lq_enq_def)
  show "\<exists>q'. SPSCQueue_try_dequeue q = Inr (case lq_contents q of [] \<Rightarrow> None | x # _ \<Rightarrow> Some x, q') \<and>
      lq_inv q' \<and> lq_contents q' = tl (lq_contents q)" if "lq_inv q"
    by (rule linked_dequeue_ok [OF that])
  show "lq_enq x q = Inr (ok, q') \<Longrightarrow> ok" if "lq_inv q"
    by (auto simp: lq_enq_def rbind_eq_Inr)
qed

lemma repeat_enqueue_ok:
  "lq_inv q \<Longrightarrow> \<exists>q'. repeat_call n (SPSCQueue_enqueue v) q = Inr q' \<and> lq_inv q' \<and>
     lq_contents q' = lq_contents q @ replicate n v"
proof (induction n arbitrary: q)
  case (Suc n)
  from linked_enqueue_ok [OF Suc.prems, of v] obtain q1 where
    "SPSCQueue_enqueue v q = Inr q1" "lq_inv q1" "lq_contents q1 = lq_contents q @ [v]"
    by blast
  with Suc.IH [of q1] show ?case by auto
qed simp

lemma repeat_dequeue_ok:
  "lq_inv q \<Longrightarrow> \<exists>q'. repeat_call n (\<lambda>q. rbind (SPSCQueue_try_dequeue q) (\<lambda>(_, q). Inr q)) q = Inr q' \<and>
     lq_inv q' \<and> lq_contents q' = drop n (lq_contents q)"
proof (induction n arbitrary: q)
  case (Suc n)
  from linked_dequeue_ok [OF Suc.prems] obtain r q1 where
    "SPSCQueue_try_dequeue q = Inr (r, q1)" "lq_inv q1" "lq_contents q1 = tl (lq_contents q)"
    by blast
  with Suc.IH [of q1] show ?case by (auto simp: drop_Suc)
qed simp

lemma prealloc_ok:
  "\<exists>q. SPSCQueue_prealloc dummy n empty_store = Inr q \<and> lq_inv q \<and> lq_contents q = []"
proof -
  from repeat_enqueue_ok [OF lq_inv_new(1), of n dummy] obtain q1 where
    "repeat_call n (SPSCQueue_enqueue dummy) (SPSCQueue empty_store) = Inr q1" "lq_inv q1"
    "lq_contents q1 = replicate n dummy"
    using lq_inv_new(2) by auto
  with repeat_dequeue_ok [of q1 n] show ?thesis by (auto simp: SPSCQueue_prealloc_def)
qed

lemma delete_nodes_ok:
  assumes "chain h p xs" "distinct xs" "xs \<noteq> []"
  shows "\<exists>h'. delete_nodes p h = Some (Inr h') \<and> (\<forall>x. cells h' x = (if x \<in> set xs then None else cells h x))"
  using assms
proof (induction xs arbitrary: p h)
  case (Cons x xs)
  then obtain c where c: "p = x" "x \<noteq> 0" "cells h x = Some c" "chain h (next_node c) xs"
    by auto
  let ?h = "h\<lparr>cells := (cells h)(x := None)\<rparr>"
  have ch: "chain ?h (next_node c) xs"
    using Cons.prems(2) by (rule_tac chain_cong [OF c(4)]) auto
  have d: "deref h x = Inr c" "heap_delete x h = Inr ?h"
    using c by (simp_all add: deref_live heap_delete_live)
  show ?case
  proof (cases "xs = []")
    case True
    with c d show ?thesis by (subst delete_nodes.simps) auto
  next
    case False
    then have "next_node c \<noteq> 0"
      using c(4) by (cases xs) auto
    with Cons.IH [OF ch _ False] Cons.prems(2) c(1) d show ?thesis
      by (subst delete_nodes.simps) auto
  qed
qed simp

lemma destroy_ok:
  assumes "lq_inv q"
  shows "\<exists>h. SPSCQueue_destroy q = Some (Inr h) \<and> {x. live h x} = {}"
proof -
  from assms obtain cache items where r: "lq_repr q cache items" "{x. live (nodes q) x} = set (cache @ items)"
    by (auto simp: lq_inv_def)
  then have "chain (nodes q) (first q) (cache @ items)" "distinct (cache @ items)" "cache @ items \<noteq> []"
    by (auto simp: lq_repr_def)
  from delete_nodes_ok [OF this] obtain h where h: "delete_nodes (first q) (nodes q) = Some (Inr h)"
    "\<forall>x. cells h x = (if x \<in> set (cache @ items) then None else cells (nodes q) x)"
    by blast
  have "\<not> live h x" for x
    using h(2) r(2) by (cases "x \<in> set (cache @ items)") (auto simp: live_def)
  with h(1) show ?thesis by (simp add: SPSCQueue_destroy_def)
qed

subsection \<open>Producer and consumer at the same time\<close>

text \<open>
  The shared words are \<open>tail_\<close>, written by the consumer and read once in
  \<open>alloc_node\<close>, and the \<open>next_\<close> word of the last node, written by the producer and read
  by the consumer.  Every step of a thread makes one access to a shared word.
\<close>

datatype 'a lq_producer = Preparing | Linking ptr 'a
datatype 'a lq_consumer = Checking | Fetching | Advancing 'a

record 'a lq_system =
  theQueue :: "'a linked_queue"
  lq_producer :: "'a lq_producer"
  lq_consumer :: "'a lq_consumer"
  linked_in :: "'a list"
  taken_out :: "'a list"

inductive lq_step :: "'a lq_system \<Rightarrow> 'a lq_system \<Rightarrow> bool" where
  prepare: "lq_producer s = Preparing \<Longrightarrow> prepare_node v (theQueue s) = Inr (n, q) \<Longrightarrow>
     lq_step s (s\<lparr>theQueue := q, lq_producer := Linking n v\<rparr>)"
| link: "lq_producer s = Linking n v \<Longrightarrow> link_node n (theQueue s) = Inr q \<Longrightarrow>
     lq_step s (s\<lparr>theQueue := q, lq_producer := Preparing, linked_in := linked_in s @ [v]\<rparr>)"
| check: "lq_consumer s = Checking \<Longrightarrow> load_next (theQueue s) (tail (theQueue s)) = Inr n \<Longrightarrow>
     lq_step s (s\<lparr>lq_consumer := (if n \<noteq> 0 then Fetching else Checking)\<rparr>)"
| fetch: "lq_consumer s = Fetching \<Longrightarrow> load_next (theQueue s) (tail (theQueue s)) = Inr n \<Longrightarrow>
     load_value (theQueue s) n = Inr v \<Longrightarrow> lq_step s (s\<lparr>lq_consumer := Advancing v\<rparr>)"
| advance: "lq_consumer s = Advancing v \<Longrightarrow> load_next (theQueue s) (tail (theQueue s)) = Inr n \<Longrightarrow>
     lq_step s (s\<lparr>theQueue := (theQueue s)\<lparr>tail := n\<rparr>, lq_consumer := Checking, taken_out := taken_out s @ [v]\<rparr>)"

inductive lq_reach :: "'a linked_queue \<Rightarrow> 'a lq_system \<Rightarrow> bool" for q0 where
  start: "lq_reach q0 \<lparr>theQueue = q0, lq_producer = Preparing, lq_consumer = Checking, linked_in = [], taken_out = []\<rparr>"
| step: "lq_reach q0 s \<Longrightarrow> lq_step s s' \<Longrightarrow> lq_reach q0 s'"

text \<open>Neither thread's next access faults.\<close>

definition lq_safe :: "'a lq_system \<Rightarrow> bool" where
  "lq_safe s \<longleftrightarrow>
     (case lq_producer s of Preparing \<Rightarrow> (\<forall>v. \<exists>n q. prepare_node v (theQueue s) = Inr (n, q))
      | Linking n v \<Rightarrow> (\<exists>q. link_node n (theQueue s) = Inr q)) \<and>
     (\<exists>n. load_next (theQueue s) (tail (theQueue s)) = Inr n \<and>
       (case lq_consumer s of Fetching \<Rightarrow> (\<exists>v. load_value (theQueue s) n = Inr v) | _ \<Rightarrow> True))"

fun lq_producer_ok :: "'a linked_queue \<Rightarrow> ptr list \<Rightarrow> 'a lq_producer \<Rightarrow> bool" where
  "lq_producer_ok q xs Preparing \<longleftrightarrow> {x. live (nodes q) x} = set xs"
| "lq_producer_ok q xs (Linking n v) \<longleftrightarrow> n \<noteq> 0 \<and> n \<notin> set xs \<and>
     cells (nodes q) n = Some \<lparr>next_node = 0, value_of = Some v\<rparr> \<and> {x. live (nodes q) x} = insert n (set xs)"

fun lq_consumer_ok :: "'a list \<Rightarrow> 'a lq_consumer \<Rightarrow> bool" where
  "lq_consumer_ok vs Checking \<longleftrightarrow> True"
| "lq_consumer_ok vs Fetching \<longleftrightarrow> vs \<noteq> []"
| "lq_consumer_ok vs (Advancing v) \<longleftrightarrow> vs \<noteq> [] \<and> v = hd vs"

definition lq_sys_repr :: "'a lq_system \<Rightarrow> ptr list \<Rightarrow> ptr list \<Rightarrow> bool" where
  "lq_sys_repr s cache items \<longleftrightarrow> lq_repr (theQueue s) cache items \<and>
     linked_in s = taken_out s @ values_at (nodes (theQueue s)) items \<and>
     lq_producer_ok (theQueue s) (cache @ items) (lq_producer s) \<and>
     lq_consumer_ok (values_at (nodes (theQueue s)) items) (lq_consumer s)"

lemma lq_consumer_ok_append: "lq_consumer_ok vs c \<Longrightarrow> lq_consumer_ok (vs @ ws) c"
  by (cases c) auto

lemma values_at_nonempty: "values_at h xs \<noteq> [] \<longleftrightarrow> xs \<noteq> []"
  by (simp add: values_at_def)

lemma lq_prepare_inv:
  assumes "lq_sys_repr s cache items" "lq_producer s = Preparing" "prepare_node v (theQueue s) = Inr (n, q)"
  shows "\<exists>cache'. lq_sys_repr (s\<lparr>theQueue := q, lq_producer := Linking n v\<rparr>) cache' items"
proof -
  from assms(1) have r: "lq_repr (theQueue s) cache items" by (simp add: lq_sys_repr_def)
  from prepare_node_ok [OF r, of v] assms(3) obtain cache' where p:
    "lq_repr q cache' items" "n \<noteq> 0" "n \<notin> set (cache' @ items)"
    "cells (nodes q) n = Some \<lparr>next_node = 0, value_of = Some v\<rparr>"
    "insert n (set cache') = insert n (set cache)"
    "\<forall>x. x \<noteq> n \<longrightarrow> cells (nodes q) x = cells (nodes (theQueue s)) x"
    by auto
  have "values_at (nodes q) items = values_at (nodes (theQueue s)) items"
    using p(3,6) by (intro values_at_cong) auto
  moreover have "{x. live (nodes q) x} = insert n (set (cache' @ items))"
    using live_insert [OF p(6,2)] p(4,5) assms(1,2) by (simp add: lq_sys_repr_def) blast
  ultimately show ?thesis
    using assms(1) p(1-4) by (intro exI [of _ cache']) (simp add: lq_sys_repr_def)
qed

lemma lq_link_inv:
  assumes "lq_sys_repr s cache items" "lq_producer s = Linking n v" "link_node n (theQueue s) = Inr q"
  shows "lq_sys_repr (s\<lparr>theQueue := q, lq_producer := Preparing, linked_in := linked_in s @ [v]\<rparr>) cache (items @ [n])"
proof -
  from assms(1,2) have r: "lq_repr (theQueue s) cache items" "n \<noteq> 0" "n \<notin> set (cache @ items)"
    "cells (nodes (theQueue s)) n = Some \<lparr>next_node = 0, value_of = Some v\<rparr>"
    "{x. live (nodes (theQueue s)) x} = insert n (set (cache @ items))"
    by (simp_all add: lq_sys_repr_def)
  from link_node_ok [OF r(1-4)] assms(3) have
    "lq_repr q cache (items @ [n])"
    "values_at (nodes q) (items @ [n]) = values_at (nodes (theQueue s)) items @ [v]"
    "{x. live (nodes q) x} = {x. live (nodes (theQueue s)) x}"
    by auto
  with assms(1) r(5) show ?thesis
    by (simp add: lq_sys_repr_def lq_consumer_ok_append)
qed

lemma lq_advance_inv:
  assumes "lq_sys_repr s cache items" "lq_consumer s = Advancing v"
    "load_next (theQueue s) (tail (theQueue s)) = Inr n"
  shows "\<exists>cache' items'. lq_sys_repr
    (s\<lparr>theQueue := (theQueue s)\<lparr>tail := n\<rparr>, lq_consumer := Checking, taken_out := taken_out s @ [v]\<rparr>) cache' items'"
proof -
  from assms(1,2) obtain x rest where items: "items = x # rest"
    by (cases items) (auto simp: lq_sys_repr_def values_at_def)
  with assms(1) have "lq_repr (theQueue s) cache (x # rest)" by (simp add: lq_sys_repr_def)
  note n = item_next [OF this]
  have "lq_producer_ok ((theQueue s)\<lparr>tail := n\<rparr>) ((cache @ [x]) @ rest) (lq_producer s)"
    using assms(1) items by (cases "lq_producer s") (simp_all add: lq_sys_repr_def)
  with assms n items show ?thesis
    by (intro exI [of _ "cache @ [x]"] exI [of _ rest]) (simp add: lq_sys_repr_def values_at_def)
qed

lemma lq_step_inv:
  assumes "lq_step s s'" "lq_sys_repr s cache items"
  shows "\<exists>cache items. lq_sys_repr s' cache items"
  using assms(1)
proof cases
  case (prepare v n q)
  from lq_prepare_inv [OF assms(2) prepare(2,3)] prepare(1) show ?thesis by blast
next
  case (link n v q)
  from lq_link_inv [OF assms(2) link(2,3)] link(1) show ?thesis by blast
next
  case (check n)
  note r = assms(2)
  have "items \<noteq> []" if "n \<noteq> 0"
    using that check(3) r empty_next [of "theQueue s" cache] by (auto simp: lq_sys_repr_def)
  with r check(1) show ?thesis by (auto simp: lq_sys_repr_def values_at_nonempty)
next
  case (fetch n v)
  note r = assms(2)
  with fetch(2) obtain x rest where items: "items = x # rest"
    by (cases items) (auto simp: lq_sys_repr_def values_at_def)
  with r have "lq_repr (theQueue s) cache (x # rest)" by (simp add: lq_sys_repr_def)
  from item_next [OF this] fetch(1,3,4) r items show ?thesis
    by (intro exI [of _ cache] exI [of _ items]) (simp add: lq_sys_repr_def values_at_def)
next
  case (advance v n)
  from lq_advance_inv [OF assms(2) advance(2,3)] advance(1) show ?thesis by blast
qed

lemma lq_reach_inv:
  assumes "lq_reach q0 s" "lq_inv q0" "lq_contents q0 = []"
  shows "\<exists>cache items. lq_sys_repr s cache items"
  using assms(1)
proof induction
  case start
  from assms(2) obtain cache items where r: "lq_repr q0 cache items" "{x. live (nodes q0) x} = set (cache @ items)"
    by (auto simp: lq_inv_def)
  moreover have "items = []"
    using lq_contents_repr [OF r(1)] assms(3) by (simp add: values_at_def)
  ultimately show ?case by (auto simp: lq_sys_repr_def values_at_def)
next
  case (step s s')
  then show ?case using lq_step_inv by blast
qed

lemma lq_sys_safe:
  assumes "lq_sys_repr s cache items"
  shows "lq_safe s"
proof -
  have r: "lq_repr (theQueue s) cache items" using assms by (simp add: lq_sys_repr_def)
  have "\<exists>n q. prepare_node v (theQueue s) = Inr (n, q)" for v
    using prepare_node_ok [OF r, of v] by blast
  moreover have "\<exists>q. link_node n (theQueue s) = Inr q" if "lq_producer s = Linking n v" for n v
    using that assms link_node_ok [OF r, of n v] by (auto simp: lq_sys_repr_def)
  moreover have "\<exists>n. load_next (theQueue s) (tail (theQueue s)) = Inr n \<and>
       (case lq_consumer s of Fetching \<Rightarrow> (\<exists>v. load_value (theQueue s) n = Inr v) | _ \<Rightarrow> True)"
  proof (cases items)
    case Nil
    then show ?thesis
      using empty_next [of "theQueue s" cache] r assms
      by (cases "lq_consumer s") (auto simp: lq_sys_repr_def values_at_def)
  next
    case (Cons x rest)
    note n = item_next [OF r [unfolded Cons]]
    show ?thesis
      unfolding n(1) by (cases "lq_consumer s") (simp_all add: n(3))
  qed
  ultimately show ?thesis
    unfolding lq_safe_def by (cases "lq_producer s") simp_all
qed

subsection \<open>Properties\<close>

text \<open>
  The linked queue over its whole life: built empty or with any number of spare nodes, every
  sequence of calls runs without a fault, values come out in the order they went in, each
  once, and the destructor ends with every node deleted.
\<close>

theorem linked_queue_life:
  "\<exists>q0 ins outs q h. SPSCQueue_prealloc dummy prealloc empty_store = Inr q0 \<and> lq_contents q0 = [] \<and>
     queue_run lq_enq SPSCQueue_try_dequeue ops q0 = Inr (ins, outs, q) \<and>
     ins = outs @ lq_contents q \<and> SPSCQueue_destroy q = Some (Inr h) \<and> {x. live h x} = {}"
proof -
  from prealloc_ok [of dummy prealloc] obtain q0 where q0: "SPSCQueue_prealloc dummy prealloc empty_store = Inr q0" "lq_inv q0"
    "lq_contents q0 = []"
    by blast
  from lq.run_order [OF q0(2), of ops] obtain ins outs q where
    "queue_run lq_enq SPSCQueue_try_dequeue ops q0 = Inr (ins, outs, q)" "lq_inv q"
    "lq_contents q0 @ ins = outs @ lq_contents q"
    by blast
  moreover from destroy_ok [OF this(2)] obtain h where "SPSCQueue_destroy q = Some (Inr h)" "{x. live h x} = {}"
    by blast
  ultimately show ?thesis
    using q0(1,3) by (intro exI [of _ q0] exI [of _ ins] exI [of _ outs] exI [of _ q] exI [of _ h]) simp
qed

text \<open>
  (C15) One producer and one consumer on the linked queue, interleaved at every shared access:
  what was linked in is what was taken out followed by what is queued, and the next access
  of neither thread ever faults, although the producer reuses the nodes the consumer leaves behind.
\<close>

theorem linked_queue_concurrent:
  assumes "SPSCQueue_prealloc dummy prealloc empty_store = Inr q0" "lq_reach q0 s"
  shows "linked_in s = taken_out s @ lq_contents (theQueue s) \<and> lq_safe s"
proof -
  from prealloc_ok [of dummy prealloc] assms(1) have "lq_inv q0" "lq_contents q0 = []"
    by auto
  from lq_reach_inv [OF assms(2) this] obtain cache items where r: "lq_sys_repr s cache items"
    by blast
  then have "lq_repr (theQueue s) cache items" by (simp add: lq_sys_repr_def)
  from lq_contents_repr [OF this] r lq_sys_safe [OF r] show ?thesis
    by (simp add: lq_sys_repr_def)
qed

theorem linked_queue_concurrent_witness:
  "\<exists>q0 s. SPSCQueue_prealloc (CHR ''-'') 0 empty_store = Inr q0 \<and> lq_reach q0 s \<and>
     linked_in s = [CHR ''a''] \<and> linked_in s = taken_out s @ lq_contents (theQueue s) \<and> lq_safe s"
proof -
  let ?q0 = "SPSCQueue empty_store :: char linked_queue"
  let ?s = "\<lambda>q p l. \<lparr>theQueue = q, lq_producer = p, lq_consumer = Checking, linked_in = l, taken_out = []\<rparr>"
  have q0: "SPSCQueue_prealloc (CHR ''-'') 0 empty_store = Inr ?q0"
    by (simp add: SPSCQueue_prealloc_def)
  from linked_enqueue_ok [OF lq_inv_new(1), of "CHR ''a''"] obtain n q1 q2 where
    q: "prepare_node (CHR ''a'') ?q0 = Inr (n, q1)" "link_node n q1 = Inr q2"
    by (auto simp: SPSCQueue_enqueue_def rbind_eq_Inr)
  have 1: "lq_step (?s ?q0 Preparing []) (?s q1 (Linking n (CHR ''a'')) [])"
    using lq_step.prepare [of "?s ?q0 Preparing []" "CHR ''a''" n q1] q(1) by simp
  have 2: "lq_step (?s q1 (Linking n (CHR ''a'')) []) (?s q2 Preparing ''a'')"
    using lq_step.link [of "?s q1 (Linking n (CHR ''a'')) []" n "CHR ''a''" q2] q(2) by simp
  have r: "lq_reach ?q0 (?s q2 Preparing ''a'')"
    by (rule lq_reach.step [OF lq_reach.step [OF lq_reach.start 1] 2])
  have "linked_in (?s q2 Preparing ''a'') = ''a''" by simp
  with linked_queue_concurrent [OF q0 r] q0 r show ?thesis by blast
qed

end
