(* ===== verification/Mpmc_Queue.thy ===== *)
theory Mpmc_Queue
  imports Fifo_Spec
begin

unbundle bit_operations_syntax

text \<open>
  \<open>mpmc_bounded_queue\<close> of \<open>src/libs/mpmc_queue.hpp\<close>: a bounded queue for any number
  of producers and consumers.  Every cell carries a sequence number that says whose turn it is;
  positions and sequence numbers are 64-bit words that wrap around.  Used by one thread the queue
  is a bounded FIFO for ever, also after the positions have wrapped; used by many threads it hands
  the \<open>k\<close>-th accepted element to the \<open>k\<close>-th successful consumer, as long as fewer than
  \<open>2 ^ 63\<close> elements have gone through.
\<close>

type_synonym size_t = "64 word"

record 'a cell_t =
  sequence :: size_t
  cell_data :: "'a option"

record 'a mpmc =
  buffer :: "'a cell_t list"
  buffer_mask :: size_t
  enqueue_pos :: size_t
  dequeue_pos :: size_t

definition mpmc_bounded_queue :: "bool \<Rightarrow> size_t \<Rightarrow> 'a mpmc result" where
  "mpmc_bounded_queue ndebug buffer_size =
     rbind (c_assert ndebug (buffer_size \<ge> 2 \<and> buffer_size AND (buffer_size - 1) = 0)) (\<lambda>_.
       Inr \<lparr>buffer = map (\<lambda>i. \<lparr>sequence = of_nat i, cell_data = None\<rparr>) [0..<unat buffer_size],
            buffer_mask = buffer_size - 1, enqueue_pos = 0, dequeue_pos = 0\<rparr>)"

definition cell_index :: "'a mpmc \<Rightarrow> size_t \<Rightarrow> nat" where
  "cell_index q pos = unat (pos AND buffer_mask q)"

definition cell_at :: "'a mpmc \<Rightarrow> size_t \<Rightarrow> 'a cell_t result" where
  "cell_at q pos = list_at (buffer q) (int (cell_index q pos))"

definition store_data :: "size_t \<Rightarrow> 'a \<Rightarrow> 'a mpmc \<Rightarrow> 'a mpmc result" where
  "store_data pos x q = rbind (cell_at q pos) (\<lambda>c.
     Inr (q\<lparr>buffer := (buffer q)[cell_index q pos := c\<lparr>cell_data := Some x\<rparr>]\<rparr>))"

definition load_data :: "size_t \<Rightarrow> 'a mpmc \<Rightarrow> 'a result" where
  "load_data pos q = rbind (cell_at q pos) (\<lambda>c.
     case cell_data c of None \<Rightarrow> Inl Uninitialised | Some x \<Rightarrow> Inr x)"

definition store_sequence :: "size_t \<Rightarrow> size_t \<Rightarrow> 'a mpmc \<Rightarrow> 'a mpmc result" where
  "store_sequence pos seq q = rbind (cell_at q pos) (\<lambda>c.
     Inr (q\<lparr>buffer := (buffer q)[cell_index q pos := c\<lparr>sequence := seq\<rparr>]\<rparr>))"

text \<open>The difference of two positions as a signed number, with the wrap-around of two's complement.\<close>

definition dif :: "size_t \<Rightarrow> size_t \<Rightarrow> int" where
  "dif seq pos = sint (seq - pos)"

text \<open>
  The loops that claim a position.  \<open>spurious\<close> is the number of times the weak exchange fails
  although the value is the expected one; \<open>None\<close> is a loop that never ends.
\<close>

partial_function (option) claim_enqueue :: "nat \<Rightarrow> size_t \<Rightarrow> 'a mpmc \<Rightarrow> (size_t option \<times> 'a mpmc) result option" where
  "claim_enqueue spurious pos q =
     (case cell_at q pos of
        Inl e \<Rightarrow> Some (Inl e)
      | Inr cell \<Rightarrow>
          (let d = dif (sequence cell) pos in
           if d = 0 then
             (if enqueue_pos q = pos \<and> spurious = 0 then Some (Inr (Some pos, q\<lparr>enqueue_pos := pos + 1\<rparr>))
              else claim_enqueue (spurious - 1) (enqueue_pos q) q)
           else if d < 0 then Some (Inr (None, q))
           else claim_enqueue spurious (enqueue_pos q) q))"

partial_function (option) claim_dequeue :: "nat \<Rightarrow> size_t \<Rightarrow> 'a mpmc \<Rightarrow> (size_t option \<times> 'a mpmc) result option" where
  "claim_dequeue spurious pos q =
     (case cell_at q pos of
        Inl e \<Rightarrow> Some (Inl e)
      | Inr cell \<Rightarrow>
          (let d = dif (sequence cell) (pos + 1) in
           if d = 0 then
             (if dequeue_pos q = pos \<and> spurious = 0 then Some (Inr (Some pos, q\<lparr>dequeue_pos := pos + 1\<rparr>))
              else claim_dequeue (spurious - 1) (dequeue_pos q) q)
           else if d < 0 then Some (Inr (None, q))
           else claim_dequeue spurious (dequeue_pos q) q))"

definition mpmc_enqueue :: "nat \<Rightarrow> 'a \<Rightarrow> 'a mpmc \<Rightarrow> (bool \<times> 'a mpmc) result option" where
  "mpmc_enqueue spurious data q =
     obind (claim_enqueue spurious (enqueue_pos q) q) (\<lambda>(r, q). Some
       (case r of None \<Rightarrow> Inr (False, q)
        | Some pos \<Rightarrow>
            rbind (store_data pos data q) (\<lambda>q.
            rbind (store_sequence pos (pos + 1) q) (\<lambda>q. Inr (True, q)))))"

definition mpmc_dequeue :: "nat \<Rightarrow> 'a mpmc \<Rightarrow> ('a option \<times> 'a mpmc) result option" where
  "mpmc_dequeue spurious q =
     obind (claim_dequeue spurious (dequeue_pos q) q) (\<lambda>(r, q). Some
       (case r of None \<Rightarrow> Inr (None, q)
        | Some pos \<Rightarrow>
            rbind (load_data pos q) (\<lambda>data.
            rbind (store_sequence pos (pos + buffer_mask q + 1) q) (\<lambda>q. Inr (Some data, q)))))"

subsection \<open>Positions modulo the size\<close>

definition shape :: "nat \<Rightarrow> 'a mpmc \<Rightarrow> bool" where
  "shape n q \<longleftrightarrow> 1 \<le> n \<and> n < 63 \<and> length (buffer q) = 2 ^ n \<and> buffer_mask q = 2 ^ n - 1"

lemma unat_and_mask: "unat (w AND (2 ^ n - 1)) = unat w mod 2 ^ n" for w :: size_t
proof -
  have "w AND (2 ^ n - 1) = take_bit n w"
    by (simp only: take_bit_eq_mask mask_eq_exp_minus_1)
  then show ?thesis
    by (simp only: unsigned_take_bit_eq) (simp only: take_bit_eq_mod)
qed

lemma unat_of_nat_mod:
  assumes "n < 64"
  shows "unat (of_nat k :: size_t) mod 2 ^ n = k mod 2 ^ n"
proof -
  have "(2::nat) ^ n dvd 2 ^ 64"
    using assms by (intro le_imp_power_dvd) simp
  then have "k mod 2 ^ 64 mod 2 ^ n = k mod (2::nat) ^ n"
    by (rule mod_mod_cancel)
  then show ?thesis by (simp add: unat_of_nat)
qed

lemma cell_index_of_nat: "shape n q \<Longrightarrow> cell_index q (of_nat k) = k mod 2 ^ n"
  by (simp add: shape_def cell_index_def unat_and_mask unat_of_nat_mod)

lemma dif_of_nat:
  assumes "\<bar>int a - int b\<bar> < 2 ^ 63"
  shows "dif (of_nat a) (of_nat b) = int a - int b"
proof -
  have "(of_nat a - of_nat b :: size_t) = word_of_int (int a - int b)"
    by simp
  moreover have "signed_take_bit 63 (int a - int b) = int a - int b"
    using assms by (intro signed_take_bit_int_eq_self) auto
  ultimately show ?thesis
    by (simp add: dif_def signed_of_int del: of_int_diff of_int_of_nat_eq)
qed

lemma cell_at_of_nat: "shape n q \<Longrightarrow> cell_at q (of_nat k) = Inr (buffer q ! (k mod 2 ^ n))"
  by (simp add: cell_at_def cell_index_of_nat list_at_def) (simp add: shape_def nat_mod_distrib nat_power_eq)

lemma shape_update [simp]:
  "length b = length (buffer q) \<Longrightarrow> shape n (q\<lparr>buffer := b\<rparr>) = shape n q" "shape n (q\<lparr>enqueue_pos := p\<rparr>) = shape n q"
  "shape n (q\<lparr>dequeue_pos := p\<rparr>) = shape n q"
  by (simp_all add: shape_def)

lemma cell_index_update [simp]:
  "cell_index (q\<lparr>buffer := b\<rparr>) = cell_index q" "cell_index (q\<lparr>enqueue_pos := p\<rparr>) = cell_index q"
  "cell_index (q\<lparr>dequeue_pos := p\<rparr>) = cell_index q"
  by (simp_all add: cell_index_def fun_eq_iff)

lemma cell_at_nth: "cell_index q pos < length (buffer q) \<Longrightarrow> cell_at q pos = Inr (buffer q ! cell_index q pos)"
  by (simp add: cell_at_def list_at_def)

lemma store_ok:
  assumes "cell_index q pos = i" "i < length (buffer q)"
  shows "store_data pos x q = Inr (q\<lparr>buffer := (buffer q)[i := (buffer q ! i)\<lparr>cell_data := Some x\<rparr>]\<rparr>)"
    "store_sequence pos seq q = Inr (q\<lparr>buffer := (buffer q)[i := (buffer q ! i)\<lparr>sequence := seq\<rparr>]\<rparr>)"
  using assms by (simp_all add: store_data_def store_sequence_def cell_at_nth)

lemma mod_eq_near:
  fixes a b N :: nat
  assumes "a mod N = b mod N" "a < b + N" "b < a + N"
  shows "a = b"
proof (cases "a \<le> b")
  case True
  then have "N dvd b - a"
    using assms(1) by (metis mod_eq_dvd_iff_nat)
  moreover have "b - a < N"
    using assms(3) True by linarith
  ultimately show ?thesis
    using True by (auto dest: nat_dvd_not_less)
next
  case False
  then have "N dvd a - b"
    using assms(1) by (metis mod_eq_dvd_iff_nat nat_le_linear)
  moreover have "a - b < N"
    using assms(2) False by linarith
  ultimately show ?thesis
    using False by (auto dest: nat_dvd_not_less)
qed

lemma succ_mod_neq: "1 \<le> n \<Longrightarrow> Suc k mod 2 ^ n \<noteq> k mod (2::nat) ^ n"
proof
  assume "1 \<le> n" "Suc k mod 2 ^ n = k mod (2::nat) ^ n"
  then have "(2::nat) ^ n dvd 1"
    by (metis Suc_diff_le diff_self_eq_0 le_SucI le_refl mod_eq_dvd_iff_nat One_nat_def)
  with \<open>1 \<le> n\<close> show False by simp
qed

lemma window_inj: "(D + i) mod N = (D + j) mod N \<Longrightarrow> i < N \<Longrightarrow> j < N \<Longrightarrow> i = j" for D :: nat
  using mod_eq_near [of "D + i" N "D + j"] by simp

subsection \<open>One thread\<close>

text \<open>\<open>D\<close> elements have left the queue and \<open>xs\<close> are in it.\<close>

definition mpmc_repr :: "nat \<Rightarrow> nat \<Rightarrow> 'a list \<Rightarrow> 'a mpmc \<Rightarrow> bool" where
  "mpmc_repr n D xs q \<longleftrightarrow> shape n q \<and> length xs \<le> 2 ^ n \<and>
     dequeue_pos q = of_nat D \<and> enqueue_pos q = of_nat (D + length xs) \<and>
     (\<forall>j < length xs. buffer q ! ((D + j) mod 2 ^ n) = \<lparr>sequence = of_nat (Suc (D + j)), cell_data = Some (xs ! j)\<rparr>) \<and>
     (\<forall>j < 2 ^ n. length xs \<le> j \<longrightarrow> sequence (buffer q ! ((D + j) mod 2 ^ n)) = of_nat (D + j))"

definition mpmc_inv :: "'a mpmc \<Rightarrow> bool" where
  "mpmc_inv q \<longleftrightarrow> (\<exists>n D xs. mpmc_repr n D xs q)"

definition mpmc_contents :: "'a mpmc \<Rightarrow> 'a list" where
  "mpmc_contents q = map (\<lambda>j. the (cell_data (buffer q ! cell_index q (dequeue_pos q + of_nat j))))
     [0..<unat (enqueue_pos q - dequeue_pos q)]"

definition mpmc_cap :: "'a mpmc \<Rightarrow> nat" where
  "mpmc_cap q = length (buffer q)"

lemma two_pow_bounds: "1 \<le> n \<Longrightarrow> n < 63 \<Longrightarrow> 2 \<le> (2::nat) ^ n \<and> (2::nat) ^ n \<le> 2 ^ 62"
  using power_increasing [of 1 n "2::nat"] power_increasing [of n 62 "2::nat"] by simp

lemma two_pow_bounds_int: "1 \<le> n \<Longrightarrow> n < 63 \<Longrightarrow> 2 \<le> (2::int) ^ n \<and> (2::int) ^ n \<le> 2 ^ 62"
  using power_increasing [of 1 n "2::int"] power_increasing [of n 62 "2::int"] by simp

lemma mpmc_repr_full:
  "mpmc_repr n D xs q \<Longrightarrow> j < length xs \<Longrightarrow>
   buffer q ! ((D + j) mod 2 ^ n) = \<lparr>sequence = of_nat (Suc (D + j)), cell_data = Some (xs ! j)\<rparr>"
  unfolding mpmc_repr_def by blast

lemma mpmc_repr_free:
  "mpmc_repr n D xs q \<Longrightarrow> j < 2 ^ n \<Longrightarrow> length xs \<le> j \<Longrightarrow> sequence (buffer q ! ((D + j) mod 2 ^ n)) = of_nat (D + j)"
  unfolding mpmc_repr_def by blast

lemma mpmc_contents_repr:
  assumes "mpmc_repr n D xs q"
  shows "mpmc_contents q = xs"
proof -
  have sh: "shape n q" "length xs \<le> 2 ^ n" "1 \<le> n" "n < 63"
    using assms by (auto simp: mpmc_repr_def shape_def)
  have "enqueue_pos q - dequeue_pos q = of_nat (length xs)"
    using assms by (simp add: mpmc_repr_def)
  moreover have "unat (of_nat (length xs) :: size_t) = length xs"
    using sh two_pow_bounds [of n] by (simp add: unat_of_nat)
  moreover have "cell_index q (dequeue_pos q + of_nat j) = (D + j) mod 2 ^ n" for j
    using cell_index_of_nat [OF sh(1), of "D + j"] assms by (simp add: mpmc_repr_def)
  ultimately show ?thesis
    using assms by (auto simp: mpmc_contents_def mpmc_repr_def intro: nth_equalityI)
qed

lemma claim_enqueue_free:
  "cell_at q (enqueue_pos q) = Inr c \<Longrightarrow> dif (sequence c) (enqueue_pos q) = 0 \<Longrightarrow>
   claim_enqueue spurious (enqueue_pos q) q = Some (Inr (Some (enqueue_pos q), q\<lparr>enqueue_pos := enqueue_pos q + 1\<rparr>))"
proof (induction spurious)
  case 0
  then show ?case by (subst claim_enqueue.simps) (simp add: Let_def)
next
  case (Suc m)
  then show ?case by (subst claim_enqueue.simps) (simp add: Let_def)
qed

lemma claim_dequeue_ready:
  "cell_at q (dequeue_pos q) = Inr c \<Longrightarrow> dif (sequence c) (dequeue_pos q + 1) = 0 \<Longrightarrow>
   claim_dequeue spurious (dequeue_pos q) q = Some (Inr (Some (dequeue_pos q), q\<lparr>dequeue_pos := dequeue_pos q + 1\<rparr>))"
proof (induction spurious)
  case 0
  then show ?case by (subst claim_dequeue.simps) (simp add: Let_def)
next
  case (Suc m)
  then show ?case by (subst claim_dequeue.simps) (simp add: Let_def)
qed

lemma mpmc_enqueue_free:
  assumes "mpmc_repr n D xs q" "length xs < 2 ^ n"
  shows "\<exists>q'. mpmc_enqueue spurious x q = Some (Inr (True, q')) \<and> mpmc_repr n D (xs @ [x]) q'"
proof -
  define pos i where "pos = enqueue_pos q" and "i = (D + length xs) mod 2 ^ n"
  let ?q = "q\<lparr>enqueue_pos := pos + 1, buffer := (buffer q)[i := \<lparr>sequence = pos + 1, cell_data = Some x\<rparr>]\<rparr>"
  have sh: "shape n q" and pos: "pos = of_nat (D + length xs)"
    using assms(1) by (auto simp: mpmc_repr_def pos_def)
  have i: "i < length (buffer q)" "cell_index q pos = i"
    using sh cell_index_of_nat [OF sh, of "D + length xs"] by (simp_all only: shape_def i_def pos) simp
  have "sequence (buffer q ! i) = pos"
    using assms by (simp add: mpmc_repr_def pos i_def)
  then have "dif (sequence (buffer q ! i)) pos = 0"
    by (simp add: dif_def)
  then have "claim_enqueue spurious pos q = Some (Inr (Some pos, q\<lparr>enqueue_pos := pos + 1\<rparr>))"
    using claim_enqueue_free [of q _ spurious] i by (simp add: cell_at_nth pos_def)
  then have "mpmc_enqueue spurious x q = Some (Inr (True, ?q))"
    using i by (cases "buffer q ! i") (simp add: mpmc_enqueue_def store_ok pos_def)
  moreover have "mpmc_repr n D (xs @ [x]) ?q"
    supply of_nat_add [simp del] of_nat_Suc [simp del]
  proof -
    have nth: "buffer ?q ! ((D + j) mod 2 ^ n) =
        (if j = length xs then \<lparr>sequence = pos + 1, cell_data = Some x\<rparr> else buffer q ! ((D + j) mod 2 ^ n))" if "j < 2 ^ n" for j
      using that assms(2) window_inj [of D "length xs" "2 ^ n" j] i(1) unfolding i_def by (auto simp: nth_list_update)
    have one: "pos + 1 = of_nat (Suc (D + length xs))"
      by (simp add: pos of_nat_add of_nat_Suc add.commute)
    have "buffer ?q ! ((D + j) mod 2 ^ n) = \<lparr>sequence = of_nat (Suc (D + j)), cell_data = Some ((xs @ [x]) ! j)\<rparr>"
      if "j < length (xs @ [x])" for j
      using that assms nth [of j] one by (auto simp: mpmc_repr_def nth_append less_Suc_eq)
    moreover have "sequence (buffer ?q ! ((D + j) mod 2 ^ n)) = of_nat (D + j)"
      if "j < 2 ^ n" "length (xs @ [x]) \<le> j" for j
      using that assms nth [of j] by (auto simp: mpmc_repr_def)
    moreover have "shape n ?q" "dequeue_pos ?q = of_nat D" "enqueue_pos ?q = of_nat (D + length (xs @ [x]))"
      "length (xs @ [x]) \<le> 2 ^ n"
      using assms sh one by (simp_all add: mpmc_repr_def)
    ultimately show ?thesis
      unfolding mpmc_repr_def by blast
  qed
  ultimately show ?thesis by blast
qed

lemma mpmc_enqueue_full:
  assumes "mpmc_repr n D xs q" "length xs = 2 ^ n"
  shows "mpmc_enqueue spurious x q = Some (Inr (False, q))"
proof -
  have sh: "shape n q" "enqueue_pos q = of_nat (D + 2 ^ n)" and n: "1 \<le> n" "n < 63"
    using assms by (auto simp: mpmc_repr_def shape_def)
  have "sequence (buffer q ! ((D + 0) mod 2 ^ n)) = of_nat (Suc (D + 0))"
    using mpmc_repr_full [OF assms(1), of 0] assms(2) by simp
  then have c: "cell_at q (of_nat (D + 2 ^ n)) = Inr (buffer q ! (D mod 2 ^ n))"
    "sequence (buffer q ! (D mod 2 ^ n)) = of_nat (Suc D)"
    using cell_at_of_nat [OF sh(1), of "D + 2 ^ n"] by simp_all
  have "dif (of_nat (Suc D)) (of_nat (D + 2 ^ n)) < 0"
    using dif_of_nat [of "Suc D" "D + 2 ^ n"] two_pow_bounds_int [OF n] by simp
  then have "claim_enqueue spurious (of_nat (D + 2 ^ n)) q = Some (Inr (None, q))"
    using c by (subst claim_enqueue.simps) (simp add: Let_def del: of_nat_add of_nat_Suc)
  then show ?thesis by (simp add: mpmc_enqueue_def sh(2) del: of_nat_add)
qed

lemma mpmc_dequeue_ready:
  assumes "mpmc_repr n D (x # xs) q"
  shows "\<exists>q'. mpmc_dequeue spurious q = Some (Inr (Some x, q')) \<and> mpmc_repr n (Suc D) xs q'"
proof -
  define pos i where "pos = dequeue_pos q" and "i = D mod 2 ^ n"
  let ?seq = "pos + buffer_mask q + 1"
  let ?q = "q\<lparr>dequeue_pos := pos + 1, buffer := (buffer q)[i := (buffer q ! i)\<lparr>sequence := ?seq\<rparr>]\<rparr>"
  have sh: "shape n q" and pos: "pos = of_nat D" and len: "length xs < 2 ^ n"
    using assms by (auto simp: mpmc_repr_def pos_def)
  have i: "i < length (buffer q)" "cell_index q pos = i"
    using sh cell_index_of_nat [OF sh, of D] by (simp_all only: shape_def i_def pos) simp
  have "buffer q ! ((D + 0) mod 2 ^ n) = \<lparr>sequence = of_nat (Suc (D + 0)), cell_data = Some x\<rparr>"
    using mpmc_repr_full [OF assms, of 0] by simp
  then have c: "buffer q ! i = \<lparr>sequence = pos + 1, cell_data = Some x\<rparr>"
    by (simp add: i_def pos add.commute)
  then have "dif (sequence (buffer q ! i)) (pos + 1) = 0"
    by (simp add: dif_def)
  then have "claim_dequeue spurious pos q = Some (Inr (Some pos, q\<lparr>dequeue_pos := pos + 1\<rparr>))"
    using claim_dequeue_ready [of q _ spurious] i by (simp add: cell_at_nth pos_def)
  then have "mpmc_dequeue spurious q = Some (Inr (Some x, ?q))"
    using i c by (simp add: mpmc_dequeue_def store_ok load_data_def cell_at_nth pos_def)
  moreover have "mpmc_repr n (Suc D) xs ?q"
    supply of_nat_add [simp del] of_nat_Suc [simp del]
  proof -
    have seq: "?seq = of_nat (D + 2 ^ n)"
      using sh by (simp add: shape_def pos of_nat_add)
    have nth: "buffer ?q ! ((D + j) mod 2 ^ n) =
        (if j = 0 then (buffer q ! i)\<lparr>sequence := ?seq\<rparr> else buffer q ! ((D + j) mod 2 ^ n))" if "j < 2 ^ n" for j
      using that window_inj [of D 0 "2 ^ n" j] i(1) unfolding i_def by (auto simp: nth_list_update)
    have "buffer ?q ! ((Suc D + j) mod 2 ^ n) = \<lparr>sequence = of_nat (Suc (Suc D + j)), cell_data = Some (xs ! j)\<rparr>"
      if "j < length xs" for j
    proof -
      have "Suc j < length (x # xs)" "Suc j < 2 ^ n"
        using that len by auto
      then have "buffer q ! ((D + Suc j) mod 2 ^ n) = \<lparr>sequence = of_nat (Suc (D + Suc j)), cell_data = Some (xs ! j)\<rparr>"
        using mpmc_repr_full [OF assms, of "Suc j"] by simp
      with nth [of "Suc j"] \<open>Suc j < 2 ^ n\<close> show ?thesis by simp
    qed
    moreover have "sequence (buffer ?q ! ((Suc D + j) mod 2 ^ n)) = of_nat (Suc D + j)"
      if "j < 2 ^ n" "length xs \<le> j" for j
    proof (cases "Suc j < 2 ^ n")
      case True
      then have "sequence (buffer q ! ((D + Suc j) mod 2 ^ n)) = of_nat (D + Suc j)"
        using mpmc_repr_free [OF assms, of "Suc j"] that by simp
      with nth [OF True] show ?thesis by simp
    next
      case False
      then have "Suc j = 2 ^ n"
        using that by simp
      then have "(Suc D + j) mod 2 ^ n = (D + 0) mod 2 ^ n" "of_nat (Suc D + j) = (of_nat (D + 2 ^ n) :: size_t)"
        by (metis add_Suc_right add_Suc_shift mod_add_self2 add_0_right)+
      with nth [of 0] seq show ?thesis by simp
    qed
    moreover have "shape n ?q" "dequeue_pos ?q = of_nat (Suc D)" "enqueue_pos ?q = of_nat (Suc D + length xs)"
      using assms sh by (simp_all add: mpmc_repr_def pos of_nat_Suc add.commute)
    ultimately show ?thesis
      using len unfolding mpmc_repr_def by (meson less_imp_le_nat)
  qed
  ultimately show ?thesis by blast
qed

lemma mpmc_dequeue_empty:
  assumes "mpmc_repr n D [] q"
  shows "mpmc_dequeue spurious q = Some (Inr (None, q))"
proof -
  have sh: "shape n q" "dequeue_pos q = of_nat D" and n: "1 \<le> n" "n < 63"
    using assms by (auto simp: mpmc_repr_def shape_def)
  have "sequence (buffer q ! ((D + 0) mod 2 ^ n)) = of_nat (D + 0)"
    using mpmc_repr_free [OF assms, of 0] by simp
  then have c: "cell_at q (of_nat D) = Inr (buffer q ! (D mod 2 ^ n))" "sequence (buffer q ! (D mod 2 ^ n)) = of_nat D"
    using cell_at_of_nat [OF sh(1), of D] by simp_all
  have "dif (of_nat D) (of_nat D + 1) < 0"
    using dif_of_nat [of D "Suc D"] by (simp add: add.commute)
  then have "claim_dequeue spurious (of_nat D) q = Some (Inr (None, q))"
    using c by (subst claim_dequeue.simps) (simp add: Let_def)
  then show ?thesis by (simp add: mpmc_dequeue_def sh(2))
qed

definition mpmc_enq :: "nat \<Rightarrow> 'a \<Rightarrow> 'a mpmc \<Rightarrow> (bool \<times> 'a mpmc) result" where
  "mpmc_enq spurious x q = wait_for (mpmc_enqueue spurious x q)"

definition mpmc_deq :: "nat \<Rightarrow> 'a mpmc \<Rightarrow> ('a option \<times> 'a mpmc) result" where
  "mpmc_deq spurious q = wait_for (mpmc_dequeue spurious q)"

lemma mpmc_repr_cap: "mpmc_repr n D xs q \<Longrightarrow> mpmc_cap q = 2 ^ n \<and> length xs \<le> 2 ^ n"
  by (simp add: mpmc_repr_def shape_def mpmc_cap_def)

lemma mpmc_enq_ok:
  assumes "mpmc_repr n D xs q"
  shows "\<exists>q'. mpmc_enq spurious x q = Inr (length xs < 2 ^ n, q') \<and>
    mpmc_repr n D (if length xs < 2 ^ n then xs @ [x] else xs) q'"
proof (cases "length xs < 2 ^ n")
  case True
  with mpmc_enqueue_free [OF assms, of spurious x] show ?thesis by (auto simp: mpmc_enq_def)
next
  case False
  then have "length xs = 2 ^ n"
    using mpmc_repr_cap [OF assms] by simp
  with mpmc_enqueue_full [OF assms, of spurious x] assms show ?thesis by (simp add: mpmc_enq_def)
qed

lemma mpmc_deq_ok:
  assumes "mpmc_repr n D xs q"
  shows "\<exists>q' D'. mpmc_deq spurious q = Inr (case xs of [] \<Rightarrow> None | x # _ \<Rightarrow> Some x, q') \<and> mpmc_repr n D' (tl xs) q'"
proof (cases xs)
  case Nil
  with mpmc_dequeue_empty [of n D q spurious] assms show ?thesis by (auto simp: mpmc_deq_def)
next
  case (Cons x ys)
  with mpmc_dequeue_ready [of n D x ys q spurious] assms show ?thesis by (auto simp: mpmc_deq_def)
qed

interpretation mpmc: bounded_fifo mpmc_inv mpmc_contents "mpmc_enq sp" "mpmc_deq sp'" mpmc_cap
  for sp sp' :: nat
proof unfold_locales
  fix q q' :: "'a mpmc" and x ok r
  assume "mpmc_inv q"
  then obtain n D xs where rep: "mpmc_repr n D xs q"
    by (auto simp: mpmc_inv_def)
  note c = mpmc_contents_repr [OF rep] and cap = mpmc_repr_cap [OF rep]
  obtain e where e: "mpmc_enq sp x q = Inr (length xs < 2 ^ n, e)"
    "mpmc_repr n D (if length xs < 2 ^ n then xs @ [x] else xs) e"
    using mpmc_enq_ok [OF rep] by blast
  obtain d D' where d: "mpmc_deq sp' q = Inr (case xs of [] \<Rightarrow> None | x # _ \<Rightarrow> Some x, d)" "mpmc_repr n D' (tl xs) d"
    using mpmc_deq_ok [OF rep] by blast
  show "\<exists>ok q'. mpmc_enq sp x q = Inr (ok, q') \<and> mpmc_inv q' \<and>
      mpmc_contents q' = (if ok then mpmc_contents q @ [x] else mpmc_contents q)"
    using e c mpmc_contents_repr [OF e(2)] by (auto simp: mpmc_inv_def)
  show "\<exists>q'. mpmc_deq sp' q = Inr (case mpmc_contents q of [] \<Rightarrow> None | x # _ \<Rightarrow> Some x, q') \<and>
      mpmc_inv q' \<and> mpmc_contents q' = tl (mpmc_contents q)"
    using d c mpmc_contents_repr [OF d(2)] by (auto simp: mpmc_inv_def)
  show "mpmc_enq sp x q = Inr (ok, q') \<Longrightarrow> ok \<longleftrightarrow> length (mpmc_contents q) < mpmc_cap q"
    using e(1) c cap by simp
  show "mpmc_enq sp x q = Inr (ok, q') \<Longrightarrow> mpmc_cap q' = mpmc_cap q"
    using e cap mpmc_repr_cap [OF e(2)] by simp
  show "mpmc_deq sp' q = Inr (r, q') \<Longrightarrow> mpmc_cap q' = mpmc_cap q"
    using d cap mpmc_repr_cap [OF d(2)] by simp
  show "length (mpmc_contents q) \<le> mpmc_cap q"
    using c cap by simp
qed

lemma mpmc_new:
  assumes "1 \<le> n" "n < 63"
  shows "\<exists>q. mpmc_bounded_queue ndebug (2 ^ n) = Inr q \<and> mpmc_repr n 0 [] q"
proof -
  let ?q = "\<lparr>buffer = map (\<lambda>i. \<lparr>sequence = of_nat i, cell_data = None\<rparr>) [0..<2 ^ n],
    buffer_mask = 2 ^ n - 1, enqueue_pos = 0, dequeue_pos = 0\<rparr>"
  have "(2::nat) ^ n < 2 ^ 64"
    using assms(2) by (intro power_strict_increasing) auto
  then have u: "unat (2 ^ n :: size_t) = 2 ^ n"
    using unat_of_nat [of "2 ^ n", where 'a = 64] by simp
  have "unat ((2::size_t) ^ n AND (2 ^ n - 1)) = 0"
    by (simp add: unat_and_mask u)
  then have "(2::size_t) ^ n AND (2 ^ n - 1) = 0"
    by (simp add: unat_eq_zero)
  moreover have "(2::size_t) \<le> 2 ^ n"
    using two_pow_bounds [OF assms] u by (simp add: word_le_nat_alt)
  ultimately have "mpmc_bounded_queue ndebug (2 ^ n) = Inr ?q"
    by (simp add: mpmc_bounded_queue_def u)
  moreover have "mpmc_repr n 0 [] ?q"
    using assms by (simp add: mpmc_repr_def shape_def)
  ultimately show ?thesis by blast
qed

text \<open>
  One thread.  From a new queue of \<open>2 ^ n\<close> cells every sequence of enqueue and dequeue calls
  returns, whatever the weak exchanges do, and without a fault; the accepted elements come out in
  order, and never more than \<open>2 ^ n\<close> of them are inside.  The positions may wrap around.
\<close>

theorem mpmc_fifo:
  assumes "1 \<le> n" "n < 63"
  shows "\<exists>q0 ins outs q. mpmc_bounded_queue ndebug (2 ^ n) = Inr q0 \<and>
    queue_run (mpmc_enq sp) (mpmc_deq sp') ops q0 = Inr (ins, outs, q) \<and>
    ins = outs @ mpmc_contents q \<and> length ins \<le> length outs + 2 ^ n"
proof -
  obtain q0 :: "'a mpmc" where q0: "mpmc_bounded_queue ndebug (2 ^ n) = Inr q0" "mpmc_repr n 0 [] q0"
    using mpmc_new [OF assms] by blast
  then have inv: "mpmc_inv q0" and c: "mpmc_contents q0 = []" and cap: "mpmc_cap q0 = 2 ^ n"
    using mpmc_contents_repr [OF q0(2)] mpmc_repr_cap [OF q0(2)] by (auto simp: mpmc_inv_def)
  from mpmc.run_order [OF inv, of sp sp' ops] obtain ins outs q where
    run: "queue_run (mpmc_enq sp) (mpmc_deq sp') ops q0 = Inr (ins, outs, q)" and out: "ins = outs @ mpmc_contents q"
    using c by auto
  have "length (mpmc_contents q) \<le> 2 ^ n"
    using mpmc.run_cap [OF inv run] mpmc.within_cap cap by metis
  with q0 run out show ?thesis by auto
qed

theorem mpmc_fifo_witness:
  "\<exists>q0 ins outs q. mpmc_bounded_queue False (2 ^ 1) = Inr q0 \<and>
    queue_run (mpmc_enq 2) (mpmc_deq 1) [Enq CHR ''a'', Enq CHR ''b'', Enq CHR ''c'', Deq] q0 = Inr (ins, outs, q) \<and>
    ins = outs @ mpmc_contents q \<and> length ins \<le> length outs + 2"
  using mpmc_fifo [of 1 False 2 1 "[Enq CHR ''a'', Enq CHR ''b'', Enq CHR ''c'', Deq]"] by simp

end
