(* ===== verification/Mpmc_Threads.thy ===== *)
theory Mpmc_Threads
  imports Mpmc_Queue
begin

unbundle bit_operations_syntax

text \<open>
  The queue of \<open>src/libs/mpmc_queue.hpp\<close> under any number of threads, interleaved at every
  access to a shared word.  The \<open>k\<close>-th successful exchange of the producers claims ticket \<open>k\<close>
  and with it cell \<open>k mod size\<close>; the \<open>k\<close>-th successful exchange of the consumers claims
  the right to empty it.
\<close>

datatype 'a mpc =
    Idle
  | PLoop 'a size_t | PReload 'a | PCas 'a size_t | PFill 'a size_t | PPublish 'a size_t
  | CLoop size_t | CReload | CCas size_t | CRead size_t | CRelease size_t

text \<open>
  \<open>sent\<close>, \<open>taken\<close> and \<open>delivered\<close> are history variables: the elements in the order of their
  tickets, the number of tickets the consumers have claimed, and what they have read.
\<close>

record 'a mpmc_system =
  mq :: "'a mpmc"
  pcs :: "nat \<Rightarrow> 'a mpc"
  sent :: "'a list"
  taken :: nat
  delivered :: "(nat \<times> 'a) list"

inductive mpmc_step :: "'a mpmc_system \<Rightarrow> 'a mpmc_system \<Rightarrow> bool" where
  p_start: "pcs s t = Idle \<Longrightarrow> mpmc_step s (s\<lparr>pcs := (pcs s)(t := PLoop x (enqueue_pos (mq s)))\<rparr>)"
| p_look: "pcs s t = PLoop x pos \<Longrightarrow> cell_at (mq s) pos = Inr c \<Longrightarrow>
     mpmc_step s (s\<lparr>pcs := (pcs s)(t :=
       if dif (sequence c) pos = 0 then PCas x pos else if dif (sequence c) pos < 0 then Idle else PReload x)\<rparr>)"
| p_reload: "pcs s t = PReload x \<Longrightarrow> mpmc_step s (s\<lparr>pcs := (pcs s)(t := PLoop x (enqueue_pos (mq s)))\<rparr>)"
| p_cas: "pcs s t = PCas x pos \<Longrightarrow> enqueue_pos (mq s) = pos \<Longrightarrow>
     mpmc_step s (s\<lparr>mq := (mq s)\<lparr>enqueue_pos := pos + 1\<rparr>, pcs := (pcs s)(t := PFill x pos), sent := sent s @ [x]\<rparr>)"
| p_cas_fails: "pcs s t = PCas x pos \<Longrightarrow>
     mpmc_step s (s\<lparr>pcs := (pcs s)(t := PLoop x (enqueue_pos (mq s)))\<rparr>)"
| p_fill: "pcs s t = PFill x pos \<Longrightarrow> store_data pos x (mq s) = Inr q \<Longrightarrow>
     mpmc_step s (s\<lparr>mq := q, pcs := (pcs s)(t := PPublish x pos)\<rparr>)"
| p_publish: "pcs s t = PPublish x pos \<Longrightarrow> store_sequence pos (pos + 1) (mq s) = Inr q \<Longrightarrow>
     mpmc_step s (s\<lparr>mq := q, pcs := (pcs s)(t := Idle)\<rparr>)"
| c_start: "pcs s t = Idle \<Longrightarrow> mpmc_step s (s\<lparr>pcs := (pcs s)(t := CLoop (dequeue_pos (mq s)))\<rparr>)"
| c_look: "pcs s t = CLoop pos \<Longrightarrow> cell_at (mq s) pos = Inr c \<Longrightarrow>
     mpmc_step s (s\<lparr>pcs := (pcs s)(t :=
       if dif (sequence c) (pos + 1) = 0 then CCas pos else if dif (sequence c) (pos + 1) < 0 then Idle else CReload)\<rparr>)"
| c_reload: "pcs s t = CReload \<Longrightarrow> mpmc_step s (s\<lparr>pcs := (pcs s)(t := CLoop (dequeue_pos (mq s)))\<rparr>)"
| c_cas: "pcs s t = CCas pos \<Longrightarrow> dequeue_pos (mq s) = pos \<Longrightarrow>
     mpmc_step s (s\<lparr>mq := (mq s)\<lparr>dequeue_pos := pos + 1\<rparr>, pcs := (pcs s)(t := CRead pos), taken := Suc (taken s)\<rparr>)"
| c_cas_fails: "pcs s t = CCas pos \<Longrightarrow>
     mpmc_step s (s\<lparr>pcs := (pcs s)(t := CLoop (dequeue_pos (mq s)))\<rparr>)"
| c_read: "pcs s t = CRead pos \<Longrightarrow> load_data pos (mq s) = Inr v \<Longrightarrow>
     mpmc_step s (s\<lparr>pcs := (pcs s)(t := CRelease pos), delivered := delivered s @ [(unat pos, v)]\<rparr>)"
| c_release: "pcs s t = CRelease pos \<Longrightarrow> store_sequence pos (pos + buffer_mask (mq s) + 1) (mq s) = Inr q \<Longrightarrow>
     mpmc_step s (s\<lparr>mq := q, pcs := (pcs s)(t := Idle)\<rparr>)"

inductive mpmc_reach :: "'a mpmc \<Rightarrow> 'a mpmc_system \<Rightarrow> bool" for q0 where
  start: "mpmc_reach q0 \<lparr>mq = q0, pcs = (\<lambda>_. Idle), sent = [], taken = 0, delivered = []\<rparr>"
| step: "mpmc_reach q0 s \<Longrightarrow> mpmc_step s s' \<Longrightarrow> mpmc_reach q0 s'"

text \<open>The next access of no thread faults.\<close>

fun access_ok :: "'a mpmc \<Rightarrow> 'a mpc \<Rightarrow> bool" where
  "access_ok q (PLoop x pos) \<longleftrightarrow> (\<exists>c. cell_at q pos = Inr c)"
| "access_ok q (CLoop pos) \<longleftrightarrow> (\<exists>c. cell_at q pos = Inr c)"
| "access_ok q (PFill x pos) \<longleftrightarrow> (\<exists>q'. store_data pos x q = Inr q')"
| "access_ok q (PPublish x pos) \<longleftrightarrow> (\<exists>q'. store_sequence pos (pos + 1) q = Inr q')"
| "access_ok q (CRead pos) \<longleftrightarrow> (\<exists>v. load_data pos q = Inr v)"
| "access_ok q (CRelease pos) \<longleftrightarrow> (\<exists>q'. store_sequence pos (pos + buffer_mask q + 1) q = Inr q')"
| "access_ok q _ \<longleftrightarrow> True"

subsection \<open>The invariant\<close>

text \<open>
  A cell waits for the producer with ticket \<open>k\<close>, or has been filled by it.  \<open>E\<close> and \<open>D\<close> are
  the numbers of tickets claimed by producers and consumers.
\<close>

definition cell_ok :: "nat \<Rightarrow> nat \<Rightarrow> nat \<Rightarrow> 'a list \<Rightarrow> nat \<Rightarrow> 'a cell_t \<Rightarrow> bool" where
  "cell_ok N E D xs i c \<longleftrightarrow> (\<exists>k. k mod N = i \<and>
     (sequence c = of_nat k \<and> D \<le> k \<and> k < D + N \<or>
      sequence c = of_nat (Suc k) \<and> k < E \<and> E \<le> k + N \<and> (D \<le> k \<longrightarrow> cell_data c = Some (xs ! k))))"

fun thread_ok :: "nat \<Rightarrow> nat \<Rightarrow> nat \<Rightarrow> 'a list \<Rightarrow> 'a cell_t list \<Rightarrow> 'a mpc \<Rightarrow> bool" where
  "thread_ok N E D xs b (PLoop x pos) \<longleftrightarrow> (\<exists>k \<le> E. pos = of_nat k)"
| "thread_ok N E D xs b (PCas x pos) \<longleftrightarrow> (\<exists>k \<le> E. pos = of_nat k \<and> (k = E \<longrightarrow> sequence (b ! (k mod N)) = of_nat k))"
| "thread_ok N E D xs b (PFill x pos) \<longleftrightarrow> (\<exists>k < E. pos = of_nat k \<and> xs ! k = x \<and> sequence (b ! (k mod N)) = of_nat k)"
| "thread_ok N E D xs b (PPublish x pos) \<longleftrightarrow> (\<exists>k < E. pos = of_nat k \<and> xs ! k = x \<and> sequence (b ! (k mod N)) = of_nat k \<and>
     cell_data (b ! (k mod N)) = Some x)"
| "thread_ok N E D xs b (CLoop pos) \<longleftrightarrow> (\<exists>k \<le> D. pos = of_nat k)"
| "thread_ok N E D xs b (CCas pos) \<longleftrightarrow> (\<exists>k \<le> D. pos = of_nat k \<and> (k = D \<longrightarrow> sequence (b ! (k mod N)) = of_nat (Suc k)))"
| "thread_ok N E D xs b (CRead pos) \<longleftrightarrow> (\<exists>k < D. pos = of_nat k \<and> sequence (b ! (k mod N)) = of_nat (Suc k) \<and>
     cell_data (b ! (k mod N)) = Some (xs ! k))"
| "thread_ok N E D xs b (CRelease pos) \<longleftrightarrow> (\<exists>k < D. pos = of_nat k \<and> sequence (b ! (k mod N)) = of_nat (Suc k))"
| "thread_ok N E D xs b _ \<longleftrightarrow> True"

text \<open>The cell a thread has to itself.\<close>

fun owns :: "nat \<Rightarrow> 'a mpc \<Rightarrow> nat option" where
  "owns N (PFill x pos) = Some (unat pos mod N)"
| "owns N (PPublish x pos) = Some (unat pos mod N)"
| "owns N (CRead pos) = Some (unat pos mod N)"
| "owns N (CRelease pos) = Some (unat pos mod N)"
| "owns N _ = None"

definition deliveries_ok :: "'a mpmc_system \<Rightarrow> bool" where
  "deliveries_ok s \<longleftrightarrow> distinct (map fst (delivered s)) \<and>
     (\<forall>(k, v) \<in> set (delivered s). k < taken s \<and> v = sent s ! k) \<and>
     (\<forall>t pos. pcs s t = CRead pos \<longrightarrow> unat pos \<notin> fst ` set (delivered s))"

definition mpmc_sys_inv :: "nat \<Rightarrow> 'a mpmc_system \<Rightarrow> bool" where
  "mpmc_sys_inv n s \<longleftrightarrow> (let N = 2 ^ n; E = length (sent s); D = taken s; q = mq s in
     shape n q \<and> D \<le> E \<and> E \<le> D + N \<and> enqueue_pos q = of_nat E \<and> dequeue_pos q = of_nat D \<and>
     (\<forall>i < N. cell_ok N E D (sent s) i (buffer q ! i)) \<and>
     (\<forall>t. thread_ok N E D (sent s) (buffer q) (pcs s t)) \<and>
     (\<forall>t u i. owns N (pcs s t) = Some i \<longrightarrow> owns N (pcs s u) = Some i \<longrightarrow> t = u)) \<and>
     deliveries_ok s"

lemma unat_ticket: "k < 2 ^ 64 \<Longrightarrow> unat (of_nat k :: size_t) = k"
  by (simp add: unat_of_nat)

lemma ticket_eq: "a < 2 ^ 64 \<Longrightarrow> b < 2 ^ 64 \<Longrightarrow> (of_nat a :: size_t) = of_nat b \<longleftrightarrow> a = b"
  by (metis unat_ticket)

lemma ticket_inj: "(of_nat a :: size_t) = of_nat b \<Longrightarrow> a \<le> 2 ^ 63 \<Longrightarrow> b \<le> 2 ^ 63 \<Longrightarrow> a = b"
  by (subst (asm) ticket_eq) simp_all

lemma mpmc_sys_invD:
  assumes "mpmc_sys_inv n s"
  shows "shape n (mq s)" "taken s \<le> length (sent s)" "length (sent s) \<le> taken s + 2 ^ n"
    "enqueue_pos (mq s) = of_nat (length (sent s))" "dequeue_pos (mq s) = of_nat (taken s)"
    "i < 2 ^ n \<Longrightarrow> cell_ok (2 ^ n) (length (sent s)) (taken s) (sent s) i (buffer (mq s) ! i)"
    "thread_ok (2 ^ n) (length (sent s)) (taken s) (sent s) (buffer (mq s)) (pcs s t)"
    "owns (2 ^ n) (pcs s t) = Some j \<Longrightarrow> owns (2 ^ n) (pcs s u) = Some j \<Longrightarrow> t = u" "deliveries_ok s"
  using assms unfolding mpmc_sys_inv_def Let_def by blast+

lemma mpmc_sys_invI:
  assumes "shape n (mq s)" "taken s \<le> length (sent s)" "length (sent s) \<le> taken s + 2 ^ n"
    "enqueue_pos (mq s) = of_nat (length (sent s))" "dequeue_pos (mq s) = of_nat (taken s)"
    "\<And>i. i < 2 ^ n \<Longrightarrow> cell_ok (2 ^ n) (length (sent s)) (taken s) (sent s) i (buffer (mq s) ! i)"
    "\<And>t. thread_ok (2 ^ n) (length (sent s)) (taken s) (sent s) (buffer (mq s)) (pcs s t)"
    "\<And>t u i. owns (2 ^ n) (pcs s t) = Some i \<Longrightarrow> owns (2 ^ n) (pcs s u) = Some i \<Longrightarrow> t = u" "deliveries_ok s"
  shows "mpmc_sys_inv n s"
  using assms unfolding mpmc_sys_inv_def Let_def by blast

text \<open>What the sequence number of a cell says.\<close>

lemma waiting_cell:
  assumes "cell_ok N E D xs (k mod N) c" "sequence c = of_nat k" "k < 2 ^ 63" "E + N < 2 ^ 63" "D \<le> E" "2 \<le> N"
  shows "D \<le> k \<and> k < D + N"
proof -
  from assms(1) obtain j where j: "j mod N = k mod N" and c:
    "sequence c = of_nat j \<and> D \<le> j \<and> j < D + N \<or> sequence c = of_nat (Suc j) \<and> j < E"
    by (auto simp: cell_ok_def)
  from c show ?thesis
  proof
    assume "sequence c = of_nat j \<and> D \<le> j \<and> j < D + N"
    moreover from this have "j = k"
      using assms(2-5) ticket_eq [of j k] by simp
    ultimately show ?thesis by simp
  next
    assume "sequence c = of_nat (Suc j) \<and> j < E"
    then have "Suc j = k"
      using assms(2-4) ticket_eq [of "Suc j" k] by simp
    then have False
      using j mod_eq_near [of j N "Suc j"] assms(6) by simp
    then show ?thesis ..
  qed
qed

lemma filled_cell:
  assumes "cell_ok N E D xs (k mod N) c" "sequence c = of_nat (Suc k)" "k < 2 ^ 63" "E + N < 2 ^ 63" "D \<le> E" "2 \<le> N"
  shows "k < E \<and> E \<le> k + N \<and> (D \<le> k \<longrightarrow> cell_data c = Some (xs ! k))"
proof -
  from assms(1) obtain j where j: "j mod N = k mod N" and c:
    "sequence c = of_nat j \<and> D \<le> j \<and> j < D + N \<or>
     sequence c = of_nat (Suc j) \<and> j < E \<and> E \<le> j + N \<and> (D \<le> j \<longrightarrow> cell_data c = Some (xs ! j))"
    by (auto simp: cell_ok_def)
  from c show ?thesis
  proof
    assume "sequence c = of_nat j \<and> D \<le> j \<and> j < D + N"
    then have "j = Suc k"
      using assms(2-5) ticket_eq [of j "Suc k"] by simp
    then have False
      using j mod_eq_near [of "Suc k" N k] assms(6) by simp
    then show ?thesis ..
  next
    assume "sequence c = of_nat (Suc j) \<and> j < E \<and> E \<le> j + N \<and> (D \<le> j \<longrightarrow> cell_data c = Some (xs ! j))"
    moreover from this have "j = k"
      using assms(2-4) ticket_eq [of "Suc j" "Suc k"] by simp
    ultimately show ?thesis by simp
  qed
qed

text \<open>A cell whose number is the next ticket of either side belongs to no thread.\<close>

lemma owner_ticket:
  assumes "thread_ok N E D xs b pc" "owns N pc = Some i" "E + N < 2 ^ 63" "D \<le> E"
  obtains k where "k mod N = i" "k < E" "sequence (b ! i) = of_nat k"
  | k where "k mod N = i" "k < D" "sequence (b ! i) = of_nat (Suc k)"
  using assms by (cases pc) (auto simp: unat_ticket)

lemma producer_cell_unowned:
  assumes "thread_ok N E D xs b pc" "owns N pc = Some (E mod N)" "E + N < 2 ^ 63" "D \<le> E" "2 \<le> N"
  shows "sequence (b ! (E mod N)) \<noteq> of_nat E"
proof
  assume eq: "sequence (b ! (E mod N)) = of_nat E"
  show False
    using assms(1-4)
  proof (cases rule: owner_ticket)
    case (1 k)
    then show False using eq assms(3) ticket_eq [of k E] by simp
  next
    case (2 k)
    then have "Suc k = E" using eq assms(3,4) ticket_eq [of "Suc k" E] by simp
    with 2 show False using mod_eq_near [of k N "Suc k"] assms(5) by simp
  qed
qed

lemma consumer_cell_unowned:
  assumes "thread_ok N E D xs b pc" "owns N pc = Some (D mod N)" "E + N < 2 ^ 63" "D \<le> E" "2 \<le> N"
  shows "sequence (b ! (D mod N)) \<noteq> of_nat (Suc D)"
proof
  assume eq: "sequence (b ! (D mod N)) = of_nat (Suc D)"
  show False
    using assms(1-4)
  proof (cases rule: owner_ticket)
    case (1 k)
    then have "k = Suc D" using eq assms(3,4) ticket_eq [of k "Suc D"] by simp
    with 1 show False using mod_eq_near [of "Suc D" N D] assms(5) by simp
  next
    case (2 k)
    then show False using eq assms(3,4) ticket_eq [of "Suc k" "Suc D"] by simp
  qed
qed

text \<open>Changing a cell one thread owns does not concern the others.\<close>

lemma thread_ok_other:
  assumes "thread_ok N E D xs b pc" "thread_ok N E D xs b own" "owns N own = Some i" "owns N pc \<noteq> Some i"
    "E + N < 2 ^ 63" "D \<le> E" "2 \<le> N"
  shows "thread_ok N E D xs (b[i := c]) pc"
proof -
  have E: "b[i := c] ! (E mod N) = b ! (E mod N)" if "sequence (b ! (E mod N)) = of_nat E"
    using producer_cell_unowned [OF assms(2) _ assms(5-7)] assms(3) that by (cases "E mod N = i") auto
  have D: "b[i := c] ! (D mod N) = b ! (D mod N)" if "sequence (b ! (D mod N)) = of_nat (Suc D)"
    using consumer_cell_unowned [OF assms(2) _ assms(5-7)] assms(3) that by (cases "D mod N = i") auto
  have other: "b[i := c] ! j = b ! j" if "j \<noteq> i" for j
    using that by simp
  show ?thesis
  proof (cases pc)
    case (PCas x pos)
    with assms(1) E show ?thesis by auto
  next
    case (CCas pos)
    with assms(1) D show ?thesis by auto
  qed (use assms(1,4-6) other in \<open>auto simp: unat_ticket\<close>)
qed

subsection \<open>Preservation\<close>

lemma unique_update:
  assumes "\<And>u v j. g (f u) = Some j \<Longrightarrow> g (f v) = Some j \<Longrightarrow> u = v"
    and "\<And>j u. g x = Some j \<Longrightarrow> g (f u) = Some j \<Longrightarrow> u = t"
    and "g ((f(t := x)) u) = Some j" "g ((f(t := x)) v) = Some j"
  shows "u = v"
  using assms by (metis fun_upd_apply)

definition bounded_run :: "nat \<Rightarrow> 'a mpmc_system \<Rightarrow> bool" where
  "bounded_run n s \<longleftrightarrow> length (sent s) + 2 ^ n < 2 ^ 63"

text \<open>A thread moves on without touching the queue and owns nothing afterwards.\<close>

lemma pc_inv:
  assumes "mpmc_sys_inv n s" "thread_ok (2 ^ n) (length (sent s)) (taken s) (sent s) (buffer (mq s)) pc"
    "owns (2 ^ n) pc = None"
  shows "mpmc_sys_inv n (s\<lparr>pcs := (pcs s)(t := pc)\<rparr>)"
proof -
  have "pc \<noteq> CRead pos" for pos
    using assms(3) by auto
  then have "deliveries_ok (s\<lparr>pcs := (pcs s)(t := pc)\<rparr>)"
    using mpmc_sys_invD(9) [OF assms(1)] by (auto simp: deliveries_ok_def)
  with assms show ?thesis by (auto simp: mpmc_sys_inv_def Let_def)
qed

text \<open>A thread changes the cell it owns.\<close>

lemma own_cell_inv:
  assumes "mpmc_sys_inv n s" "bounded_run n s" "owns (2 ^ n) (pcs s t) = Some i" "i < 2 ^ n"
    "cell_ok (2 ^ n) (length (sent s)) (taken s) (sent s) i c"
    "thread_ok (2 ^ n) (length (sent s)) (taken s) (sent s) ((buffer (mq s))[i := c]) pc"
    "owns (2 ^ n) pc = Some i \<or> owns (2 ^ n) pc = None" "\<And>pos. pc \<noteq> CRead pos"
  shows "mpmc_sys_inv n (s\<lparr>mq := (mq s)\<lparr>buffer := (buffer (mq s))[i := c]\<rparr>, pcs := (pcs s)(t := pc)\<rparr>)"
proof -
  note D = mpmc_sys_invD [OF assms(1)]
  let ?b = "(buffer (mq s))[i := c]"
  have n: "2 \<le> (2::nat) ^ n" "length (buffer (mq s)) = 2 ^ n"
    using D(1) two_pow_bounds [of n] by (auto simp: shape_def)
  have cells: "cell_ok (2 ^ n) (length (sent s)) (taken s) (sent s) j (?b ! j)" if "j < 2 ^ n" for j
    using that assms(5) D(6) [OF that] n(2) by (cases "j = i") auto
  have threads: "thread_ok (2 ^ n) (length (sent s)) (taken s) (sent s) ?b (pcs s u)" if "u \<noteq> t" for u
  proof -
    have "owns (2 ^ n) (pcs s u) \<noteq> Some i"
      using D(8) [OF assms(3), of u] that by blast
    from thread_ok_other [OF D(7) D(7) assms(3) this _ D(2) n(1)] assms(2) show ?thesis
      by (simp add: bounded_run_def)
  qed
  have alone: "u = t" if "owns (2 ^ n) (pcs s u) = Some i" for u
    using D(8) [OF assms(3) that] by simp
  show ?thesis
  proof (rule mpmc_sys_invI, goal_cases)
    case (7 u)
    then show ?case
      using threads [of u] assms(6) by (cases "u = t") simp_all
  next
    case (8 u v j)
    have "w = t" if "owns (2 ^ n) pc = Some l" "owns (2 ^ n) (pcs s w) = Some l" for l w
      using that assms(7) alone by auto
    with 8 D(8) show ?case
      by (intro unique_update [of "owns (2 ^ n)" "pcs s" pc t u j v]) simp_all
  next
    case 9
    then show ?case
      using D(9) assms(8) by (auto simp: deliveries_ok_def)
  qed (use D(1-5) cells in simp_all)
qed

lemma fill_inv:
  assumes "mpmc_sys_inv n s" "bounded_run n s" "pcs s t = PFill x pos" "store_data pos x (mq s) = Inr q"
  shows "mpmc_sys_inv n (s\<lparr>mq := q, pcs := (pcs s)(t := PPublish x pos)\<rparr>)"
proof -
  note D = mpmc_sys_invD [OF assms(1)]
  have n: "2 \<le> (2::nat) ^ n" "length (buffer (mq s)) = 2 ^ n"
    using D(1) two_pow_bounds [of n] by (auto simp: shape_def)
  from D(7) [of t] assms(3) obtain k where k: "k < length (sent s)" "pos = of_nat k" "sent s ! k = x"
    "sequence (buffer (mq s) ! (k mod 2 ^ n)) = of_nat k"
    by auto
  let ?i = "k mod 2 ^ n" and ?c = "(buffer (mq s) ! (k mod 2 ^ n))\<lparr>cell_data := Some x\<rparr>"
  have small: "k < 2 ^ 63"
    using k(1) assms(2) by (simp add: bounded_run_def)
  then have own: "owns (2 ^ n) (PFill x pos) = Some ?i" "owns (2 ^ n) (PPublish x pos) = Some ?i"
    by (simp_all add: k(2) unat_ticket)
  have q: "q = (mq s)\<lparr>buffer := (buffer (mq s))[?i := ?c]\<rparr>"
    using assms(4) store_ok(1) [OF cell_index_of_nat [OF D(1)]] n(2) by (simp add: k(2))
  have w: "taken s \<le> k \<and> k < taken s + 2 ^ n"
    using waiting_cell [OF D(6) k(4) small _ D(2) n(1)] assms(2) by (simp add: bounded_run_def)
  have "cell_ok (2 ^ n) (length (sent s)) (taken s) (sent s) ?i ?c"
    unfolding cell_ok_def using k(4) w by (intro exI [of _ k]) simp
  moreover have "thread_ok (2 ^ n) (length (sent s)) (taken s) (sent s) ((buffer (mq s))[?i := ?c]) (PPublish x pos)"
    using k n(2) by (auto intro!: exI [of _ k])
  ultimately show ?thesis
    unfolding q using own by (intro own_cell_inv [OF assms(1,2)]) (simp_all add: assms(3))
qed

lemma mpmc_publish_inv:
  assumes "mpmc_sys_inv n s" "bounded_run n s" "pcs s t = PPublish x pos" "store_sequence pos (pos + 1) (mq s) = Inr q"
  shows "mpmc_sys_inv n (s\<lparr>mq := q, pcs := (pcs s)(t := Idle)\<rparr>)"
proof -
  note D = mpmc_sys_invD [OF assms(1)]
  have n: "2 \<le> (2::nat) ^ n" "length (buffer (mq s)) = 2 ^ n"
    using D(1) two_pow_bounds [of n] by (auto simp: shape_def)
  from D(7) [of t] assms(3) obtain k where k: "k < length (sent s)" "pos = of_nat k" "sent s ! k = x"
    "sequence (buffer (mq s) ! (k mod 2 ^ n)) = of_nat k" "cell_data (buffer (mq s) ! (k mod 2 ^ n)) = Some x"
    by auto
  let ?i = "k mod 2 ^ n" and ?c = "(buffer (mq s) ! (k mod 2 ^ n))\<lparr>sequence := pos + 1\<rparr>"
  have small: "k < 2 ^ 63"
    using k(1) assms(2) by (simp add: bounded_run_def)
  then have own: "owns (2 ^ n) (PPublish x pos) = Some ?i"
    by (simp add: k(2) unat_ticket)
  have q: "q = (mq s)\<lparr>buffer := (buffer (mq s))[?i := ?c]\<rparr>"
    using assms(4) store_ok(2) [OF cell_index_of_nat [OF D(1)]] n(2) by (simp add: k(2))
  have w: "taken s \<le> k \<and> k < taken s + 2 ^ n"
    using waiting_cell [OF D(6) k(4) small _ D(2) n(1)] assms(2) by (simp add: bounded_run_def)
  have "cell_ok (2 ^ n) (length (sent s)) (taken s) (sent s) ?i ?c"
    unfolding cell_ok_def using k w D(3) by (intro exI [of _ k]) (simp add: add.commute)
  then show ?thesis
    unfolding q using own by (intro own_cell_inv [OF assms(1,2)]) (simp_all add: assms(3))
qed

lemma mpmc_release_inv:
  assumes "mpmc_sys_inv n s" "bounded_run n s" "pcs s t = CRelease pos"
    "store_sequence pos (pos + buffer_mask (mq s) + 1) (mq s) = Inr q"
  shows "mpmc_sys_inv n (s\<lparr>mq := q, pcs := (pcs s)(t := Idle)\<rparr>)"
proof -
  note D = mpmc_sys_invD [OF assms(1)]
  have n: "2 \<le> (2::nat) ^ n" "length (buffer (mq s)) = 2 ^ n" "buffer_mask (mq s) = 2 ^ n - 1"
    using D(1) two_pow_bounds [of n] by (auto simp: shape_def)
  from D(7) [of t] assms(3) obtain k where k: "k < taken s" "pos = of_nat k"
    "sequence (buffer (mq s) ! (k mod 2 ^ n)) = of_nat (Suc k)"
    by auto
  let ?seq = "pos + buffer_mask (mq s) + 1"
  let ?i = "k mod 2 ^ n" and ?c = "(buffer (mq s) ! (k mod 2 ^ n))\<lparr>sequence := ?seq\<rparr>"
  have small: "k < 2 ^ 63"
    using k(1) D(2) assms(2) by (simp add: bounded_run_def)
  then have own: "owns (2 ^ n) (CRelease pos) = Some ?i"
    by (simp add: k(2) unat_ticket)
  have q: "q = (mq s)\<lparr>buffer := (buffer (mq s))[?i := ?c]\<rparr>"
    using assms(4) store_ok(2) [OF cell_index_of_nat [OF D(1)]] n(2) by (simp add: k(2))
  have seq: "?seq = of_nat (k + 2 ^ n)"
    by (simp add: k(2) n(3))
  have "length (sent s) \<le> k + 2 ^ n"
    using filled_cell [OF D(6) k(3) small _ D(2) n(1)] assms(2) by (simp add: bounded_run_def)
  then have "cell_ok (2 ^ n) (length (sent s)) (taken s) (sent s) ?i ?c"
    unfolding cell_ok_def using k(1) D(2) seq by (intro exI [of _ "k + 2 ^ n"]) (simp del: of_nat_add)
  then show ?thesis
    unfolding q using own by (intro own_cell_inv [OF assms(1,2)]) (simp_all add: assms(3))
qed

lemma thread_ok_more_sent:
  assumes "thread_ok N (length xs) D xs b pc" "D \<le> length xs"
  shows "thread_ok N (length (xs @ [x])) D (xs @ [x]) b pc"
proof -
  have nth: "(xs @ [x]) ! k = xs ! k" if "k < length xs" for k
    using that by (simp add: nth_append)
  have less: "k < length (xs @ [x])" "k \<noteq> length (xs @ [x])" if "k \<le> length xs" for k
    using that by auto
  show ?thesis
    using assms(1) by (cases pc; hypsubst; unfold thread_ok.simps)
      ((erule ex_forward, use assms(2) nth less in force) | rule TrueI)+
qed

lemma thread_ok_more_taken:
  assumes "thread_ok N E D xs b pc"
  shows "thread_ok N E (Suc D) xs b pc"
proof -
  have less: "k < Suc D" "k \<noteq> Suc D" if "k \<le> D" for k
    using that by auto
  show ?thesis
    using assms by (cases pc; hypsubst; unfold thread_ok.simps) ((erule ex_forward, use less in force) | rule TrueI)+
qed

lemma producer_claims_inv:
  assumes "mpmc_sys_inv n s" "bounded_run n s" "pcs s t = PCas x pos" "enqueue_pos (mq s) = pos"
  shows "mpmc_sys_inv n
    (s\<lparr>mq := (mq s)\<lparr>enqueue_pos := pos + 1\<rparr>, pcs := (pcs s)(t := PFill x pos), sent := sent s @ [x]\<rparr>)"
proof -
  note D = mpmc_sys_invD [OF assms(1)]
  let ?E = "length (sent s)" and ?N = "2 ^ n :: nat"
  have n: "2 \<le> ?N" "length (buffer (mq s)) = ?N"
    using D(1) two_pow_bounds [of n] by (auto simp: shape_def)
  have small: "?E + ?N < 2 ^ 63" and pos: "pos = of_nat ?E"
    using assms(2,4) D(4) by (auto simp: bounded_run_def)
  obtain k where k: "k \<le> ?E" "pos = of_nat k" "k = ?E \<longrightarrow> sequence (buffer (mq s) ! (k mod ?N)) = of_nat k"
    using D(7) [of t] unfolding assms(3) thread_ok.simps by blast
  have "k = ?E"
    by (rule ticket_inj [OF pos [unfolded k(2)]]) (use small k(1) in simp_all)
  with k(3) have seq: "sequence (buffer (mq s) ! (?E mod ?N)) = of_nat ?E"
    by blast
  have room: "?E < taken s + ?N"
    using waiting_cell [OF D(6) seq _ small D(2) n(1)] small by simp
  have cells: "cell_ok ?N (Suc ?E) (taken s) (sent s @ [x]) i (buffer (mq s) ! i)" if "i < ?N" for i
  proof -
    from D(6) [OF that] obtain k where k: "k mod ?N = i" and c:
      "sequence (buffer (mq s) ! i) = of_nat k \<and> taken s \<le> k \<and> k < taken s + ?N \<or>
       sequence (buffer (mq s) ! i) = of_nat (Suc k) \<and> k < ?E \<and> ?E \<le> k + ?N \<and>
         (taken s \<le> k \<longrightarrow> cell_data (buffer (mq s) ! i) = Some (sent s ! k))"
      by (auto simp: cell_ok_def)
    have "?E \<noteq> k + ?N" if "sequence (buffer (mq s) ! i) = of_nat (Suc k)" "k < ?E"
    proof
      assume E: "?E = k + ?N"
      then have "?E mod ?N = i"
        using k by simp
      then have "Suc k = ?E"
        using seq that small by (intro ticket_inj) simp_all
      with E n(1) show False by simp
    qed
    with c k show ?thesis
      unfolding cell_ok_def by (intro exI [of _ k]) (auto simp: nth_append)
  qed
  have unowned: "owns ?N (pcs s u) \<noteq> Some (?E mod ?N)" for u
    using producer_cell_unowned [OF D(7) _ small D(2) n(1)] seq by blast
  show ?thesis
  proof (rule mpmc_sys_invI, goal_cases)
    case (7 u)
    have "thread_ok ?N (Suc ?E) (taken s) (sent s @ [x]) (buffer (mq s)) (PFill x pos)"
      unfolding thread_ok.simps using seq pos by (intro exI [of _ ?E] conjI) simp_all
    moreover have "thread_ok ?N (Suc ?E) (taken s) (sent s @ [x]) (buffer (mq s)) (pcs s u)"
      using thread_ok_more_sent [OF D(7) [of u] D(2), of x] by simp
    ultimately show ?case by (cases "u = t") simp_all
  next
    case (8 u v j)
    have "owns ?N (PFill x pos) = Some (?E mod ?N)"
      using small by (simp add: pos unat_ticket)
    with 8 D(8) unowned show ?case
      by (intro unique_update [of "owns ?N" "pcs s" "PFill x pos" t u j v]) auto
  next
    case 9
    have "sent s ! k = (sent s @ [x]) ! k" if "k < taken s" for k
      using that D(2) by (simp add: nth_append)
    with D(9) show ?case by (auto simp: deliveries_ok_def)
  qed (use D(1-3,5) cells room pos in \<open>simp_all add: add.commute\<close>)
qed

lemma consumer_claims_inv:
  assumes "mpmc_sys_inv n s" "bounded_run n s" "pcs s t = CCas pos" "dequeue_pos (mq s) = pos"
  shows "mpmc_sys_inv n
    (s\<lparr>mq := (mq s)\<lparr>dequeue_pos := pos + 1\<rparr>, pcs := (pcs s)(t := CRead pos), taken := Suc (taken s)\<rparr>)"
proof -
  note D = mpmc_sys_invD [OF assms(1)]
  let ?E = "length (sent s)" and ?D = "taken s" and ?N = "2 ^ n :: nat"
  have n: "2 \<le> ?N" "length (buffer (mq s)) = ?N"
    using D(1) two_pow_bounds [of n] by (auto simp: shape_def)
  have small: "?E + ?N < 2 ^ 63" "?D < 2 ^ 63" and pos: "pos = of_nat ?D"
    using assms(2,4) D(2,5) by (auto simp: bounded_run_def)
  obtain k where k: "k \<le> ?D" "pos = of_nat k" "k = ?D \<longrightarrow> sequence (buffer (mq s) ! (k mod ?N)) = of_nat (Suc k)"
    using D(7) [of t] unfolding assms(3) thread_ok.simps by blast
  have "k = ?D"
    by (rule ticket_inj [OF pos [unfolded k(2)]]) (use small k(1) in simp_all)
  with k(3) have seq: "sequence (buffer (mq s) ! (?D mod ?N)) = of_nat (Suc ?D)"
    by blast
  have full: "?D < ?E" "cell_data (buffer (mq s) ! (?D mod ?N)) = Some (sent s ! ?D)"
    using filled_cell [OF D(6) seq small(2,1) D(2) n(1)] by auto
  have cells: "cell_ok ?N ?E (Suc ?D) (sent s) i (buffer (mq s) ! i)" if "i < ?N" for i
  proof -
    from D(6) [OF that] obtain k where k: "k mod ?N = i" and c:
      "sequence (buffer (mq s) ! i) = of_nat k \<and> ?D \<le> k \<and> k < ?D + ?N \<or>
       sequence (buffer (mq s) ! i) = of_nat (Suc k) \<and> k < ?E \<and> ?E \<le> k + ?N \<and>
         (?D \<le> k \<longrightarrow> cell_data (buffer (mq s) ! i) = Some (sent s ! k))"
      by (auto simp: cell_ok_def)
    have "k \<noteq> ?D" if "sequence (buffer (mq s) ! i) = of_nat k"
      using that seq k small ticket_inj [of k "Suc k"] by (metis less_imp_le_nat Suc_le_eq n_not_Suc_n)
    with c k show ?thesis
      unfolding cell_ok_def by (intro exI [of _ k]) auto
  qed
  have unowned: "owns ?N (pcs s u) \<noteq> Some (?D mod ?N)" for u
    using consumer_cell_unowned [OF D(7) _ small(1) D(2) n(1)] seq by blast
  show ?thesis
  proof (rule mpmc_sys_invI, goal_cases)
    case (7 u)
    have "thread_ok ?N ?E (Suc ?D) (sent s) (buffer (mq s)) (CRead pos)"
      unfolding thread_ok.simps using seq pos full by (intro exI [of _ ?D] conjI) simp_all
    with thread_ok_more_taken [OF D(7) [of u]] show ?case by (cases "u = t") simp_all
  next
    case (8 u v j)
    have "owns ?N (CRead pos) = Some (?D mod ?N)"
      using small by (simp add: pos unat_ticket)
    with 8 D(8) unowned show ?case
      by (intro unique_update [of "owns ?N" "pcs s" "CRead pos" t u j v]) auto
  next
    case 9
    have "unat pos = ?D"
      using small by (simp add: pos unat_ticket)
    with D(9) show ?case by (fastforce simp: deliveries_ok_def)
  qed (use D(1-4) cells full pos in \<open>simp_all add: add.commute\<close>)
qed

lemma read_inv:
  assumes "mpmc_sys_inv n s" "bounded_run n s" "pcs s t = CRead pos" "load_data pos (mq s) = Inr v"
  shows "mpmc_sys_inv n (s\<lparr>pcs := (pcs s)(t := CRelease pos), delivered := delivered s @ [(unat pos, v)]\<rparr>)"
proof -
  note D = mpmc_sys_invD [OF assms(1)]
  let ?N = "2 ^ n :: nat"
  from D(7) [of t] assms(3) obtain k where k: "k < taken s" "pos = of_nat k"
    "sequence (buffer (mq s) ! (k mod ?N)) = of_nat (Suc k)" "cell_data (buffer (mq s) ! (k mod ?N)) = Some (sent s ! k)"
    by auto
  have u: "unat pos = k"
    using k(1,2) D(2) assms(2) by (simp add: bounded_run_def unat_ticket)
  have v: "v = sent s ! k"
    using assms(4) k(4) cell_at_of_nat [OF D(1), of k] by (simp add: load_data_def k(2))
  have own: "owns ?N (pcs s t) = Some (unat pos mod ?N)" "owns ?N (CRelease pos) = Some (unat pos mod ?N)"
    using assms(3) by simp_all
  show ?thesis
  proof (rule mpmc_sys_invI, goal_cases)
    case (7 w)
    have "thread_ok ?N (length (sent s)) (taken s) (sent s) (buffer (mq s)) (CRelease pos)"
      using k by auto
    with D(7) [of w] show ?case by (cases "w = t") simp_all
  next
    case (8 w x j)
    with D(8) own show ?case
      by (intro unique_update [of "owns ?N" "pcs s" "CRelease pos" t w j x]) auto
  next
    case 9
    have "unat p \<noteq> unat pos" if "pcs s w = CRead p" "w \<noteq> t" for w p
      using that D(8) [OF own(1), of w] by auto
    moreover have "unat pos \<notin> fst ` set (delivered s)"
      using D(9) assms(3) by (auto simp: deliveries_ok_def)
    ultimately show ?case
      using D(9) k(1) u v by (auto simp: deliveries_ok_def)
  qed (use D(1-6) in simp_all)
qed

lemma dif_zero: "dif seq pos = 0 \<longleftrightarrow> seq = pos"
  unfolding dif_def by (metis signed_word_eqI signed_0 right_minus_eq)

lemma look_inv:
  assumes "mpmc_sys_inv n s" "pcs s t = PLoop x pos" "cell_at (mq s) pos = Inr c"
    "pc = (if dif (sequence c) pos = 0 then PCas x pos else if dif (sequence c) pos < 0 then Idle else PReload x)"
  shows "mpmc_sys_inv n (s\<lparr>pcs := (pcs s)(t := pc)\<rparr>)"
proof -
  note D = mpmc_sys_invD [OF assms(1)]
  obtain k where k: "k \<le> length (sent s)" "pos = of_nat k"
    using D(7) [of t] unfolding assms(2) thread_ok.simps by blast
  have "c = buffer (mq s) ! (k mod 2 ^ n)"
    using assms(3) cell_at_of_nat [OF D(1), of k] unfolding k(2) by simp
  moreover have "sequence c = pos" if "dif (sequence c) pos = 0"
    using that by (simp add: dif_zero)
  ultimately have "thread_ok (2 ^ n) (length (sent s)) (taken s) (sent s) (buffer (mq s)) pc"
    unfolding assms(4) using k by (auto simp del: of_nat_eq_iff)
  then show ?thesis
    by (rule pc_inv [OF assms(1)]) (simp add: assms(4))
qed

lemma consumer_look_inv:
  assumes "mpmc_sys_inv n s" "pcs s t = CLoop pos" "cell_at (mq s) pos = Inr c"
    "pc = (if dif (sequence c) (pos + 1) = 0 then CCas pos else if dif (sequence c) (pos + 1) < 0 then Idle else CReload)"
  shows "mpmc_sys_inv n (s\<lparr>pcs := (pcs s)(t := pc)\<rparr>)"
proof -
  note D = mpmc_sys_invD [OF assms(1)]
  obtain k where k: "k \<le> taken s" "pos = of_nat k"
    using D(7) [of t] unfolding assms(2) thread_ok.simps by blast
  have "c = buffer (mq s) ! (k mod 2 ^ n)"
    using assms(3) cell_at_of_nat [OF D(1), of k] unfolding k(2) by simp
  moreover have "sequence c = of_nat (Suc k)" if "dif (sequence c) (pos + 1) = 0"
    using that by (simp add: dif_zero k(2) add.commute)
  ultimately have "thread_ok (2 ^ n) (length (sent s)) (taken s) (sent s) (buffer (mq s)) pc"
    unfolding assms(4) using k by (auto simp del: of_nat_eq_iff of_nat_Suc)
  then show ?thesis
    by (rule pc_inv [OF assms(1)]) (simp add: assms(4))
qed

lemma restart_inv:
  assumes "mpmc_sys_inv n s"
  shows "mpmc_sys_inv n (s\<lparr>pcs := (pcs s)(t := PLoop x (enqueue_pos (mq s)))\<rparr>)"
    "mpmc_sys_inv n (s\<lparr>pcs := (pcs s)(t := CLoop (dequeue_pos (mq s)))\<rparr>)"
  using mpmc_sys_invD(4,5) [OF assms] by (auto intro!: pc_inv [OF assms])

lemma mpmc_step_inv:
  assumes "mpmc_step s s'" "mpmc_sys_inv n s" "bounded_run n s"
  shows "mpmc_sys_inv n s'"
  using assms(1)
proof (cases rule: mpmc_step.cases)
  case (p_look t x pos c)
  show ?thesis unfolding p_look(1) by (rule look_inv [OF assms(2) p_look(2,3) refl])
next
  case (p_cas t x pos)
  show ?thesis unfolding p_cas(1) by (rule producer_claims_inv [OF assms(2,3) p_cas(2,3)])
next
  case (p_fill t x pos q)
  show ?thesis unfolding p_fill(1) by (rule fill_inv [OF assms(2,3) p_fill(2,3)])
next
  case (p_publish t x pos q)
  show ?thesis unfolding p_publish(1) by (rule mpmc_publish_inv [OF assms(2,3) p_publish(2,3)])
next
  case (c_look t pos c)
  show ?thesis unfolding c_look(1) by (rule consumer_look_inv [OF assms(2) c_look(2,3) refl])
next
  case (c_cas t pos)
  show ?thesis unfolding c_cas(1) by (rule consumer_claims_inv [OF assms(2,3) c_cas(2,3)])
next
  case (c_read t pos v)
  show ?thesis unfolding c_read(1) by (rule read_inv [OF assms(2,3) c_read(2,3)])
next
  case (c_release t pos q)
  show ?thesis unfolding c_release(1) by (rule mpmc_release_inv [OF assms(2,3) c_release(2,3)])
qed (simp_all only: restart_inv [OF assms(2)])

lemma mpmc_start_inv:
  assumes "mpmc_repr n 0 [] q0"
  shows "mpmc_sys_inv n \<lparr>mq = q0, pcs = (\<lambda>_. Idle), sent = [], taken = 0, delivered = []\<rparr>"
proof (rule mpmc_sys_invI, goal_cases)
  case (6 i)
  then have "sequence (buffer q0 ! i) = of_nat i"
    using mpmc_repr_free [OF assms, of i] by simp
  with 6 show ?case
    unfolding cell_ok_def by (intro exI [of _ i]) simp
qed (use assms in \<open>simp_all add: mpmc_repr_def deliveries_ok_def\<close>)

lemma sent_grows: "mpmc_step s s' \<Longrightarrow> length (sent s) \<le> length (sent s')"
  by (induction rule: mpmc_step.induct) simp_all

lemma mpmc_reach_inv:
  assumes "mpmc_reach q0 s" "mpmc_repr n 0 [] q0" "bounded_run n s"
  shows "mpmc_sys_inv n s"
  using assms
proof (induction rule: mpmc_reach.induct)
  case start
  then show ?case by (simp add: mpmc_start_inv)
next
  case (step s s')
  then have "bounded_run n s"
    using sent_grows [OF step.hyps(2)] by (simp add: bounded_run_def)
  with step show ?case by (blast intro: mpmc_step_inv)
qed

lemma mpmc_access_ok:
  assumes "mpmc_sys_inv n s" "bounded_run n s"
  shows "access_ok (mq s) (pcs s t)"
proof -
  note D = mpmc_sys_invD [OF assms(1)]
  have n: "length (buffer (mq s)) = 2 ^ n"
    using D(1) by (simp add: shape_def)
  have at: "cell_at (mq s) (of_nat k) = Inr (buffer (mq s) ! (k mod 2 ^ n))" for k
    by (rule cell_at_of_nat [OF D(1)])
  have "\<exists>q'. store_data (of_nat k) x (mq s) = Inr q'" "\<exists>q'. store_sequence (of_nat k) w (mq s) = Inr q'" for k x w
    by (simp_all add: store_data_def store_sequence_def at)
  moreover have "\<exists>v. load_data (of_nat k) (mq s) = Inr v" if "cell_data (buffer (mq s) ! (k mod 2 ^ n)) = Some v" for k v
    using that by (simp add: load_data_def at)
  ultimately show ?thesis
    using D(7) [of t] at by (cases "pcs s t") (simp_all only: thread_ok.simps access_ok.simps, blast+)
qed

text \<open>
  (C10) Any number of producer and consumer threads, interleaved at every access to shared memory.
  As long as fewer than \<open>2 ^ 63 - size\<close> elements have been accepted, no thread ever touches
  memory outside the buffer or reads a cell before it is filled, at most \<open>size\<close> accepted elements
  are unclaimed, and every element a consumer has received is the accepted element with its
  ticket, which no other consumer has received.
\<close>

theorem mpmc_concurrent:
  fixes q0 :: "'a mpmc"
  assumes "mpmc_bounded_queue ndebug (2 ^ n) = Inr q0" "1 \<le> n" "n < 63"
    and "mpmc_reach q0 s" "length (sent s) + 2 ^ n < 2 ^ 63"
  shows "taken s \<le> length (sent s) \<and> length (sent s) \<le> taken s + 2 ^ n \<and>
    distinct (map fst (delivered s)) \<and>
    (\<forall>(k, v) \<in> set (delivered s). k < taken s \<and> v = sent s ! k) \<and>
    (\<forall>t. access_ok (mq s) (pcs s t))"
proof -
  have "mpmc_repr n 0 [] q0"
    using mpmc_new [OF assms(2,3), of ndebug, where 'a = 'a] assms(1) by auto
  then have inv: "mpmc_sys_inv n s" and run: "bounded_run n s"
    using mpmc_reach_inv [OF assms(4)] assms(5) by (simp_all add: bounded_run_def)
  show ?thesis
    using mpmc_sys_invD(2,3,9) [OF inv] mpmc_access_ok [OF inv run] unfolding deliveries_ok_def by blast
qed

definition mpmc_demo :: "nat mpmc" where
  "mpmc_demo = \<lparr>buffer = [\<lparr>sequence = 0, cell_data = None\<rparr>, \<lparr>sequence = 1, cell_data = None\<rparr>],
     buffer_mask = 1, enqueue_pos = 0, dequeue_pos = 0\<rparr>"

lemma mpmc_demo_new: "mpmc_bounded_queue False (2 ^ 1) = Inr mpmc_demo"
  by (simp add: mpmc_bounded_queue_def mpmc_demo_def c_assert_def upt_rec)

text \<open>
  One element goes from a producer to a consumer while a second producer, which has read the
  same position as the first, still waits to make its exchange.
\<close>

theorem mpmc_concurrent_witness:
  "\<exists>s. mpmc_reach mpmc_demo s \<and> delivered s = [(0, 7)] \<and> sent s = [7] \<and> pcs s 1 = PCas 8 0 \<and>
     distinct (map fst (delivered s)) \<and> (\<forall>t. access_ok (mq s) (pcs s t))"
proof -
  let ?s = "\<lambda>c e d f xs k ys. \<lparr>mq = \<lparr>buffer = [c, \<lparr>sequence = 1, cell_data = None\<rparr>], buffer_mask = 1,
    enqueue_pos = e, dequeue_pos = d\<rparr>, pcs = f, sent = xs, taken = k, delivered = ys\<rparr> :: nat mpmc_system"
  let ?c = "\<lambda>q v. \<lparr>sequence = q, cell_data = v\<rparr> :: nat cell_t"
  note ev = cell_at_def cell_index_def list_at_def dif_def store_data_def store_sequence_def load_data_def
  have 0: "mpmc_reach mpmc_demo (?s (?c 0 None) 0 0 (\<lambda>_. Idle) [] 0 [])"
    using mpmc_reach.start [of mpmc_demo] by (simp add: mpmc_demo_def)
  have 1: "mpmc_reach mpmc_demo (?s (?c 0 None) 0 0 ((\<lambda>_. Idle)(0 := PLoop 7 0)) [] 0 [])"
    using mpmc_reach.step [OF 0 p_start [of _ 0 7]] by simp
  have 2: "mpmc_reach mpmc_demo (?s (?c 0 None) 0 0 ((\<lambda>_. Idle)(0 := PCas 7 0)) [] 0 [])"
    using mpmc_reach.step [OF 1 p_look [of _ 0 7 0]] by (simp add: ev)
  have 3: "mpmc_reach mpmc_demo (?s (?c 0 None) 0 0 ((\<lambda>_. Idle)(0 := PCas 7 0, 1 := PLoop 8 0)) [] 0 [])"
    using mpmc_reach.step [OF 2 p_start [of _ 1 8]] by simp
  have 4: "mpmc_reach mpmc_demo (?s (?c 0 None) 0 0 ((\<lambda>_. Idle)(0 := PCas 7 0, 1 := PCas 8 0)) [] 0 [])"
    using mpmc_reach.step [OF 3 p_look [of _ 1 8 0]] by (simp add: ev)
  have 5: "mpmc_reach mpmc_demo (?s (?c 0 None) 1 0 ((\<lambda>_. Idle)(1 := PCas 8 0, 0 := PFill 7 0)) [7] 0 [])"
    using mpmc_reach.step [OF 4 p_cas [of _ 0 7 0]] by simp
  have 6: "mpmc_reach mpmc_demo (?s (?c 0 (Some 7)) 1 0 ((\<lambda>_. Idle)(1 := PCas 8 0, 0 := PPublish 7 0)) [7] 0 [])"
    using mpmc_reach.step [OF 5 p_fill [of _ 0 7 0]] by (simp add: ev)
  have 7: "mpmc_reach mpmc_demo (?s (?c 1 (Some 7)) 1 0 ((\<lambda>_. Idle)(1 := PCas 8 0, 0 := Idle)) [7] 0 [])"
    using mpmc_reach.step [OF 6 p_publish [of _ 0 7 0]] by (simp add: ev)
  have 8: "mpmc_reach mpmc_demo (?s (?c 1 (Some 7)) 1 0 ((\<lambda>_. Idle)(1 := PCas 8 0, 0 := CLoop 0)) [7] 0 [])"
    using mpmc_reach.step [OF 7 c_start [of _ 0]] by simp
  have 9: "mpmc_reach mpmc_demo (?s (?c 1 (Some 7)) 1 0 ((\<lambda>_. Idle)(1 := PCas 8 0, 0 := CCas 0)) [7] 0 [])"
    using mpmc_reach.step [OF 8 c_look [of _ 0 0]] by (simp add: ev)
  have 10: "mpmc_reach mpmc_demo (?s (?c 1 (Some 7)) 1 1 ((\<lambda>_. Idle)(1 := PCas 8 0, 0 := CRead 0)) [7] 1 [])"
    using mpmc_reach.step [OF 9 c_cas [of _ 0 0]] by simp
  have 11: "mpmc_reach mpmc_demo (?s (?c 1 (Some 7)) 1 1 ((\<lambda>_. Idle)(1 := PCas 8 0, 0 := CRelease 0)) [7] 1 [(0, 7)])"
    using mpmc_reach.step [OF 10 c_read [of _ 0 0]] by (simp add: ev)
  let ?e = "?s (?c 1 (Some 7)) 1 1 ((\<lambda>_. Idle)(1 := PCas 8 0, 0 := CRelease 0)) [7] 1 [(0, 7)]"
  have small: "1 \<le> (1::nat)" "(1::nat) < 63" "length (sent ?e) + 2 ^ 1 < 2 ^ 63"
    by simp_all
  have "delivered ?e = [(0, 7)]" "sent ?e = [7]" "pcs ?e 1 = PCas 8 0"
    by simp_all
  with mpmc_concurrent [OF mpmc_demo_new small(1,2) 11 small(3)] 11 show ?thesis
    by blast
qed

end
