(* ===== verification/Mpsc_Queue.thy ===== *)
theory Mpsc_Queue
  imports Net_Heap
begin

text \<open>
  The intrusive queue of \<open>src/libs/intrusive_mpmc_link_queue.h\<close>: any number of threads push
  nodes they own, one thread pops.  \<open>node_next\<close> is the memory of the \<open>next\<close> fields, that of
  the embedded \<open>stub\<close> included.  A push swings \<open>head\<close> with one atomic exchange and
  then links the node behind its predecessor; in between the list has a gap.
\<close>

record mpscq_t =
  q_head :: ptr
  q_tail :: ptr
  q_stub :: ptr
  node_next :: "ptr \<rightharpoonup> ptr"

definition load_link :: "ptr \<Rightarrow> mpscq_t \<Rightarrow> ptr result" where
  "load_link p q = (if p = 0 then Inl NullDeref else case node_next q p of None \<Rightarrow> Inl UseAfterFree | Some n \<Rightarrow> Inr n)"

definition store_link :: "ptr \<Rightarrow> ptr \<Rightarrow> mpscq_t \<Rightarrow> mpscq_t result" where
  "store_link p n q = rbind (load_link p q) (\<lambda>_. Inr (q\<lparr>node_next := (node_next q)(p \<mapsto> n)\<rparr>))"

definition mpscq_create :: "mpscq_t \<Rightarrow> mpscq_t result" where
  "mpscq_create self = store_link (q_stub self) 0 (self\<lparr>q_head := q_stub self, q_tail := q_stub self\<rparr>)"

definition mpscq_push :: "mpscq_t \<Rightarrow> ptr \<Rightarrow> mpscq_t result" where
  "mpscq_push self n =
     rbind (store_link n 0 self) (\<lambda>self.
       let prev = q_head self; self = self\<lparr>q_head := n\<rparr> in store_link prev n self)"

definition pop_rest :: "ptr \<Rightarrow> ptr \<Rightarrow> mpscq_t \<Rightarrow> (ptr \<times> mpscq_t) result" where
  "pop_rest tail next self =
     (if next \<noteq> 0 then Inr (tail, self\<lparr>q_tail := next\<rparr>)
      else if tail \<noteq> q_head self then Inr (0, self)
      else
        rbind (mpscq_push self (q_stub self)) (\<lambda>self.
        rbind (load_link tail self) (\<lambda>next.
          if next \<noteq> 0 then Inr (tail, self\<lparr>q_tail := next\<rparr>) else Inr (0, self))))"

definition mpscq_pop :: "mpscq_t \<Rightarrow> (ptr \<times> mpscq_t) result" where
  "mpscq_pop self =
     (let tail = q_tail self in
      rbind (load_link tail self) (\<lambda>next.
        if tail = q_stub self then
          (if next = 0 then Inr (0, self)
           else (let self = self\<lparr>q_tail := next\<rparr> in
                 rbind (load_link next self) (\<lambda>next'. pop_rest next next' self)))
        else pop_rest tail next self))"

subsection \<open>The threads\<close>

datatype push_pc = NotPushing | Exchange ptr | Link ptr ptr
datatype mpsc_pc = NotPopping | Second ptr | Check ptr | StubInit ptr | StubExchange ptr | StubLink ptr ptr | Again ptr

text \<open>\<open>pushed\<close> and \<open>popped\<close> are history variables: the nodes in the order of their exchanges, and those returned.\<close>

record mpsc_system =
  mpq :: mpscq_t
  pushers :: "nat \<Rightarrow> push_pc"
  popper :: mpsc_pc
  pushed :: "ptr list"
  popped :: "ptr list"

text \<open>A node may be pushed by a thread when nobody pushes it and it is not in the queue.\<close>

definition free_node :: "mpsc_system \<Rightarrow> ptr \<Rightarrow> bool" where
  "free_node s n \<longleftrightarrow> n \<noteq> q_stub (mpq s) \<and> n \<notin> set (drop (length (popped s)) (pushed s)) \<and>
     (\<forall>t. pushers s t \<noteq> Exchange n)"

definition take_or_check :: "ptr \<Rightarrow> ptr \<Rightarrow> mpsc_system \<Rightarrow> mpsc_system" where
  "take_or_check tail next s =
     (if next \<noteq> 0 then s\<lparr>mpq := (mpq s)\<lparr>q_tail := next\<rparr>, popper := NotPopping, popped := popped s @ [tail]\<rparr>
      else s\<lparr>popper := Check tail\<rparr>)"

inductive mpsc_step :: "mpsc_system \<Rightarrow> mpsc_system \<Rightarrow> bool" where
  clear: "pushers s t = NotPushing \<Longrightarrow> free_node s n \<Longrightarrow> store_link n 0 (mpq s) = Inr q \<Longrightarrow>
     mpsc_step s (s\<lparr>mpq := q, pushers := (pushers s)(t := Exchange n)\<rparr>)"
| exchange: "pushers s t = Exchange n \<Longrightarrow>
     mpsc_step s (s\<lparr>mpq := (mpq s)\<lparr>q_head := n\<rparr>, pushers := (pushers s)(t := Link (q_head (mpq s)) n), pushed := pushed s @ [n]\<rparr>)"
| link: "pushers s t = Link prev n \<Longrightarrow> store_link prev n (mpq s) = Inr q \<Longrightarrow>
     mpsc_step s (s\<lparr>mpq := q, pushers := (pushers s)(t := NotPushing)\<rparr>)"
| first: "popper s = NotPopping \<Longrightarrow> q_tail (mpq s) \<noteq> q_stub (mpq s) \<Longrightarrow> load_link (q_tail (mpq s)) (mpq s) = Inr next \<Longrightarrow>
     mpsc_step s (take_or_check (q_tail (mpq s)) next s)"
| skip: "popper s = NotPopping \<Longrightarrow> q_tail (mpq s) = q_stub (mpq s) \<Longrightarrow> load_link (q_tail (mpq s)) (mpq s) = Inr next \<Longrightarrow>
     mpsc_step s (if next = 0 then s else s\<lparr>mpq := (mpq s)\<lparr>q_tail := next\<rparr>, popper := Second next\<rparr>)"
| second: "popper s = Second tail \<Longrightarrow> load_link tail (mpq s) = Inr next \<Longrightarrow> mpsc_step s (take_or_check tail next s)"
| check: "popper s = Check tail \<Longrightarrow>
     mpsc_step s (s\<lparr>popper := (if tail \<noteq> q_head (mpq s) then NotPopping else StubInit tail)\<rparr>)"
| stub_clear: "popper s = StubInit tail \<Longrightarrow> store_link (q_stub (mpq s)) 0 (mpq s) = Inr q \<Longrightarrow>
     mpsc_step s (s\<lparr>mpq := q, popper := StubExchange tail\<rparr>)"
| stub_exchange: "popper s = StubExchange tail \<Longrightarrow>
     mpsc_step s (s\<lparr>mpq := (mpq s)\<lparr>q_head := q_stub (mpq s)\<rparr>, popper := StubLink tail (q_head (mpq s))\<rparr>)"
| stub_link: "popper s = StubLink tail prev \<Longrightarrow> store_link prev (q_stub (mpq s)) (mpq s) = Inr q \<Longrightarrow>
     mpsc_step s (s\<lparr>mpq := q, popper := Again tail\<rparr>)"
| again: "popper s = Again tail \<Longrightarrow> load_link tail (mpq s) = Inr next \<Longrightarrow>
     mpsc_step s (if next \<noteq> 0 then s\<lparr>mpq := (mpq s)\<lparr>q_tail := next\<rparr>, popper := NotPopping, popped := popped s @ [tail]\<rparr>
       else s\<lparr>popper := NotPopping\<rparr>)"

inductive mpsc_reach :: "mpscq_t \<Rightarrow> mpsc_system \<Rightarrow> bool" for q0 where
  start: "mpsc_reach q0 \<lparr>mpq = q0, pushers = (\<lambda>_. NotPushing), popper = NotPopping, pushed = [], popped = []\<rparr>"
| step: "mpsc_reach q0 s \<Longrightarrow> mpsc_step s s' \<Longrightarrow> mpsc_reach q0 s'"

text \<open>The next access of no thread faults.\<close>

fun push_safe :: "mpscq_t \<Rightarrow> push_pc \<Rightarrow> bool" where
  "push_safe q (Link prev n) \<longleftrightarrow> (\<exists>q'. store_link prev n q = Inr q')"
| "push_safe q _ \<longleftrightarrow> True"

fun pop_safe :: "mpscq_t \<Rightarrow> mpsc_pc \<Rightarrow> bool" where
  "pop_safe q NotPopping \<longleftrightarrow> (\<exists>n. load_link (q_tail q) q = Inr n)"
| "pop_safe q (Second tail) \<longleftrightarrow> (\<exists>n. load_link tail q = Inr n)"
| "pop_safe q (StubInit tail) \<longleftrightarrow> (\<exists>q'. store_link (q_stub q) 0 q = Inr q')"
| "pop_safe q (StubLink tail prev) \<longleftrightarrow> (\<exists>q'. store_link prev (q_stub q) q = Inr q')"
| "pop_safe q (Again tail) \<longleftrightarrow> (\<exists>n. load_link tail q = Inr n)"
| "pop_safe q _ \<longleftrightarrow> True"

subsection \<open>Lists with gaps\<close>

text \<open>
  \<open>adj Q a b\<close>: \<open>b\<close> comes right after \<open>a\<close>.  The list \<open>Q\<close> is in memory up to the links in
  \<open>P\<close>, which are still to be made.
\<close>

definition adj :: "'a list \<Rightarrow> 'a \<Rightarrow> 'a \<Rightarrow> bool" where
  "adj Q a b \<longleftrightarrow> (\<exists>xs ys. Q = xs @ a # b # ys)"

definition gap_list :: "(ptr \<rightharpoonup> ptr) \<Rightarrow> ptr list \<Rightarrow> (ptr \<times> ptr) set \<Rightarrow> bool" where
  "gap_list nx Q P \<longleftrightarrow> Q \<noteq> [] \<and> distinct Q \<and> 0 \<notin> set Q \<and> nx (last Q) = Some 0 \<and>
     (\<forall>a b. adj Q a b \<longrightarrow> nx a = Some b \<or> nx a = Some 0 \<and> (a, b) \<in> P) \<and>
     (\<forall>a b. (a, b) \<in> P \<longrightarrow> adj Q a b \<and> nx a = Some 0)"

lemma adj_Cons: "adj (x # Q) a b \<longleftrightarrow> (x = a \<and> Q \<noteq> [] \<and> hd Q = b) \<or> adj Q a b"
proof
  assume "adj (x # Q) a b"
  then obtain xs ys where "x # Q = xs @ a # b # ys"
    by (auto simp: adj_def)
  then show "(x = a \<and> Q \<noteq> [] \<and> hd Q = b) \<or> adj Q a b"
    by (cases xs) (auto simp: adj_def)
next
  assume "(x = a \<and> Q \<noteq> [] \<and> hd Q = b) \<or> adj Q a b"
  then show "adj (x # Q) a b"
  proof
    assume "x = a \<and> Q \<noteq> [] \<and> hd Q = b"
    then have "x # Q = [] @ a # b # tl Q" by (cases Q) auto
    then show ?thesis unfolding adj_def by blast
  next
    assume "adj Q a b"
    then obtain xs ys where "x # Q = (x # xs) @ a # b # ys" by (auto simp: adj_def)
    then show ?thesis unfolding adj_def by blast
  qed
qed

lemma adj_Nil [simp]: "\<not> adj [] a b"
  by (simp add: adj_def)

lemma adj_snoc: "Q \<noteq> [] \<Longrightarrow> adj (Q @ [n]) a b \<longleftrightarrow> adj Q a b \<or> a = last Q \<and> b = n"
  by (induction Q) (auto simp: adj_Cons)

lemma adj_set: "adj Q a b \<Longrightarrow> a \<in> set Q \<and> b \<in> set Q"
  by (auto simp: adj_def)

lemma adj_unique: "distinct Q \<Longrightarrow> adj Q a b \<Longrightarrow> adj Q a c \<Longrightarrow> b = c"
  by (induction Q) (auto simp: adj_Cons dest: adj_set)

lemma adj_not_last: "distinct Q \<Longrightarrow> adj Q a b \<Longrightarrow> a \<noteq> last Q"
  by (induction Q) (auto simp: adj_Cons dest: adj_set)

lemma gap_listD:
  assumes "gap_list nx Q P"
  shows "Q \<noteq> []" "distinct Q" "0 \<notin> set Q" "nx (last Q) = Some 0"
    "adj Q a b \<Longrightarrow> nx a = Some b \<or> nx a = Some 0 \<and> (a, b) \<in> P" "(a, b) \<in> P \<Longrightarrow> adj Q a b \<and> nx a = Some 0"
  using assms unfolding gap_list_def by blast+

lemma gap_list_append:
  assumes "gap_list nx Q P" "n \<notin> set Q" "n \<noteq> 0" "nx n = Some 0"
  shows "gap_list nx (Q @ [n]) (insert (last Q, n) P)"
  using assms gap_listD [OF assms(1)] by (auto simp: gap_list_def adj_snoc)

lemma gap_list_link:
  assumes "gap_list nx Q P" "(a, b) \<in> P"
  shows "gap_list (nx(a \<mapsto> b)) Q (P - {(a, b)})"
proof -
  note D = gap_listD [OF assms(1)]
  have "adj Q a b"
    using D(6) assms(2) by blast
  then have "a \<noteq> last Q" "\<And>c. adj Q a c \<Longrightarrow> c = b"
    using adj_not_last [OF D(2)] adj_unique [OF D(2)] by auto
  with D show ?thesis by (auto simp: gap_list_def)
qed

lemma gap_list_other:
  assumes "gap_list nx Q P" "n \<notin> set Q"
  shows "gap_list (nx(n \<mapsto> v)) Q P"
proof -
  note D = gap_listD [OF assms(1)]
  have "a \<noteq> n" if "adj Q a b" for a b
    using adj_set [OF that] assms(2) by auto
  moreover have "last Q \<noteq> n"
    using D(1) assms(2) by auto
  ultimately show ?thesis
    using D by (simp add: gap_list_def) metis
qed

lemma gap_list_advance:
  assumes "gap_list nx (x # Q) P" "nx x = Some n" "n \<noteq> 0"
  shows "\<exists>ys. Q = n # ys" "gap_list nx Q P"
proof -
  note D = gap_listD [OF assms(1)]
  have ne: "Q \<noteq> []"
    using D(4) assms(2,3) by auto
  then have "adj (x # Q) x (hd Q)"
    by (simp add: adj_Cons)
  with D(5) assms(2,3) have "hd Q = n"
    by fastforce
  with ne show "\<exists>ys. Q = n # ys"
    by (cases Q) auto
  have "adj Q a b" if "(a, b) \<in> P" for a b
    using D(6) [OF that] assms(2,3) by (auto simp: adj_Cons)
  with D ne show "gap_list nx Q P"
    by (auto simp: gap_list_def adj_Cons)
qed

lemma gap_list_live: "gap_list nx Q P \<Longrightarrow> a \<in> set Q \<Longrightarrow> \<exists>n. nx a = Some n"
proof -
  assume g: "gap_list nx Q P" and "a \<in> set Q"
  then obtain xs ys where Q: "Q = xs @ a # ys"
    by (meson split_list)
  show ?thesis
  proof (cases ys)
    case Nil
    with Q gap_listD(4) [OF g] show ?thesis by simp
  next
    case (Cons b zs)
    with Q have "adj Q a b" by (auto simp: adj_def)
    with gap_listD(5) [OF g] show ?thesis by blast
  qed
qed

subsection \<open>The invariant\<close>

fun node_of :: "push_pc \<Rightarrow> ptr option" where
  "node_of (Exchange n) = Some n"
| "node_of (Link prev n) = Some n"
| "node_of NotPushing = None"

definition gaps :: "mpsc_system \<Rightarrow> (ptr \<times> ptr) set" where
  "gaps s = {(a, b). \<exists>t. pushers s t = Link a b} \<union>
     (case popper s of StubLink tail prev \<Rightarrow> {(prev, q_stub (mpq s))} | _ \<Rightarrow> {})"

fun popper_ok :: "mpscq_t \<Rightarrow> ptr list \<Rightarrow> mpsc_pc \<Rightarrow> bool" where
  "popper_ok q Q NotPopping \<longleftrightarrow> True"
| "popper_ok q Q (Second t) \<longleftrightarrow> t = q_tail q \<and> t \<noteq> q_stub q"
| "popper_ok q Q (Check t) \<longleftrightarrow> t = q_tail q \<and> t \<noteq> q_stub q"
| "popper_ok q Q (StubInit t) \<longleftrightarrow> t = q_tail q \<and> t \<noteq> q_stub q \<and> q_stub q \<notin> set Q"
| "popper_ok q Q (StubExchange t) \<longleftrightarrow> t = q_tail q \<and> t \<noteq> q_stub q \<and> q_stub q \<notin> set Q \<and> node_next q (q_stub q) = Some 0"
| "popper_ok q Q (StubLink t prev) \<longleftrightarrow> t = q_tail q \<and> t \<noteq> q_stub q"
| "popper_ok q Q (Again t) \<longleftrightarrow> t = q_tail q \<and> t \<noteq> q_stub q"

fun pusher_ok :: "mpscq_t \<Rightarrow> ptr list \<Rightarrow> push_pc \<Rightarrow> bool" where
  "pusher_ok q Q NotPushing \<longleftrightarrow> True"
| "pusher_ok q Q (Exchange n) \<longleftrightarrow> n \<notin> set Q \<and> node_next q n = Some 0 \<and> n \<noteq> 0 \<and> n \<noteq> q_stub q"
| "pusher_ok q Q (Link prev n) \<longleftrightarrow> n \<noteq> q_stub q"

definition mpsc_inv :: "mpsc_system \<Rightarrow> ptr list \<Rightarrow> bool" where
  "mpsc_inv s Q \<longleftrightarrow> gap_list (node_next (mpq s)) Q (gaps s) \<and> hd Q = q_tail (mpq s) \<and> last Q = q_head (mpq s) \<and>
     pushed s = popped s @ filter (\<lambda>n. n \<noteq> q_stub (mpq s)) Q \<and> q_stub (mpq s) \<noteq> 0 \<and> node_next (mpq s) (q_stub (mpq s)) \<noteq> None \<and>
     (\<forall>t. pusher_ok (mpq s) Q (pushers s t)) \<and> popper_ok (mpq s) Q (popper s) \<and>
     (\<forall>t u n. node_of (pushers s t) = Some n \<longrightarrow> node_of (pushers s u) = Some n \<longrightarrow> t = u)"

lemma mpsc_invD:
  assumes "mpsc_inv s Q"
  shows "gap_list (node_next (mpq s)) Q (gaps s)" "hd Q = q_tail (mpq s)" "last Q = q_head (mpq s)"
    "pushed s = popped s @ filter (\<lambda>n. n \<noteq> q_stub (mpq s)) Q" "q_stub (mpq s) \<noteq> 0" "\<exists>n. node_next (mpq s) (q_stub (mpq s)) = Some n"
    "pusher_ok (mpq s) Q (pushers s t)" "popper_ok (mpq s) Q (popper s)"
    "node_of (pushers s t) = Some n \<Longrightarrow> node_of (pushers s u) = Some n \<Longrightarrow> t = u"
  using assms unfolding mpsc_inv_def by blast+

lemma mpsc_invI:
  assumes "gap_list (node_next (mpq s)) Q (gaps s)" "hd Q = q_tail (mpq s)" "last Q = q_head (mpq s)"
    "pushed s = popped s @ filter (\<lambda>n. n \<noteq> q_stub (mpq s)) Q" "q_stub (mpq s) \<noteq> 0" "\<exists>n. node_next (mpq s) (q_stub (mpq s)) = Some n"
    "\<And>t. pusher_ok (mpq s) Q (pushers s t)" "popper_ok (mpq s) Q (popper s)"
    "\<And>t u n. node_of (pushers s t) = Some n \<Longrightarrow> node_of (pushers s u) = Some n \<Longrightarrow> t = u"
  shows "mpsc_inv s Q"
  using assms unfolding mpsc_inv_def by blast

lemma store_link_eq: "store_link p n q = Inr q' \<longleftrightarrow> p \<noteq> 0 \<and> node_next q p \<noteq> None \<and> q' = q\<lparr>node_next := (node_next q)(p \<mapsto> n)\<rparr>"
  by (auto simp: store_link_def load_link_def split: option.splits)

lemma load_link_eq: "load_link p q = Inr n \<longleftrightarrow> p \<noteq> 0 \<and> node_next q p = Some n"
  by (auto simp: load_link_def split: option.splits)

lemma gaps_member: "(a, b) \<in> gaps s \<longleftrightarrow> (\<exists>t. pushers s t = Link a b) \<or> (\<exists>t. popper s = StubLink t a \<and> b = q_stub (mpq s))"
  by (auto simp: gaps_def split: mpsc_pc.splits)

lemma gaps_update:
  "(a, b) \<in> gaps (s\<lparr>mpq := q, pushers := (pushers s)(t := pc)\<rparr>) \<longleftrightarrow>
     pc = Link a b \<or> (\<exists>u. u \<noteq> t \<and> pushers s u = Link a b) \<or> (\<exists>t. popper s = StubLink t a \<and> b = q_stub q)"
  unfolding gaps_member by (auto split: if_splits)

lemma gaps_history [simp]: "gaps (s\<lparr>pushed := xs\<rparr>) = gaps s" "gaps (s\<lparr>popped := xs\<rparr>) = gaps s"
  by (simp_all add: gaps_def split: mpsc_pc.split)

lemma gaps_at:
  "(a, b) \<in> gaps s \<longleftrightarrow> pushers s t = Link a b \<or> (\<exists>u. u \<noteq> t \<and> pushers s u = Link a b) \<or>
     (\<exists>t. popper s = StubLink t a \<and> b = q_stub (mpq s))"
  unfolding gaps_member by auto

lemma clear_inv:
  assumes "mpsc_inv s Q" "pushers s t = NotPushing" "free_node s n" "store_link n 0 (mpq s) = Inr q"
  shows "mpsc_inv (s\<lparr>mpq := q, pushers := (pushers s)(t := Exchange n)\<rparr>) Q"
proof -
  note D = mpsc_invD [OF assms(1)]
  have q: "q = (mpq s)\<lparr>node_next := (node_next (mpq s))(n \<mapsto> 0)\<rparr>" "n \<noteq> 0" "node_next (mpq s) n \<noteq> None"
    using assms(4) by (auto simp: store_link_eq)
  have n: "n \<notin> set Q" "n \<noteq> q_stub (mpq s)"
    using assms(3) D(4) by (auto simp: free_node_def)
  have other: "node_of (pushers s u) \<noteq> Some n" for u
  proof
    assume "node_of (pushers s u) = Some n"
    then obtain a where "pushers s u = Link a n"
      using assms(3) by (cases "pushers s u") (auto simp: free_node_def)
    then have "adj Q a n"
      using gap_listD(6) [OF D(1)] gaps_member by blast
    with n(1) show False by (auto dest: adj_set)
  qed
  have gaps: "gaps (s\<lparr>mpq := q, pushers := (pushers s)(t := Exchange n)\<rparr>) = gaps s"
    using assms(2) by (auto simp: gaps_update gaps_at [of _ _ s t] q)
  show ?thesis
  proof (rule mpsc_invI, goal_cases)
    case (7 u)
    have "pusher_ok q Q (pushers s u)"
      using D(7) [of u] n by (cases "pushers s u") (auto simp: q)
    then show ?case using n q by auto
  next
    case 8
    then show ?case using D(8) n by (cases "popper s") (auto simp: q)
  next
    case (9 u v m)
    then show ?case using D(9) other by (auto split: if_splits)
  qed (use D(1-6) n q gaps gap_list_other [OF D(1) n(1)] in simp_all)
qed

lemma exchange_inv:
  assumes "mpsc_inv s Q" "pushers s t = Exchange n"
  shows "mpsc_inv (s\<lparr>mpq := (mpq s)\<lparr>q_head := n\<rparr>, pushers := (pushers s)(t := Link (q_head (mpq s)) n), pushed := pushed s @ [n]\<rparr>) (Q @ [n])"
proof -
  note D = mpsc_invD [OF assms(1)]
  have n: "n \<notin> set Q" "node_next (mpq s) n = Some 0" "n \<noteq> 0" "n \<noteq> q_stub (mpq s)"
    using D(7) [of t] assms(2) by auto
  have ne: "Q \<noteq> []"
    by (rule gap_listD(1) [OF D(1)])
  have gaps: "gaps (s\<lparr>mpq := (mpq s)\<lparr>q_head := n\<rparr>, pushers := (pushers s)(t := Link (q_head (mpq s)) n), pushed := pushed s @ [n]\<rparr>) =
      insert (last Q, n) (gaps s)"
    using assms(2) D(3) by (auto simp: gaps_update gaps_at [of _ _ s t])
  show ?thesis
  proof (rule mpsc_invI, goal_cases)
    case (7 u)
    have "pusher_ok ((mpq s)\<lparr>q_head := n\<rparr>) (Q @ [n]) (pushers s u)" if "u \<noteq> t"
      using D(7) [of u] D(9) [of t n u] assms(2) that by (cases "pushers s u") auto
    then show ?case using n by auto
  next
    case 8
    then show ?case using D(8) n by (cases "popper s") auto
  next
    case (9 u v m)
    then show ?case using D(9) [of u m v] D(9) [of t n] assms(2) by (auto split: if_splits)
  qed (use D(1-6) n ne gaps gap_list_append [OF D(1) n(1,3,2)] in simp_all)
qed

lemma link_inv:
  assumes "mpsc_inv s Q" "pushers s t = Link prev n" "store_link prev n (mpq s) = Inr q"
  shows "mpsc_inv (s\<lparr>mpq := q, pushers := (pushers s)(t := NotPushing)\<rparr>) Q"
proof -
  note D = mpsc_invD [OF assms(1)]
  have q: "q = (mpq s)\<lparr>node_next := (node_next (mpq s))(prev \<mapsto> n)\<rparr>"
    using assms(3) by (simp add: store_link_eq)
  have g: "(prev, n) \<in> gaps s"
    using assms(2) gaps_member by blast
  then have "adj Q prev n"
    using gap_listD(6) [OF D(1)] by blast
  then have prev: "prev \<in> set Q"
    by (auto dest: adj_set)
  have alone: "\<not> (\<exists>u. u \<noteq> t \<and> pushers s u = Link a n)" for a
    using D(9) [of t n] assms(2) by (metis node_of.simps(2))
  have "n \<noteq> q_stub (mpq s)"
    using D(7) [of t] assms(2) by simp
  then have gaps: "gaps (s\<lparr>mpq := q, pushers := (pushers s)(t := NotPushing)\<rparr>) = gaps s - {(prev, n)}"
    using assms(2) alone [of prev] by (auto simp: gaps_update gaps_at [of _ _ s t] q simp del: not_ex)
  show ?thesis
  proof (rule mpsc_invI, goal_cases)
    case (7 u)
    have "pusher_ok q Q (pushers s u)"
      using D(7) [of u] prev by (cases "pushers s u") (auto simp: q)
    then show ?case by simp
  next
    case 8
    then show ?case using D(8) prev by (cases "popper s") (auto simp: q)
  next
    case (9 u v m)
    then show ?case using D(9) by (auto split: if_splits)
  qed (use D(1-6) q gaps gap_list_link [OF D(1) g] in simp_all)
qed

lemma pop_gaps:
  assumes "\<And>t prev. popper s \<noteq> StubLink t prev"
  shows "gaps s = {(a, b). \<exists>t. pushers s t = Link a b}"
  using assms by (auto simp: gaps_def split: mpsc_pc.splits)

text \<open>The popping thread moves on without touching the queue.\<close>

lemma popper_inv:
  assumes "mpsc_inv s Q" "gaps (s\<lparr>popper := pc\<rparr>) = gaps s" "popper_ok (mpq s) Q pc"
  shows "mpsc_inv (s\<lparr>popper := pc\<rparr>) Q"
  using assms unfolding mpsc_inv_def by simp

text \<open>The popping thread takes the oldest node, or steps over the stub.\<close>

lemma advance_inv:
  assumes "mpsc_inv s (x # Q)" "node_next (mpq s) x = Some n" "n \<noteq> 0" "\<And>t prev. popper s \<noteq> StubLink t prev" "\<And>t prev. pc \<noteq> StubLink t prev"
    "popper_ok ((mpq s)\<lparr>q_tail := n\<rparr>) Q pc" "xs = popped s @ (if x = q_stub (mpq s) then [] else [x])"
  shows "mpsc_inv (s\<lparr>mpq := (mpq s)\<lparr>q_tail := n\<rparr>, popper := pc, popped := xs\<rparr>) Q"
proof -
  note D = mpsc_invD [OF assms(1)]
  obtain ys where ys: "Q = n # ys"
    using gap_list_advance(1) [OF D(1) assms(2,3)] by blast
  have gaps: "gaps (s\<lparr>mpq := (mpq s)\<lparr>q_tail := n\<rparr>, popper := pc, popped := xs\<rparr>) = gaps s"
    using assms(4,5) by (simp add: pop_gaps)
  show ?thesis
  proof (rule mpsc_invI, goal_cases)
    case (7 u)
    then show ?case using D(7) [of u] by (cases "pushers s u") auto
  next
    case (9 u v m)
    then show ?case using D(9) by auto
  qed (use D(3-6) assms(6,7) gaps gap_list_advance(2) [OF D(1) assms(2,3)] ys in simp_all)
qed

lemma mpsc_inv_Cons: "mpsc_inv s Q \<Longrightarrow> \<exists>ys. Q = q_tail (mpq s) # ys"
  using mpsc_invD(2) gap_listD(1) [OF mpsc_invD(1)] by (metis list.collapse)

lemma take_or_check_inv:
  assumes "mpsc_inv s Q" "load_link (q_tail (mpq s)) (mpq s) = Inr n" "q_tail (mpq s) \<noteq> q_stub (mpq s)"
    "\<And>t prev. popper s \<noteq> StubLink t prev"
  shows "\<exists>Q'. mpsc_inv (take_or_check (q_tail (mpq s)) n s) Q'"
proof -
  obtain ys where Q: "Q = q_tail (mpq s) # ys"
    using mpsc_inv_Cons [OF assms(1)] by blast
  show ?thesis
  proof (cases "n = 0")
    case True
    then show ?thesis
      using popper_inv [OF assms(1), of "Check (q_tail (mpq s))"] assms(3,4) by (auto simp: take_or_check_def pop_gaps)
  next
    case False
    then show ?thesis
      using advance_inv [OF assms(1) [unfolded Q], of n NotPopping] assms(2-4) by (auto simp: take_or_check_def load_link_eq)
  qed
qed

lemma check_inv:
  assumes "mpsc_inv s Q" "popper s = Check t"
  shows "mpsc_inv (s\<lparr>popper := (if t \<noteq> q_head (mpq s) then NotPopping else StubInit t)\<rparr>) Q"
proof -
  note D = mpsc_invD [OF assms(1)]
  have t: "t = q_tail (mpq s)" "t \<noteq> q_stub (mpq s)"
    using D(8) assms(2) by auto
  obtain ys where Q: "Q = t # ys"
    using mpsc_inv_Cons [OF assms(1)] t(1) by blast
  have "Q = [t]" if "t = q_head (mpq s)"
    using that D(3) gap_listD(2) [OF D(1)] Q by (cases ys rule: rev_cases) auto
  then show ?thesis
    using t assms(2) by (intro popper_inv [OF assms(1)]) (auto simp: pop_gaps)
qed

lemma stub_clear_inv:
  assumes "mpsc_inv s Q" "popper s = StubInit t" "store_link (q_stub (mpq s)) 0 (mpq s) = Inr q"
  shows "mpsc_inv (s\<lparr>mpq := q, popper := StubExchange t\<rparr>) Q"
proof -
  note D = mpsc_invD [OF assms(1)]
  have q: "q = (mpq s)\<lparr>node_next := (node_next (mpq s))(q_stub (mpq s) \<mapsto> 0)\<rparr>"
    using assms(3) by (simp add: store_link_eq)
  have t: "q_stub (mpq s) \<notin> set Q" "t = q_tail (mpq s)" "t \<noteq> q_stub (mpq s)"
    using D(8) assms(2) by auto
  have gaps: "gaps (s\<lparr>mpq := q, popper := StubExchange t\<rparr>) = gaps s"
    using assms(2) by (simp add: pop_gaps)
  show ?thesis
  proof (rule mpsc_invI, goal_cases)
    case (7 u)
    then show ?case using D(7) [of u] by (cases "pushers s u") (auto simp: q)
  next
    case (9 u v m)
    then show ?case using D(9) by auto
  qed (use D(1-6) q t gaps gap_list_other [OF D(1) t(1)] in simp_all)
qed

lemma stub_exchange_inv:
  assumes "mpsc_inv s Q" "popper s = StubExchange t"
  shows "mpsc_inv (s\<lparr>mpq := (mpq s)\<lparr>q_head := q_stub (mpq s)\<rparr>, popper := StubLink t (q_head (mpq s))\<rparr>) (Q @ [q_stub (mpq s)])"
proof -
  note D = mpsc_invD [OF assms(1)]
  have t: "q_stub (mpq s) \<notin> set Q" "t = q_tail (mpq s)" "t \<noteq> q_stub (mpq s)" "node_next (mpq s) (q_stub (mpq s)) = Some 0"
    using D(8) assms(2) by auto
  have ne: "Q \<noteq> []"
    by (rule gap_listD(1) [OF D(1)])
  have gaps: "gaps (s\<lparr>mpq := (mpq s)\<lparr>q_head := q_stub (mpq s)\<rparr>, popper := StubLink t (q_head (mpq s))\<rparr>) =
      insert (last Q, q_stub (mpq s)) (gaps s)"
    using assms(2) D(3) by (auto simp: gaps_member)
  show ?thesis
  proof (rule mpsc_invI, goal_cases)
    case (7 u)
    then show ?case using D(7) [of u] by (cases "pushers s u") auto
  next
    case (9 u v m)
    then show ?case using D(9) by auto
  qed (use D(1-6) ne t gaps gap_list_append [OF D(1) t(1) D(5) t(4)] in simp_all)
qed

lemma stub_link_inv:
  assumes "mpsc_inv s Q" "popper s = StubLink t prev" "store_link prev (q_stub (mpq s)) (mpq s) = Inr q"
  shows "mpsc_inv (s\<lparr>mpq := q, popper := Again t\<rparr>) Q"
proof -
  note D = mpsc_invD [OF assms(1)]
  have q: "q = (mpq s)\<lparr>node_next := (node_next (mpq s))(prev \<mapsto> q_stub (mpq s))\<rparr>"
    using assms(3) by (simp add: store_link_eq)
  have g: "(prev, q_stub (mpq s)) \<in> gaps s"
    using assms(2) gaps_member by blast
  have prev: "prev \<in> set Q"
    using gap_listD(6) [OF D(1) g] by (auto dest: adj_set)
  have "\<not> (\<exists>u. pushers s u = Link prev (q_stub (mpq s)))"
    using D(7) by (metis pusher_ok.simps(3))
  then have gaps: "gaps (s\<lparr>mpq := q, popper := Again t\<rparr>) = gaps s - {(prev, q_stub (mpq s))}"
    using assms(2) by (auto simp: gaps_member simp del: not_ex)
  show ?thesis
  proof (rule mpsc_invI, goal_cases)
    case (7 u)
    then show ?case using D(7) [of u] prev by (cases "pushers s u") (auto simp: q)
  next
    case (9 u v m)
    then show ?case using D(9) by auto
  qed (use D(1-6,8) assms(2) q gaps gap_list_link [OF D(1) g] in simp_all)
qed

lemma again_inv:
  assumes "mpsc_inv s Q" "popper s = Again t" "load_link t (mpq s) = Inr n"
  shows "\<exists>Q'. mpsc_inv (if n \<noteq> 0 then s\<lparr>mpq := (mpq s)\<lparr>q_tail := n\<rparr>, popper := NotPopping, popped := popped s @ [t]\<rparr>
       else s\<lparr>popper := NotPopping\<rparr>) Q'"
proof -
  have t: "t = q_tail (mpq s)" "t \<noteq> q_stub (mpq s)"
    using mpsc_invD(8) [OF assms(1)] assms(2) by auto
  obtain ys where Q: "Q = t # ys"
    using mpsc_inv_Cons [OF assms(1)] t(1) by blast
  show ?thesis
    using popper_inv [OF assms(1), of NotPopping] advance_inv [OF assms(1) [unfolded Q], of n NotPopping] assms(2,3) t
    by (auto simp: pop_gaps load_link_eq)
qed

lemma skip_inv:
  assumes "mpsc_inv s Q" "popper s = NotPopping" "q_tail (mpq s) = q_stub (mpq s)" "load_link (q_tail (mpq s)) (mpq s) = Inr n" "n \<noteq> 0"
  shows "\<exists>Q'. mpsc_inv (s\<lparr>mpq := (mpq s)\<lparr>q_tail := n\<rparr>, popper := Second n\<rparr>) Q'"
proof -
  note D = mpsc_invD [OF assms(1)]
  obtain ys where Q: "Q = q_stub (mpq s) # ys"
    using mpsc_inv_Cons [OF assms(1)] assms(3) by auto
  have n: "node_next (mpq s) (q_stub (mpq s)) = Some n"
    using assms(3,4) by (simp add: load_link_eq)
  obtain zs where "ys = n # zs"
    using gap_list_advance(1) [OF D(1) [unfolded Q] n assms(5)] by blast
  then have "n \<noteq> q_stub (mpq s)"
    using gap_listD(2) [OF D(1)] Q by auto
  then show ?thesis
    using advance_inv [OF assms(1) [unfolded Q] n assms(5), of "Second n" "popped s"] assms(2) by auto
qed

lemma mpsc_step_inv:
  assumes "mpsc_step s s'" "mpsc_inv s Q"
  shows "\<exists>Q'. mpsc_inv s' Q'"
  using assms(1)
proof (cases rule: mpsc_step.cases)
  case (clear t n q)
  show ?thesis unfolding clear(1) by (rule exI, rule clear_inv [OF assms(2) clear(2-4)])
next
  case (exchange t n)
  show ?thesis unfolding exchange(1) by (rule exI, rule exchange_inv [OF assms(2) exchange(2)])
next
  case (link t prev n q)
  show ?thesis unfolding link(1) by (rule exI, rule link_inv [OF assms(2) link(2,3)])
next
  case (first "next")
  show ?thesis unfolding first(1) by (rule take_or_check_inv [OF assms(2) first(4,3)]) (simp add: first(2))
next
  case (skip "next")
  show ?thesis
    using assms(2) skip_inv [OF assms(2) skip(2-4)] unfolding skip(1) by (cases "next = 0") auto
next
  case (second tail "next")
  have "tail = q_tail (mpq s)" "tail \<noteq> q_stub (mpq s)"
    using mpsc_invD(8) [OF assms(2)] second(2) by auto
  with take_or_check_inv [OF assms(2), of "next"] second show ?thesis by simp
next
  case (check tail)
  show ?thesis unfolding check(1) by (rule exI, rule check_inv [OF assms(2) check(2)])
next
  case (stub_clear tail q)
  show ?thesis unfolding stub_clear(1) by (rule exI, rule stub_clear_inv [OF assms(2) stub_clear(2,3)])
next
  case (stub_exchange tail)
  show ?thesis unfolding stub_exchange(1) by (rule exI, rule stub_exchange_inv [OF assms(2) stub_exchange(2)])
next
  case (stub_link tail prev q)
  show ?thesis unfolding stub_link(1) by (rule exI, rule stub_link_inv [OF assms(2) stub_link(2,3)])
next
  case (again tail "next")
  show ?thesis unfolding again(1) by (rule again_inv [OF assms(2) again(2,3)])
qed

lemma mpsc_reach_inv:
  assumes "mpscq_create self = Inr q0" "mpsc_reach q0 s"
  shows "\<exists>Q. mpsc_inv s Q"
  using assms(2)
proof (induction rule: mpsc_reach.induct)
  case start
  have "mpsc_inv \<lparr>mpq = q0, pushers = (\<lambda>_. NotPushing), popper = NotPopping, pushed = [], popped = []\<rparr> [q_stub self]"
    using assms(1) by (auto simp: mpscq_create_def store_link_eq mpsc_inv_def gap_list_def adj_Cons gaps_def)
  then show ?case ..
next
  case (step s s')
  then show ?case using mpsc_step_inv by blast
qed

lemma mpsc_inv_safe:
  assumes "mpsc_inv s Q"
  shows "push_safe (mpq s) (pushers s t)" "pop_safe (mpq s) (popper s)"
proof -
  note D = mpsc_invD [OF assms] and G = gap_listD [OF mpsc_invD(1) [OF assms]]
  have live: "a \<noteq> 0 \<and> (\<exists>n. node_next (mpq s) a = Some n)" if "a \<in> set Q" for a
    using gap_list_live [OF D(1) that] G(3) that by metis
  have gap: "a \<in> set Q" if "(a, b) \<in> gaps s" for a b
    using G(6) [OF that] by (auto dest: adj_set)
  have tail: "q_tail (mpq s) \<in> set Q"
    using D(2) G(1) by (metis list.set_sel(1))
  show "push_safe (mpq s) (pushers s t)"
  proof (cases "pushers s t")
    case (Link prev n)
    then have "prev \<in> set Q"
      using gap [of prev n] gaps_member by blast
    with live Link show ?thesis by (auto simp: store_link_eq)
  qed simp_all
  show "pop_safe (mpq s) (popper s)"
  proof (cases "popper s")
    case (StubLink t prev)
    then have "prev \<in> set Q"
      using gap [of prev "q_stub (mpq s)"] gaps_member by blast
    with live StubLink show ?thesis by (auto simp: store_link_eq)
  qed (use D(5,6,8) live [OF tail] in \<open>auto simp: load_link_eq store_link_eq\<close>)
qed

lemma pop_rest_ok:
  assumes "gap_list (node_next q) (x # ys) {}" "last (x # ys) = q_head q" "x \<noteq> q_stub q" "q_stub q \<noteq> 0"
    "node_next q (q_stub q) \<noteq> None" "node_next q x = Some n"
  shows "\<exists>q'. pop_rest x n q = Inr (x, q')"
proof (cases "n = 0")
  case True
  have "ys = []"
  proof (rule ccontr)
    assume "ys \<noteq> []"
    then have "adj (x # ys) x (hd ys)" "hd ys \<in> set (x # ys)"
      by (auto simp: adj_Cons)
    with gap_listD(3,5) [OF assms(1)] assms(6) True show False by fastforce
  qed
  then have "x = q_head q" "x \<noteq> 0"
    using assms(2) gap_listD(3) [OF assms(1)] by auto
  with assms(3-6) True show ?thesis
    by (auto simp: pop_rest_def mpscq_push_def store_link_def load_link_def)
qed (simp add: pop_rest_def)

lemma quiet_pop:
  assumes "mpsc_inv s Q" "gaps s = {}"
  shows "\<exists>q'. mpscq_pop (mpq s) = Inr (case filter (\<lambda>n. n \<noteq> q_stub (mpq s)) Q of [] \<Rightarrow> 0 | x # _ \<Rightarrow> x, q')"
proof -
  note D = mpsc_invD [OF assms(1)] and G = gap_listD [OF mpsc_invD(1) [OF assms(1)]]
  have g: "gap_list (node_next (mpq s)) Q {}"
    using D(1) assms(2) by simp
  obtain ys where Q: "Q = q_tail (mpq s) # ys"
    using mpsc_inv_Cons [OF assms(1)] by blast
  obtain n where n: "node_next (mpq s) (q_tail (mpq s)) = Some n"
    using gap_list_live [OF g, of "q_tail (mpq s)"] Q by auto
  have nz: "q_tail (mpq s) \<noteq> 0"
    using G(3) Q by auto
  show ?thesis
  proof (cases "q_tail (mpq s) = q_stub (mpq s)")
    case False
    then show ?thesis
      using pop_rest_ok [OF g [unfolded Q] _ False D(5) _ n] D(3,6) n nz Q by (auto simp: mpscq_pop_def load_link_def)
  next
    case stub: True
    show ?thesis
    proof (cases "n = 0")
      case True
      have "ys = []"
        using G(5) [of "q_tail (mpq s)" "hd ys"] G(3) n True assms(2) Q by (cases ys) (auto simp: adj_Cons)
      with True stub n nz Q show ?thesis by (simp add: mpscq_pop_def load_link_def)
    next
      case False
      note a = gap_list_advance [OF g [unfolded Q] n False]
      obtain zs where zs: "ys = n # zs"
        using a(1) by blast
      then have n2: "n \<noteq> q_stub (mpq s)"
        using G(2) Q stub by auto
      obtain m where m: "node_next (mpq s) n = Some m"
        using gap_list_live [OF a(2), of n] zs by auto
      have "\<exists>q'. pop_rest n m ((mpq s)\<lparr>q_tail := n\<rparr>) = Inr (n, q')"
        by (rule pop_rest_ok) (use a(2) zs D(3,5,6) n2 m Q in auto)
      with n nz m False n2 stub Q zs show ?thesis
        by (auto simp: mpscq_pop_def load_link_def Let_def)
    qed
  qed
qed

text \<open>
  (C11) Any number of threads push nodes that are not in the queue while one thread pops, interleaved at
  every access to shared memory: the nodes come out in the order of the exchanges, each once, no access
  faults, and whenever no push is between its exchange and its link, a pop returns the oldest
  node, or null if there is none.
\<close>

theorem mpscq_concurrent:
  assumes "mpscq_create self = Inr q0" "mpsc_reach q0 s"
  shows "\<exists>rest. pushed s = popped s @ rest \<and> distinct rest \<and>
    (\<forall>t. push_safe (mpq s) (pushers s t)) \<and> pop_safe (mpq s) (popper s) \<and>
    (popper s = NotPopping \<longrightarrow> (\<forall>t a b. pushers s t \<noteq> Link a b) \<longrightarrow>
       (\<exists>q'. mpscq_pop (mpq s) = Inr (case rest of [] \<Rightarrow> 0 | x # _ \<Rightarrow> x, q')))"
proof -
  obtain Q where inv: "mpsc_inv s Q"
    using mpsc_reach_inv [OF assms] by blast
  note D = mpsc_invD [OF inv]
  have "distinct (filter (\<lambda>n. n \<noteq> q_stub (mpq s)) Q)"
    using gap_listD(2) [OF D(1)] by simp
  moreover have "gaps s = {}" if "popper s = NotPopping" "\<forall>t a b. pushers s t \<noteq> Link a b"
    using that by (auto simp: gaps_def)
  ultimately show ?thesis
    using D(4) mpsc_inv_safe [OF inv] quiet_pop [OF inv] by blast
qed

theorem mpscq_concurrent_witness:
  "\<exists>q0 s q'. mpscq_create \<lparr>q_head = 0, q_tail = 0, q_stub = 5, node_next = [5 \<mapsto> 0, 2 \<mapsto> 9]\<rparr> = Inr q0 \<and> mpsc_reach q0 s \<and>
     pushed s = [2] \<and> popped s = [] \<and> mpscq_pop (mpq s) = Inr (2, q')"
proof -
  let ?qu = "\<lambda>h m. \<lparr>q_head = h, q_tail = 5, q_stub = 5, node_next = m\<rparr>"
  let ?s = "\<lambda>q p xs. \<lparr>mpq = q, pushers = p, popper = NotPopping, pushed = xs, popped = []\<rparr>"
  let ?f = "\<lambda>_. NotPushing" and ?n = "[5 \<mapsto> 0, 2 \<mapsto> 9] :: ptr \<rightharpoonup> ptr"
  have q0: "mpscq_create \<lparr>q_head = 0, q_tail = 0, q_stub = 5, node_next = ?n\<rparr> = Inr (?qu 5 (?n(5 \<mapsto> 0)))"
    by (simp add: mpscq_create_def store_link_def load_link_def)
  let ?q0 = "?qu 5 (?n(5 \<mapsto> 0))"
  have 1: "mpsc_reach ?q0 (?s (?qu 5 (?n(5 \<mapsto> 0, 2 \<mapsto> 0))) (?f(0 := Exchange 2)) [])"
    using mpsc_reach.step [OF mpsc_reach.start [of ?q0] clear [of _ 0 2]] by (simp add: free_node_def store_link_eq)
  have 2: "mpsc_reach ?q0 (?s (?qu 2 (?n(5 \<mapsto> 0, 2 \<mapsto> 0))) (?f(0 := Link 5 2)) [2])"
    using mpsc_reach.step [OF 1 exchange [of _ 0 2]] by simp
  have 3: "mpsc_reach ?q0 (?s (?qu 2 (?n(5 \<mapsto> 0, 2 \<mapsto> 0, 5 \<mapsto> 2))) (?f(0 := NotPushing)) [2])"
    using mpsc_reach.step [OF 2 link [of _ 0 5 2]] by (simp add: store_link_eq)
  from mpscq_concurrent [OF q0 3] q0 3 show ?thesis by auto
qed

end
