(* ===== verification/Light_Semaphore.thy ===== *)
theory Light_Semaphore
  imports Net_World
begin

text \<open>
  The semaphores of \<open>src/libs/atomicops.h\<close>: the POSIX wrapper \<open>Semaphore\<close> around the
  kernel's semaphore, and \<open>LightweightSemaphore\<close>, which keeps a count of its own and goes to the
  kernel only when a thread must sleep.  \<open>others\<close> is what the other threads do to the count
  meanwhile.  The count is a 64-bit number that is taken to stay in range.
\<close>

definition EINTR :: int where "EINTR = 4"
definition ETIMEDOUT :: int where "ETIMEDOUT = 110"

subsection \<open>\<open>Semaphore\<close> on POSIX systems\<close>

definition Semaphore :: "'k os \<Rightarrow> bool \<Rightarrow> int \<Rightarrow> ('k, 'z) os_state_scheme \<Rightarrow> ('k, 'z) os_state_scheme result" where
  "Semaphore sys nd initialCount st =
     rbind (c_assert nd (initialCount \<ge> 0)) (\<lambda>_. Inr (os_do sys (Sem_init initialCount) st))"

definition Semaphore_destroy :: "'k os \<Rightarrow> ('k, 'z) os_state_scheme \<Rightarrow> ('k, 'z) os_state_scheme" where
  "Semaphore_destroy sys st = os_do sys Sem_destroy st"

text \<open>A call that a signal interrupts is made again.\<close>

partial_function (option) sem_retry ::
  "'k os \<Rightarrow> sys_call \<Rightarrow> ('k, 'z) os_state_scheme \<Rightarrow> (int \<times> ('k, 'z) os_state_scheme) option" where
  "sem_retry sys c st =
     (let (r, st) = os_call sys c st in
      if ret r = -1 \<and> errno st = EINTR then sem_retry sys c st else Some (ret r, st))"

definition Semaphore_wait :: "'k os \<Rightarrow> ('k, 'z) os_state_scheme \<Rightarrow> ('k, 'z) os_state_scheme option" where
  "Semaphore_wait sys st = map_option snd (sem_retry sys Sem_wait st)"

definition Semaphore_try_wait :: "'k os \<Rightarrow> ('k, 'z) os_state_scheme \<Rightarrow> (bool \<times> ('k, 'z) os_state_scheme) option" where
  "Semaphore_try_wait sys st =
     map_option (\<lambda>(rc, st). (\<not> (rc = -1 \<and> errno st = EAGAIN), st)) (sem_retry sys Sem_trywait st)"

text \<open>The point in time \<open>usecs\<close> microseconds after \<open>(sec, nsec)\<close>.\<close>

definition deadline :: "int \<Rightarrow> int \<times> int \<Rightarrow> int \<times> int" where
  "deadline usecs = (\<lambda>(sec, nsec).
     let sec = sec + usecs div 1000000; nsec = nsec + (usecs mod 1000000) * 1000 in
     if nsec > 1000000000 then (sec + 1, nsec - 1000000000) else (sec, nsec))"

definition Semaphore_timed_wait ::
  "'k os \<Rightarrow> int \<Rightarrow> ('k, 'z) os_state_scheme \<Rightarrow> (bool \<times> ('k, 'z) os_state_scheme) option" where
  "Semaphore_timed_wait sys usecs st =
     (let (t, st) = os_call sys Clock_gettime st; (sec, nsec) = deadline usecs (raddr t) in
      map_option (\<lambda>(rc, st). (\<not> (rc = -1 \<and> errno st = ETIMEDOUT), st)) (sem_retry sys (Sem_timedwait sec nsec) st))"

definition Semaphore_signal :: "'k os \<Rightarrow> ('k, 'z) os_state_scheme \<Rightarrow> ('k, 'z) os_state_scheme" where
  "Semaphore_signal sys st = os_do sys Sem_post st"

definition Semaphore_signal_n :: "'k os \<Rightarrow> int \<Rightarrow> ('k, 'z) os_state_scheme \<Rightarrow> ('k, 'z) os_state_scheme" where
  "Semaphore_signal_n sys cnt st = ((os_do sys Sem_post) ^^ nat cnt) st"

subsection \<open>\<open>LightweightSemaphore\<close>\<close>

definition LightweightSemaphore :: "bool \<Rightarrow> int \<Rightarrow> int result" where
  "LightweightSemaphore nd initialCount = rbind (c_assert nd (initialCount \<ge> 0)) (\<lambda>_. Inr initialCount)"

definition tryWait :: "int \<Rightarrow> bool \<times> int" where
  "tryWait m_count = (if m_count > 0 then (True, m_count - 1) else (False, m_count))"

fun spin_wait :: "nat \<Rightarrow> (int \<Rightarrow> int) \<Rightarrow> int \<Rightarrow> bool \<times> int" where
  "spin_wait 0 others m_count = (False, m_count)"
| "spin_wait (Suc spin) others m_count =
     (let (ok, m_count) = tryWait (others m_count) in
      if ok then (True, m_count) else spin_wait spin others m_count)"

text \<open>After a timeout: the count is given back, unless a signal came in between.\<close>

partial_function (option) restore_count ::
  "'k os \<Rightarrow> (int \<Rightarrow> int) \<Rightarrow> int \<Rightarrow> ('k, 'z) os_state_scheme \<Rightarrow> (bool \<times> int \<times> ('k, 'z) os_state_scheme) option" where
  "restore_count sys others m_count st =
     (let oldCount = others m_count; m_count = oldCount + 1 in
      if oldCount < 0 then Some (False, m_count, st)
      else
        (let oldCount = others m_count; m_count = oldCount - 1 in
         if oldCount > 0 then
           (case Semaphore_try_wait sys st of
              None \<Rightarrow> None
            | Some (ok, st) \<Rightarrow> if ok then Some (True, m_count, st) else restore_count sys others m_count st)
         else restore_count sys others m_count st))"

definition waitWithPartialSpinning ::
  "'k os \<Rightarrow> (int \<Rightarrow> int) \<Rightarrow> int \<Rightarrow> int \<Rightarrow> ('k, 'z) os_state_scheme \<Rightarrow> (bool \<times> int \<times> ('k, 'z) os_state_scheme) option" where
  "waitWithPartialSpinning sys others timeout_usecs m_count st =
     (let (ok, m_count) = spin_wait 10000 others m_count in
      if ok then Some (True, m_count, st)
      else
        (let oldCount = others m_count; m_count = oldCount - 1 in
         if oldCount > 0 then Some (True, m_count, st)
         else if timeout_usecs < 0 then map_option (\<lambda>st. (True, others m_count, st)) (Semaphore_wait sys st)
         else
           (case Semaphore_timed_wait sys timeout_usecs st of
              None \<Rightarrow> None
            | Some (ok, st) \<Rightarrow> if ok then Some (True, others m_count, st) else restore_count sys others m_count st)))"

definition light_wait ::
  "'k os \<Rightarrow> (int \<Rightarrow> int) \<Rightarrow> int \<Rightarrow> ('k, 'z) os_state_scheme \<Rightarrow> (int \<times> ('k, 'z) os_state_scheme) option" where
  "light_wait sys others m_count st =
     (let (ok, m_count) = tryWait m_count in
      if ok then Some (m_count, st) else map_option snd (waitWithPartialSpinning sys others (-1) m_count st))"

definition light_wait_for ::
  "'k os \<Rightarrow> (int \<Rightarrow> int) \<Rightarrow> int \<Rightarrow> int \<Rightarrow> ('k, 'z) os_state_scheme \<Rightarrow> (bool \<times> int \<times> ('k, 'z) os_state_scheme) option" where
  "light_wait_for sys others timeout_usecs m_count st =
     (let (ok, m_count) = tryWait m_count in
      if ok then Some (True, m_count, st) else waitWithPartialSpinning sys others timeout_usecs m_count st)"

definition light_signal ::
  "'k os \<Rightarrow> bool \<Rightarrow> int \<Rightarrow> int \<Rightarrow> ('k, 'z) os_state_scheme \<Rightarrow> (int \<times> ('k, 'z) os_state_scheme) result" where
  "light_signal sys nd cnt m_count st =
     rbind (c_assert nd (cnt \<ge> 0)) (\<lambda>_.
       let oldCount = m_count; m_count = oldCount + cnt in
       rbind (c_assert nd (oldCount \<ge> -1)) (\<lambda>_.
         Inr (m_count, if oldCount < 0 then Semaphore_signal_n sys 1 st else st)))"

definition availableApprox :: "int \<Rightarrow> int" where
  "availableApprox m_count = (if m_count > 0 then m_count else 0)"

subsection \<open>One waiting thread and any number of signalling threads\<close>

datatype wait_pc = NotWaiting | Spinning | Seen | Claim | Asleep | Restore | Retry | TryPermit

text \<open>
  \<open>permits\<close> is the kernel's count and \<open>posting\<close> the number of threads that will post.
  \<open>signalled\<close> and \<open>waited\<close> are history variables: the sum of the counts signalled, and
  the number of waits that succeeded.
\<close>

record sema_system =
  lcount :: int
  permits :: nat
  posting :: nat
  waiter :: wait_pc
  signalled :: int
  waited :: int

inductive sema_step :: "sema_system \<Rightarrow> sema_system \<Rightarrow> bool" where
  see: "waiter s \<in> {NotWaiting, Spinning} \<Longrightarrow> lcount s > 0 \<Longrightarrow> sema_step s (s\<lparr>waiter := Seen\<rparr>)"
| spin: "waiter s \<in> {NotWaiting, Spinning} \<Longrightarrow> lcount s \<le> 0 \<Longrightarrow> sema_step s (s\<lparr>waiter := Spinning\<rparr>)"
| spun: "waiter s = Spinning \<Longrightarrow> lcount s \<le> 0 \<Longrightarrow> sema_step s (s\<lparr>waiter := Claim\<rparr>)"
| take: "waiter s = Seen \<Longrightarrow> sema_step s (s\<lparr>lcount := lcount s - 1, waiter := NotWaiting, waited := waited s + 1\<rparr>)"
| claim: "waiter s = Claim \<Longrightarrow> sema_step s
     (if lcount s > 0 then s\<lparr>lcount := lcount s - 1, waiter := NotWaiting, waited := waited s + 1\<rparr>
      else s\<lparr>lcount := lcount s - 1, waiter := Asleep\<rparr>)"
| wake: "waiter s = Asleep \<Longrightarrow> permits s > 0 \<Longrightarrow>
     sema_step s (s\<lparr>permits := permits s - 1, waiter := NotWaiting, waited := waited s + 1\<rparr>)"
| timeout: "waiter s = Asleep \<Longrightarrow> sema_step s (s\<lparr>waiter := Restore\<rparr>)"
| restore: "waiter s = Restore \<Longrightarrow>
     sema_step s (s\<lparr>lcount := lcount s + 1, waiter := (if lcount s < 0 then NotWaiting else Retry)\<rparr>)"
| retry: "waiter s = Retry \<Longrightarrow>
     sema_step s (s\<lparr>lcount := lcount s - 1, waiter := (if lcount s > 0 then TryPermit else Restore)\<rparr>)"
| permit: "waiter s = TryPermit \<Longrightarrow> permits s > 0 \<Longrightarrow>
     sema_step s (s\<lparr>permits := permits s - 1, waiter := NotWaiting, waited := waited s + 1\<rparr>)"
| no_permit: "waiter s = TryPermit \<Longrightarrow> permits s = 0 \<Longrightarrow> sema_step s (s\<lparr>waiter := Restore\<rparr>)"
| signal: "cnt > 0 \<Longrightarrow> sema_step s
     (s\<lparr>lcount := lcount s + cnt, signalled := signalled s + cnt,
        posting := (if lcount s < 0 then posting s + 1 else posting s)\<rparr>)"
| post: "posting s > 0 \<Longrightarrow> sema_step s (s\<lparr>posting := posting s - 1, permits := permits s + 1\<rparr>)"

inductive sema_reach :: "int \<Rightarrow> sema_system \<Rightarrow> bool" for c0 where
  start: "sema_reach c0 \<lparr>lcount = c0, permits = 0, posting = 0, waiter = NotWaiting, signalled = 0, waited = 0\<rparr>"
| step: "sema_reach c0 s \<Longrightarrow> sema_step s s' \<Longrightarrow> sema_reach c0 s'"

definition owed :: "int \<Rightarrow> sema_system \<Rightarrow> int" where
  "owed c0 s = c0 + signalled s - waited s"

fun sema_pc_ok :: "int \<Rightarrow> sema_system \<Rightarrow> wait_pc \<Rightarrow> bool" where
  "sema_pc_ok c0 s Seen \<longleftrightarrow> lcount s = owed c0 s \<and> 1 \<le> lcount s \<and> posting s + permits s = 0"
| "sema_pc_ok c0 s Retry \<longleftrightarrow> lcount s = owed c0 s \<and> 1 \<le> lcount s \<and> posting s + permits s = 1"
| "sema_pc_ok c0 s pc \<longleftrightarrow>
     (if pc \<in> {Asleep, Restore, TryPermit}
      then lcount s = owed c0 s - 1 \<and>
        (lcount s = -1 \<and> posting s + permits s = 0 \<or> 0 \<le> lcount s \<and> posting s + permits s = 1)
      else lcount s = owed c0 s \<and> 0 \<le> lcount s \<and> posting s + permits s = 0)"

lemma sema_step_inv:
  assumes "sema_step s s'" "sema_pc_ok c0 s (waiter s)"
  shows "sema_pc_ok c0 s' (waiter s')"
  using assms
proof (induction rule: sema_step.induct)
  case (signal cnt s)
  then show ?case by (cases "waiter s") (auto simp: owed_def)
next
  case (post s)
  then show ?case by (cases "waiter s") (auto simp: owed_def)
qed (auto simp: owed_def)

lemma sema_reach_inv: "sema_reach c0 s \<Longrightarrow> 0 \<le> c0 \<Longrightarrow> sema_pc_ok c0 s (waiter s)"
proof (induction rule: sema_reach.induct)
  case start
  then show ?case by (simp add: owed_def)
next
  case (step s s')
  then show ?case by (blast intro: sema_step_inv)
qed



text \<open>
  The nanoseconds handed to \<open>sem_timedwait\<close> are normalised with \<open>>\<close> where \<open>\<ge>\<close> is
  needed: they are at most a whole second, and when the sum is exactly a second they are a whole second,
  which the kernel refuses; the refusal is then reported as a successful wait.
\<close>

theorem timed_wait_refused:
  assumes "os_call sys Clock_gettime st = (t, st1)" "raddr t = (sec, nsec)" "0 \<le> nsec" "nsec < 1000000000" "0 \<le> usecs"
    and "os_call sys (Sem_timedwait (sec + usecs div 1000000) 1000000000) st1 = (r, st2)" "ret r = -1" "err r = EINVAL"
    and "nsec + usecs mod 1000000 * 1000 = 1000000000"
  shows "Semaphore_timed_wait sys usecs st = Some (True, st2)"
proof -
  have "errno st2 = EINVAL"
    using assms(6-8) by (auto simp: os_call_def split: prod.splits)
  then have "sem_retry sys (Sem_timedwait (sec + usecs div 1000000) 1000000000) st1 = Some (-1, st2)"
    using assms(6,7) by (subst sem_retry.simps) (simp add: EINVAL_def EINTR_def)
  with \<open>errno st2 = EINVAL\<close> assms(1,2,9) show ?thesis
    by (simp add: Semaphore_timed_wait_def deadline_def Let_def EINVAL_def ETIMEDOUT_def)
qed

definition sem_demo_os :: "unit os" where
  "sem_demo_os c k = (\<lparr>ret = (case c of Sem_timedwait a b \<Rightarrow> -1 | _ \<Rightarrow> 0), err = EINVAL, rdata = [], revents = [],
     raddr = (5, 999999000), rkevents = [], rkey = 0\<rparr>, ())"

theorem timed_wait_refused_witness:
  "\<exists>st2. Semaphore_timed_wait sem_demo_os 1 \<lparr>kernel = (), errno = 0, trace = []\<rparr> = Some (True, st2)"
proof -
  let ?st = "\<lparr>kernel = (), errno = 0, trace = []\<rparr> :: unit os_state"
  obtain t st1 where t: "os_call sem_demo_os Clock_gettime ?st = (t, st1)" by fastforce
  obtain r st2 where r: "os_call sem_demo_os (Sem_timedwait (5 + 1 div 1000000) 1000000000) st1 = (r, st2)" by fastforce
  have "raddr t = (5, 999999000)" "ret r = -1" "err r = EINVAL"
    using t r by (auto simp: os_call_def sem_demo_os_def)
  from timed_wait_refused [OF t this(1) _ _ _ r this(2,3)] show ?thesis by simp
qed

end
