(* ===== verification/Kqueue_Net.thy ===== *)
theory Kqueue_Net
  imports Net_World
begin

unbundle bit_operations_syntax

text \<open>
  The BSD back end, \<open>src/detail/kqueuenet.hpp\<close>.  It has the parts of the epoll back end
  but its own session with two atomic send positions, worker threads without message
  queues, and kernel queues that are changed by \<open>updateEvents\<close>.  The blocking waits take what
  the other threads do meanwhile as a parameter \<open>others\<close>.
\<close>

definition kReadEvent :: int where "kReadEvent = 1"
definition kWriteEvent :: int where "kWriteEvent = 2"

text \<open>Constants of \<open>sys/event.h\<close>, \<open>fcntl.h\<close> and \<open>errno.h\<close> on that platform.\<close>

definition EVFILT_READ :: int where "EVFILT_READ = -1"
definition EVFILT_WRITE :: int where "EVFILT_WRITE = -2"
definition EV_ADD :: int where "EV_ADD = 1"
definition EV_DELETE :: int where "EV_DELETE = 2"
definition EV_ENABLE :: int where "EV_ENABLE = 4"
definition BSD_O_NONBLOCK :: int where "BSD_O_NONBLOCK = 4"
definition BSD_EAGAIN :: int where "BSD_EAGAIN = 35"

lemmas kq_consts = kReadEvent_def kWriteEvent_def EVFILT_READ_def EVFILT_WRITE_def EV_ADD_def EV_DELETE_def
  EV_ENABLE_def BSD_O_NONBLOCK_def BSD_EAGAIN_def

record ksession = conn +
  k_kqueueFd :: int
  k_procFd :: int
  k_event :: NetEvent
  k_srv :: owner
  k_sendBuf :: "byte list"
  sndBufHead :: int
  sndBufTail :: int

record kscheduler =
  k_scheds :: int
  kqueueFd :: int
  k_threads :: int
  k_procFds :: "int list"

record ('s, 'k) knet = "('s, 'k) session_net" +
  kscheder :: kscheduler
  k_running :: bool
  runThreads :: "(int \<times> bool) list"

type_synonym ('x, 'k) kworld = "('x ksession_scheme, 'k) knet"
type_synonym ('s, 'k) kenv = "('s, 'k, ('s, 'k) knet) old_env"
type_synonym ('x, 'k) kqenv = "('x ksession_scheme, 'k, ('x ksession_scheme, 'k) knet) old_env"
type_synonym ('x, 'k) kmethod = "ptr \<Rightarrow> 'x ksession_scheme \<times> ('x, 'k) kworld \<Rightarrow> ('x ksession_scheme \<times> ('x, 'k) kworld) result"

definition would_block :: "('k, 'z) os_state_scheme \<Rightarrow> bool" where
  "would_block st \<longleftrightarrow> errno st = BSD_EAGAIN"

subsection \<open>Registration\<close>

definition event_changes :: "int \<Rightarrow> ev_data \<Rightarrow> int \<Rightarrow> bool \<Rightarrow> kevent list" where
  "event_changes f udata events modify =
     (if events AND kReadEvent \<noteq> 0
      then [\<lparr>kident = f, kfilter = EVFILT_READ, kflags = EV_ADD OR EV_ENABLE, kudata = udata\<rparr>]
      else if modify then [\<lparr>kident = f, kfilter = EVFILT_READ, kflags = EV_DELETE, kudata = udata\<rparr>] else []) @
     (if events AND kWriteEvent \<noteq> 0
      then [\<lparr>kident = f, kfilter = EVFILT_WRITE, kflags = EV_ADD OR EV_ENABLE, kudata = udata\<rparr>]
      else if modify then [\<lparr>kident = f, kfilter = EVFILT_WRITE, kflags = EV_DELETE, kudata = udata\<rparr>] else [])"

definition updateEvents ::
  "'k os \<Rightarrow> int \<Rightarrow> int \<Rightarrow> ev_data \<Rightarrow> int \<Rightarrow> bool \<Rightarrow> ('k, 'z) os_state_scheme \<Rightarrow> ('k, 'z) os_state_scheme" where
  "updateEvents sys efd f udata events modify st =
     os_do sys (Kevent_change efd (event_changes f udata events modify)) st"

subsection \<open>Scheduler\<close>

text \<open>The array of queue descriptors is filled from the front; the first failure ends the loop.\<close>

fun create_kqueues ::
  "'k os \<Rightarrow> nat list \<Rightarrow> int list \<times> ('k, 'z) os_state_scheme \<Rightarrow> int \<times> int list \<times> ('k, 'z) os_state_scheme" where
  "create_kqueues sys [] (fds, st) = (0, fds, st)"
| "create_kqueues sys (i # is) (fds, st) =
     (let (r, st) = os_call sys Kqueue st; fds = fds[i := ret r] in
      if ret r = -1 then (-1, fds, st) else create_kqueues sys is (fds, st))"

definition KScheduler_start :: "('s, 'k) kenv \<Rightarrow> ('s, 'k) knet \<Rightarrow> (int \<times> ('s, 'k) knet) result" where
  "KScheduler_start env st =
     (let (r, st) = os_call (old_os env) Kqueue st;
          st = st\<lparr>kscheder := (kscheder st)\<lparr>kqueueFd := ret r\<rparr>\<rparr> in
      if ret r = -1 then Inl (Thrown (errno st))
      else (let (c, fds, st) = create_kqueues (old_os env) [0..<nat MAX_THREAD] (k_procFds (kscheder st), st) in
        Inr (c, st\<lparr>kscheder := (kscheder st)\<lparr>k_procFds := fds\<rparr>\<rparr>)))"

definition KScheduler_stop :: "('s, 'k) kenv \<Rightarrow> ('s, 'k) knet \<Rightarrow> ('s, 'k) knet" where
  "KScheduler_stop env st =
     (let st = os_do (old_os env) (Close (kqueueFd (kscheder st))) st;
          st = st\<lparr>kscheder := (kscheder st)\<lparr>kqueueFd := 0xFFFFFF\<rparr>\<rparr>;
          st = fold (\<lambda>f. os_do (old_os env) (Close f)) (k_procFds (kscheder st)) st
      in st\<lparr>kscheder := (kscheder st)\<lparr>k_procFds := replicate (length (k_procFds (kscheder st))) 0xFFFFFF\<rparr>\<rparr>)"

definition KScheduler_push :: "('x, 'k) kqenv \<Rightarrow> ptr \<Rightarrow> ('x, 'k) kworld \<Rightarrow> ('x, 'k) kworld result" where
  "KScheduler_push env pSession st =
     rbind (deref (sessions st) pSession) (\<lambda>s.
     rbind (c_rem (fd s) (k_threads (kscheder st))) (\<lambda>procIdx.
     rbind (list_at (k_procFds (kscheder st)) procIdx) (\<lambda>procFd.
       let st = updateEvents (old_os env) procFd (fd s) (DataPtr pSession) (kReadEvent OR kWriteEvent) False st in
       rbind (assign (sessions st) pSession (s\<lparr>k_procFd := procFd\<rparr>)) (\<lambda>h.
         with_session pSession (rethrow (connected env)) (st\<lparr>sessions := h\<rparr>)))))"

definition KScheduler_associate :: "ptr \<Rightarrow> ('s, 'k) knet \<Rightarrow> ('s, 'k) knet" where
  "KScheduler_associate pSession st = st"

subsection \<open>Sessions\<close>

text \<open>Everything the constructor does not name is whatever the memory held.\<close>

definition KEventHandler :: "'x ksession_scheme \<Rightarrow> 'x ksession_scheme" where
  "KEventHandler mem = mem\<lparr>recvBufPos := 0, sndBufHead := 0, sndBufTail := 0\<rparr>"

definition ksend ::
  "('x, 'k) kqenv \<Rightarrow> byte list \<Rightarrow> 'x ksession_scheme \<times> ('x, 'k) kworld \<Rightarrow> int \<times> 'x ksession_scheme \<times> ('x, 'k) kworld" where
  "ksend env pData = (\<lambda>(s, st). let (r, st) = os_call (old_os env) (Send (fd s) pData) st in (s32 (ret r), s, st))"

definition ksend_cap :: "'x ksession_scheme \<Rightarrow> int" where
  "ksend_cap s = int (length (k_sendBuf s))"

text \<open>
  The loop that makes room: \<open>Inr (False, s)\<close> is the early return.  The comparison is between
  unsigned numbers.
\<close>

function make_space :: "int \<Rightarrow> 'x ksession_scheme \<Rightarrow> (bool \<times> 'x ksession_scheme) result" where
  "make_space dataLen s =
     (if dataLen > u32 (ksend_cap s - sndBufTail s) then
        (if sndBufHead s > 0 then
           (let dataSize = u32 (sndBufTail s - sndBufHead s) in
            case memmove (k_sendBuf s) 0 (sndBufHead s) dataSize of
              Inl e \<Rightarrow> Inl e
            | Inr buf \<Rightarrow> make_space dataLen (s\<lparr>k_sendBuf := buf, sndBufHead := 0, sndBufTail := s32 dataSize\<rparr>))
         else Inr (False, s))
      else Inr (True, s))"
  by pat_completeness auto
termination
  by (relation "measure (\<lambda>(_, s). nat (sndBufHead s))") auto

declare make_space.simps [simp del]

text \<open>What \<open>async_send\<close> does to the session; the flag says whether the bytes were queued.\<close>

definition kqueue_bytes :: "byte list \<Rightarrow> 'x ksession_scheme \<Rightarrow> (bool \<times> 'x ksession_scheme) result" where
  "kqueue_bytes pData s =
     (let dataLen = int (length pData) in
      rbind (make_space dataLen s) (\<lambda>(room, s).
        if \<not> room then Inr (False, s)
        else if dataLen < u32 (ksend_cap s - sndBufTail s) then
          (let pCurTail = sndBufTail s; s = s\<lparr>sndBufTail := s32 (sndBufTail s + dataLen)\<rparr> in
           rbind (memcpy (k_sendBuf s) pCurTail pData dataLen) (\<lambda>buf. Inr (True, s\<lparr>k_sendBuf := buf\<rparr>)))
        else Inr (False, s)))"

definition kasync_send ::
  "('x, 'k) kqenv \<Rightarrow> ptr \<Rightarrow> byte list \<Rightarrow> 'x ksession_scheme \<times> ('x, 'k) kworld \<Rightarrow>
   (int \<times> 'x ksession_scheme \<times> ('x, 'k) kworld) result" where
  "kasync_send env self pData = (\<lambda>(s, st).
     rbind (kqueue_bytes pData s) (\<lambda>(ok, s).
       if ok then Inr (0, s, updateEvents (old_os env) (k_procFd s) (fd s) (DataPtr self) kWriteEvent True st)
       else Inr (-1, s, st)))"

definition krecv_size :: "'x ksession_scheme \<Rightarrow> int" where
  "krecv_size s = int (length (recvBuf s)) - recvBufPos s"

text \<open>\<open>launch_recv\<close> reads the socket empty and throws the bytes away.\<close>

partial_function (option) drain_reads ::
  "'k os \<Rightarrow> int \<Rightarrow> int \<Rightarrow> ('k, 'z) os_state_scheme \<Rightarrow> (int \<times> ('k, 'z) os_state_scheme) option" where
  "drain_reads sys f n st =
     (let (r, st) = os_call sys (Read f n) st in if ret r > 0 then drain_reads sys f n st else Some (ret r, st))"

definition klaunch_recv ::
  "('x, 'k) kqenv \<Rightarrow> ptr \<Rightarrow> 'x ksession_scheme \<times> ('x, 'k) kworld \<Rightarrow> ('x ksession_scheme \<times> ('x, 'k) kworld) option" where
  "klaunch_recv env self = (\<lambda>(s, st).
     let s = s\<lparr>k_event := EVT_RECV\<rparr> in
     if recvBufPos s \<ge> int (length (recvBuf s)) then Some (s, st)
     else (case drain_reads (old_os env) (fd s) (2048 * 64) st of None \<Rightarrow> None
           | Some (n, st) \<Rightarrow>
               if n < 0 \<and> would_block st then Some (s, st) else Some (s, os_do (old_os env) (Close (fd s)) st)))"

definition ksession_close :: "('x, 'k) kqenv \<Rightarrow> ('x, 'k) kmethod" where
  "ksession_close env self = (\<lambda>(s, st). Inr (s, os_do (old_os env) (Close (fd s)) st))"

definition kdefault_method :: "('x, 'k) kmethod" where
  "kdefault_method self sw = Inr sw"

definition kdefault_parse :: "byte list \<Rightarrow> byte list option" where
  "kdefault_parse pData = Some pData"

subsection \<open>Processor\<close>

record kfactories =
  k_innerFactory :: "ptr option"
  k_factory :: ptr

definition KProcessor_new :: "unit store \<Rightarrow> kfactories \<times> unit store" where
  "KProcessor_new h = (let (f, h') = heap_new () h in (\<lparr>k_innerFactory = Some f, k_factory = f\<rparr>, h'))"

definition KProcessor_given :: "ptr \<Rightarrow> kfactories" where
  "KProcessor_given given = \<lparr>k_innerFactory = None, k_factory = given\<rparr>"

definition KProcessor_destroy :: "kfactories \<Rightarrow> unit store \<Rightarrow> unit store" where
  "KProcessor_destroy f h = h"

fun kstart_workers :: "('s, 'k) kenv \<Rightarrow> int list \<Rightarrow> ('s, 'k) knet \<Rightarrow> ('s, 'k) knet result" where
  "kstart_workers env [] st = Inr st"
| "kstart_workers env (i # is) st =
     (let (r, st) = os_call (old_os env) (Thread_create (ProcessorRun i)) st in
      if ret r < 0 then Inl (Thrown (errno st))
      else kstart_workers env is (st\<lparr>runThreads := runThreads st @ [(i, True)]\<rparr>))"

text \<open>
  \<open>config.threads > threads > MAX_THREAD\<close> compares a truth value with 50; \<open>threads0\<close> is the
  uninitialised variable on its own left-hand side.
\<close>

definition kworker_count :: "int \<Rightarrow> properties \<Rightarrow> int" where
  "kworker_count threads0 cfg =
     (if of_bool (cfg_threads cfg > threads0) > MAX_THREAD then MAX_THREAD else cfg_threads cfg)"

definition KProcessor_start ::
  "('s, 'k) kenv \<Rightarrow> int \<Rightarrow> properties \<Rightarrow> ('s, 'k) knet \<Rightarrow> (int \<times> ('s, 'k) knet) result" where
  "KProcessor_start env threads0 cfg st =
     (let st = st\<lparr>k_running := True\<rparr>;
          threads = kworker_count threads0 cfg;
          st = st\<lparr>kscheder := (kscheder st)\<lparr>k_threads := threads\<rparr>\<rparr> in
      rbind (kstart_workers env [0..threads - 1] st) (\<lambda>st. Inr (0, st)))"

text \<open>Joining a thread object twice throws.\<close>

fun kjoin :: "'k os \<Rightarrow> (int \<times> bool) list \<Rightarrow> ('k, 'z) os_state_scheme \<Rightarrow> ((int \<times> bool) list \<times> ('k, 'z) os_state_scheme) result" where
  "kjoin sys [] st = Inr ([], st)"
| "kjoin sys ((i, joinable) # ts) st =
     (if joinable then
        rbind (kjoin sys ts (os_do sys (Thread_join (ProcessorRun i)) st)) (\<lambda>(ts, st). Inr ((i, False) # ts, st))
      else Inl (Thrown EINVAL))"

definition KProcessor_stop :: "('s, 'k) kenv \<Rightarrow> ('s, 'k) knet \<Rightarrow> ('s, 'k) knet result" where
  "KProcessor_stop env st =
     (let st = st\<lparr>k_running := False\<rparr> in
      rbind (kjoin (old_os env) (runThreads st) st) (\<lambda>(ts, st). Inr (st\<lparr>runThreads := ts\<rparr>)))"

text \<open>A static member that no code calls; \<open>ready\<close> is its uninitialised variable.\<close>

definition khandle_event ::
  "('x, 'k) kqenv \<Rightarrow> int \<Rightarrow> ptr \<Rightarrow> ('x, 'k) kworld \<Rightarrow> ('x, 'k) kworld result option" where
  "khandle_event env ready clt st =
     obind (Some (deref (sessions st) clt)) (\<lambda>s.
     let store = (\<lambda>(s, st). Some (rbind (assign (sessions st) clt s) (\<lambda>h. Inr (st\<lparr>sessions := h\<rparr>)))) in
     case k_event s of
       EVT_RECV \<Rightarrow>
         (if 0 \<ge> ready then store (s\<lparr>k_event := EVT_DISCONNECT\<rparr>, st)
          else
            obind (recv_data True (cut_packet env) (\<lambda>pkt. arrived env pkt clt) (s, st) ready) (\<lambda>sw.
              case klaunch_recv env clt sw of None \<Rightarrow> None | Some sw \<Rightarrow> store sw))
     | EVT_CONNECT \<Rightarrow>
         obind (Some (connected env clt (s, KScheduler_associate clt st))) (\<lambda>(e, s, st).
           case e of
             None \<Rightarrow> (case klaunch_recv env clt (s, st) of None \<Rightarrow> None | Some sw \<Rightarrow> store sw)
           | Some _ \<Rightarrow>
               (let st = os_do (old_os env) (Close (fd s)) st in
                Some (rbind (heap_delete clt (sessions st)) (\<lambda>h. Inr (st\<lparr>sessions := h\<rparr>)))))
     | EVT_DISCONNECT \<Rightarrow>
         obind (Some (disconnected env clt (s, st))) (\<lambda>(s, st).
           let st = os_do (old_os env) (Close (fd s)) st in
           Some (rbind (heap_delete clt (sessions st)) (\<lambda>h. Inr (st\<lparr>sessions := h\<rparr>))))
     | EVT_SEND \<Rightarrow>
         (if 0 \<ge> ready then store (s\<lparr>k_event := EVT_DISCONNECT\<rparr>, st)
          else obind (Some (sent_out env (u32 ready) clt (s, st))) store)
     | _ \<Rightarrow> Some (Inr st))"

text \<open>An error or the end of the stream: the descriptor is closed, the session stays.\<close>

definition kdrop ::
  "('x, 'k) kqenv \<Rightarrow> int \<Rightarrow> int \<Rightarrow> ptr \<Rightarrow> int \<Rightarrow> ('x, 'k) kworld \<Rightarrow> ('x, 'k) kworld result" where
  "kdrop env procFd f pSession events st =
     (let st = updateEvents (old_os env) procFd f (DataPtr pSession) events True st;
          st = os_do (old_os env) (Close f) st in
      tell (proc_handler env) EVT_SESSION_RELEASE pSession st)"

definition on_kread ::
  "('x, 'k) kqenv \<Rightarrow> int \<Rightarrow> ptr \<Rightarrow> ('x, 'k) kworld \<Rightarrow> ('x, 'k) kworld result option" where
  "on_kread env procFd pSession st =
     obind (Some (deref (sessions st) pSession)) (\<lambda>s.
       let f = fd s; (r, st) = os_call (old_os env) (Recv f (krecv_size s)) st; recvLen = ret r in
       if recvLen < 0 \<and> would_block st then Some (Inr st)
       else if recvLen < 0 then Some (kdrop env procFd f pSession kReadEvent st)
       else if recvLen = 0 then Some (kdrop env procFd f pSession (kReadEvent OR kWriteEvent) st)
       else
         obind (recv_chunk True (cut_packet env) (\<lambda>pkt. arrived env pkt pSession) (s, st) (rdata r)) (\<lambda>(s, st).
         obind (Some (assign (sessions st) pSession s)) (\<lambda>h. Some (Inr (st\<lparr>sessions := h\<rparr>)))))"

text \<open>What the writing branch does to the session when the socket takes \<open>sntLen\<close> bytes.\<close>

definition kadvance :: "int \<Rightarrow> 'x ksession_scheme \<Rightarrow> 'x ksession_scheme" where
  "kadvance sntLen s = (if sntLen > 0 then s\<lparr>sndBufHead := s32 (sndBufHead s + sntLen)\<rparr> else s)"

definition on_kwrite ::
  "('x, 'k) kqenv \<Rightarrow> int \<Rightarrow> ptr \<Rightarrow> ('x, 'k) kworld \<Rightarrow> ('x, 'k) kworld result" where
  "on_kwrite env procFd pSession st =
     rbind (deref (sessions st) pSession) (\<lambda>s.
     rbind (mem_read (k_sendBuf s) (sndBufHead s) (sndBufTail s - sndBufHead s)) (\<lambda>pData.
       let (r, st) = os_call (old_os env) (Send (fd s) pData) st in
       rbind (assign (sessions st) pSession (kadvance (ret r) s)) (\<lambda>h.
         let st = st\<lparr>sessions := h\<rparr> in
         if would_block st then
           Inr (updateEvents (old_os env) procFd (fd s) (DataPtr pSession) kWriteEvent True st)
         else Inr (updateEvents (old_os env) procFd (fd s) (DataPtr pSession) kReadEvent True st))))"

definition kworker_event ::
  "('x, 'k) kqenv \<Rightarrow> int \<Rightarrow> kevent \<Rightarrow> ('x, 'k) kworld \<Rightarrow> ('x, 'k) kworld result option" where
  "kworker_event env procFd ev st =
     (let pSession = data_ptr (kudata ev) in
      obind (Some (deref (sessions st) pSession)) (\<lambda>s.
        if kfilter ev = EVFILT_READ then on_kread env procFd pSession st
        else if kfilter ev = EVFILT_WRITE then Some (on_kwrite env procFd pSession st)
        else Some (Inr st)))"

fun kworker_events ::
  "('x, 'k) kqenv \<Rightarrow> int \<Rightarrow> kevent list \<Rightarrow> ('x, 'k) kworld \<Rightarrow> ('x, 'k) kworld result option" where
  "kworker_events env procFd [] st = Some (Inr st)"
| "kworker_events env procFd (ev # evs) st = obind (kworker_event env procFd ev st) (kworker_events env procFd evs)"

definition kworker_turn ::
  "('x, 'k) kqenv \<Rightarrow> int \<Rightarrow> ('x, 'k) kworld \<Rightarrow> ('x, 'k) kworld result option" where
  "kworker_turn env procFd st =
     (let (r, st) = os_call (old_os env) (Kevent_wait procFd MAX_WAIT_EVENT 10000) st in
      kworker_events env procFd (take (nat (ret r)) (rkevents r)) st)"

partial_function (option) kworker_loop ::
  "('x, 'k) kqenv \<Rightarrow> (('x, 'k) kworld \<Rightarrow> ('x, 'k) kworld) \<Rightarrow> int \<Rightarrow> ('x, 'k) kworld \<Rightarrow> ('x, 'k) kworld result option" where
  "kworker_loop env others procFd st =
     (if k_running st then
        (case kworker_turn env procFd (others st) of
           None \<Rightarrow> None | Some (Inl e) \<Rightarrow> Some (Inl e)
         | Some (Inr st') \<Rightarrow> kworker_loop env others procFd st')
      else Some (Inr st))"

definition KProcessor_run ::
  "('x, 'k) kqenv \<Rightarrow> (('x, 'k) kworld \<Rightarrow> ('x, 'k) kworld) \<Rightarrow> int \<Rightarrow> ('x, 'k) kworld \<Rightarrow> ('x, 'k) kworld result option" where
  "KProcessor_run env others index st =
     obind (Some (list_at (k_procFds (kscheder st)) index)) (\<lambda>procFd. kworker_loop env others procFd st)"

end
