(* ===== verification/Kqueue_Service.thy ===== *)
theory Kqueue_Service
  imports Kqueue_Net
begin

unbundle bit_operations_syntax

text \<open>
  The outer half of \<open>src/detail/kqueuenet.hpp\<close>: the listener with its accepting thread, the
  connector, and the service that owns both.
\<close>

subsection \<open>Listener\<close>

record klistener =
  kl_ip :: int
  kl_port :: int
  kl_backlogs :: int
  listenFd :: int
  kl_running :: bool
  kl_thread :: bool
  m_config :: properties

definition setNoBlock :: "'k os \<Rightarrow> int \<Rightarrow> ('k, 'z) os_state_scheme \<Rightarrow> ('k, 'z) os_state_scheme" where
  "setNoBlock sys f st =
     (let (flags, st) = os_call sys (Fcntl_getfl f) st in
      os_do sys (Fcntl_setfl f (ret flags OR BSD_O_NONBLOCK)) st)"

definition KListener_start ::
  "('s, 'k) kenv \<Rightarrow> properties \<Rightarrow> klistener \<Rightarrow> ('s, 'k) knet \<Rightarrow> int \<times> klistener \<times> ('s, 'k) knet" where
  "KListener_start env cfg l st =
     (let l = l\<lparr>m_config := cfg, kl_running := True\<rparr>;
          kfd = kqueueFd (kscheder st);
          (r, st) = os_call (old_os env) Socket st; lisFd = ret r in
      if lisFd = -1 then (-1, l, st)
      else
        (let (b, st) = os_call (old_os env) (Bind lisFd 0 (htons (kl_port l))) st in
         if ret b = -1 then (-1, l, st)
         else
           (let l = l\<lparr>kl_backlogs := 20\<rparr>;
                (n, st) = os_call (old_os env) (Listen lisFd (kl_backlogs l)) st in
            if ret n = -1 then (-1, l, st)
            else
              (let st = setNoBlock (old_os env) lisFd st;
                   st = updateEvents (old_os env) kfd lisFd (DataFd lisFd) kReadEvent False st;
                   l = l\<lparr>listenFd := lisFd\<rparr>;
                   (t, st) = os_call (old_os env) (Thread_create ListenerRun) st in
               if ret t < 0 then (-1, l, os_do (old_os env) (Close lisFd) st)
               else (0, l\<lparr>kl_thread := True\<rparr>, st)))))"

definition KListener_stop :: "('s, 'k) kenv \<Rightarrow> klistener \<Rightarrow> ('s, 'k) knet \<Rightarrow> (klistener \<times> ('s, 'k) knet) result" where
  "KListener_stop env l st =
     (let l = l\<lparr>kl_running := False\<rparr>;
          st = os_do (old_os env) (Close (listenFd l)) st in
      if kl_thread l then Inr (l\<lparr>kl_thread := False\<rparr>, os_do (old_os env) (Thread_join ListenerRun) st)
      else Inl (Thrown EINVAL))"

text \<open>A readable descriptor that is not the listening one is served by an echo loop.\<close>

partial_function (option) echo_loop ::
  "'k os \<Rightarrow> int \<Rightarrow> ('k, 'z) os_state_scheme \<Rightarrow> (int \<times> ('k, 'z) os_state_scheme) option" where
  "echo_loop sys f st =
     (let (r, st) = os_call sys (Read f 4096) st in
      if ret r > 0 then echo_loop sys f (os_do sys (Write f (rdata r)) st) else Some (ret r, st))"

definition handleRead :: "'k os \<Rightarrow> int \<Rightarrow> ('k, 'z) os_state_scheme \<Rightarrow> ('k, 'z) os_state_scheme option" where
  "handleRead sys f st =
     (case echo_loop sys f st of None \<Rightarrow> None
      | Some (n, st) \<Rightarrow> if n < 0 \<and> would_block st then Some st else Some (os_do sys (Close f) st))"

definition handleWrite :: "'k os \<Rightarrow> int \<Rightarrow> int \<Rightarrow> ('k, 'z) os_state_scheme \<Rightarrow> ('k, 'z) os_state_scheme" where
  "handleWrite sys efd f st = updateEvents sys efd f (DataFd f) kReadEvent True st"

text \<open>The session's fields are written before the assertion that there is a session.\<close>

definition kaccept_one ::
  "('x, 'k) kqenv \<Rightarrow> klistener \<Rightarrow> int \<Rightarrow> ('x, 'k) kworld \<Rightarrow> ('x, 'k) kworld result" where
  "kaccept_one env l f st =
     (let (r, st) = os_call (old_os env) (Accept f) st; cfd = ret r in
      if cfd < 0 then Inr st
      else
        (let st = os_do (old_os env) (Getpeername cfd) st;
             st = setNoBlock (old_os env) cfd st in
         rbind (c_rem cfd (cfg_threads (m_config l))) (\<lambda>procIdx.
         rbind (list_at (k_procFds (kscheder st)) procIdx) (\<lambda>procFd.
           let (pSession, h) = make_session env (sessions st); st = st\<lparr>sessions := h\<rparr> in
           rbind (deref (sessions st) pSession) (\<lambda>s.
           rbind (assign (sessions st) pSession (s\<lparr>fd := cfd, k_procFd := procFd\<rparr>)) (\<lambda>h.
           rbind (c_assert (no_assert env) (pSession \<noteq> 0)) (\<lambda>_.
           rbind (tell (user_handler env) EVT_SESSION_CREATE pSession (st\<lparr>sessions := h\<rparr>)) (\<lambda>st.
           rbind (deref (sessions st) pSession) (\<lambda>s.
             with_session pSession (rethrow (connected env))
               (updateEvents (old_os env) procFd (fd s) (DataPtr pSession) (kReadEvent OR kWriteEvent) False st))))))))))"

definition klisten_event ::
  "('x, 'k) kqenv \<Rightarrow> klistener \<Rightarrow> kevent \<Rightarrow> ('x, 'k) kworld \<Rightarrow> ('x, 'k) kworld result option" where
  "klisten_event env l ev st =
     (let f = data_fd (kudata ev) in
      if kfilter ev = EVFILT_READ then
        (if f = listenFd l then Some (kaccept_one env l f st)
         else map_option Inr (handleRead (old_os env) f st))
      else if kfilter ev = EVFILT_WRITE then
        Some (Inr (handleWrite (old_os env) (kqueueFd (kscheder st)) f st))
      else Some (Inr st))"

fun klisten_events ::
  "('x, 'k) kqenv \<Rightarrow> klistener \<Rightarrow> kevent list \<Rightarrow> ('x, 'k) kworld \<Rightarrow> ('x, 'k) kworld result option" where
  "klisten_events env l [] st = Some (Inr st)"
| "klisten_events env l (ev # evs) st = obind (klisten_event env l ev st) (klisten_events env l evs)"

partial_function (option) klisten_loop ::
  "('x, 'k) kqenv \<Rightarrow> (klistener \<times> ('x, 'k) kworld \<Rightarrow> klistener \<times> ('x, 'k) kworld) \<Rightarrow> int \<Rightarrow>
   klistener \<Rightarrow> ('x, 'k) kworld \<Rightarrow> (klistener \<times> ('x, 'k) kworld) result option" where
  "klisten_loop env others kfd l st =
     (if kl_running l then
        (let (r, st) = os_call (old_os env) (Kevent_wait kfd MAX_WAIT_EVENT 10000) st; (l, st) = others (l, st) in
         case klisten_events env l (take (nat (ret r)) (rkevents r)) st of
           None \<Rightarrow> None | Some (Inl e) \<Rightarrow> Some (Inl e)
         | Some (Inr st) \<Rightarrow> klisten_loop env others kfd l st)
      else Some (Inr (l, st)))"

definition KListener_run ::
  "('x, 'k) kqenv \<Rightarrow> (klistener \<times> ('x, 'k) kworld \<Rightarrow> klistener \<times> ('x, 'k) kworld) \<Rightarrow>
   klistener \<Rightarrow> ('x, 'k) kworld \<Rightarrow> (klistener \<times> ('x, 'k) kworld) result option" where
  "KListener_run env others l st = klisten_loop env others (kqueueFd (kscheder st)) l st"

subsection \<open>Connector\<close>

record kconnector =
  kc_ip :: int
  kc_port :: int
  kc_fd :: int

definition KConnector_connect ::
  "('x, 'k) kqenv \<Rightarrow> kconnector \<Rightarrow> ('x, 'k) kworld \<Rightarrow> (int \<times> kconnector \<times> ('x, 'k) kworld) result" where
  "KConnector_connect env c st =
     (let (r, st) = os_call (old_os env) Socket st; c = c\<lparr>kc_fd := ret r\<rparr> in
      if ret r = -1 then Inl (Thrown (errno st))
      else
        (let addr = (kc_ip c, htons (kc_port c));
             (r, st) = os_call (old_os env) (Connect (kc_fd c) (fst addr) (snd addr)) st in
         if ret r = -1 then Inl (Thrown (errno st))
         else
           (let (clt, h) = heap_new ((new_session env)
                  \<lparr>k_kqueueFd := kqueueFd (kscheder st), fd := kc_fd c, ip := fst addr, port := htons (snd addr),
                   k_event := EVT_CONNECT, k_srv := OwnedByConnector, isPassive := False\<rparr>) (sessions st) in
            rbind (KScheduler_push env clt (st\<lparr>sessions := h\<rparr>)) (\<lambda>st. Inr (0, c, st)))))"

definition KConnector_start ::
  "('x, 'k) kqenv \<Rightarrow> kconnector \<Rightarrow> ('x, 'k) kworld \<Rightarrow> (int \<times> kconnector \<times> ('x, 'k) kworld) result" where
  "KConnector_start env c st = KConnector_connect env c st"

definition KConnector_stop :: "('s, 'k) kenv \<Rightarrow> kconnector \<Rightarrow> ('s, 'k) knet \<Rightarrow> ('s, 'k) knet" where
  "KConnector_stop env c st = os_do (old_os env) (Close (kc_fd c)) st"

subsection \<open>TCPService\<close>

record kservice =
  klisteners :: "klistener list"
  kconnectors :: "kconnector list"
  ksvc_config :: properties

definition KTCPService :: kservice where
  "KTCPService = \<lparr>klisteners = [], kconnectors = [], ksvc_config = Properties\<rparr>"

text \<open>\<open>fd0\<close> is the uninitialised descriptor of the new listener or connector.\<close>

definition kaddListener :: "int \<Rightarrow> int \<Rightarrow> int \<Rightarrow> kservice \<Rightarrow> kservice" where
  "kaddListener fd0 addr port' v = v\<lparr>klisteners := klisteners v @
     [\<lparr>kl_ip = addr, kl_port = port', kl_backlogs = cfg_backlogs (ksvc_config v), listenFd = fd0,
       kl_running = False, kl_thread = False, m_config = Properties\<rparr>]\<rparr>"

definition kaddConnector :: "int \<Rightarrow> int \<Rightarrow> int \<Rightarrow> kservice \<Rightarrow> kservice" where
  "kaddConnector fd0 addr port' v = v\<lparr>kconnectors := kconnectors v @ [\<lparr>kc_ip = addr, kc_port = port', kc_fd = fd0\<rparr>]\<rparr>"

fun kstart_listeners ::
  "('s, 'k) kenv \<Rightarrow> properties \<Rightarrow> klistener list \<Rightarrow> ('s, 'k) knet \<Rightarrow> (klistener list \<times> ('s, 'k) knet) result" where
  "kstart_listeners env cfg [] st = Inr ([], st)"
| "kstart_listeners env cfg (l # ls) st =
     (let (r, l, st) = KListener_start env cfg l st in
      rbind (tell (user_handler env) (if r = 0 then EVT_LISTEN else EVT_LISTEN_FAIL) 0 st) (\<lambda>st.
      rbind (kstart_listeners env cfg ls st) (\<lambda>(ls, st). Inr (l # ls, st))))"

fun kstart_connectors ::
  "('x, 'k) kqenv \<Rightarrow> kconnector list \<Rightarrow> ('x, 'k) kworld \<Rightarrow> (kconnector list \<times> ('x, 'k) kworld) result" where
  "kstart_connectors env [] st = Inr ([], st)"
| "kstart_connectors env (c # cs) st =
     rbind (KConnector_start env c st) (\<lambda>(r, c, st).
     rbind (tell (user_handler env) (if r = 0 then EVT_CONNECT else EVT_CONNECT_FAIL) 0 st) (\<lambda>st.
     rbind (kstart_connectors env cs st) (\<lambda>(cs, st). Inr (c # cs, st))))"

definition kfix_config :: "properties \<Rightarrow> properties" where
  "kfix_config cfg =
     (let cfg = (if cfg_backlogs cfg \<le> 0 then cfg\<lparr>cfg_backlogs := 10\<rparr> else cfg) in
      if cfg_threads cfg \<le> 0 then cfg\<lparr>cfg_threads := 1\<rparr> else cfg)"

text \<open>The result of the scheduler's start is not looked at.\<close>

definition KTCPService_start ::
  "('x, 'k) kqenv \<Rightarrow> int \<Rightarrow> kservice \<Rightarrow> ('x, 'k) kworld \<Rightarrow> (int \<times> kservice \<times> ('x, 'k) kworld) result" where
  "KTCPService_start env threads0 v st =
     (let v = v\<lparr>ksvc_config := kfix_config (ksvc_config v)\<rparr>;
          st = st\<lparr>kscheder := (kscheder st)\<lparr>k_scheds := scheds (ksvc_config v)\<rparr>\<rparr> in
      rbind (KScheduler_start env st) (\<lambda>(_, st).
      rbind (KProcessor_start env threads0 (ksvc_config v) st) (\<lambda>(_, st).
      rbind (kstart_listeners env (ksvc_config v) (klisteners v) st) (\<lambda>(ls, st).
      rbind (kstart_connectors env (kconnectors v) (os_do (old_os env) (Usleep 1) st)) (\<lambda>(cs, st).
        Inr (0, v\<lparr>klisteners := ls, kconnectors := cs\<rparr>, st))))))"

fun kstop_listeners ::
  "('s, 'k) kenv \<Rightarrow> klistener list \<Rightarrow> ('s, 'k) knet \<Rightarrow> (klistener list \<times> ('s, 'k) knet) result" where
  "kstop_listeners env [] st = Inr ([], st)"
| "kstop_listeners env (l # ls) st =
     rbind (KListener_stop env l st) (\<lambda>(l, st).
     rbind (kstop_listeners env ls st) (\<lambda>(ls, st). Inr (l # ls, st)))"

definition KTCPService_stop ::
  "('s, 'k) kenv \<Rightarrow> kservice \<Rightarrow> ('s, 'k) knet \<Rightarrow> (kservice \<times> ('s, 'k) knet) result" where
  "KTCPService_stop env v st =
     rbind (kstop_listeners env (klisteners v) st) (\<lambda>(ls, st).
       let st = fold (KConnector_stop env) (kconnectors v) (os_do (old_os env) (Usleep 1000) st) in
       Inr (v\<lparr>klisteners := ls\<rparr>, KScheduler_stop env st))"

end
