(* ===== verification/Kqueue_Props.thy ===== *)
theory Kqueue_Props
  imports Kqueue_Service
begin

text \<open>
  What the BSD back end guarantees and where it does not: its send positions against the
  send buffer of the epoll back end, the race between \<open>async_send\<close> and the worker, the receive
  path with its patched terminator, the end of a session, and the choice of a worker.
\<close>

subsection \<open>The send positions\<close>

definition out_buf :: "'x ksession_scheme \<Rightarrow> send_buffer" where
  "out_buf s = \<lparr>dataHead = sndBufHead s, dataTail = sndBufTail s, dataBuf = k_sendBuf s\<rparr>"

definition with_out_buf :: "'x ksession_scheme \<Rightarrow> send_buffer \<Rightarrow> 'x ksession_scheme" where
  "with_out_buf s sb = s\<lparr>k_sendBuf := dataBuf sb, sndBufHead := dataHead sb, sndBufTail := dataTail sb\<rparr>"

definition ks_inv :: "'x ksession_scheme \<Rightarrow> bool" where
  "ks_inv s \<longleftrightarrow> sb_inv (ksend_cap s) (out_buf s)"

definition ks_contents :: "'x ksession_scheme \<Rightarrow> byte list" where
  "ks_contents s = sb_contents (out_buf s)"

lemma out_buf_with [simp]: "out_buf (with_out_buf s sb) = sb"
  by (simp add: out_buf_def with_out_buf_def)

lemma with_out_buf_self [simp]: "with_out_buf s (out_buf s) = s"
  by (simp add: out_buf_def with_out_buf_def)

text \<open>Making room is \<open>make_room\<close> of the send buffer, followed by the test of the second turn.\<close>

lemma make_space_eq:
  assumes "ks_inv s"
  shows "make_space n s = rbind (make_room (ksend_cap s) (out_buf s) n) (\<lambda>(go_on, sb).
    Inr (go_on \<and> n \<le> u32 (ksend_cap s - dataTail sb), with_out_buf s sb))"
proof -
  let ?l = "sndBufTail s - sndBufHead s" and ?N = "ksend_cap s"
  have r: "0 \<le> sndBufHead s" "0 \<le> ?l" "?l < 2 ^ 31" "?N < 2 ^ 31" "sndBufHead s + ?l \<le> int (length (k_sendBuf s))"
    using assms by (auto simp: ks_inv_def sb_inv_def out_buf_def ksend_cap_def)
  show ?thesis
  proof (cases "u32 (?N - sndBufTail s) < n \<and> 0 < sndBufHead s")
    case True
    obtain buf where buf: "memmove (k_sendBuf s) 0 (sndBufHead s) ?l = Inr buf" "length buf = length (k_sendBuf s)"
      using r by (rule_tac memmove_front [of "sndBufHead s" ?l "k_sendBuf s"]) auto
    have same: "buf = k_sendBuf s" if "?l = 0"
      using buf(1) r that by (simp add: memmove_def mem_read_def mem_write_def)
    let ?s = "s\<lparr>k_sendBuf := buf, sndBufHead := 0, sndBufTail := ?l\<rparr>"
    have one: "make_space n s = make_space n ?s"
      using True buf(1) r by (subst make_space.simps) (simp add: Let_def)
    have two: "make_space n ?s = Inr (n \<le> u32 (?N - ?l), ?s)"
      using buf(2) by (subst make_space.simps) (simp add: ksend_cap_def)
    show ?thesis
    proof (cases "?l = 0")
      case False
      with True r buf(1) show ?thesis
        unfolding one two by (simp add: make_room_def out_buf_def with_out_buf_def Let_def)
    next
      case z: True
      with True same show ?thesis
        unfolding one two by (simp add: make_room_def out_buf_def with_out_buf_def Let_def)
    qed
  next
    case False
    then show ?thesis
      by (subst make_space.simps) (auto simp: make_room_def out_buf_def with_out_buf_def)
  qed
qed

lemma kqueue_bytes_eq:
  assumes "ks_inv s" "int (length xs) < 2 ^ 32"
  shows "kqueue_bytes xs s = rbind (push True (ksend_cap s) (out_buf s) xs (int (length xs))) (\<lambda>(ok, sb).
    Inr (ok, with_out_buf s sb))"
proof -
  let ?n = "int (length xs)" and ?N = "ksend_cap s"
  have inv: "sb_inv ?N (out_buf s)"
    using assms(1) by (simp add: ks_inv_def)
  obtain go sb where room: "make_room ?N (out_buf s) ?n = Inr (go, sb)" "sb_inv ?N sb"
    using make_room_ok [OF inv] by metis
  have u: "u32 (?N - dataTail sb) = ?N - dataTail sb" "u32 (dataTail sb) = dataTail sb"
    using room(2) by (simp_all add: sb_inv_def)
  have cap: "ksend_cap (with_out_buf s sb) = ?N"
    using room(2) by (simp add: ksend_cap_def with_out_buf_def sb_inv_def)
  have f: "sndBufTail (with_out_buf s sb) = dataTail sb" "k_sendBuf (with_out_buf s sb) = dataBuf sb"
    by (simp_all add: with_out_buf_def)
  have sp: "make_space ?n s = Inr (go \<and> ?n \<le> ?N - dataTail sb, with_out_buf s sb)"
    using make_space_eq [OF assms(1), of ?n] room(1) u by simp
  show ?thesis
  proof (cases "memcpy (dataBuf sb) (dataTail sb) xs ?n")
    case (Inl e)
    then show ?thesis
      using sp room(1) u cap f by (simp add: kqueue_bytes_def push_def Let_def)
  next
    case (Inr buf)
    then show ?thesis
      using sp room(1) u cap f by (simp add: kqueue_bytes_def push_def Let_def) (simp add: with_out_buf_def)
  qed
qed

lemma kqueue_bytes_ok:
  assumes "ks_inv s" "int (length xs) < 2 ^ 32"
  obtains s' where "kqueue_bytes xs s = Inr (push_fits (ksend_cap s) (out_buf s) (int (length xs)), s')" "ks_inv s'"
    "ks_contents s' = (if push_fits (ksend_cap s) (out_buf s) (int (length xs)) then ks_contents s @ xs else ks_contents s)"
    "s' = with_out_buf s (out_buf s')"
proof -
  let ?n = "int (length xs)" and ?N = "ksend_cap s"
  have inv: "sb_inv ?N (out_buf s)"
    using assms(1) by (simp add: ks_inv_def)
  obtain sb where sb: "push True ?N (out_buf s) xs ?n = Inr (push_fits ?N (out_buf s) ?n, sb)" "sb_inv ?N sb"
    "sb_contents sb = (if push_fits ?N (out_buf s) ?n then sb_contents (out_buf s) @ xs else sb_contents (out_buf s))"
    by (rule push_ok [OF inv _ assms(2), of xs True]) auto
  have "ksend_cap (with_out_buf s sb) = ?N"
    using sb(2) by (simp add: ksend_cap_def with_out_buf_def sb_inv_def)
  then show thesis
    using sb kqueue_bytes_eq [OF assms] by (intro that [of "with_out_buf s sb"]) (auto simp: ks_inv_def ks_contents_def)
qed

text \<open>The writing branch of the worker, as a drain of the queued bytes.\<close>

definition kdrain :: "(byte list \<Rightarrow> int) \<Rightarrow> 'x ksession_scheme \<Rightarrow> 'x ksession_scheme result" where
  "kdrain h s = rbind (mem_read (k_sendBuf s) (sndBufHead s) (sndBufTail s - sndBufHead s)) (\<lambda>pData.
     Inr (kadvance (h pData) s))"

lemma ks_read:
  "ks_inv s \<Longrightarrow> mem_read (k_sendBuf s) (sndBufHead s) (sndBufTail s - sndBufHead s) = Inr (ks_contents s)"
  by (simp add: ks_inv_def sb_inv_def ks_contents_def sb_contents_def out_buf_def ksend_cap_def mem_read_ok)

lemma length_ks_contents: "ks_inv s \<Longrightarrow> int (length (ks_contents s)) = sndBufTail s - sndBufHead s"
  unfolding ks_inv_def ks_contents_def by (drule length_sb_contents) (simp add: out_buf_def)

lemma kadvance_ok:
  assumes "ks_inv s" "n \<le> int (length (ks_contents s))"
  shows "ks_inv (kadvance n s)" "ks_contents (kadvance n s) = drop (nat n) (ks_contents s)"
proof -
  have n: "n \<le> sndBufTail s - sndBufHead s"
    using assms length_ks_contents [OF assms(1)] by simp
  then have "s32 (sndBufHead s + n) = sndBufHead s + n" if "0 < n"
    using that assms(1) by (intro s32_id) (auto simp: ks_inv_def sb_inv_def out_buf_def ksend_cap_def)
  with n assms(1) show "ks_inv (kadvance n s)" "ks_contents (kadvance n s) = drop (nat n) (ks_contents s)"
    by (auto simp: kadvance_def ks_inv_def sb_inv_def ks_contents_def sb_contents_def out_buf_def ksend_cap_def drop_region)
qed

interpretation kq_chan: byte_channel ks_inv ks_contents "\<lambda>xs. int (length xs) < 2 ^ 32" kqueue_bytes kdrain
proof unfold_locales
  fix s :: "'x ksession_scheme" and xs h
  show "\<exists>ok s'. kqueue_bytes xs s = Inr (ok, s') \<and> ks_inv s' \<and>
      ks_contents s' = (if ok then ks_contents s @ xs else ks_contents s)"
    if "ks_inv s" "int (length xs) < 2 ^ 32"
    by (rule kqueue_bytes_ok [OF that]) blast
  show "\<exists>s'. kdrain h s = Inr s' \<and> ks_inv s' \<and> ks_contents s' = drop (nat (h (ks_contents s))) (ks_contents s)"
    if "ks_inv s" "h (ks_contents s) \<le> int (length (ks_contents s))"
    using ks_read [OF that(1)] kadvance_ok [OF that] by (simp add: kdrain_def)
qed

subsection \<open>\<open>async_send\<close> while the worker writes\<close>

text \<open>
  The sender advances \<open>sndBufTail\<close> and then copies; the worker loads the two positions,
  calls \<open>send\<close>, and advances \<open>sndBufHead\<close>.  \<open>kaccepted\<close> and \<open>kwire\<close> are history
  variables: the bytes of the calls that returned 0, and the bytes the socket took.
\<close>

datatype ksend_pc = KIdle | KCopying int "byte list"
datatype kwrite_pc = WIdle | WLoaded int int | WSent int

record krace =
  ksess :: ksession
  ksender :: ksend_pc
  kwriter :: kwrite_pc
  kaccepted :: "byte list"
  kwire :: "byte list"

inductive krace_step :: "krace \<Rightarrow> krace \<Rightarrow> bool" where
  publish: "ksender s = KIdle \<Longrightarrow> make_space (int (length xs)) (ksess s) = Inr (True, t) \<Longrightarrow>
     int (length xs) < u32 (ksend_cap t - sndBufTail t) \<Longrightarrow>
     krace_step s (s\<lparr>ksess := t\<lparr>sndBufTail := s32 (sndBufTail t + int (length xs))\<rparr>, ksender := KCopying (sndBufTail t) xs\<rparr>)"
| copy: "ksender s = KCopying pos xs \<Longrightarrow> memcpy (k_sendBuf (ksess s)) pos xs (int (length xs)) = Inr buf \<Longrightarrow>
     krace_step s (s\<lparr>ksess := (ksess s)\<lparr>k_sendBuf := buf\<rparr>, ksender := KIdle, kaccepted := kaccepted s @ xs\<rparr>)"
| load: "kwriter s = WIdle \<Longrightarrow>
     krace_step s (s\<lparr>kwriter := WLoaded (sndBufHead (ksess s)) (sndBufTail (ksess s) - sndBufHead (ksess s))\<rparr>)"
| send: "kwriter s = WLoaded pos n \<Longrightarrow> mem_read (k_sendBuf (ksess s)) pos n = Inr pData \<Longrightarrow> k \<le> int (length pData) \<Longrightarrow>
     krace_step s (s\<lparr>kwriter := WSent k, kwire := kwire s @ take (nat k) pData\<rparr>)"
| advance: "kwriter s = WSent k \<Longrightarrow>
     krace_step s (s\<lparr>ksess := kadvance k (ksess s), kwriter := WIdle\<rparr>)"

inductive krace_reach :: "ksession \<Rightarrow> krace \<Rightarrow> bool" for s0 where
  start: "krace_reach s0 \<lparr>ksess = s0, ksender = KIdle, kwriter = WIdle, kaccepted = [], kwire = []\<rparr>"
| step: "krace_reach s0 s \<Longrightarrow> krace_step s s' \<Longrightarrow> krace_reach s0 s'"

text \<open>The worker runs between the two halves of \<open>async_send\<close>.\<close>

lemma krace_overtakes:
  assumes "sndBufHead s0 = 0" "sndBufTail s0 = 0" "xs \<noteq> []" "length xs < length (k_sendBuf s0)"
    "int (length (k_sendBuf s0)) < 2 ^ 31"
  shows "\<exists>s. krace_reach s0 s \<and> kaccepted s = xs \<and> kwire s = take (length xs) (k_sendBuf s0) \<and>
    ks_contents (ksess s) = [] \<and> ksender s = KIdle \<and> kwriter s = WIdle"
proof -
  let ?n = "int (length xs)" and ?S = "\<lambda>t p w a v. \<lparr>ksess = t, ksender = p, kwriter = w, kaccepted = a, kwire = v\<rparr>"
  let ?t1 = "s0\<lparr>sndBufTail := ?n\<rparr>" and ?t2 = "s0\<lparr>sndBufTail := ?n, sndBufHead := ?n\<rparr>"
  let ?b = "k_sendBuf s0" and ?w = "take (length xs) (k_sendBuf s0)"
  let ?b' = "take (nat 0) ?b @ take (nat ?n) xs @ drop (nat 0 + nat ?n) ?b"
  have n: "0 < ?n" "?n < 2 ^ 31" "s32 ?n = ?n" "u32 (int (length ?b)) = int (length ?b)" "length ?w = length xs"
    using assms by auto
  have room: "make_space ?n s0 = Inr (True, s0)"
    using assms n by (subst make_space.simps) (simp add: ksend_cap_def)
  have 1: "krace_step (?S s0 KIdle WIdle [] []) (?S ?t1 (KCopying 0 xs) WIdle [] [])"
    using krace_step.publish [of "?S s0 KIdle WIdle [] []" xs s0] room assms n by (simp add: ksend_cap_def)
  have 2: "krace_step (?S ?t1 (KCopying 0 xs) WIdle [] []) (?S ?t1 (KCopying 0 xs) (WLoaded 0 ?n) [] [])"
    using krace_step.load [of "?S ?t1 (KCopying 0 xs) WIdle [] []"] assms by simp
  have 3: "krace_step (?S ?t1 (KCopying 0 xs) (WLoaded 0 ?n) [] []) (?S ?t1 (KCopying 0 xs) (WSent ?n) [] ?w)"
    using krace_step.send [of "?S ?t1 (KCopying 0 xs) (WLoaded 0 ?n) [] []" 0 ?n ?w ?n] assms n
    by (simp add: mem_read_def)
  have adv: "kadvance ?n ?t1 = ?t2"
    using n assms by (simp add: kadvance_def)
  have 4: "krace_step (?S ?t1 (KCopying 0 xs) (WSent ?n) [] ?w) (?S ?t2 (KCopying 0 xs) WIdle [] ?w)"
    using krace_step.advance [of "?S ?t1 (KCopying 0 xs) (WSent ?n) [] ?w" ?n] adv by simp
  have cp: "memcpy ?b 0 xs ?n = Inr ?b'"
    using assms by (intro memcpy_ok) auto
  have 5: "krace_step (?S ?t2 (KCopying 0 xs) WIdle [] ?w) (?S (?t2\<lparr>k_sendBuf := ?b'\<rparr>) KIdle WIdle xs ?w)"
    using krace_step.copy [of "?S ?t2 (KCopying 0 xs) WIdle [] ?w" 0 xs ?b'] cp by simp
  have "krace_reach s0 (?S (?t2\<lparr>k_sendBuf := ?b'\<rparr>) KIdle WIdle xs ?w)"
    by (rule krace_reach.step [OF krace_reach.step [OF krace_reach.step [OF krace_reach.step
          [OF krace_reach.step [OF krace_reach.start 1] 2] 3] 4] 5])
  moreover have "ks_contents (?t2\<lparr>k_sendBuf := ?b'\<rparr>) = []"
    by (simp add: ks_contents_def sb_contents_def out_buf_def)
  ultimately show ?thesis by (intro exI conjI) auto
qed

subsection \<open>The receive path\<close>

definition ks_ok :: "'x ksession_scheme \<Rightarrow> bool" where
  "ks_ok s \<longleftrightarrow> conn_inv s \<and> ks_inv s"

definition knet_ok :: "('x, 'k) kworld \<Rightarrow> bool" where
  "knet_ok st \<longleftrightarrow> heap_ok (sessions st) \<and> (\<forall>p s. cells (sessions st) p = Some s \<longrightarrow> ks_ok s)"

text \<open>
  A session class whose \<open>on_recv\<close> returns, leaves the receive buffer and the other sessions alone,
  and does not look behind its packet.
\<close>

definition karrived_ok :: "('x, 'k) kqenv \<Rightarrow> bool" where
  "karrived_ok env \<longleftrightarrow> (\<forall>p. keeps_buffer (\<lambda>pkt. arrived env pkt p) \<and> buffer_blind (\<lambda>pkt. arrived env pkt p) \<and>
     (\<forall>pkt s st. ks_ok s \<longrightarrow>
        (\<exists>s' st'. arrived env pkt p (s, st) = Inr (s', st') \<and> ks_ok s' \<and> sessions st' = sessions st)))"

lemma kdeliver_ok:
  assumes "karrived_ok env" "ks_ok s"
  shows "\<exists>s' st'. deliver_list (\<lambda>pkt. arrived env pkt p) pkts (s, st) = Inr (s', st') \<and> ks_ok s' \<and> sessions st' = sessions st"
  using assms(2)
proof (induction pkts arbitrary: s st)
  case (Cons pkt pkts)
  from assms(1) Cons.prems obtain s1 st1 where
    "arrived env pkt p (s, st) = Inr (s1, st1)" "ks_ok s1" "sessions st1 = sessions st"
    unfolding karrived_ok_def by blast
  with Cons.IH [of s1 st1] show ?case by auto
qed simp

lemma ks_ok_cong:
  "ks_ok s \<Longrightarrow> conn_inv s' \<Longrightarrow> s' = s\<lparr>recvBuf := b, recvBufPos := n\<rparr> \<Longrightarrow> ks_ok s'"
  by (simp add: ks_ok_def ks_inv_def out_buf_def ksend_cap_def)

lemma kreceive_ok:
  assumes "karrived_ok env" "bounded_framer (cut_packet env)" "ks_ok s"
    "length (received s) + length bytes < length (recvBuf s)"
  shows "\<exists>s1 s2 s3 st'. recv_chunk True (cut_packet env) (\<lambda>pkt. arrived env pkt p) (s, st) bytes = Some (Inr (s2, st')) \<and>
    deliver_list (\<lambda>pkt. arrived env pkt p) (fst (frames (cut_packet env) (received s @ bytes))) (s1, st) = Inr (s3, st') \<and>
    received s2 = snd (frames (cut_packet env) (received s @ bytes)) \<and> ks_ok s2 \<and> sessions st' = sessions st"
proof -
  let ?cb = "\<lambda>pkt. arrived env pkt p" and ?fr = "frames (cut_packet env) (received s @ bytes)"
  have cb: "keeps_buffer ?cb" "buffer_blind ?cb" and c: "conn_inv s"
    using assms(1,3) by (auto simp: karrived_ok_def ks_ok_def)
  obtain s1 r where r: "recv_chunk True (cut_packet env) ?cb (s, st) bytes = Some r" "conn_inv s1"
    "loop_result ?cb ?fr (s1, st) r" "s1 = s\<lparr>recvBuf := recvBuf s1, recvBufPos := recvBufPos s1\<rparr>"
    using recv_chunk_patch_ok [OF assms(2) cb(1) c, of bytes True st] cb(2) assms(4) by (metis less_imp_le_nat)
  have "ks_ok s1"
    by (rule ks_ok_cong [OF assms(3) r(2,4)])
  from kdeliver_ok [OF assms(1) this] obtain s3 st' where d:
    "deliver_list ?cb (fst ?fr) (s1, st) = Inr (s3, st')" "ks_ok s3" "sessions st' = sessions st"
    by blast
  with r(3) obtain s2 where s2: "r = Inr (s2, st')" "conn_inv s2" "received s2 = snd ?fr"
    "s2 = s3\<lparr>recvBuf := recvBuf s2, recvBufPos := recvBufPos s2\<rparr>"
    by (auto simp: loop_result_def)
  have "ks_ok s2"
    by (rule ks_ok_cong [OF d(2) s2(2,4)])
  with r(1) d s2 show ?thesis by blast
qed

lemma krecv_documentedD:
  assumes "recv_documented sys" "os_call sys (Recv f n) st = (r, st')"
  shows "int (length (rdata r)) = max 0 (ret r)" "ret r \<le> max 0 n"
proof -
  have "r = fst (sys (Recv f n) (kernel st))"
    using assms(2) by (auto simp: os_call_def split: prod.splits)
  with assms(1) show "int (length (rdata r)) = max 0 (ret r)" "ret r \<le> max 0 n"
    by (auto simp: recv_documented_def Let_def)
qed

lemma kread_drops:
  assumes "deref (sessions st) p = Inr s" "os_call (old_os env) (Recv (fd s) (krecv_size s)) st = (r, st1)" "ret r = 0"
  shows "on_kread env procFd p st = Some (kdrop env procFd (fd s) p (kReadEvent OR kWriteEvent) st1)"
  using assms by (simp add: on_kread_def Let_def)

lemma kread_data:
  assumes "deref (sessions st) p = Inr s" "os_call (old_os env) (Recv (fd s) (krecv_size s)) st = (r, st1)" "0 < ret r"
  shows "on_kread env procFd p st =
    obind (recv_chunk True (cut_packet env) (\<lambda>pkt. arrived env pkt p) (s, st1) (rdata r)) (\<lambda>(s, st).
    obind (Some (assign (sessions st) p s)) (\<lambda>h. Some (Inr (st\<lparr>sessions := h\<rparr>))))"
  using assms by (simp add: on_kread_def Let_def)

text \<open>A packet that ends where the array ends has its terminator written behind the array.\<close>

lemma kchunk_overruns:
  assumes "conn_inv s" "length (received s) + length bytes = length (recvBuf s)" "bytes \<noteq> []"
    "rp (received s @ bytes) (int (length (received s @ bytes))) = int (length (received s @ bytes))"
  shows "recv_chunk True rp cb (s, w) bytes = Some (Inl OutOfBounds)"
proof -
  let ?p = "recvBufPos s"
  let ?buf = "take (nat ?p) (recvBuf s) @ bytes @ drop (nat ?p + length bytes) (recvBuf s)"
  let ?s = "s\<lparr>recvBuf := ?buf, recvBufPos := ?p + int (length bytes)\<rparr>"
  have pos: "?p + int (length bytes) = int (length (recvBuf s))"
    using assms(2) length_received [OF assms(1)] by linarith
  have wr: "mem_write (recvBuf s) ?p bytes = Inr ?buf"
    using assms(1) pos by (intro mem_write_ok) (auto simp: conn_inv_def)
  have rec: "received ?s = received s @ bytes"
    using region_write_append [of 0 ?p "recvBuf s" bytes] assms(1) by (simp add: received_def conn_inv_def)
  have len: "int (length (received s @ bytes)) = recvBufPos ?s"
    using length_received [OF assms(1)] by simp
  have "0 < recvBufPos ?s"
    using assms(1,3) by (cases bytes) (auto simp: conn_inv_def)
  then have "packet_loop True rp cb (?s, w) 0 (recvBufPos ?s) = Some (Inl OutOfBounds)"
    using deliver_past_end [of 0 "recvBufPos ?s" ?s cb w] pos mem_write_length [OF wr]
    by (subst packet_loop.simps) simp
  then have "recv_data True rp cb (s\<lparr>recvBuf := ?buf\<rparr>, w) (int (length bytes)) = Some (Inl OutOfBounds)"
    using rec len assms(4) by (simp add: recv_data_def Let_def)
  with wr show ?thesis by (simp add: recv_chunk_def)
qed

lemma kstart_workers_ok:
  "kstart_workers env is st = Inr st' \<Longrightarrow> kscheder st' = kscheder st \<and> runThreads st' = runThreads st @ map (\<lambda>i. (i, True)) is"
proof (induction "is" arbitrary: st)
  case (Cons i "is")
  obtain r st1 where r: "os_call (old_os env) (Thread_create (ProcessorRun i)) st = (r, st1)"
    by fastforce
  then have "kscheder st1 = kscheder st" "runThreads st1 = runThreads st"
    by (auto simp: os_call_def split: prod.splits)
  with Cons.IH [of "st1\<lparr>runThreads := runThreads st1 @ [(i, True)]\<rparr>"] Cons.prems r show ?case
    by (auto split: if_splits)
qed simp

lemma kworker_count_eq: "kworker_count t0 cfg = cfg_threads cfg"
  by (simp add: kworker_count_def MAX_THREAD_def)

subsection \<open>A concrete program\<close>

definition kdemo_os :: "unit os" where
  "kdemo_os c k = (\<lparr>ret = (case c of Recv f n \<Rightarrow> (if 0 < n then 1 else 0) | _ \<Rightarrow> 0), err = 0,
     rdata = (case c of Recv f n \<Rightarrow> (if 0 < n then [7] else []) | _ \<Rightarrow> []), revents = [], raddr = (0, 0), rkevents = [], rkey = 0\<rparr>, ())"

definition kdemo_session :: "byte list \<Rightarrow> ksession" where
  "kdemo_session buf = KEventHandler \<lparr>fd = 7, ip = 0, port = 0, isPassive = True, recvBuf = buf, recvBufPos = 3,
     k_kqueueFd = 3, k_procFd = 5, k_event = EVT_CONNECT, k_srv = NoOwner, k_sendBuf = [9, 9, 9, 9], sndBufHead = 1, sndBufTail = 1\<rparr>"

definition kdemo_env :: "(unit, unit) kqenv" where
  "kdemo_env = \<lparr>old_os = kdemo_os, no_assert = True, cut_packet = default_read_packet,
     connected = (\<lambda>_ (s, w). Inr (None, s, w)), disconnected = (\<lambda>_ sw. Inr sw), arrived = (\<lambda>_ _ sw. Inr sw),
     sent_out = (\<lambda>_ _ sw. Inr sw), new_session = kdemo_session [0, 0], make_session = heap_new (kdemo_session [0, 0]),
     proc_handler = None, user_handler = None\<rparr>"

definition kdemo_net :: "byte list \<Rightarrow> (unit, unit) kworld" where
  "kdemo_net buf = \<lparr>kernel = (), errno = 0, trace = [], sessions = \<lparr>cells = [2 \<mapsto> kdemo_session buf], fresh = 3\<rparr>,
     kscheder = \<lparr>k_scheds = 1, kqueueFd = 3, k_threads = 1, k_procFds = replicate 50 5\<rparr>, k_running = True, runThreads = []\<rparr>"

lemma kdemo_deref: "deref (sessions (kdemo_net buf)) 2 = Inr (kdemo_session buf)"
  by (simp add: kdemo_net_def deref_def)

lemma kdemo_session_ok:
  "int (length buf) < 2 ^ 31 \<Longrightarrow> ks_ok (kdemo_session buf)"
  by (simp add: ks_ok_def conn_inv_def kdemo_session_def KEventHandler_def ks_inv_def sb_inv_def out_buf_def ksend_cap_def)

lemma kdemo_arrived_ok: "karrived_ok kdemo_env"
  by (auto simp: karrived_ok_def kdemo_env_def keeps_buffer_def buffer_blind_def)

lemma kdemo_recv_documented: "recv_documented kdemo_os"
  by (auto simp: recv_documented_def kdemo_os_def Let_def)

lemma kdemo_net_ok: "int (length buf) < 2 ^ 31 \<Longrightarrow> knet_ok (kdemo_net buf)"
  using kdemo_session_ok [of buf] by (auto simp: knet_ok_def kdemo_net_def heap_ok_def split: if_splits)

lemma kdemo_recv:
  assumes "buf \<noteq> []"
  shows "\<exists>r st1. os_call (old_os kdemo_env) (Recv (fd (kdemo_session buf)) (krecv_size (kdemo_session buf))) (kdemo_net buf) = (r, st1) \<and>
    ret r = 1 \<and> rdata r = [7]"
  using assms by (simp add: os_call_def kdemo_env_def kdemo_os_def krecv_size_def kdemo_session_def KEventHandler_def)

subsection \<open>Properties\<close>

text \<open>
  (C13) The two atomic positions of the kqueue session do what the locked send buffer of the
  epoll session does: queueing bytes gives the same answer and leaves the same buffer and the same
  positions as \<open>SendBuffer::push\<close> on them.
\<close>

theorem kq_send_equiv:
  assumes "ks_inv s" "int (length pData) < 2 ^ 32"
  shows "kqueue_bytes pData s = rbind (push True (ksend_cap s) (out_buf s) pData (int (length pData))) (\<lambda>(ok, sb).
    Inr (ok, with_out_buf s sb))"
  using kqueue_bytes_eq [OF assms] .

theorem kq_send_equiv_witness:
  "kqueue_bytes [1, 2] (kdemo_session [0]) = rbind (push True 4 (SendBuffer [9, 9, 9, 9]) [1, 2] 2) (\<lambda>(ok, sb).
    Inr (ok, with_out_buf (kdemo_session [0]) sb))"
  using kq_send_equiv [of "kdemo_session [0]" "[1, 2]"] kdemo_session_ok [of "[0]"]
  by (simp add: ks_ok_def ksend_cap_def kdemo_session_def KEventHandler_def out_buf_def SendBuffer_def)

text \<open>
  The outgoing stream of a kqueue session: under any sequence of \<open>async_send\<close> calls and writing
  turns of the worker, one after the other, the bytes the socket has taken followed by the bytes still
  queued are the accepted bytes, in order.
\<close>

theorem kq_send_stream:
  assumes "ks_inv s" "list_all (op_ok (\<lambda>xs. int (length xs) < 2 ^ 32)) ops"
  shows "\<exists>acc w s'. channel_run kqueue_bytes kdrain ks_contents ops s = Inr (acc, w, s') \<and> ks_inv s' \<and>
    ks_contents s @ acc = w @ ks_contents s'"
  using kq_chan.stream [OF assms] .

theorem kq_send_stream_witness:
  "\<exists>acc w s'. channel_run kqueue_bytes kdrain ks_contents
      [Put [1, 2, 3], Drain (\<lambda>bs. min 2 (int (length bs))), Put [4, 5]] (kdemo_session [0]) = Inr (acc, w, s') \<and>
    ks_inv s' \<and> ks_contents (kdemo_session [0]) @ acc = w @ ks_contents s'"
  using kdemo_session_ok [of "[0]"] by (intro kq_send_stream) (simp_all add: ks_ok_def)

text \<open>
  \<open>async_send\<close> publishes the new tail before it copies the bytes: for every message there is an
  interleaving with the worker in which the call returns 0, the bytes that happened to be in the
  buffer go out in its place, and the message is gone.
\<close>

theorem kq_send_race:
  assumes "s0 = KEventHandler mem" "xs \<noteq> []" "length xs < length (k_sendBuf mem)" "int (length (k_sendBuf mem)) < 2 ^ 31"
  shows "\<exists>s. krace_reach s0 s \<and> kaccepted s = xs \<and> kwire s = take (length xs) (k_sendBuf mem) \<and>
    ks_contents (ksess s) = [] \<and> ksender s = KIdle \<and> kwriter s = WIdle"
  using krace_overtakes [of s0 xs] assms by (simp add: KEventHandler_def)

theorem kq_send_race_witness:
  "\<exists>s. krace_reach (KEventHandler (kdemo_session [0])) s \<and> kaccepted s = [1, 2] \<and> kwire s = [9, 9] \<and>
    ks_contents (ksess s) = [] \<and> ksender s = KIdle \<and> kwriter s = WIdle"
  using kq_send_race [OF refl, of "[1, 2]" "kdemo_session [0]"]
  by (simp add: kdemo_session_def KEventHandler_def numeral_2_eq_2)

text \<open>
  Data arrives for a kqueue session and leaves at least one byte of the receive buffer free: the
  packets handed to the session, in order, are those the framer cuts from the kept bytes followed by the
  new ones, the session keeps the rest, and the state stays well formed.
\<close>

theorem kq_read_delivers:
  assumes "karrived_ok env" "bounded_framer (cut_packet env)" "recv_documented (old_os env)" "knet_ok st"
    "deref (sessions st) p = Inr s" "os_call (old_os env) (Recv (fd s) (krecv_size s)) st = (r, st1)"
    "0 < ret r" "ret r < krecv_size s"
  shows "\<exists>s1 s2 s3 st2 st'. on_kread env procFd p st = Some (Inr st') \<and>
    deliver_list (\<lambda>pkt. arrived env pkt p) (fst (frames (cut_packet env) (received s @ rdata r))) (s1, st1) = Inr (s3, st2) \<and>
    cells (sessions st') p = Some s2 \<and> received s2 = snd (frames (cut_packet env) (received s @ rdata r)) \<and> knet_ok st'"
proof -
  have s: "ks_ok s" "live (sessions st) p"
    using assms(4,5) by (auto simp: knet_ok_def deref_eq_Inr live_def)
  have "length (received s) + length (rdata r) < length (recvBuf s)"
    using krecv_documentedD(1) [OF assms(3,6)] assms(7,8) length_received [of s] s(1)
    by (simp add: ks_ok_def krecv_size_def)
  from kreceive_ok [OF assms(1,2) s(1) this, of p st1] obtain s1 s2 s3 st2 where c:
    "recv_chunk True (cut_packet env) (\<lambda>pkt. arrived env pkt p) (s, st1) (rdata r) = Some (Inr (s2, st2))"
    "deliver_list (\<lambda>pkt. arrived env pkt p) (fst (frames (cut_packet env) (received s @ rdata r))) (s1, st1) = Inr (s3, st2)"
    "received s2 = snd (frames (cut_packet env) (received s @ rdata r))" "ks_ok s2" "sessions st2 = sessions st1"
    by blast
  let ?h = "(sessions st)\<lparr>cells := (cells (sessions st))(p \<mapsto> s2)\<rparr>"
  have "assign (sessions st2) p s2 = Inr ?h"
    using c(5) sessions_after [OF assms(6)] s(2) by (simp add: assign_eq_Inr)
  then have "on_kread env procFd p st = Some (Inr (st2\<lparr>sessions := ?h\<rparr>))"
    using kread_data [OF assms(5-7), of procFd] c(1) by simp
  moreover have "knet_ok (st2\<lparr>sessions := ?h\<rparr>)"
    using assms(4) c(4) s(2) heap_ok_update [of "sessions st" p "Some s2"] by (simp add: knet_ok_def)
  ultimately show ?thesis using c(2,3) by (intro exI conjI) auto
qed

theorem kq_read_delivers_witness:
  "\<exists>st' s2. on_kread kdemo_env 5 2 (kdemo_net [0, 0]) = Some (Inr st') \<and> cells (sessions st') 2 = Some s2 \<and>
     received s2 = [] \<and> knet_ok st'"
proof -
  obtain r st1 where r: "os_call (old_os kdemo_env) (Recv (fd (kdemo_session [0, 0])) (krecv_size (kdemo_session [0, 0]))) (kdemo_net [0, 0]) = (r, st1)"
    "ret r = 1" "rdata r = [7]"
    using kdemo_recv [of "[0, 0]"] by auto
  have fr: "frames (cut_packet kdemo_env) (received (kdemo_session [0, 0]) @ [7]) = ([[7]], [])"
    by (simp add: kdemo_env_def kdemo_session_def KEventHandler_def received_def frames_step [of 1] default_read_packet_def)
  from kq_read_delivers [OF kdemo_arrived_ok _ _ kdemo_net_ok kdemo_deref r(1), of 5] r(2,3) fr
    default_framer.bounded_framer kdemo_recv_documented
  show ?thesis
    by (auto simp: kdemo_env_def krecv_size_def kdemo_session_def KEventHandler_def)
qed

text \<open>
  The same with a receive buffer that the new bytes fill completely, for a framer that takes all of
  it as one packet: the terminator is written behind the end of the array.
\<close>

theorem kq_full_read_overruns:
  assumes "recv_documented (old_os env)" "knet_ok st" "deref (sessions st) p = Inr s"
    "os_call (old_os env) (Recv (fd s) (krecv_size s)) st = (r, st1)" "0 < ret r" "ret r = krecv_size s"
    "cut_packet env (received s @ rdata r) (int (length (recvBuf s))) = int (length (recvBuf s))"
  shows "on_kread env procFd p st = Some (Inl OutOfBounds)"
proof -
  have s: "conn_inv s"
    using assms(2,3) by (auto simp: knet_ok_def deref_eq_Inr ks_ok_def)
  have len: "int (length (rdata r)) = krecv_size s"
    using krecv_documentedD(1) [OF assms(1,4)] assms(5,6) by simp
  then have full: "length (received s) + length (rdata r) = length (recvBuf s)"
    using length_received [OF s] by (simp add: krecv_size_def)
  then have "int (length (received s @ rdata r)) = int (length (recvBuf s))"
    by (simp flip: of_nat_add)
  moreover have "rdata r \<noteq> []"
    using len assms(5,6) by auto
  ultimately have "recv_chunk True (cut_packet env) (\<lambda>pkt. arrived env pkt p) (s, st1) (rdata r) = Some (Inl OutOfBounds)"
    using assms(7) by (intro kchunk_overruns [OF s full]) simp_all
  then show ?thesis by (simp add: kread_data [OF assms(3-5)])
qed

theorem kq_full_read_overruns_witness:
  "on_kread kdemo_env 5 2 (kdemo_net [0]) = Some (Inl OutOfBounds)"
proof -
  obtain r st1 where r: "os_call (old_os kdemo_env) (Recv (fd (kdemo_session [0])) (krecv_size (kdemo_session [0]))) (kdemo_net [0]) = (r, st1)"
    "ret r = 1" "rdata r = [7]"
    using kdemo_recv [of "[0]"] by auto
  show ?thesis
    by (rule kq_full_read_overruns [OF _ kdemo_net_ok kdemo_deref r(1)])
      (use r kdemo_recv_documented in \<open>simp_all add: kdemo_env_def krecv_size_def kdemo_session_def KEventHandler_def default_read_packet_def\<close>)
qed

text \<open>
  The peer closes: the worker registers the descriptor for reading and writing once more, closes it,
  and leaves the session where it is, so that no session is ever given back.
\<close>

theorem kq_end_of_stream:
  assumes "deref (sessions st) p = Inr s" "os_call (old_os env) (Recv (fd s) (krecv_size s)) st = (r, st1)" "ret r = 0"
    "proc_handler env = None"
  shows "\<exists>st'. on_kread env procFd p st = Some (Inr st') \<and> sessions st' = sessions st \<and>
    calls st' = calls st @ [Recv (fd s) (krecv_size s),
      Kevent_change procFd (event_changes (fd s) (DataPtr p) (kReadEvent OR kWriteEvent) True), Close (fd s)] \<and>
    map kflags (event_changes (fd s) (DataPtr p) (kReadEvent OR kWriteEvent) True) = [EV_ADD OR EV_ENABLE, EV_ADD OR EV_ENABLE]"
proof -
  have "calls st1 = calls st @ [Recv (fd s) (krecv_size s)]"
    using calls_syscall [of "old_os env" "Recv (fd s) (krecv_size s)" st] assms(2) by simp
  with sessions_after [OF assms(2)] assms(4) show ?thesis
    by (simp add: kread_drops [OF assms(1-3)] kdrop_def tell_def updateEvents_def event_changes_def kq_consts)
qed

theorem kq_end_of_stream_witness:
  "\<exists>st'. on_kread kdemo_env 5 2 (kdemo_net []) = Some (Inr st') \<and> sessions st' = sessions (kdemo_net [])"
proof -
  obtain r st1 where r: "os_call (old_os kdemo_env) (Recv (fd (kdemo_session [])) (krecv_size (kdemo_session []))) (kdemo_net []) = (r, st1)"
    by fastforce
  then have "ret r = 0"
    by (auto simp: os_call_def kdemo_env_def kdemo_os_def krecv_size_def kdemo_session_def KEventHandler_def)
  from kq_end_of_stream [OF kdemo_deref r this, of 5] show ?thesis by (auto simp: kdemo_env_def)
qed

text \<open>
  The limit on the number of kqueue workers has no effect: as many threads are started as were asked
  for, the first fifty find their kernel queue, and every further one reads behind the table.
\<close>

theorem kq_workers_not_capped:
  assumes "KProcessor_start env t0 cfg st = Inr (c, st')" "length (k_procFds (kscheder st)) = 50"
  shows "k_threads (kscheder st') = cfg_threads cfg \<and>
    runThreads st' = runThreads st @ map (\<lambda>i. (i, True)) [0..cfg_threads cfg - 1] \<and>
    (\<forall>i. 0 \<le> i \<and> i < 50 \<longrightarrow> list_at (k_procFds (kscheder st')) i = Inr (k_procFds (kscheder st) ! nat i)) \<and>
    (\<forall>i \<ge> 50. KProcessor_run env others i st' = Some (Inl OutOfBounds))"
proof -
  have "kscheder st' = (kscheder st)\<lparr>k_threads := cfg_threads cfg\<rparr>"
    "runThreads st' = runThreads st @ map (\<lambda>i. (i, True)) [0..cfg_threads cfg - 1]"
    using assms(1) by (auto simp: KProcessor_start_def kworker_count_eq Let_def rbind_eq_Inr dest!: kstart_workers_ok)
  with assms(2) show ?thesis by (simp add: list_at_def KProcessor_run_def)
qed

theorem kq_workers_not_capped_witness:
  "\<exists>c st'. KProcessor_start kdemo_env 0 (Properties\<lparr>cfg_threads := 51\<rparr>) (kdemo_net [0]) = Inr (c, st') \<and>
     k_threads (kscheder st') = 51 \<and> KProcessor_run kdemo_env (\<lambda>st. st) 50 st' = Some (Inl OutOfBounds)"
proof -
  have ok: "\<exists>st'. kstart_workers kdemo_env is st = Inr st'" for "is" and st :: "(unit, unit) kworld"
    by (induction "is" arbitrary: st) (auto simp: os_call_def kdemo_env_def kdemo_os_def Let_def)
  then obtain c st' where st': "KProcessor_start kdemo_env 0 (Properties\<lparr>cfg_threads := 51\<rparr>) (kdemo_net [0]) = Inr (c, st')"
    unfolding KProcessor_start_def Let_def by (metis rbind_Inr)
  from kq_workers_not_capped [OF this, of "\<lambda>st. st"] st' show ?thesis
    by (auto simp: kdemo_net_def)
qed

end
