(* ===== verification/Iocp_Net.thy ===== *)
theory Iocp_Net
  imports Net_World
begin

text \<open>
  The Windows back end, \<open>src/detail/iocpnet.hpp\<close>.  One completion port serves all worker
  threads; a session's \<open>event\<close> field says what the completion of its pending operation
  means.  An exception is a value here, the code thrown, because handlers run and the
  exception goes on with the state they leave.  Handles and sockets are numbers; a port
  that cannot be created or extended is \<open>NULL\<close>, an invalid handle or socket is \<open>-1\<close>.
  The default type argument of \<open>TCPService\<close> is misspelt, so the service is modelled with its
  factory given.  \<open>Processor::stop\<close> copies thread objects, which the language forbids, and is
  left out; no code instantiates it.
\<close>

definition NULL_HANDLE :: int where "NULL_HANDLE = 0"
definition INVALID_HANDLE_VALUE :: int where "INVALID_HANDLE_VALUE = -1"
definition INVALID_SOCKET :: int where "INVALID_SOCKET = -1"
definition SOCKET_ERROR :: int where "SOCKET_ERROR = -1"
definition WSA_IO_PENDING :: int where "WSA_IO_PENDING = 997"

lemmas win_consts = NULL_HANDLE_def INVALID_HANDLE_VALUE_def INVALID_SOCKET_def SOCKET_ERROR_def WSA_IO_PENDING_def

record isession = conn +
  i_iocp :: int
  i_event :: NetEvent
  i_srv :: owner
  i_sendBuf :: "byte list"

record ischeduler =
  i_scheds :: int
  iocp :: int

text \<open>\<open>i_threads\<close> is the processor's own field, which no code sets.\<close>

record ('s, 'k) inet = "('s, 'k) session_net" +
  iocper :: ischeduler
  i_running :: bool
  i_threads :: int
  i_runThreads :: "int list"

type_synonym ('x, 'k) iworld = "('x isession_scheme, 'k) inet"
type_synonym ('s, 'k) ienv = "('s, 'k, ('s, 'k) inet) old_env"
type_synonym ('x, 'k) iqenv = "('x isession_scheme, 'k, ('x isession_scheme, 'k) inet) old_env"
type_synonym ('x, 'k) imethod = "ptr \<Rightarrow> 'x isession_scheme \<times> ('x, 'k) iworld \<Rightarrow> ('x isession_scheme \<times> ('x, 'k) iworld) result"

subsection \<open>Scheduler\<close>

definition IScheduler_start :: "('s, 'k) ienv \<Rightarrow> ('s, 'k) inet \<Rightarrow> int option \<times> ('s, 'k) inet" where
  "IScheduler_start env st =
     (let (r, st) = os_call (old_os env)
            (CreateIoCompletionPort INVALID_HANDLE_VALUE NULL_HANDLE 0 (i_scheds (iocper st))) st;
          st = st\<lparr>iocper := (iocper st)\<lparr>iocp := ret r\<rparr>\<rparr> in
      if ret r = NULL_HANDLE then (Some (err r), st) else (None, st))"

definition IScheduler_stop :: "('s, 'k) ienv \<Rightarrow> ('s, 'k) inet \<Rightarrow> ('s, 'k) inet" where
  "IScheduler_stop env st =
     (let st = os_do (old_os env) (CloseHandle (iocp (iocper st))) st in
      st\<lparr>iocper := (iocper st)\<lparr>iocp := INVALID_HANDLE_VALUE\<rparr>\<rparr>)"

definition IScheduler_push :: "('s, 'k) ienv \<Rightarrow> ptr \<Rightarrow> ('s, 'k) inet \<Rightarrow> ('s, 'k) inet" where
  "IScheduler_push env clt st = os_do (old_os env) (PostQueuedCompletionStatus (iocp (iocper st)) 0 clt) st"

text \<open>The session's descriptor is bound to the port, with the session's address as its key.\<close>

definition IScheduler_associate ::
  "('x, 'k) iqenv \<Rightarrow> ptr \<Rightarrow> 'x isession_scheme \<Rightarrow> ('x, 'k) iworld \<Rightarrow> int option \<times> ('x, 'k) iworld" where
  "IScheduler_associate env clt s st =
     (let (r, st) = os_call (old_os env) (CreateIoCompletionPort (fd s) (iocp (iocper st)) clt 0) st in
      if ret r = NULL_HANDLE then (Some (err r), st) else (None, st))"

subsection \<open>Sessions\<close>

text \<open>Everything the constructor does not name is whatever the memory held.\<close>

definition IEventHandler :: "'x isession_scheme \<Rightarrow> 'x isession_scheme" where
  "IEventHandler mem = mem\<lparr>recvBufPos := 0\<rparr>"

definition iasync_send ::
  "('x, 'k) iqenv \<Rightarrow> byte list \<Rightarrow> 'x isession_scheme \<times> ('x, 'k) iworld \<Rightarrow> int \<times> 'x isession_scheme \<times> ('x, 'k) iworld" where
  "iasync_send env pData = (\<lambda>(s, st). let (r, st) = os_call (old_os env) (Send (fd s) pData) st in (ret r, s, st))"

definition isend ::
  "('x, 'k) iqenv \<Rightarrow> byte list \<Rightarrow> 'x isession_scheme \<times> ('x, 'k) iworld \<Rightarrow> int \<times> 'x isession_scheme \<times> ('x, 'k) iworld" where
  "isend env pData = (\<lambda>(s, st). let (r, st) = os_call (old_os env) (Send (fd s) pData) st in (ret r, s, st))"

definition ilaunch_send :: "('x, 'k) iqenv \<Rightarrow> byte list \<Rightarrow> ('x, 'k) imethod" where
  "ilaunch_send env pData self = (\<lambda>(s, st). Inr (s, os_do (old_os env) (Send (fd s) pData) st))"

text \<open>
  \<open>launch_recv\<close> hands the free part of the buffer to the kernel.  The lines that would
  set \<open>event\<close> are commented out in the source.
\<close>

definition ilaunch_recv ::
  "('x, 'k) iqenv \<Rightarrow> ptr \<Rightarrow> 'x isession_scheme \<times> ('x, 'k) iworld \<Rightarrow> 'x isession_scheme \<times> ('x, 'k) iworld" where
  "ilaunch_recv env self = (\<lambda>(s, st).
     if recvBufPos s \<ge> int (length (recvBuf s)) then (s, st)
     else (let (r, st) = os_call (old_os env) (WSARecv (fd s) (int (length (recvBuf s)) - recvBufPos s)) st in
       if ret r \<noteq> 0 \<and> err r \<noteq> WSA_IO_PENDING
       then (s, os_do (old_os env) (PostQueuedCompletionStatus (i_iocp s) 0 self) st)
       else (s, st)))"

definition iread_packet :: framer where
  "iread_packet pData dataLen = dataLen"

definition ilaunch_close :: "('x, 'k) iqenv \<Rightarrow> ('x, 'k) imethod" where
  "ilaunch_close env self = (\<lambda>(s, st). Inr (s, os_do (old_os env) (Shutdown (fd s)) st))"

definition isession_close :: "('x, 'k) iqenv \<Rightarrow> ('x, 'k) imethod" where
  "isession_close env self = (\<lambda>(s, st). Inr (s, os_do (old_os env) (Shutdown (fd s)) st))"

definition idefault_method :: "('x, 'k) imethod" where
  "idefault_method self sw = Inr sw"

subsection \<open>Processor\<close>

text \<open>
  A completion of \<open>ready\<close> bytes for the session at \<open>clt\<close>.  Deleting the session and
  storing it back are the two ways a branch ends.
\<close>

definition istore :: "ptr \<Rightarrow> 'x isession_scheme \<times> ('x, 'k) iworld \<Rightarrow> ('x, 'k) iworld result" where
  "istore clt = (\<lambda>(s, st). rbind (assign (sessions st) clt s) (\<lambda>h. Inr (st\<lparr>sessions := h\<rparr>)))"

definition idelete :: "('x, 'k) iqenv \<Rightarrow> ptr \<Rightarrow> 'x isession_scheme \<times> ('x, 'k) iworld \<Rightarrow> ('x, 'k) iworld result" where
  "idelete env clt = (\<lambda>(s, st).
     let st = os_do (old_os env) (Closesocket (fd s)) st in
     rbind (heap_delete clt (sessions st)) (\<lambda>h. Inr (st\<lparr>sessions := h\<rparr>)))"

definition idisconnect ::
  "('x, 'k) iqenv \<Rightarrow> int \<Rightarrow> ptr \<Rightarrow> 'x isession_scheme \<times> ('x, 'k) iworld \<Rightarrow> ('x, 'k) iworld result" where
  "idisconnect env port0 clt = (\<lambda>(s, st).
     istore clt (s\<lparr>i_event := EVT_DISCONNECT\<rparr>, os_do (old_os env) (PostQueuedCompletionStatus port0 0 clt) st))"

definition on_connected ::
  "('x, 'k) iqenv \<Rightarrow> ptr \<Rightarrow> 'x isession_scheme \<times> ('x, 'k) iworld \<Rightarrow> ('x, 'k) iworld result" where
  "on_connected env clt = (\<lambda>(s, st).
     let (e, st) = IScheduler_associate env clt s st in
     case e of
       Some _ \<Rightarrow> idelete env clt (s, st)
     | None \<Rightarrow>
         rbind (connected env clt (s, st)) (\<lambda>(e, s, st).
           case e of
             Some _ \<Rightarrow> idelete env clt (s, st)
           | None \<Rightarrow> istore clt (ilaunch_recv env clt (s, st))))"

definition on_completion ::
  "('x, 'k) iqenv \<Rightarrow> int \<Rightarrow> int \<Rightarrow> ptr \<Rightarrow> 'x isession_scheme \<times> ('x, 'k) iworld \<Rightarrow> ('x, 'k) iworld result option" where
  "on_completion env port0 ready clt = (\<lambda>(s, st).
     case i_event s of
       EVT_RECV \<Rightarrow>
         (if 0 \<ge> ready then Some (idisconnect env port0 clt (s, st))
          else obind (recv_data True (cut_packet env) (\<lambda>pkt. arrived env pkt clt) (s, st) ready)
            (\<lambda>sw. Some (istore clt (ilaunch_recv env clt sw))))
     | EVT_CONNECT \<Rightarrow> Some (on_connected env clt (s, st))
     | EVT_DISCONNECT \<Rightarrow> Some (rbind (disconnected env clt (s, st)) (idelete env clt))
     | EVT_SEND \<Rightarrow>
         (if 0 \<ge> ready then Some (idisconnect env port0 clt (s, st))
          else Some (rbind (sent_out env ready clt (s, st)) (istore clt)))
     | _ \<Rightarrow> Some (istore clt (s, st)))"

text \<open>
  Waiting for a completion.  The kernel has put the bytes of a finished receive into the part of
  the buffer it was given.
\<close>

definition iworker_turn :: "('x, 'k) iqenv \<Rightarrow> int \<Rightarrow> ('x, 'k) iworld \<Rightarrow> ('x, 'k) iworld result option" where
  "iworker_turn env port0 st =
     (let (r, st) = os_call (old_os env) (GetQueuedCompletionStatus port0) st; clt = rkey r in
      obind (Some (deref (sessions st) clt)) (\<lambda>s.
      obind (Some (if rdata r = [] then Inr (recvBuf s) else mem_write (recvBuf s) (recvBufPos s) (rdata r))) (\<lambda>buf.
        on_completion env port0 (ret r) clt (s\<lparr>recvBuf := buf\<rparr>, st))))"

partial_function (option) iworker_loop ::
  "('x, 'k) iqenv \<Rightarrow> (('x, 'k) iworld \<Rightarrow> ('x, 'k) iworld) \<Rightarrow> int \<Rightarrow> ('x, 'k) iworld \<Rightarrow> ('x, 'k) iworld result option" where
  "iworker_loop env others port0 st =
     (if i_running st then
        (case iworker_turn env port0 (others st) of
           None \<Rightarrow> None | Some (Inl e) \<Rightarrow> Some (Inl e)
         | Some (Inr st') \<Rightarrow> iworker_loop env others port0 st')
      else Some (Inr st))"

definition IProcessor_run ::
  "('x, 'k) iqenv \<Rightarrow> (('x, 'k) iworld \<Rightarrow> ('x, 'k) iworld) \<Rightarrow> ('x, 'k) iworld \<Rightarrow> ('x, 'k) iworld result option" where
  "IProcessor_run env others st = iworker_loop env others (iocp (iocper st)) st"

fun istart_workers :: "('s, 'k) ienv \<Rightarrow> int list \<Rightarrow> ('s, 'k) inet \<Rightarrow> int option \<times> ('s, 'k) inet" where
  "istart_workers env [] st = (None, st)"
| "istart_workers env (i # is) st =
     (let (r, st) = os_call (old_os env) (Thread_create (ProcessorRun i)) st in
      if ret r < 0 then (Some (err r), st)
      else istart_workers env is (st\<lparr>i_runThreads := i_runThreads st @ [i]\<rparr>))"

text \<open>The configuration is passed and not used.\<close>

definition IProcessor_start :: "('s, 'k) ienv \<Rightarrow> properties \<Rightarrow> ('s, 'k) inet \<Rightarrow> int option \<times> ('s, 'k) inet" where
  "IProcessor_start env cfg st = istart_workers env [0..i_threads st - 1] (st\<lparr>i_running := True\<rparr>)"

end
