(* ===== verification/Iocp_Service.thy ===== *)
theory Iocp_Service
  imports Iocp_Net
begin

text \<open>
  The outer half of \<open>src/detail/iocpnet.hpp\<close>: the listener with its accepting thread, the
  connector, and the service that owns both.
\<close>

subsection \<open>Listener\<close>

record ilistener =
  il_ip :: int
  il_port :: int
  il_backlogs :: int
  il_srv :: owner
  il_fd :: int
  il_running :: bool
  il_thread :: bool

text \<open>What the \<open>catch\<close> clause does with a socket and an error code before it throws again.\<close>

definition listen_fails ::
  "('s, 'k) ienv \<Rightarrow> int \<Rightarrow> int \<Rightarrow> ilistener \<Rightarrow> ('s, 'k) inet \<Rightarrow> int option \<times> ilistener \<times> ('s, 'k) inet" where
  "listen_fails env f e l st =
     (Some e, l, if f \<noteq> INVALID_SOCKET then os_do (old_os env) (Closesocket f) st else st)"

definition IListener_start ::
  "('s, 'k) ienv \<Rightarrow> ilistener \<Rightarrow> ('s, 'k) inet \<Rightarrow> int option \<times> ilistener \<times> ('s, 'k) inet" where
  "IListener_start env l st =
     (let l = l\<lparr>il_running := True\<rparr>;
          (r, st) = os_call (old_os env) WSASocket st; f = ret r in
      if f = INVALID_SOCKET then listen_fails env f (err r) l st
      else
        (let (r, st) = os_call (old_os env) (Bind f (il_ip l) (htons (il_port l))) st in
         if ret r = SOCKET_ERROR then listen_fails env f (err r) l st
         else
           (let (r, st) = os_call (old_os env) (Listen f (il_backlogs l)) st in
            if ret r = SOCKET_ERROR then listen_fails env f (err r) l st
            else
              (let l = l\<lparr>il_fd := f\<rparr>;
                   (r, st) = os_call (old_os env) (Thread_create ListenerRun) st in
               if ret r < 0 then listen_fails env f (err r) l st
               else (None, l\<lparr>il_thread := True\<rparr>, st)))))"

definition IListener_stop :: "('s, 'k) ienv \<Rightarrow> ilistener \<Rightarrow> ('s, 'k) inet \<Rightarrow> (ilistener \<times> ('s, 'k) inet) result" where
  "IListener_stop env l st =
     (let l = l\<lparr>il_running := False\<rparr> in
      if il_thread l then Inr (l\<lparr>il_thread := False\<rparr>, os_do (old_os env) (Thread_join ListenerRun) st)
      else Inl (Thrown EINVAL))"

text \<open>An accepted connection becomes a session that waits for its first completion.\<close>

definition iaccept_one ::
  "('x, 'k) iqenv \<Rightarrow> int \<Rightarrow> ilistener \<Rightarrow> int \<Rightarrow> int \<times> int \<Rightarrow> ('x, 'k) iworld \<Rightarrow> ('x, 'k) iworld result" where
  "iaccept_one env port0 l f addr st =
     (let (clt, h) = heap_new (new_session env) (sessions st); st = st\<lparr>sessions := h\<rparr> in
      rbind (c_assert (no_assert env) (clt \<noteq> 0)) (\<lambda>_.
      rbind (deref (sessions st) clt) (\<lambda>s.
      rbind (assign (sessions st) clt (s\<lparr>i_iocp := port0, fd := f, ip := fst addr, port := htons (snd addr),
          i_event := EVT_CONNECT, i_srv := il_srv l, isPassive := True\<rparr>)) (\<lambda>h.
        Inr (IScheduler_push env clt (st\<lparr>sessions := h\<rparr>))))))"

partial_function (option) ilisten_loop ::
  "('x, 'k) iqenv \<Rightarrow> (ilistener \<times> ('x, 'k) iworld \<Rightarrow> ilistener \<times> ('x, 'k) iworld) \<Rightarrow> int \<Rightarrow> int \<Rightarrow>
   ilistener \<Rightarrow> ('x, 'k) iworld \<Rightarrow> (ilistener \<times> ('x, 'k) iworld) result option" where
  "ilisten_loop env others lsfd port0 l st =
     (if il_running l then
        (let (r, st) = os_call (old_os env) (WSAAccept lsfd) st; (l, st) = others (l, st) in
         if ret r = INVALID_SOCKET then Some (Inr (l, st))
         else
           (case iaccept_one env port0 l (ret r) (raddr r) st of
              Inl e \<Rightarrow> Some (Inl e)
            | Inr st \<Rightarrow> ilisten_loop env others lsfd port0 l st))
      else Some (Inr (l, st)))"

definition IListener_run ::
  "('x, 'k) iqenv \<Rightarrow> (ilistener \<times> ('x, 'k) iworld \<Rightarrow> ilistener \<times> ('x, 'k) iworld) \<Rightarrow>
   ilistener \<Rightarrow> ('x, 'k) iworld \<Rightarrow> (ilistener \<times> ('x, 'k) iworld) result option" where
  "IListener_run env others l st = ilisten_loop env others (il_fd l) (iocp (iocper st)) l st"

subsection \<open>Connector\<close>

record iconnector =
  ic_ip :: int
  ic_port :: int
  ic_fd :: int

definition IConnector_connect ::
  "('x, 'k) iqenv \<Rightarrow> iconnector \<Rightarrow> ('x, 'k) iworld \<Rightarrow> (int option \<times> iconnector \<times> ('x, 'k) iworld) result" where
  "IConnector_connect env c st =
     (let (r, st) = os_call (old_os env) WSASocket st; c = c\<lparr>ic_fd := ret r\<rparr> in
      if ret r = INVALID_SOCKET then Inr (Some (err r), c, st)
      else
        (let addr = (ic_ip c, htons (ic_port c));
             (r, st) = os_call (old_os env) (Connect (ic_fd c) (fst addr) (snd addr)) st in
         if ret r = SOCKET_ERROR then Inr (Some (err r), c, st)
         else
           (let (clt, h) = heap_new (new_session env) (sessions st); st = st\<lparr>sessions := h\<rparr> in
            rbind (c_assert (no_assert env) (clt \<noteq> 0)) (\<lambda>_.
            rbind (deref (sessions st) clt) (\<lambda>s.
            rbind (assign (sessions st) clt (s\<lparr>i_iocp := iocp (iocper st), fd := ic_fd c, ip := fst addr,
                port := htons (snd addr), i_event := EVT_CONNECT, i_srv := OwnedByConnector, isPassive := False\<rparr>)) (\<lambda>h.
              Inr (None, c, IScheduler_push env clt (st\<lparr>sessions := h\<rparr>))))))))"

definition IConnector_start ::
  "('x, 'k) iqenv \<Rightarrow> iconnector \<Rightarrow> ('x, 'k) iworld \<Rightarrow> (int option \<times> iconnector \<times> ('x, 'k) iworld) result" where
  "IConnector_start env c st = IConnector_connect env c st"

definition IConnector_stop :: "iconnector \<Rightarrow> iconnector" where
  "IConnector_stop c = c"

subsection \<open>TCPService\<close>

record iservice =
  ilisteners :: "ilistener list"
  iconnectors :: "iconnector list"
  isvc_config :: properties
  i_factory :: ptr

definition ITCPService_new :: "ptr \<Rightarrow> iservice" where
  "ITCPService_new factory = \<lparr>ilisteners = [], iconnectors = [], isvc_config = Properties, i_factory = factory\<rparr>"

text \<open>\<open>fd0\<close> is the uninitialised descriptor of the new listener or connector.\<close>

definition iaddListener :: "int \<Rightarrow> int \<Rightarrow> int \<Rightarrow> iservice \<Rightarrow> iservice" where
  "iaddListener fd0 addr port' v = v\<lparr>ilisteners := ilisteners v @
     [\<lparr>il_ip = addr, il_port = port', il_backlogs = cfg_backlogs (isvc_config v), il_srv = OwnedByService, il_fd = fd0,
       il_running = False, il_thread = False\<rparr>]\<rparr>"

definition iaddConnector :: "int \<Rightarrow> int \<Rightarrow> int \<Rightarrow> iservice \<Rightarrow> iservice" where
  "iaddConnector fd0 addr port' v = v\<lparr>iconnectors := iconnectors v @ [\<lparr>ic_ip = addr, ic_port = port', ic_fd = fd0\<rparr>]\<rparr>"

fun istart_listeners ::
  "('s, 'k) ienv \<Rightarrow> ilistener list \<Rightarrow> ('s, 'k) inet \<Rightarrow> int option \<times> ilistener list \<times> ('s, 'k) inet" where
  "istart_listeners env [] st = (None, [], st)"
| "istart_listeners env (l # ls) st =
     (let (e, l, st) = IListener_start env l st in
      case e of
        Some n \<Rightarrow> (Some n, l # ls, st)
      | None \<Rightarrow> (let (e, ls, st) = istart_listeners env ls st in (e, l # ls, st)))"

fun istart_connectors ::
  "('x, 'k) iqenv \<Rightarrow> iconnector list \<Rightarrow> ('x, 'k) iworld \<Rightarrow> (int option \<times> iconnector list \<times> ('x, 'k) iworld) result" where
  "istart_connectors env [] st = Inr (None, [], st)"
| "istart_connectors env (c # cs) st =
     rbind (IConnector_start env c st) (\<lambda>(e, c, st).
       case e of
         Some n \<Rightarrow> Inr (Some n, c # cs, st)
       | None \<Rightarrow> rbind (istart_connectors env cs st) (\<lambda>(e, cs, st). Inr (e, c # cs, st)))"

definition ifix_config :: "properties \<Rightarrow> properties" where
  "ifix_config cfg =
     (let cfg = (if cfg_backlogs cfg \<le> 0 then cfg\<lparr>cfg_backlogs := 10\<rparr> else cfg) in
      if cfg_threads cfg \<le> 0 then cfg\<lparr>cfg_threads := 1\<rparr> else cfg)"

text \<open>\<open>start\<close> returns 0 or passes on the first exception.\<close>

definition ITCPService_start ::
  "('x, 'k) iqenv \<Rightarrow> iservice \<Rightarrow> ('x, 'k) iworld \<Rightarrow> (int option \<times> iservice \<times> ('x, 'k) iworld) result" where
  "ITCPService_start env v st =
     (let v = v\<lparr>isvc_config := ifix_config (isvc_config v)\<rparr>;
          st = st\<lparr>iocper := (iocper st)\<lparr>i_scheds := scheds (isvc_config v)\<rparr>\<rparr>;
          (e, st) = IScheduler_start env st in
      case e of Some n \<Rightarrow> Inr (Some n, v, st) | None \<Rightarrow>
      (let (e, st) = IProcessor_start env (isvc_config v) st in
       case e of Some n \<Rightarrow> Inr (Some n, v, st) | None \<Rightarrow>
       (let (e, ls, st) = istart_listeners env (ilisteners v) st; v = v\<lparr>ilisteners := ls\<rparr> in
        case e of Some n \<Rightarrow> Inr (Some n, v, st) | None \<Rightarrow>
        rbind (istart_connectors env (iconnectors v) (os_do (old_os env) (Sleep 1000) st)) (\<lambda>(e, cs, st).
          Inr (e, v\<lparr>iconnectors := cs\<rparr>, st)))))"

definition ITCPService_stop :: "iservice \<Rightarrow> ('s, 'k) inet \<Rightarrow> iservice \<times> ('s, 'k) inet" where
  "ITCPService_stop v st = (v, st)"

end
