(* ===== verification/Iocp_Props.thy ===== *)
theory Iocp_Props
  imports Iocp_Service
begin

text \<open>
  What the completion-port back end does: the state stays well formed under every completion the
  kernel can report, a connection is lost with its first data because receiving never changes the
  session's \<open>event\<close>, and the listener gives its socket back on every failure.
\<close>

subsection \<open>Well-formed states\<close>

definition inet_ok :: "('x, 'k) iworld \<Rightarrow> bool" where
  "inet_ok st \<longleftrightarrow> heap_ok (sessions st) \<and> (\<forall>p s. cells (sessions st) p = Some s \<longrightarrow> conn_inv s)"

definition same_recv :: "'x isession_scheme \<Rightarrow> 'x isession_scheme \<Rightarrow> bool" where
  "same_recv s s' \<longleftrightarrow> recvBuf s' = recvBuf s \<and> recvBufPos s' = recvBufPos s"

text \<open>
  A session class whose methods return, leave the receive buffer and the other sessions alone, and
  whose \<open>on_recv\<close> does not look behind its packet.  \<open>on_connect\<close> may throw.
\<close>

definition ibenign :: "('x, 'k) iqenv \<Rightarrow> bool" where
  "ibenign env \<longleftrightarrow> (\<forall>p. buffer_blind (\<lambda>pkt. arrived env pkt p) \<and>
     (\<forall>pkt s st. \<exists>s' st'. arrived env pkt p (s, st) = Inr (s', st') \<and> same_recv s s' \<and> sessions st' = sessions st) \<and>
     (\<forall>n s st. \<exists>s' st'. sent_out env n p (s, st) = Inr (s', st') \<and> same_recv s s' \<and> sessions st' = sessions st) \<and>
     (\<forall>s st. \<exists>s' st'. disconnected env p (s, st) = Inr (s', st') \<and> same_recv s s' \<and> sessions st' = sessions st) \<and>
     (\<forall>s st. \<exists>e s' st'. connected env p (s, st) = Inr (e, s', st') \<and> same_recv s s' \<and> sessions st' = sessions st))"

lemma ibenignD:
  assumes "ibenign env"
  shows "buffer_blind (\<lambda>pkt. arrived env pkt p)"
    "\<exists>s' st'. arrived env pkt p (s, st) = Inr (s', st') \<and> same_recv s s' \<and> sessions st' = sessions st"
    "\<exists>s' st'. sent_out env n p (s, st) = Inr (s', st') \<and> same_recv s s' \<and> sessions st' = sessions st"
    "\<exists>s' st'. disconnected env p (s, st) = Inr (s', st') \<and> same_recv s s' \<and> sessions st' = sessions st"
    "\<exists>e s' st'. connected env p (s, st) = Inr (e, s', st') \<and> same_recv s s' \<and> sessions st' = sessions st"
  using assms unfolding ibenign_def by blast+

lemma conn_inv_same: "same_recv s s' \<Longrightarrow> conn_inv s \<Longrightarrow> conn_inv s'"
  by (simp add: same_recv_def conn_inv_def)

lemma ikeeps_buffer: "ibenign env \<Longrightarrow> keeps_buffer (\<lambda>pkt. arrived env pkt p)"
  unfolding keeps_buffer_def
proof (intro allI impI)
  fix pkt s st s' st'
  assume "ibenign env" and a: "arrived env pkt p (s, st) = Inr (s', st')"
  from ibenignD(2) [OF this(1), of pkt p s st] a show "recvBuf s' = recvBuf s \<and> recvBufPos s' = recvBufPos s"
    by (auto simp: same_recv_def)
qed

text \<open>The outcome of a turn that concerns the session at \<open>p\<close> only.\<close>

definition touches_at :: "ptr \<Rightarrow> ('x, 'k) iworld \<Rightarrow> ('x, 'k) iworld result \<Rightarrow> bool" where
  "touches_at p st r \<longleftrightarrow> (\<exists>st'. r = Inr st' \<and> inet_ok st' \<and>
     (\<forall>q. q \<noteq> p \<longrightarrow> cells (sessions st') q = cells (sessions st) q))"

lemma istore_ok:
  assumes "inet_ok st0" "live (sessions st0) p" "sessions st = sessions st0" "conn_inv s"
  shows "touches_at p st0 (istore p (s, st))"
proof -
  let ?h = "(sessions st0)\<lparr>cells := (cells (sessions st0))(p \<mapsto> s)\<rparr>"
  have "assign (sessions st) p s = Inr ?h"
    using assms(2,3) by (simp add: assign_eq_Inr)
  moreover have "inet_ok (st\<lparr>sessions := ?h\<rparr>)"
    using assms heap_ok_update [of "sessions st0" p "Some s"] by (simp add: inet_ok_def)
  ultimately show ?thesis by (simp add: touches_at_def istore_def)
qed

lemma idelete_ok:
  assumes "inet_ok st0" "live (sessions st0) p" "sessions st = sessions st0"
  shows "touches_at p st0 (idelete env p (s, st))"
proof -
  let ?h = "(sessions st0)\<lparr>cells := (cells (sessions st0))(p := None)\<rparr>"
  have "heap_delete p (sessions st0) = Inr ?h"
    using assms(2) by (auto simp: live_def heap_simps)
  moreover have "inet_ok (st1\<lparr>sessions := ?h\<rparr>)" for st1
    using assms(1,2) heap_ok_update [of "sessions st0" p None] by (simp add: inet_ok_def)
  ultimately show ?thesis
    using assms(3) by (simp add: touches_at_def idelete_def Let_def)
qed

lemma ilaunch_recv_ok: "fst (ilaunch_recv env p (s, st)) = s \<and> sessions (snd (ilaunch_recv env p (s, st))) = sessions st"
  by (auto simp: ilaunch_recv_def dest: sessions_after split: prod.splits)

lemma istore_launch:
  assumes "inet_ok st0" "live (sessions st0) p" "sessions st = sessions st0" "conn_inv s"
  shows "touches_at p st0 (istore p (ilaunch_recv env p (s, st)))"
  using istore_ok [OF assms(1,2), of "snd (ilaunch_recv env p (s, st))" s] ilaunch_recv_ok [of env p s st] assms(3,4)
  by (metis prod.collapse)

lemma on_connected_ok:
  assumes "ibenign env" "inet_ok st0" "live (sessions st0) p" "sessions st = sessions st0" "conn_inv s"
  shows "touches_at p st0 (on_connected env p (s, st))"
proof -
  obtain e st1 where 1: "IScheduler_associate env p s st = (e, st1)" by fastforce
  then have h1: "sessions st1 = sessions st0"
    using assms(4) by (auto simp: IScheduler_associate_def dest: sessions_after split: prod.splits if_splits)
  show ?thesis
  proof (cases e)
    case (Some n)
    with 1 idelete_ok [OF assms(2,3) h1] show ?thesis by (simp add: on_connected_def)
  next
    case None
    obtain e2 s2 st2 where 2: "connected env p (s, st1) = Inr (e2, s2, st2)" "same_recv s s2" "sessions st2 = sessions st0"
      using ibenignD(5) [OF assms(1), of p s st1] h1 by auto
    show ?thesis
      using 1 2 None idelete_ok [OF assms(2,3) 2(3)] istore_launch [OF assms(2,3) 2(3) conn_inv_same [OF 2(2) assms(5)]]
      by (cases e2) (simp_all add: on_connected_def)
  qed
qed

lemma ideliver_ok:
  assumes "ibenign env"
  shows "\<exists>s' st'. deliver_list (\<lambda>pkt. arrived env pkt p) pkts (s, st) = Inr (s', st') \<and> sessions st' = sessions st"
proof (induction pkts arbitrary: s st)
  case (Cons pkt pkts)
  from ibenignD(2) [OF assms, of pkt p s st] obtain s1 st1 where
    "arrived env pkt p (s, st) = Inr (s1, st1)" "sessions st1 = sessions st"
    by blast
  with Cons.IH [of s1 st1] show ?case by auto
qed simp

lemma ireceive_ok:
  assumes "ibenign env" "bounded_framer (cut_packet env)" "conn_inv s" "length (received s) + length bytes < length (recvBuf s)"
  shows "\<exists>s1 s2 s3 st'. recv_chunk True (cut_packet env) (\<lambda>pkt. arrived env pkt p) (s, st) bytes = Some (Inr (s2, st')) \<and>
    deliver_list (\<lambda>pkt. arrived env pkt p) (fst (frames (cut_packet env) (received s @ bytes))) (s1, st) = Inr (s3, st') \<and>
    received s2 = snd (frames (cut_packet env) (received s @ bytes)) \<and> conn_inv s2 \<and> sessions st' = sessions st"
proof -
  let ?cb = "\<lambda>pkt. arrived env pkt p" and ?fr = "frames (cut_packet env) (received s @ bytes)"
  obtain s1 r where r: "recv_chunk True (cut_packet env) ?cb (s, st) bytes = Some r" "loop_result ?cb ?fr (s1, st) r"
    using recv_chunk_patch_ok [OF assms(2) ikeeps_buffer [OF assms(1), of p] assms(3), of bytes True st] ibenignD(1) [OF assms(1)] assms(4)
    by (metis less_imp_le_nat)
  from ideliver_ok [OF assms(1)] obtain s3 st' where d:
    "deliver_list ?cb (fst ?fr) (s1, st) = Inr (s3, st')" "sessions st' = sessions st"
    by blast
  with r(2) obtain s2 where "r = Inr (s2, st')" "conn_inv s2" "received s2 = snd ?fr"
    by (auto simp: loop_result_def)
  with r(1) d show ?thesis by blast
qed

text \<open>The buffer after the kernel has stored a finished receive.\<close>

definition landed :: "'x isession_scheme \<Rightarrow> byte list \<Rightarrow> byte list" where
  "landed s bs = take (nat (recvBufPos s)) (recvBuf s) @ bs @ drop (nat (recvBufPos s) + length bs) (recvBuf s)"

lemma iworker_turn_eq:
  assumes "os_call (old_os env) (GetQueuedCompletionStatus port0) st = (r, st1)" "deref (sessions st) (rkey r) = Inr s"
    "conn_inv s" "recvBufPos s + int (length (rdata r)) \<le> int (length (recvBuf s))"
  shows "iworker_turn env port0 st = on_completion env port0 (ret r) (rkey r) (s\<lparr>recvBuf := landed s (rdata r)\<rparr>, st1)"
    "mem_write (recvBuf s) (recvBufPos s) (rdata r) = Inr (landed s (rdata r))"
    "length (landed s (rdata r)) = length (recvBuf s)"
proof -
  show wr: "mem_write (recvBuf s) (recvBufPos s) (rdata r) = Inr (landed s (rdata r))"
    unfolding landed_def using assms(3,4) by (intro mem_write_ok) (auto simp: conn_inv_def)
  then show "length (landed s (rdata r)) = length (recvBuf s)"
    by (rule mem_write_length)
  show "iworker_turn env port0 st = on_completion env port0 (ret r) (rkey r) (s\<lparr>recvBuf := landed s (rdata r)\<rparr>, st1)"
    using assms(1,2) sessions_after [OF assms(1)] wr by (simp add: iworker_turn_def) (simp add: landed_def)
qed

lemma on_completion_ok:
  assumes "ibenign env" "inet_ok st0" "live (sessions st0) p" "sessions st = sessions st0" "conn_inv s" "i_event s \<noteq> EVT_RECV \<or> ready \<le> 0"
  shows "\<exists>x. on_completion env port0 ready p (s, st) = Some x \<and> touches_at p st0 x"
proof -
  have dis: "touches_at p st0 (idisconnect env port0 p (s, st))"
    using istore_ok [OF assms(2,3), of _ "s\<lparr>i_event := EVT_DISCONNECT\<rparr>"] assms(4,5)
    by (simp add: idisconnect_def conn_inv_def)
  have gone: "touches_at p st0 (rbind (disconnected env p (s, st)) (idelete env p))"
    using ibenignD(4) [OF assms(1), of p s st] idelete_ok [OF assms(2,3)] assms(4) by auto
  have sent: "touches_at p st0 (rbind (sent_out env ready p (s, st)) (istore p))"
    using ibenignD(3) [OF assms(1), of ready p s st] istore_ok [OF assms(2,3)] conn_inv_same [OF _ assms(5)] assms(4) by auto
  show ?thesis
    using assms(6) dis gone sent on_connected_ok [OF assms(1-5)] istore_ok [OF assms(2-5)]
    by (cases "i_event s") (simp_all add: on_completion_def)
qed

subsection \<open>Association\<close>

text \<open>
  What is documented of completion ports: a socket that is associated with a port cannot be
  associated again, and it stays associated until it is closed.  \<open>assoc\<close> reads off the
  kernel's state which sockets are.
\<close>

definition one_port :: "'k os \<Rightarrow> ('k \<Rightarrow> int set) \<Rightarrow> bool" where
  "one_port sys assoc \<longleftrightarrow>
     (\<forall>k f port0 p n. f \<in> assoc k \<longrightarrow> ret (fst (sys (CreateIoCompletionPort f port0 p n) k)) = NULL_HANDLE) \<and>
     (\<forall>k f port0 p n. ret (fst (sys (CreateIoCompletionPort f port0 p n) k)) \<noteq> NULL_HANDLE \<longrightarrow>
        f \<in> assoc (snd (sys (CreateIoCompletionPort f port0 p n) k))) \<and>
     (\<forall>k c. (\<forall>f. c \<noteq> Closesocket f) \<longrightarrow> assoc k \<subseteq> assoc (snd (sys c k)))"

lemma one_port_keeps:
  assumes "one_port sys assoc" "os_call sys c st = (r, st')" "\<And>f. c \<noteq> Closesocket f"
  shows "assoc (kernel st) \<subseteq> assoc (kernel st')"
proof -
  have "kernel st' = snd (sys c (kernel st))"
    using assms(2) by (auto simp: os_call_def split: prod.splits)
  with assms(1,3) show ?thesis by (simp add: one_port_def)
qed

lemma associate_again:
  assumes "one_port (old_os env) assoc" "fd s \<in> assoc (kernel st)"
  shows "\<exists>n st'. IScheduler_associate env p s st = (Some n, st') \<and> sessions st' = sessions st \<and>
    calls st' = calls st @ [CreateIoCompletionPort (fd s) (iocp (iocper st)) p 0]"
proof -
  let ?c = "CreateIoCompletionPort (fd s) (iocp (iocper st)) p 0"
  obtain r st' where r: "os_call (old_os env) ?c st = (r, st')" by fastforce
  have "r = fst (old_os env ?c (kernel st))"
    using r by (auto simp: os_call_def split: prod.splits)
  then have "ret r = NULL_HANDLE"
    using assms by (simp add: one_port_def)
  with r sessions_after [OF r] calls_syscall [of "old_os env" ?c st] show ?thesis
    by (simp add: IScheduler_associate_def)
qed

lemma associate_once:
  assumes "one_port (old_os env) assoc" "IScheduler_associate env p s st = (None, st')"
  shows "fd s \<in> assoc (kernel st')"
proof -
  let ?c = "CreateIoCompletionPort (fd s) (iocp (iocper st)) p 0"
  obtain r st1 where r: "os_call (old_os env) ?c st = (r, st1)" by fastforce
  then have k: "r = fst (old_os env ?c (kernel st))" "kernel st1 = snd (old_os env ?c (kernel st))"
    by (auto simp: os_call_def split: prod.splits)
  have "ret r \<noteq> NULL_HANDLE" "st1 = st'"
    using assms(2) r by (auto simp: IScheduler_associate_def split: if_splits)
  with assms(1) k show ?thesis by (auto simp: one_port_def)
qed

lemma launch_keeps:
  assumes "one_port (old_os env) assoc" "ilaunch_recv env p (s, st) = (s', st')"
  shows "assoc (kernel st) \<subseteq> assoc (kernel st')"
proof -
  obtain r w where r: "os_call (old_os env) (WSARecv (fd s) (int (length (recvBuf s)) - recvBufPos s)) st = (r, w)"
    by fastforce
  obtain r' w' where r': "os_call (old_os env) (PostQueuedCompletionStatus (i_iocp s) 0 p) w = (r', w')"
    by fastforce
  have "assoc (kernel st) \<subseteq> assoc (kernel w)" "assoc (kernel w) \<subseteq> assoc (kernel w')"
    using one_port_keeps [OF assms(1) r] one_port_keeps [OF assms(1) r'] by auto
  moreover have "st' \<in> {st, w, w'}"
    using assms(2) r r' by (auto simp: ilaunch_recv_def os_do_def split: if_splits)
  ultimately show ?thesis by auto
qed

lemma on_connected_assoc:
  assumes "one_port (old_os env) assoc"
    and con: "\<And>p s st e s' st'. connected env p (s, st) = Inr (e, s', st') \<Longrightarrow>
      fd s' = fd s \<and> i_event s' = i_event s \<and> assoc (kernel st) \<subseteq> assoc (kernel st')"
    and "ibenign env" "on_connected env p (s, st) = Inr st1" "cells (sessions st1) p = Some s1" "conn_inv s" "p \<noteq> 0"
  shows "fd s1 = fd s \<and> i_event s1 = i_event s \<and> fd s \<in> assoc (kernel st1) \<and> conn_inv s1"
proof -
  have gone: False if "idelete env p (t, w) = Inr st1" for t w
    using that assms(5,7) by (auto simp: idelete_def Let_def rbind_eq_Inr heap_delete_def deref_def split: if_splits option.splits)
  obtain e sta where a: "IScheduler_associate env p s st = (e, sta)" by fastforce
  then have "e = None"
    using assms(4) gone by (cases e) (auto simp: on_connected_def)
  with a have "fd s \<in> assoc (kernel sta)"
    using associate_once [OF assms(1)] by blast
  obtain e' s' stc where c: "connected env p (s, sta) = Inr (e', s', stc)" "same_recv s s'"
    using ibenignD(5) [OF assms(3), of p s sta] by blast
  have "e' = None"
    using assms(4) a c(1) gone \<open>e = None\<close> by (cases e') (auto simp: on_connected_def)
  then have st: "istore p (ilaunch_recv env p (s', stc)) = Inr st1"
    using assms(4) a c(1) \<open>e = None\<close> by (simp add: on_connected_def)
  obtain stl where l: "ilaunch_recv env p (s', stc) = (s', stl)"
    using ilaunch_recv_ok [of env p s' stc] by (metis prod.collapse)
  have eq: "s1 = s'" "kernel st1 = kernel stl"
    using st assms(5) by (auto simp: l istore_def rbind_eq_Inr assign_eq_Inr)
  have "fd s \<in> assoc (kernel stl)"
    using launch_keeps [OF assms(1) l] con [OF c(1)] \<open>fd s \<in> assoc (kernel sta)\<close> by (meson subsetD)
  with eq con [OF c(1)] conn_inv_same [OF c(2) assms(6)] show ?thesis by simp
qed

lemma on_connected_again:
  assumes "one_port (old_os env) assoc" "fd s \<in> assoc (kernel st)" "cells (sessions st) p = Some t" "p \<noteq> 0"
  shows "\<exists>st'. on_connected env p (s, st) = Inr st' \<and> cells (sessions st') p = None \<and>
    calls st' = calls st @ [CreateIoCompletionPort (fd s) (iocp (iocper st)) p 0, Closesocket (fd s)]"
proof -
  obtain n sta where a: "IScheduler_associate env p s st = (Some n, sta)" "sessions sta = sessions st"
    "calls sta = calls st @ [CreateIoCompletionPort (fd s) (iocp (iocper st)) p 0]"
    using associate_again [OF assms(1,2)] by blast
  have "calls (v\<lparr>sessions := h\<rparr>) = calls v" for v :: "('b isession_scheme, 'a) inet" and h
    by (simp add: calls_def)
  with a assms(3,4) show ?thesis
    by (simp add: on_connected_def idelete_def Let_def heap_delete_live)
qed

lemma on_connected_arrived: "on_connected (env\<lparr>arrived := f\<rparr>) = on_connected env"
proof -
  have "idelete (env\<lparr>arrived := f\<rparr>) = idelete env" "ilaunch_recv (env\<lparr>arrived := f\<rparr>) = ilaunch_recv env"
    "IScheduler_associate (env\<lparr>arrived := f\<rparr>) = IScheduler_associate env" "connected (env\<lparr>arrived := f\<rparr>) = connected env"
    by (simp_all add: fun_eq_iff idelete_def ilaunch_recv_def IScheduler_associate_def split: prod.split)
  then show ?thesis by (simp only: fun_eq_iff on_connected_def simp_thms)
qed

subsection \<open>A concrete program\<close>

text \<open>A kernel that knows which sockets are associated and reports one byte for the session at 2.\<close>

definition idemo_os :: "bool \<Rightarrow> int set os" where
  "idemo_os has c k =
     (\<lparr>ret = (case c of CreateIoCompletionPort f q p n \<Rightarrow> (if f \<in> k then 0 else 9)
             | GetQueuedCompletionStatus q \<Rightarrow> of_bool has | Bind f a q \<Rightarrow> - 1 | WSASocket \<Rightarrow> 6 | _ \<Rightarrow> 0),
       err = (case c of Bind f a q \<Rightarrow> 10048 | _ \<Rightarrow> 87),
       rdata = (case c of GetQueuedCompletionStatus q \<Rightarrow> (if has then [7] else []) | _ \<Rightarrow> []),
       revents = [], raddr = (0, 0), rkevents = [], rkey = 2\<rparr>,
      case c of CreateIoCompletionPort f q p n \<Rightarrow> insert f k | Closesocket f \<Rightarrow> k - {f} | _ \<Rightarrow> k)"

definition idemo_session :: "NetEvent \<Rightarrow> isession" where
  "idemo_session e = IEventHandler \<lparr>fd = 7, ip = 0, port = 0, isPassive = True, recvBuf = [0, 0], recvBufPos = 3,
     i_iocp = 9, i_event = e, i_srv = OwnedByService, i_sendBuf = []\<rparr>"

definition idemo_env :: "bool \<Rightarrow> (unit, int set) iqenv" where
  "idemo_env has = \<lparr>old_os = idemo_os has, no_assert = True, cut_packet = iread_packet,
     connected = (\<lambda>_ (s, w). Inr (None, s, w)), disconnected = (\<lambda>_ sw. Inr sw), arrived = (\<lambda>_ _ sw. Inr sw),
     sent_out = (\<lambda>_ _ sw. Inr sw), new_session = idemo_session EVT_CONNECT, make_session = heap_new (idemo_session EVT_CONNECT),
     proc_handler = None, user_handler = None\<rparr>"

definition idemo_net :: "int set \<Rightarrow> NetEvent \<Rightarrow> (unit, int set) iworld" where
  "idemo_net k e = \<lparr>kernel = k, errno = 0, trace = [], sessions = \<lparr>cells = [2 \<mapsto> idemo_session e], fresh = 3\<rparr>,
     iocper = \<lparr>i_scheds = 1, iocp = 9\<rparr>, i_running = True, i_threads = 1, i_runThreads = []\<rparr>"

lemma idemo_benign: "ibenign (idemo_env has)"
  by (auto simp: ibenign_def idemo_env_def buffer_blind_def same_recv_def)

lemma idemo_net_ok: "inet_ok (idemo_net k e)"
  by (auto simp: inet_ok_def idemo_net_def heap_ok_def conn_inv_def idemo_session_def IEventHandler_def split: if_splits)

lemma idemo_framer: "bounded_framer (cut_packet (idemo_env has))"
  by (simp add: bounded_framer_def idemo_env_def iread_packet_def)

lemma idemo_one_port: "one_port (old_os (idemo_env has)) (\<lambda>k. k)"
  by (auto simp: one_port_def idemo_env_def idemo_os_def NULL_HANDLE_def split: sys_call.splits if_splits)

subsection \<open>Properties\<close>



text \<open>
  (C22) No line of the back end says that a session is receiving: the first data of a connection is taken
  for another connect.  After the turn that announced the connection, with a kernel that refuses to
  associate a socket twice, the next completion for the session, whatever bytes it brings, closes the
  socket and deletes the session; the packet callback plays no part in it.
\<close>

theorem iocp_first_data_drops:
  assumes "one_port (old_os env) assoc" "ibenign env"
    and "\<And>p s st e s' st'. connected env p (s, st) = Inr (e, s', st') \<Longrightarrow>
      fd s' = fd s \<and> i_event s' = i_event s \<and> assoc (kernel st) \<subseteq> assoc (kernel st')"
    and "inet_ok st" "os_call (old_os env) (GetQueuedCompletionStatus port0) st = (r0, st0)" "rkey r0 = p" "rdata r0 = []"
    and "cells (sessions st) p = Some s" "i_event s = EVT_CONNECT"
    and "iworker_turn env port0 st = Some (Inr st1)" "cells (sessions st1) p = Some s1"
    and "cells (sessions st2) p = Some s1" "assoc (kernel st1) \<subseteq> assoc (kernel st2)"
    and "os_call (old_os env) (GetQueuedCompletionStatus port0) st2 = (r, st3)" "rkey r = p"
    and "recvBufPos s1 + int (length (rdata r)) \<le> int (length (recvBuf s1))"
  shows "\<exists>st'. cells (sessions st') p = None \<and>
    calls st' = calls st2 @ [GetQueuedCompletionStatus port0,
      CreateIoCompletionPort (fd s) (iocp (iocper st3)) p 0, Closesocket (fd s)] \<and>
    (\<forall>f. iworker_turn (env\<lparr>arrived := f\<rparr>) port0 st2 = Some (Inr st'))"
proof -
  have p: "p \<noteq> 0" "conn_inv s"
    using assms(4,8) live_nonzero by (auto simp: inet_ok_def)
  then have d: "deref (sessions st) (rkey r0) = Inr s" "deref (sessions st2) (rkey r) = Inr s1"
    using assms(6,8,12,15) by (simp_all add: deref_live)
  have "landed s (rdata r0) = recvBuf s"
    using assms(7) by (simp add: landed_def)
  with iworker_turn_eq(1) [OF assms(5) d(1) p(2)] assms(6,7,9,10) p(2) have "on_connected env p (s, st0) = Inr st1"
    by (simp add: on_completion_def conn_inv_def)
  from on_connected_assoc [OF assms(1) assms(3) assms(2) this assms(11) p(2,1)]
  have s1: "fd s1 = fd s" "i_event s1 = EVT_CONNECT" "fd s1 \<in> assoc (kernel st1)" "conn_inv s1"
    using assms(9) by auto
  have k: "fd s1 \<in> assoc (kernel st3)" "cells (sessions st3) p = Some s1" "calls st3 = calls st2 @ [GetQueuedCompletionStatus port0]"
    using s1(3) assms(12-14) one_port_keeps [OF assms(1,14)] sessions_after [OF assms(14)]
      calls_syscall [of "old_os env" "GetQueuedCompletionStatus port0" st2] by auto
  let ?s = "s1\<lparr>recvBuf := landed s1 (rdata r)\<rparr>"
  have turn: "iworker_turn (env\<lparr>arrived := f\<rparr>) port0 st2 = Some (on_connected env p (?s, st3))" for f
    using iworker_turn_eq(1) [of "env\<lparr>arrived := f\<rparr>" port0 st2 r st3 s1] assms(14-16) d(2) s1(2,4)
    by (simp add: on_completion_def on_connected_arrived)
  from on_connected_again [OF assms(1) _ k(2) p(1), of ?s] k(1,3) s1(1) show ?thesis
    unfolding turn by auto
qed

theorem iocp_first_data_drops_witness:
  "\<exists>st1 st'. iworker_turn (idemo_env False) 9 (idemo_net {} EVT_CONNECT) = Some (Inr st1) \<and>
     cells (sessions st1) 2 \<noteq> None \<and> iworker_turn (idemo_env False) 9 st1 = Some (Inr st') \<and> cells (sessions st') 2 = None"
proof -
  let ?env = "idemo_env False" and ?st = "idemo_net {} EVT_CONNECT" and ?s = "idemo_session EVT_CONNECT"
  let ?q = "GetQueuedCompletionStatus 9"
  have con: "fd s' = fd s \<and> i_event s' = i_event s \<and> kernel st \<subseteq> kernel st'"
    if "connected ?env p (s, st) = Inr (e, s', st')" for p s st e s' st'
    using that by (simp add: idemo_env_def)
  obtain r0 st0 where r0: "os_call (old_os ?env) ?q ?st = (r0, st0)" by fastforce
  have q: "rkey r = 2 \<and> rdata r = []" if "os_call (old_os ?env) ?q st = (r, st')" for st st' :: "(unit, int set) iworld" and r
    using that by (auto simp: os_call_def idemo_env_def idemo_os_def)
  obtain st1 where st1: "iworker_turn ?env 9 ?st = Some (Inr st1)" "cells (sessions st1) 2 = Some ?s"
    by (simp add: iworker_turn_def os_call_def idemo_env_def idemo_os_def idemo_net_def deref_def idemo_session_def IEventHandler_def
        on_completion_def on_connected_def IScheduler_associate_def NULL_HANDLE_def ilaunch_recv_def istore_def assign_def)
  obtain r st3 where r: "os_call (old_os ?env) ?q st1 = (r, st3)" by fastforce
  have c: "cells (sessions ?st) 2 = Some ?s" "i_event ?s = EVT_CONNECT" "recvBufPos ?s + int (length (rdata r)) \<le> int (length (recvBuf ?s))"
    using q [OF r] by (simp_all add: idemo_net_def idemo_session_def IEventHandler_def)
  have "\<exists>st'. cells (sessions st') 2 = None \<and>
    calls st' = calls st1 @ [?q, CreateIoCompletionPort (fd ?s) (iocp (iocper st3)) 2 0, Closesocket (fd ?s)] \<and>
    (\<forall>f. iworker_turn (?env\<lparr>arrived := f\<rparr>) 9 st1 = Some (Inr st'))"
    by (rule iocp_first_data_drops [OF idemo_one_port idemo_benign _ idemo_net_ok r0 _ _ c(1,2) st1 st1(2) order_refl r _ c(3)])
      ((erule con) | (use q [OF r0] q [OF r] in blast))+
  then obtain st' where "cells (sessions st') 2 = None" "\<And>f. iworker_turn (?env\<lparr>arrived := f\<rparr>) 9 st1 = Some (Inr st')"
    by blast
  then have "iworker_turn ?env 9 st1 = Some (Inr st')"
    by (metis old_env.surjective old_env.update_convs(6))
  with st1 \<open>cells (sessions st') 2 = None\<close> show ?thesis by auto
qed

text \<open>
  Starting a listener: it succeeds after one socket, one bind to the configured address and port, one
  listen with the configured backlog and one thread; otherwise the exception carries the error of the call
  that failed, and a socket that was created has been closed again.  The flag says running in either case.
\<close>

theorem iocp_listener_start_spec:
  assumes "IListener_start env l st = (e, l', st')"
  shows "il_running l' \<and> sessions st' = sessions st \<and>
    (case e of
       None \<Rightarrow> calls st' = calls st @ [WSASocket, Bind (il_fd l') (il_ip l) (htons (il_port l)),
           Listen (il_fd l') (il_backlogs l), Thread_create ListenerRun] \<and> il_fd l' \<noteq> INVALID_SOCKET \<and> il_thread l'
     | Some n \<Rightarrow> calls st' = calls st @ [WSASocket] \<or>
         (\<exists>f cs. f \<noteq> INVALID_SOCKET \<and> cs \<noteq> [] \<and> calls st' = calls st @ WSASocket # cs @ [Closesocket f]))"
proof -
  note c = calls_after sessions_after
  obtain r1 st1 where 1: "os_call (old_os env) WSASocket st = (r1, st1)" by fastforce
  obtain r2 st2 where 2: "os_call (old_os env) (Bind (ret r1) (il_ip l) (htons (il_port l))) st1 = (r2, st2)" by fastforce
  obtain r3 st3 where 3: "os_call (old_os env) (Listen (ret r1) (il_backlogs l)) st2 = (r3, st3)" by fastforce
  obtain r4 st4 where 4: "os_call (old_os env) (Thread_create ListenerRun) st3 = (r4, st4)" by fastforce
  show ?thesis
    using assms c [OF 1] c [OF 2] c [OF 3] c [OF 4]
    by (auto simp: IListener_start_def 1 2 3 4 listen_fails_def Let_def split: if_splits)
qed

theorem iocp_listener_start_spec_witness:
  "\<exists>l' st'. IListener_start (idemo_env False) \<lparr>il_ip = 0, il_port = 80, il_backlogs = 10, il_srv = OwnedByService,
      il_fd = 0, il_running = False, il_thread = False\<rparr> (idemo_net {} EVT_CONNECT) = (Some 10048, l', st') \<and>
    il_running l' \<and> (\<exists>f cs. f \<noteq> INVALID_SOCKET \<and> cs \<noteq> [] \<and> calls st' = WSASocket # cs @ [Closesocket f])"
proof -
  let ?l = "\<lparr>il_ip = 0, il_port = 80, il_backlogs = 10, il_srv = OwnedByService, il_fd = 0, il_running = False, il_thread = False\<rparr>"
  obtain l' st' where s: "IListener_start (idemo_env False) ?l (idemo_net {} EVT_CONNECT) = (Some 10048, l', st')" "length (calls st') = 3"
    by (simp add: IListener_start_def os_call_def os_do_def idemo_env_def idemo_os_def listen_fails_def win_consts calls_def idemo_net_def)
  have "calls (idemo_net {} EVT_CONNECT) = []"
    by (simp add: calls_def idemo_net_def)
  with iocp_listener_start_spec [OF s(1)] s show ?thesis by auto
qed

end
