(* ===== verification/Echo_Server.thy ===== *)
theory Echo_Server
  imports Epoll_Service_Props
begin

text \<open>
  The two programs built on the epoll back end: the echo server \<open>src/test.cpp\<close> and
  the client \<open>src/client.cpp\<close>, each a session class, an event handler and a \<open>main\<close>
  that waits for a key.  A session class is an environment: the library's with the virtual methods of the
  class.  Logging has no effect and is left out.  The field \<open>isPassive\<close> that the classes declare
  hides the one they inherit, and it is the one the listener and the connector set.
\<close>

type_synonym ('x, 'k) msg_env = "('x, byte list, 'k) eenv"

subsection \<open>The server\<close>

definition tcp_read_packet :: framer where
  "tcp_read_packet pData dataLen = dataLen"

text \<open>\<open>len\<close> is an \<open>unsigned int\<close>.\<close>

definition tcp_on_recv :: "('x, 'k) msg_env \<Rightarrow> byte list \<Rightarrow> ('x session_scheme, byte list, 'k) callback" where
  "tcp_on_recv env pBuf self sw =
     (let len = u32 (int (length pBuf)) in
      rbind (async_send env self (take (nat len) pBuf) sw) (\<lambda>(_, sw). Inr sw))"

definition server_handler :: "('s, byte list, 'k) event_handler" where
  "server_handler evt p st = Inr (0, st)"

definition my_create :: "'s \<Rightarrow> 's store \<Rightarrow> ptr \<times> 's store" where
  "my_create session h = heap_new session h"

definition my_release :: "ptr \<Rightarrow> 's store \<Rightarrow> 's store result" where
  "my_release pT h = heap_delete pT h"

definition server_env :: "'x session_scheme \<Rightarrow> ('x, 'k) msg_env \<Rightarrow> ('x, 'k) msg_env" where
  "server_env session lib = lib\<lparr>read_packet := tcp_read_packet, on_connect := default_method, on_disconnect := default_method,
     on_recv := tcp_on_recv lib, on_message := (\<lambda>_. default_method), create := my_create session, release := my_release,
     handler := Some server_handler\<rparr>"

text \<open>
  Waiting for the key q.  \<open>keys i\<close> is what the \<open>i\<close>-th call of \<open>getchar\<close> returns; the
  program keeps it in a \<open>char\<close>.
\<close>

definition s8 :: "int \<Rightarrow> int" where
  "s8 x = (x + 128) mod 256 - 128"

partial_function (option) await_quit :: "(nat \<Rightarrow> int) \<Rightarrow> nat \<Rightarrow> nat option" where
  "await_quit keys i = (let c = s8 (keys i) in if c = 0 \<or> c = 113 then Some i else await_quit keys (Suc i))"

definition server_main ::
  "('x, 'k) msg_env \<Rightarrow> int \<Rightarrow> (nat \<Rightarrow> int) \<Rightarrow> ('x, byte list, 'k) enet \<Rightarrow> (int \<times> ('x, byte list, 'k) enet) result option" where
  "server_main env any keys st =
     (let server = TCPService\<lparr>svc_config := Properties\<lparr>cfg_threads := 1, scheds := 1, cfg_backlogs := 10\<rparr>\<rparr>;
          server = addListener any 7788 server in
      obind (Some (TCPService_start env server st)) (\<lambda>(_, server, st).
        case await_quit keys 0 of
          None \<Rightarrow> None
        | Some _ \<Rightarrow> Some (rbind (TCPService_stop env server st) (\<lambda>(_, st). Inr (0, st)))))"

subsection \<open>The client\<close>

definition hello_world :: "byte list" where
  "hello_world = [104, 101, 108, 108, 111, 32, 119, 111, 114, 108, 100]"

definition client_on_connect :: "('x, 'k) msg_env \<Rightarrow> ('x session_scheme, byte list, 'k) callback" where
  "client_on_connect env self sw = rbind (async_send env self hello_world sw) (\<lambda>(_, sw). Inr sw)"

definition client_on_recv :: "('x, 'k) msg_env \<Rightarrow> byte list \<Rightarrow> ('x session_scheme, byte list, 'k) callback" where
  "client_on_recv env pBuf self sw =
     (let len = u32 (int (length pBuf)); msg = take (nat len) pBuf in
      rbind (async_send env self msg sw) (\<lambda>(_, sw). Inr sw))"

definition netHandler :: "('s, byte list, 'k) event_handler" where
  "netHandler evt pData st =
     (case evt of EVT_CONNECT \<Rightarrow> Inr (0, st) | EVT_CONNECT_FAIL \<Rightarrow> Inr (0, st) | EVT_LISTEN \<Rightarrow> Inr (0, st)
      | EVT_LISTEN_FAIL \<Rightarrow> Inr (0, st) | EVT_SESSION_CREATE \<Rightarrow> Inr (0, st) | EVT_SESSION_RELEASE \<Rightarrow> Inr (0, st)
      | _ \<Rightarrow> Inr (0, st))"

definition client_env :: "'x session_scheme \<Rightarrow> ('x, 'k) msg_env \<Rightarrow> ('x, 'k) msg_env" where
  "client_env session lib = lib\<lparr>read_packet := tcp_read_packet, on_connect := client_on_connect lib,
     on_disconnect := default_method, on_recv := client_on_recv lib, on_message := (\<lambda>_. default_method),
     create := factory_create session, release := factory_release, handler := Some netHandler\<rparr>"

definition client_main ::
  "('x, 'k) msg_env \<Rightarrow> int \<Rightarrow> int \<Rightarrow> (nat \<Rightarrow> int) \<Rightarrow> ('x, byte list, 'k) enet \<Rightarrow> (int \<times> ('x, byte list, 'k) enet) result option" where
  "client_main env fd0 localhost keys st =
     (let server = TCPService\<lparr>svc_config := Properties\<lparr>cfg_threads := 10, scheds := 1, cfg_backlogs := 10\<rparr>\<rparr>;
          server = addConnector fd0 localhost 7788 server in
      obind (Some (TCPService_start env server st)) (\<lambda>(_, server, st).
        case await_quit keys 0 of
          None \<Rightarrow> None
        | Some _ \<Rightarrow> Some (rbind (TCPService_stop env server st) (\<lambda>(_, st). Inr (0, st)))))"

subsection \<open>The session classes are benign\<close>

lemma tcp_on_recv_eq: "tcp_on_recv env pBuf = send_packet env (take (nat (u32 (int (length pBuf)))) pBuf)"
  by (simp add: fun_eq_iff tcp_on_recv_def send_packet_def Let_def)

lemma short_packet: "int (length (take (nat (u32 (int (length pBuf)))) pBuf)) < 2 ^ 32"
proof -
  have "u32 (int (length pBuf)) < 2 ^ 32"
    by (simp add: u32_def)
  then show ?thesis by simp
qed

lemma short_packet_whole: "int (length pBuf) < 2 ^ 32 \<Longrightarrow> take (nat (u32 (int (length pBuf)))) pBuf = pBuf"
  by (simp add: u32_def)

lemma server_benign:
  assumes "recv_documented (os lib)" "send_documented (os lib)" "ndebug lib"
  shows "benign_env (server_env session lib)"
proof -
  have "benign (tcp_on_recv lib pkt)" for pkt
    unfolding tcp_on_recv_eq by (rule benign_send_packet [OF assms(3) short_packet])
  moreover have "bounded_framer tcp_read_packet"
    by (simp add: bounded_framer_def tcp_read_packet_def)
  moreover have "my_release = factory_release"
    by (simp add: fun_eq_iff my_release_def factory_release_def)
  ultimately show ?thesis
    using assms benign_default by (simp add: benign_env_def server_env_def server_handler_def)
qed

lemma netHandler_ok: "\<exists>q st'. netHandler evt p st = Inr (q, st') \<and> same_core st st'"
  by (cases evt) (simp_all add: netHandler_def)

lemma client_benign:
  assumes "recv_documented (os lib)" "send_documented (os lib)" "ndebug lib"
  shows "benign_env (client_env session lib)"
proof -
  have "client_on_recv lib = tcp_on_recv lib"
    by (simp add: fun_eq_iff client_on_recv_def tcp_on_recv_def)
  moreover have "client_on_connect lib = send_packet lib hello_world"
    by (simp add: fun_eq_iff client_on_connect_def send_packet_def)
  moreover have "benign (tcp_on_recv lib pkt)" for pkt
    unfolding tcp_on_recv_eq by (rule benign_send_packet [OF assms(3) short_packet])
  moreover have "benign (send_packet lib hello_world)"
    by (rule benign_send_packet [OF assms(3)]) (simp add: hello_world_def)
  moreover have "bounded_framer tcp_read_packet"
    by (simp add: bounded_framer_def tcp_read_packet_def)
  ultimately show ?thesis
    using assms by (simp add: benign_env_def client_env_def benign_default netHandler_ok)
qed

subsection \<open>One packet through the server\<close>

lemma server_frames: "bs \<noteq> [] \<Longrightarrow> frames tcp_read_packet bs = ([bs], [])"
  by (subst frames_step [of "int (length bs)"]) (simp_all add: tcp_read_packet_def)

lemma async_send_lib: "async_send (server_env session lib) = async_send lib"
  by (simp add: fun_eq_iff async_send_def server_env_def)

lemma server_packet:
  assumes "ndebug lib" "sess_ok s" "push_fits (send_cap s) (sendBuffer s) (int (length bs))" "int (length bs) < 2 ^ 32"
    "\<not> app_run (config st)" "\<not> parser (config st)"
  shows "\<exists>s' st'. packet_arrived (server_env session lib) i p bs (s, st) = Inr (s', st') \<and>
    sb_contents (sendBuffer s') = sb_contents (sendBuffer s) @ bs \<and> fd s' = fd s \<and> procFd s' = procFd s \<and> same_core st st'"
proof -
  obtain s' st' where a: "async_send lib p bs (s, st) = Inr (RET_OK, s', st')" "same_core st st'"
    "sb_contents (sendBuffer s') = sb_contents (sendBuffer s) @ bs"
    using async_send_ok [OF assms(2), of lib bs p st] assms(1,3,4) by auto
  have "fd s' = fd s" "procFd s' = procFd s"
    using a(1) by (auto simp: async_send_def rbind_eq_Inr Let_def)
  with a assms(5,6) short_packet_whole [OF assms(4)] show ?thesis
    by (auto simp: packet_arrived_def server_env_def tcp_on_recv_def same_core_def)
qed

lemma server_epollin:
  assumes "recv_documented (os lib)" "send_documented (os lib)" "ndebug lib" "net_ok st" "deref (sessions st) p = Inr s"
    and "received s = []" "\<not> app_run (config st)" "\<not> parser (config st)"
    and "os_call (os lib) (Recv (fd s) (recv_size s)) st = (r, st1)" "0 < ret r"
    and "push_fits (send_cap s) (sendBuffer s) (int (length (rdata r)))"
  shows "\<exists>s' st'. on_epollin (server_env session lib) i pf p st = Some (Inr st') \<and> cells (sessions st') p = Some s' \<and>
    received s' = [] \<and> sb_contents (sendBuffer s') = sb_contents (sendBuffer s) @ rdata r \<and> fd s' = fd s \<and> procFd s' = procFd s"
proof -
  let ?env = "server_env session lib" and ?bs = "rdata r"
  have ben: "benign_env ?env"
    by (rule server_benign [OF assms(1-3)])
  have s: "sess_ok s" "conn_inv s" "live (sessions st) p"
    using assms(4,5) by (auto simp: net_ok_def deref_eq_Inr sess_ok_def live_def)
  have os: "os ?env = os lib" "read_packet ?env = tcp_read_packet"
    by (simp_all add: server_env_def)
  note rd = recv_documentedD [OF assms(1,9)]
  have fits: "length (received s) + length ?bs \<le> length (recvBuf s)" and short: "int (length ?bs) < 2 ^ 32" and ne: "?bs \<noteq> []"
    using assms(6,10) rd s(2) by (auto simp: recv_size_def conn_inv_def)
  have core: "same_core st st1"
    using same_core_syscall [of ?env _ st r st1] assms(9) os(1) by auto
  have bounded: "bounded_framer (read_packet ?env)"
    using ben by (simp add: benign_env_def)
  obtain s1 x where c: "recv_chunk False (read_packet ?env) (packet_arrived ?env i p) (s, st1) ?bs = Some x" "conn_inv s1"
    "loop_result (packet_arrived ?env i p) (frames (read_packet ?env) (received s @ ?bs)) (s1, st1) x"
    "s1 = s\<lparr>recvBuf := recvBuf s1, recvBufPos := recvBufPos s1\<rparr>"
    using recv_chunk_ok [OF bounded packet_arrived_keeps [OF ben] s(2) fits, of i p st1] by metis
  have s1: "sendBuffer s1 = sendBuffer s" "fd s1 = fd s" "procFd s1 = procFd s"
    by (subst c(4), simp)+
  then have "sess_ok s1" "send_cap s1 = send_cap s"
    using s(1) c(2) by (simp_all add: sess_ok_def send_cap_def)
  with server_packet [OF assms(3), of s1 ?bs st1 session i p] assms(7,8,11) short s1 core obtain s3 st2 where d:
    "packet_arrived ?env i p ?bs (s1, st1) = Inr (s3, st2)" "sb_contents (sendBuffer s3) = sb_contents (sendBuffer s) @ ?bs"
    "fd s3 = fd s" "procFd s3 = procFd s" "same_core st1 st2"
    by (auto simp: same_core_def)
  then obtain s2 where x: "x = Inr (s2, st2)" "received s2 = []" "s2 = s3\<lparr>recvBuf := recvBuf s2, recvBufPos := recvBufPos s2\<rparr>"
    using c(3) server_frames [OF ne] assms(6) os(2) by (auto simp: loop_result_def)
  have s2: "sendBuffer s2 = sendBuffer s3" "fd s2 = fd s3" "procFd s2 = procFd s3"
    by (subst x(3), simp)+
  have "sessions st2 = sessions st"
    using core d(5) by (simp add: same_core_def)
  then obtain h where h: "assign (sessions st2) p s2 = Inr h" "cells h p = Some s2"
    using s(3) by (auto simp: assign_eq_Inr)
  have "on_epollin ?env i pf p st = Some (Inr (st2\<lparr>sessions := h\<rparr>))"
    using assms(5,9,10) c(1) x(1) h(1) os(1) by (simp add: on_epollin_def Let_def)
  with h(2) x(2) s2 d(2-4) show ?thesis by auto
qed

text \<open>The byte that was read goes into the send buffer and from there to the socket.\<close>

lemma server_echoes:
  assumes "recv_documented (os lib)" "send_documented (os lib)" "ndebug lib" "net_ok st" "deref (sessions st) p = Inr s"
    and "0 \<le> i" "i < int (length (msgQueues st))" "received s = []" "\<not> app_run (config st)" "\<not> parser (config st)"
    and "os_call (os lib) (Recv (fd s) (recv_size s)) st = (r, st1)" "0 < ret r"
    and "push_fits (send_cap s) (sendBuffer s) (int (length (rdata r)))"
  defines "out \<equiv> sb_contents (sendBuffer s) @ rdata r"
  shows "\<exists>st' st'' s'' n. on_epollin (server_env session lib) i pf p st = Some (Inr st') \<and>
    on_epollout (server_env session lib) p st' = Inr st'' \<and> cells (sessions st'') p = Some s'' \<and>
    (Send (fd s) out, n) \<in> set (trace st'') \<and> sb_contents (sendBuffer s'') = drop (nat n) out \<and> received s'' = []"
proof -
  let ?env = "server_env session lib"
  have ben: "benign_env ?env"
    by (rule server_benign [OF assms(1-3)])
  obtain s' st' where in': "on_epollin ?env i pf p st = Some (Inr st')" "cells (sessions st') p = Some s'" "received s' = []"
    "sb_contents (sendBuffer s') = out" "fd s' = fd s"
    unfolding out_def using server_epollin [OF assms(1-5,8-13)] by blast
  have p: "live (sessions st) p" "p \<noteq> 0"
    using assms(5) by (auto simp: deref_eq_Inr live_def)
  have "net_ok st'"
    using on_epollin_ok [OF ben assms(4) p(1) assms(6,7), of pf] in'(1) by (auto simp: touches_only_def)
  moreover have d: "deref (sessions st') p = Inr s'"
    using in'(2) p(2) by (simp add: deref_live)
  moreover obtain r' st2 where r': "syscall ?env (Send (fd s') (sb_contents (sendBuffer s'))) st' = (r', st2)"
    by fastforce
  ultimately obtain sb where out: "sb_contents sb = drop (nat (ret r')) out"
    "on_epollout ?env p st' = Inr (do_call ?env (Epoll_ctl (procFd s') EPOLL_CTL_MOD (fd s')
       (Some \<lparr>ev_events = (if errno st2 = EAGAIN then EPOLLIN OR EPOLLOUT OR EPOLLERR else EPOLLIN OR EPOLLERR), ev_data = DataPtr p\<rparr>))
       (st2\<lparr>sessions := (sessions st')\<lparr>cells := (cells (sessions st'))(p \<mapsto> s'\<lparr>sendBuffer := sb\<rparr>)\<rparr>\<rparr>))"
    using on_epollout_eq [OF ben, of st' p s' r' st2] in'(4) by auto
  have "(Send (fd s) out, ret r') \<in> set (trace st2)"
    using r' in'(4,5) by (auto simp: os_call_def split: prod.splits)
  then have "(Send (fd s) out, ret r') \<in> set (trace (do_call ?env c (st2\<lparr>sessions := h\<rparr>)))" for c h
    by (auto simp: os_do_def os_call_def split: prod.splits)
  with in' out show ?thesis
    by (intro exI conjI) (assumption | simp add: received_def)+
qed

subsection \<open>Leaving the program\<close>

lemma await_quit_sound:
  assumes "await_quit keys i = Some n"
  shows "s8 (keys n) = 0 \<or> s8 (keys n) = 113"
  by (rule await_quit.raw_induct [OF _ assms]) (auto simp: Let_def split: if_splits)

lemma await_quit_complete:
  assumes "s8 (keys (i + n)) = 0 \<or> s8 (keys (i + n)) = 113"
  shows "\<exists>m. await_quit keys i = Some m"
  using assms
proof (induction n arbitrary: i)
  case 0
  then show ?case by (subst await_quit.simps) (simp add: Let_def)
next
  case (Suc n)
  then have "\<exists>m. await_quit keys (Suc i) = Some m" by simp
  then show ?case by (subst await_quit.simps) (auto simp: Let_def)
qed

subsection \<open>A concrete server\<close>

definition echo_lib :: "(unit, unit) msg_env" where
  "echo_lib = \<lparr>os = demo_os, ndebug = True, read_packet = default_read_packet, on_connect = default_method,
     on_disconnect = default_method, on_recv = (\<lambda>_. default_method), on_send = (\<lambda>_ _. default_method),
     parse_message = default_parse_message, on_message = (\<lambda>_. default_method), create = factory_create demo_session,
     release = factory_release, handler = None\<rparr>"

definition echo_session :: session where
  "echo_session = (EventHandler [0, 0, 0, 0] [0, 0, 0, 0] NoOwner 0 0 False)
     \<lparr>fd := 7, sendBuffer := \<lparr>dataHead = 0, dataTail = 1, dataBuf = [5, 0, 0, 0]\<rparr>\<rparr>"

definition echo_net :: "(unit, byte list, unit) enet" where
  "echo_net = \<lparr>kernel = (), errno = 0, trace = [], sessions = \<lparr>cells = [2 \<mapsto> echo_session], fresh = 3\<rparr>,
     scheder = \<lparr>epollFd = 3, procFds = replicate 50 5, sched_threads = 1\<rparr>, running = True, procThreads = [0],
     msgQueues = [\<lparr>queueSize = 3, records = [None, None, None], readIndex = 0, writeIndex = 0\<rparr>],
     msgPool = ObjectPool fresh_alloc 100 10, config = Properties, appThread = True\<rparr>"

lemma echo_session_ok: "sess_ok echo_session"
  by (simp add: sess_ok_def echo_session_def EventHandler_def conn_inv_def send_cap_def sb_inv_def)

lemma echo_net_ok: "net_ok echo_net"
  using echo_session_ok demo_ring pool_inv_fresh
  by (auto simp: net_ok_def echo_net_def heap_ok_def queues_ok_def split: if_splits)

lemma echo_lib_documented: "recv_documented (os echo_lib)" "send_documented (os echo_lib)" "ndebug echo_lib"
  by (auto simp: recv_documented_def send_documented_def demo_os_def echo_lib_def Let_def)

end
