(* ===== verification/Samples.thy ===== *)
theory Samples
  imports Epoll_Net Kqueue_Net
begin

unbundle bit_operations_syntax

text \<open>
  The two free-standing echo servers under \<open>src/samples\<close>, which use the kernel interfaces
  directly.  In \<open>epoll.cpp\<close> the clients are kept in an array that is searched from slot 1 on;
  \<open>main\<close> may return, which is the code in front of the state.  In \<open>kqueue.cpp\<close> every
  failed call ends the process: \<open>Inl\<close> is the state it exits in.
\<close>

subsection \<open>\<open>samples/epoll.cpp\<close>\<close>

definition OPEN_MAX :: nat where "OPEN_MAX = 10240"
definition ECONNRESET :: int where "ECONNRESET = 104"

record epoll_sample =
  client_fds :: "int list"
  maxi :: int
  wait_event :: epoll_event

text \<open>\<open>EPOLLIN == events & mask\<close> compares first.\<close>

definition only_epollin :: "epoll_event \<Rightarrow> 32 word \<Rightarrow> bool" where
  "only_epollin ev m \<longleftrightarrow> (of_bool (EPOLLIN = ev_events ev) AND m) \<noteq> 0"

text \<open>The first free slot from \<open>i\<close> on, or \<open>OPEN_MAX\<close>.\<close>

function free_slot :: "int list \<Rightarrow> nat \<Rightarrow> nat" where
  "free_slot fds i = (if i < OPEN_MAX then (if fds ! i < 0 then i else free_slot fds (Suc i)) else i)"
  by pat_completeness auto
termination
  by (relation "measure (\<lambda>(_, i). OPEN_MAX - i)") auto

declare free_slot.simps [simp del]

text \<open>
  A connection.  The flag says that the rest of the turn is skipped; \<open>ret\<close> is overwritten by the
  registration.
\<close>

definition sample_accept ::
  "'k os \<Rightarrow> int \<Rightarrow> int \<Rightarrow> int \<Rightarrow> epoll_sample \<Rightarrow> ('k, 'z) os_state_scheme \<Rightarrow>
   int option \<times> bool \<times> int \<times> epoll_sample \<times> ('k, 'z) os_state_scheme" where
  "sample_accept sys epfd sockfd ret0 m st =
     (let (c, st) = os_call sys (Accept sockfd) st; connfd = ret c;
          i = free_slot (client_fds m) 1;
          m' = m\<lparr>maxi := (if int i > maxi m then int i else maxi m)\<rparr> in
      if i < OPEN_MAX then
        (let m = m\<lparr>client_fds := (client_fds m)[i := connfd]\<rparr>;
             m' = m'\<lparr>client_fds := (client_fds m)\<rparr>;
             (r, st) = os_call sys (Epoll_ctl epfd EPOLL_CTL_ADD connfd (Some \<lparr>ev_events = EPOLLIN, ev_data = DataFd connfd\<rparr>)) st in
         if ret r = -1 then (Some (-1), True, ret r, m, st)
         else (None, ret r - 1 \<le> 0, ret r - 1, m', st))
      else (None, ret0 - 1 \<le> 0, ret0 - 1, m', st))"

text \<open>The clients from slot \<open>i\<close> on; reading behind the array is a fault.\<close>

function sample_serve ::
  "'k os \<Rightarrow> int \<Rightarrow> int \<Rightarrow> epoll_sample \<Rightarrow> ('k, 'z) os_state_scheme \<Rightarrow> (epoll_sample \<times> ('k, 'z) os_state_scheme) result" where
  "sample_serve sys i ret0 m st =
     (if i > maxi m then Inr (m, st)
      else
        (case list_at (client_fds m) i of
           Inl e \<Rightarrow> Inl e
         | Inr f \<Rightarrow>
             if f \<ge> 0 \<and> f = data_fd (ev_data (wait_event m)) \<and> only_epollin (wait_event m) (EPOLLIN OR EPOLLERR) then
               (let (r, st) = os_call sys (Recv f 128) st;
                    closed = (ret r < 0 \<and> errno st = ECONNRESET) \<or> ret r = 0;
                    st = (if closed then os_do sys (Close f) st else if ret r > 0 then os_do sys (Send f (rdata r)) st else st);
                    m' = (if closed then m\<lparr>client_fds := (client_fds m)[nat i := -1]\<rparr> else m) in
                if ret0 - 1 \<le> 0 then Inr (m', st) else sample_serve sys (i + 1) (ret0 - 1) m' st)
             else sample_serve sys (i + 1) ret0 m st))"
  by pat_completeness auto
termination
  by (relation "measure (\<lambda>(_, i, _, m, _). nat (maxi m + 1 - i))") auto

declare sample_serve.simps [simp del]

text \<open>
  One turn.  The kernel may report up to \<open>maxi + 1\<close> events, and there is room for one.
\<close>

definition sample_turn ::
  "'k os \<Rightarrow> int \<Rightarrow> int \<Rightarrow> epoll_sample \<Rightarrow> ('k, 'z) os_state_scheme \<Rightarrow>
   (int option \<times> epoll_sample \<times> ('k, 'z) os_state_scheme) result" where
  "sample_turn sys epfd sockfd m st =
     (let (r, st) = os_call sys (Epoll_wait epfd (maxi m + 1) (-1)) st in
      if ret r > 1 then Inl OutOfBounds
      else
        (let m = (if ret r = 1 then m\<lparr>wait_event := hd (revents r)\<rparr> else m);
             (e, skip, ret0, m, st) =
               (if sockfd = data_fd (ev_data (wait_event m)) \<and> only_epollin (wait_event m) EPOLLIN
                then sample_accept sys epfd sockfd (ret r) m st else (None, False, ret r, m, st)) in
         if e \<noteq> None \<or> skip then Inr (e, m, st)
         else rbind (sample_serve sys 1 ret0 m st) (\<lambda>(m, st). Inr (None, m, st))))"

partial_function (option) sample_loop ::
  "'k os \<Rightarrow> int \<Rightarrow> int \<Rightarrow> epoll_sample \<Rightarrow> ('k, 'z) os_state_scheme \<Rightarrow> (int \<times> epoll_sample \<times> ('k, 'z) os_state_scheme) result option" where
  "sample_loop sys epfd sockfd m st =
     (case sample_turn sys epfd sockfd m st of
        Inl e \<Rightarrow> Some (Inl e)
      | Inr (Some c, m, st) \<Rightarrow> Some (Inr (c, m, st))
      | Inr (None, m, st) \<Rightarrow> sample_loop sys epfd sockfd m st)"

text \<open>\<open>event0\<close> is the uninitialised event variable.  The results of \<open>socket\<close>, \<open>bind\<close> and \<open>listen\<close> are not looked at.\<close>

definition sample_main ::
  "'k os \<Rightarrow> epoll_event \<Rightarrow> ('k, 'z) os_state_scheme \<Rightarrow> (int \<times> ('k, 'z) os_state_scheme) result option" where
  "sample_main sys event0 st =
     (let (s, st) = os_call sys Socket st; sockfd = ret s;
          st = os_do sys (Bind sockfd 0 (htons 7777)) st;
          st = os_do sys (Listen sockfd 10) st;
          m = \<lparr>client_fds = (replicate OPEN_MAX (-1))[0 := sockfd], maxi = 0, wait_event = event0\<rparr>;
          (e, st) = os_call sys (Epoll_create 10) st; epfd = ret e in
      if epfd = -1 then Some (Inr (-1, st))
      else
        (let (r, st) = os_call sys (Epoll_ctl epfd EPOLL_CTL_ADD sockfd (Some \<lparr>ev_events = EPOLLIN, ev_data = DataFd sockfd\<rparr>)) st in
         if ret r = -1 then Some (Inr (-1, st))
         else obind (sample_loop sys epfd sockfd m st) (\<lambda>(c, _, st). Some (Inr (c, st)))))"

subsection \<open>\<open>samples/kqueue.cpp\<close>\<close>

definition exit_if :: "bool \<Rightarrow> 's \<Rightarrow> 's + 's" where
  "exit_if b st = (if b then Inl st else Inr st)"

definition and_then :: "'s + 's \<Rightarrow> ('s \<Rightarrow> 's + 's) \<Rightarrow> 's + 's" where
  "and_then x f = (case x of Inl st \<Rightarrow> Inl st | Inr st \<Rightarrow> f st)"

type_synonym ('k, 'z) exiting = "('k, 'z) os_state_scheme + ('k, 'z) os_state_scheme"

definition setNonBlock :: "'k os \<Rightarrow> int \<Rightarrow> ('k, 'z) os_state_scheme \<Rightarrow> ('k, 'z) exiting" where
  "setNonBlock sys f st =
     (let (flags, st) = os_call sys (Fcntl_getfl f) st in
      and_then (exit_if (ret flags < 0) st) (\<lambda>st.
        let (r, st) = os_call sys (Fcntl_setfl f (ret flags OR BSD_O_NONBLOCK)) st in exit_if (ret r < 0) st))"

definition sample_changes :: "int \<Rightarrow> int \<Rightarrow> bool \<Rightarrow> kevent list" where
  "sample_changes f events modify =
     (if events AND kReadEvent \<noteq> 0
      then [\<lparr>kident = f, kfilter = EVFILT_READ, kflags = EV_ADD OR EV_ENABLE, kudata = DataFd f\<rparr>]
      else if modify then [\<lparr>kident = f, kfilter = EVFILT_READ, kflags = EV_DELETE, kudata = DataFd f\<rparr>] else []) @
     (if events AND kWriteEvent \<noteq> 0
      then [\<lparr>kident = f, kfilter = EVFILT_WRITE, kflags = EV_ADD OR EV_ENABLE, kudata = DataFd f\<rparr>]
      else if modify then [\<lparr>kident = f, kfilter = EVFILT_WRITE, kflags = EV_DELETE, kudata = DataFd f\<rparr>] else [])"

definition sample_updateEvents :: "'k os \<Rightarrow> int \<Rightarrow> int \<Rightarrow> int \<Rightarrow> bool \<Rightarrow> ('k, 'z) os_state_scheme \<Rightarrow> ('k, 'z) exiting" where
  "sample_updateEvents sys efd f events modify st =
     (let (r, st) = os_call sys (Kevent_change efd (sample_changes f events modify)) st in exit_if (ret r \<noteq> 0) st)"

definition handleAccept :: "'k os \<Rightarrow> int \<Rightarrow> int \<Rightarrow> ('k, 'z) os_state_scheme \<Rightarrow> ('k, 'z) exiting" where
  "handleAccept sys efd f st =
     (let (c, st) = os_call sys (Accept f) st; cfd = ret c in
      and_then (exit_if (cfd < 0) st) (\<lambda>st.
      let (r, st) = os_call sys (Getpeername cfd) st in
      and_then (exit_if (ret r < 0) st) (\<lambda>st.
      and_then (setNonBlock sys cfd st) (\<lambda>st.
        sample_updateEvents sys efd cfd (kReadEvent OR kWriteEvent) False st))))"

text \<open>The number is what the last read returned.\<close>

partial_function (option) sample_echo ::
  "'k os \<Rightarrow> int \<Rightarrow> ('k, 'z) os_state_scheme \<Rightarrow> (('k, 'z) os_state_scheme + int \<times> ('k, 'z) os_state_scheme) option" where
  "sample_echo sys f st =
     (let (r, st) = os_call sys (Read f 4096) st in
      if ret r > 0 then
        (let (w, st) = os_call sys (Write f (rdata r)) st in
         if ret w \<le> 0 then Some (Inl st) else sample_echo sys f st)
      else Some (Inr (ret r, st)))"

definition sample_handleRead :: "'k os \<Rightarrow> int \<Rightarrow> ('k, 'z) os_state_scheme \<Rightarrow> ('k, 'z) exiting option" where
  "sample_handleRead sys f st =
     (case sample_echo sys f st of
        None \<Rightarrow> None
      | Some (Inl st) \<Rightarrow> Some (Inl st)
      | Some (Inr (n, st)) \<Rightarrow>
          if n < 0 \<and> would_block st then Some (Inr st)
          else Some (and_then (exit_if (n < 0) st) (\<lambda>st. Inr (os_do sys (Close f) st))))"

definition sample_handleWrite :: "'k os \<Rightarrow> int \<Rightarrow> int \<Rightarrow> ('k, 'z) os_state_scheme \<Rightarrow> ('k, 'z) exiting" where
  "sample_handleWrite sys efd f st = sample_updateEvents sys efd f kReadEvent True st"

fun sample_events ::
  "'k os \<Rightarrow> int \<Rightarrow> int \<Rightarrow> kevent list \<Rightarrow> ('k, 'z) os_state_scheme \<Rightarrow> ('k, 'z) exiting option" where
  "sample_events sys efd lfd [] st = Some (Inr st)"
| "sample_events sys efd lfd (ev # evs) st =
     (let f = data_fd (kudata ev);
          next = (if kfilter ev = EVFILT_READ then
                    (if f = lfd then Some (handleAccept sys efd f st) else sample_handleRead sys f st)
                  else if kfilter ev = EVFILT_WRITE then Some (sample_handleWrite sys efd f st)
                  else Some (Inl st)) in
      case next of
        None \<Rightarrow> None
      | Some (Inl st) \<Rightarrow> Some (Inl st)
      | Some (Inr st) \<Rightarrow> sample_events sys efd lfd evs st)"

definition loop_once :: "'k os \<Rightarrow> int \<Rightarrow> int \<Rightarrow> int \<Rightarrow> ('k, 'z) os_state_scheme \<Rightarrow> ('k, 'z) exiting option" where
  "loop_once sys efd lfd waitms st =
     (let (r, st) = os_call sys (Kevent_wait efd 20 waitms) st in
      sample_events sys efd lfd (take (nat (ret r)) (rkevents r)) st)"

text \<open>The loop has no end but an exit: \<open>Some\<close> is the state in which the process has exited.\<close>

partial_function (option) loop_forever :: "'k os \<Rightarrow> int \<Rightarrow> int \<Rightarrow> ('k, 'z) os_state_scheme \<Rightarrow> ('k, 'z) os_state_scheme option" where
  "loop_forever sys efd lfd st =
     (case loop_once sys efd lfd 10000 st of
        None \<Rightarrow> None | Some (Inl st) \<Rightarrow> Some st | Some (Inr st) \<Rightarrow> loop_forever sys efd lfd st)"

definition kqueue_main :: "'k os \<Rightarrow> ('k, 'z) os_state_scheme \<Rightarrow> ('k, 'z) os_state_scheme option" where
  "kqueue_main sys st =
     (let (q, st) = os_call sys Kqueue st; epollfd = ret q in
      if epollfd < 0 then Some st
      else
        (let (l, st) = os_call sys Socket st; listenfd = ret l in
         if listenfd < 0 then Some st
         else
           (let (r, st) = os_call sys (Bind listenfd 0 (htons 7788)) st in
            if ret r \<noteq> 0 then Some st
            else
              (let (r, st) = os_call sys (Listen listenfd 20) st in
               if ret r \<noteq> 0 then Some st
               else
                 (case and_then (setNonBlock sys listenfd st) (sample_updateEvents sys epollfd listenfd kReadEvent False) of
                    Inl st \<Rightarrow> Some st
                  | Inr st \<Rightarrow> loop_forever sys epollfd listenfd st)))))"

subsection \<open>What the samples do\<close>

lemma sample_serve_skips:
  assumes "j \<le> i" "0 \<le> j" "int (length (client_fds m)) > maxi m" "i \<le> maxi m"
    "\<And>k. j \<le> k \<Longrightarrow> k < i \<Longrightarrow> client_fds m ! nat k \<noteq> data_fd (ev_data (wait_event m))"
  shows "sample_serve sys j ret0 m st = sample_serve sys i ret0 m st"
  using assms
proof (induction "nat (i - j)" arbitrary: j)
  case 0
  then show ?case by simp
next
  case (Suc d)
  then have "j < i" by simp
  then have "sample_serve sys j ret0 m st = sample_serve sys (j + 1) ret0 m st"
    using Suc.prems by (subst sample_serve.simps) (simp add: list_at_def)
  also have "\<dots> = sample_serve sys i ret0 m st"
    using Suc.hyps \<open>j < i\<close> Suc.prems by (intro Suc.hyps(1)) auto
  finally show ?case .
qed

text \<open>
  Data on a client of \<open>epoll.cpp\<close> goes back to that client, whatever slot it has: the turn makes one
  wait, one receive and one send, and leaves the table alone.
\<close>

lemma epoll_sample_echoes:
  assumes "os_call sys (Epoll_wait epfd (maxi m + 1) (-1)) st = (e, st1)" "ret e = 1"
    "revents e = [ev]" "ev_events ev = EPOLLIN" "data_fd (ev_data ev) = f" "f \<noteq> sockfd" "0 \<le> f"
    and "1 \<le> i" "i \<le> maxi m" "maxi m < int (length (client_fds m))" "client_fds m ! nat i = f"
    "\<And>k. 1 \<le> k \<Longrightarrow> k < i \<Longrightarrow> client_fds m ! nat k \<noteq> f"
    and "os_call sys (Recv f 128) st1 = (r, st2)" "0 < ret r"
  shows "sample_turn sys epfd sockfd m st = Inr (None, m\<lparr>wait_event := ev\<rparr>, os_do sys (Send f (rdata r)) st2)"
proof -
  let ?m = "m\<lparr>wait_event := ev\<rparr>"
  have "sample_serve sys 1 1 ?m st1 = sample_serve sys i 1 ?m st1"
    using assms(5,8-10,12) by (intro sample_serve_skips) auto
  also have "\<dots> = Inr (?m, os_do sys (Send f (rdata r)) st2)"
    using assms(4-11,13,14) by (subst sample_serve.simps) (simp add: list_at_def only_epollin_def EPOLLIN_def EPOLLERR_def)
  finally show ?thesis
    using assms(1-3,5,6) by (simp add: sample_turn_def)
qed

text \<open>
  A client of \<open>kqueue.cpp\<close>: the kernel has the chunks \<open>cs\<close> for it and then nothing for now,
  and takes what is written.
\<close>

fun serves :: "'k os \<Rightarrow> int \<Rightarrow> byte list list \<Rightarrow> 'k \<Rightarrow> bool" where
  "serves sys f [] k \<longleftrightarrow> (let r = fst (sys (Read f 4096) k) in ret r < 0 \<and> err r = BSD_EAGAIN)"
| "serves sys f (bs # cs) k \<longleftrightarrow>
     (let (r, k) = sys (Read f 4096) k; (w, k) = sys (Write f bs) k in
      rdata r = bs \<and> ret r > 0 \<and> ret w > 0 \<and> serves sys f cs k)"

lemma kqueue_sample_echoes:
  "serves sys f cs (kernel st) \<Longrightarrow> \<exists>st'. sample_handleRead sys f st = Some (Inr st') \<and>
     calls st' = calls st @ concat (map (\<lambda>bs. [Read f 4096, Write f bs]) cs) @ [Read f 4096]"
proof (induction cs arbitrary: st)
  case Nil
  then show ?case
    by (subst sample_handleRead_def, subst sample_echo.simps)
      (auto simp: os_call_def would_block_def calls_def Let_def split: prod.splits)
next
  case (Cons bs cs)
  obtain r k1 where r: "sys (Read f 4096) (kernel st) = (r, k1)" by fastforce
  obtain w k2 where w: "sys (Write f bs) k1 = (w, k2)" by fastforce
  have c: "rdata r = bs" "ret r > 0" "ret w > 0" "serves sys f cs k2"
    using Cons.prems r w by auto
  let ?st = "st\<lparr>kernel := k2, trace := trace st @ [(Read f 4096, ret r), (Write f bs, ret w)]\<rparr>"
  have "sample_echo sys f st = sample_echo sys f ?st"
    using r w c by (subst sample_echo.simps) (simp add: os_call_def)
  then have "sample_handleRead sys f st = sample_handleRead sys f ?st"
    by (simp add: sample_handleRead_def)
  with Cons.IH [of ?st] c(4) show ?case by (auto simp: calls_def)
qed

end
