(* ===== verification/Folly_Varint.thy ===== *)
theory Folly_Varint
  imports Net_Prelude
begin

text \<open>
  Variable-length integers, from \<open>src/libs/folly/folly/Varint.h\<close>: seven bits to a byte, low bits
  first, the top bit set on every byte but the last.  The encoder writes through a pointer into a
  buffer, so it can run over its end; the decoder takes a range and advances it, and has a fast path
  for ranges of at least ten bytes and a loop for shorter ones.  \<open>int8_t\<close> and \<open>int64_t\<close>
  are words read with \<open>sint\<close>.
\<close>

unbundle bit_operations_syntax

subsection \<open>The code\<close>

definition kMaxVarintLength64 :: nat where
  "kMaxVarintLength64 = 10"

datatype DecodeVarintError = TooManyBytes | TooFewBytes

definition encodeZigZag :: "64 word \<Rightarrow> 64 word" where
  "encodeZigZag val = push_bit 1 val XOR signed_drop_bit 63 val"

definition decodeZigZag :: "64 word \<Rightarrow> 64 word" where
  "decodeZigZag val = drop_bit 1 val XOR - (val AND 1)"

lemma drop_bit_7_less: "128 \<le> val \<Longrightarrow> unat (drop_bit 7 val) < unat val" for val :: "64 word"
  by (simp add: word_le_nat_alt unat_drop_bit_eq drop_bit_eq_div unat_div)

function encode_loop :: "64 word \<Rightarrow> byte list \<Rightarrow> int \<Rightarrow> (byte list \<times> int) result" where
  "encode_loop val buf p =
     (if 128 \<le> val
      then rbind (mem_write buf p [ucast (0x80 OR (val AND 0x7f))]) (\<lambda>buf. encode_loop (drop_bit 7 val) buf (p + 1))
      else rbind (mem_write buf p [ucast val]) (\<lambda>buf. Inr (buf, p + 1)))"
  by auto
termination
  by (relation "measure (\<lambda>(val, buf, p). unat val)")
     (simp_all add: drop_bit_7_less)

declare encode_loop.simps [simp del]

definition encodeVarint :: "64 word \<Rightarrow> byte list \<Rightarrow> (byte list \<times> int) result" where
  "encodeVarint val buf = encode_loop val buf 0"

fun decode_fast :: "nat \<Rightarrow> byte list \<Rightarrow> 64 word \<Rightarrow> (DecodeVarintError + 64 word \<times> byte list) result" where
  "decode_fast i [] val = Inl OutOfBounds"
| "decode_fast i (b # p) val =
     (let val = val OR (if i < 9 then push_bit (7 * i) (scast b AND 0x7f) else push_bit 63 (scast b AND 0x01)) in
      if 0 \<le> sint b then Inr (Inr (val, p))
      else if i < 9 then decode_fast (i + 1) p val
      else Inr (Inl TooManyBytes))"

fun decode_slow :: "nat \<Rightarrow> byte list \<Rightarrow> 64 word \<Rightarrow> DecodeVarintError + 64 word \<times> byte list" where
  "decode_slow shift [] val = Inl TooFewBytes"
| "decode_slow shift (b # p) val =
     (if sint b < 0 then decode_slow (shift + 7) p (val OR push_bit shift (scast b AND 0x7f))
      else Inr (val OR push_bit shift (scast b), p))"

definition tryDecodeVarint :: "byte list \<Rightarrow> (DecodeVarintError + 64 word \<times> byte list) result" where
  "tryDecodeVarint data =
     (if kMaxVarintLength64 \<le> length data then decode_fast 0 data 0 else Inr (decode_slow 0 data 0))"

text \<open>The throwing variant; \<open>Thrown\<close> carries the number of the error.\<close>

definition decodeVarint :: "byte list \<Rightarrow> (64 word \<times> byte list) result" where
  "decodeVarint data =
     rbind (tryDecodeVarint data) (\<lambda>expected. case expected of
       Inl TooManyBytes \<Rightarrow> Inl (Thrown 0) | Inl TooFewBytes \<Rightarrow> Inl (Thrown 1) | Inr r \<Rightarrow> Inr r)"

subsection \<open>The reference encoding\<close>

function varint :: "64 word \<Rightarrow> byte list" where
  "varint val = (if 128 \<le> val then ucast (0x80 OR (val AND 0x7f)) # varint (drop_bit 7 val) else [ucast val])"
  by auto
termination
  by (relation "measure unat")
     (simp_all add: drop_bit_7_less)

declare varint.simps [simp del]

lemma varint_not_Nil [simp]: "varint v \<noteq> []"
  by (subst varint.simps) simp

text \<open>The bytes: what the sign test and the masks see of them.\<close>

lemma sint_byte_neg: "sint b < 0 \<longleftrightarrow> bit b 7" for b :: byte
  by (simp add: sint_uint signed_take_bit_negative_iff bit_uint_iff)

lemma scast_byte_bit: "bit (scast b :: 64 word) n \<longleftrightarrow> n < 64 \<and> bit b (min n 7)" for b :: byte
  by (auto simp: bit_signed_iff min_def)

lemma more_byte:
  fixes v :: "64 word"
  defines "b \<equiv> ucast (0x80 OR (v AND 0x7f)) :: byte"
  shows "sint b < 0" "\<not> 0 \<le> sint b" "(scast b :: 64 word) AND 0x7f = v AND 0x7f"
proof -
  have m: "(0x7f :: 64 word) = mask 7" by (simp add: mask_eq_exp_minus_1)
  have e: "bit (0x80 :: 64 word) n \<longleftrightarrow> n = 7" "bit (0x80 :: int) n \<longleftrightarrow> n = 7" for n
    using bit_exp_iff [of 7 n, where ?'a = "64 word"] bit_exp_iff [of 7 n, where ?'a = int] by auto
  show "sint b < 0" unfolding sint_byte_neg b_def m by (simp add: bit_simps e)
  then show "\<not> 0 \<le> sint b" by simp
  show "(scast b :: 64 word) AND 0x7f = v AND 0x7f"
    unfolding b_def m by (rule bit_eqI) (auto simp: bit_simps scast_byte_bit e)
qed

lemma last_byte:
  fixes v :: "64 word"
  assumes "v < 128"
  defines "b \<equiv> ucast v :: byte"
  shows "0 \<le> sint b" "(scast b :: 64 word) = v" "v AND 0x7f = v"
proof -
  have v: "take_bit 7 v = v" using assms(1) by (simp add: take_bit_eq_self_iff_drop_bit_eq_0 drop_bit_eq_div unat_eq_zero word_less_nat_alt unat_div flip: unat_eq_0)
  then have bits: "bit v n \<Longrightarrow> n < 7" for n by (metis bit_take_bit_iff)
  have "\<not> bit b 7" using bits [of 7] by (auto simp: b_def bit_simps)
  then show "0 \<le> sint b" using sint_byte_neg [of b] by simp
  show "(scast b :: 64 word) = v"
    by (rule bit_eqI) (auto simp: b_def bit_simps scast_byte_bit min_def dest: bits)
  show "v AND 0x7f = v" using v by (simp add: take_bit_eq_mask mask_eq_exp_minus_1)
qed

text \<open>Low seven bits and the rest make up the value, at any shift.\<close>

lemma push_bit_split: "push_bit s (v AND 0x7f) OR push_bit (s + 7) (drop_bit 7 v) = push_bit s v" for v :: "64 word"
proof -
  have m: "(0x7f :: 64 word) = mask 7" by (simp add: mask_eq_exp_minus_1)
  show ?thesis unfolding m
  proof (rule bit_eqI)
    fix n
    have "7 + (n - (s + 7)) = n - s" if "s + 7 \<le> n" using that by simp
    then show "bit (push_bit s (v AND mask 7) OR push_bit (s + 7) (drop_bit 7 v)) n \<longleftrightarrow> bit (push_bit s v) n"
      by (cases "s + 7 \<le> n") (auto simp: bit_simps)
  qed
qed

subsection \<open>Encoding\<close>

lemma length_varint: "unat v < 2 ^ (7 * k) \<Longrightarrow> 0 < k \<Longrightarrow> length (varint v) \<le> k"
proof (induction v arbitrary: k rule: varint.induct)
  case (1 v)
  show ?case
  proof (cases "128 \<le> v")
    case True
    then have "128 \<le> unat v" by (simp add: word_le_nat_alt)
    with "1.prems" have k: "1 < k" by (cases "k = 1") auto
    then have "(2 :: nat) ^ (7 * k) = 2 ^ (7 * (k - 1)) * 128"
      using power_add [of "2 :: nat" "7 * (k - 1)" 7] by (simp add: diff_mult_distrib2)
    then have "unat (drop_bit 7 v) < 2 ^ (7 * (k - 1))"
      using "1.prems"(1) by (simp add: drop_bit_eq_div unat_div less_mult_imp_div_less)
    with "1.IH" [OF True, of "k - 1"] k True show ?thesis by (subst varint.simps) simp
  next
    case False
    with "1.prems" show ?thesis by (subst varint.simps) simp
  qed
qed

lemma length_varint_le: "length (varint v) \<le> kMaxVarintLength64"
proof -
  have "unat v < 2 ^ 64" using unsigned_less [of v] by simp
  also have "\<dots> \<le> 2 ^ (7 * 10)" by simp
  finally show ?thesis using length_varint [of v 10] by (simp add: kMaxVarintLength64_def)
qed

lemma encode_loop_spec:
  "0 \<le> p \<Longrightarrow> p + int (length (varint v)) \<le> int (length buf) \<Longrightarrow>
   encode_loop v buf p = Inr (take (nat p) buf @ varint v @ drop (nat p + length (varint v)) buf, p + int (length (varint v)))"
proof (induction v arbitrary: buf p rule: varint.induct)
  case (1 v)
  show ?case
  proof (cases "128 \<le> v")
    case True
    let ?b = "ucast (0x80 OR (v AND 0x7f)) :: byte"
    have e: "varint v = ?b # varint (drop_bit 7 v)" using True by (subst varint.simps) simp
    have w: "mem_write buf p [?b] = Inr (take (nat p) buf @ [?b] @ drop (nat p + 1) buf)"
      using "1.prems" by (simp add: mem_write_def e)
    show ?thesis using "1.prems" True "1.IH" [OF True, of "p + 1" "take (nat p) buf @ [?b] @ drop (nat p + 1) buf"]
      by (subst encode_loop.simps) (simp add: w e nat_add_distrib ac_simps)
  next
    case False
    then have e: "varint v = [ucast v]" by (subst varint.simps) simp
    show ?thesis using "1.prems" False by (subst encode_loop.simps) (simp add: e mem_write_def)
  qed
qed

subsection \<open>Decoding\<close>

lemma decode_slow_varint: "decode_slow s (varint v @ rest) acc = Inr (acc OR push_bit s v, rest)"
proof (induction v arbitrary: s acc rule: varint.induct)
  case (1 v)
  show ?case
  proof (cases "128 \<le> v")
    case True
    then show ?thesis using "1" [OF True, of "s + 7"]
      by (subst varint.simps) (simp add: more_byte or.assoc push_bit_split del: push_bit_and)
  next
    case False
    then have "v < 128" by simp
    from last_byte [OF this] False show ?thesis by (subst varint.simps) simp
  qed
qed

lemma decode_fast_varint:
  "i \<le> 9 \<Longrightarrow> unat v < 2 ^ (64 - 7 * i) \<Longrightarrow> decode_fast i (varint v @ rest) acc = Inr (Inr (acc OR push_bit (7 * i) v, rest))"
proof (induction v arbitrary: i acc rule: varint.induct)
  case (1 v)
  show ?case
  proof (cases "128 \<le> v")
    case True
    then have "128 \<le> unat v" by (simp add: word_le_nat_alt)
    with "1.prems" have i: "i < 9" by (cases "i = 9") auto
    have "(2 :: nat) ^ (64 - 7 * i) = 2 ^ (64 - 7 * (i + 1)) * 128" using i
      power_add [of "2 :: nat" "64 - 7 * (i + 1)" 7] by simp
    then have "unat (drop_bit 7 v) < 2 ^ (64 - 7 * (i + 1))"
      using "1.prems"(2) by (simp add: drop_bit_eq_div unat_div less_mult_imp_div_less)
    then have "decode_fast (i + 1) (varint (drop_bit 7 v) @ rest) a = Inr (Inr (a OR push_bit (7 * i + 7) (drop_bit 7 v), rest))" for a
      using "1.IH" [OF True, of "i + 1"] i by (simp add: ac_simps)
    with i True show ?thesis
      by (subst varint.simps) (simp add: more_byte or.assoc push_bit_split [of "7 * i"] Let_def del: push_bit_and)
  next
    case False
    then have v: "v < 128" by simp
    have "v AND 1 = v" if "i = 9"
      using "1.prems"(2) that by (simp add: and_one_eq word_unat_eq_iff unat_mod)
    with last_byte [OF v] False "1.prems"(1) show ?thesis by (subst varint.simps) auto
  qed
qed

text \<open>A proper prefix of an encoding has too few bytes.\<close>

lemma decode_slow_prefix: "k < length (varint v) \<Longrightarrow> decode_slow s (take k (varint v)) acc = Inl TooFewBytes"
proof (induction v arbitrary: k s acc rule: varint.induct)
  case (1 v)
  show ?case
  proof (cases "k = 0 \<or> v < 128")
    case True
    then show ?thesis using "1.prems" by (subst varint.simps) (auto simp: varint.simps [of v] split: if_splits)
  next
    case False
    then obtain j where k: "k = Suc j" by (cases k) auto
    from False have v: "128 \<le> v" by auto
    then have "j < length (varint (drop_bit 7 v))" using "1.prems" k by (simp add: varint.simps [of v])
    with "1.IH" [OF v] show ?thesis using v k by (subst varint.simps) (simp add: more_byte)
  qed
qed

lemma tryDecode_varint: "tryDecodeVarint (varint v @ rest) = Inr (Inr (v, rest))"
proof -
  have "unat v < 2 ^ 64" using unsigned_less [of v] by simp
  then show ?thesis using decode_fast_varint [of 0 v rest 0] decode_slow_varint [of 0 v rest 0]
    by (simp add: tryDecodeVarint_def)
qed

text \<open>Which of the outcomes the decoder has, for every range.\<close>

lemma decode_slow_errors:
  "decode_slow s data acc = Inl e \<longleftrightarrow> e = TooFewBytes \<and> (\<forall>b \<in> set data. sint b < 0)"
  by (induction s data acc rule: decode_slow.induct) auto

lemma decode_fast_errors:
  "10 - i \<le> length data \<Longrightarrow> i \<le> 9 \<Longrightarrow>
   (\<exists>r. decode_fast i data acc = Inr r) \<and>
   (decode_fast i data acc = Inr (Inl e) \<longleftrightarrow> e = TooManyBytes \<and> (\<forall>b \<in> set (take (10 - i) data). sint b < 0))"
proof (induction i data acc rule: decode_fast.induct)
  case (2 i b p val)
  show ?case
  proof (cases "sint b < 0 \<and> i < 9")
    case True
    then have t: "take (10 - i) (b # p) = b # take (10 - (i + 1)) p" by (simp add: take_Cons')
    show ?thesis using 2 True unfolding t by (auto simp: Let_def)
  next
    case False
    then show ?thesis using "2.prems" by (cases "i = 9") (auto simp: Let_def take_Cons')
  qed
qed auto

text \<open>
  (C27) Variable-length integers, round trip.  Given ten bytes of room, encoding writes between one and ten bytes
  and nothing behind them.  Whatever follows these bytes, decoding gives the value back and leaves exactly
  what follows; cut off before the last of them, it asks for more bytes.
\<close>

theorem varint_roundtrip:
  assumes "kMaxVarintLength64 \<le> length buf"
  shows "\<exists>buf' n. encodeVarint v buf = Inr (buf', n) \<and> 1 \<le> n \<and> n \<le> 10 \<and> length buf' = length buf \<and>
    drop (nat n) buf' = drop (nat n) buf \<and>
    (\<forall>rest. tryDecodeVarint (take (nat n) buf' @ rest) = Inr (Inr (v, rest))) \<and>
    (\<forall>k < nat n. tryDecodeVarint (take k buf') = Inr (Inl TooFewBytes))"
proof -
  let ?n = "length (varint v)" let ?buf = "varint v @ drop ?n buf"
  have n: "?n \<le> 10" "1 \<le> ?n" using length_varint_le [of v] by (simp_all add: kMaxVarintLength64_def Suc_le_eq)
  with assms have "encodeVarint v buf = Inr (?buf, int ?n)"
    using encode_loop_spec [of 0 v buf] by (simp add: encodeVarint_def kMaxVarintLength64_def)
  moreover have "tryDecodeVarint (take k ?buf) = Inr (Inl TooFewBytes)" if "k < ?n" for k
    using that n decode_slow_prefix [OF that] by (simp add: tryDecodeVarint_def kMaxVarintLength64_def)
  ultimately show ?thesis using n assms tryDecode_varint [of v]
    by (intro exI [of _ ?buf] exI [of _ "int ?n"]) (simp add: kMaxVarintLength64_def)
qed

theorem varint_roundtrip_witness:
  "\<exists>buf' n. encodeVarint 300 (replicate 10 0) = Inr (buf', n) \<and> n \<le> 10 \<and>
    tryDecodeVarint (take (nat n) buf' @ [7, 8]) = Inr (Inr (300, [7, 8]))"
  using varint_roundtrip [of "replicate 10 0" 300] by (auto simp: kMaxVarintLength64_def)

text \<open>
  The decoder on arbitrary bytes, from the network for instance: it never reads behind the range, fails with
  too many bytes exactly when ten bytes in a row announce a successor, with too few exactly when a range
  shorter than that has no last byte, and otherwise returns what is behind a nonempty prefix.
\<close>

theorem varint_decode_errors:
  "\<exists>r. tryDecodeVarint data = Inr r \<and>
    (r = Inl TooManyBytes \<longleftrightarrow> 10 \<le> length data \<and> (\<forall>b \<in> set (take 10 data). sint b < 0)) \<and>
    (r = Inl TooFewBytes \<longleftrightarrow> length data < 10 \<and> (\<forall>b \<in> set data. sint b < 0))"
proof (cases "10 \<le> length data")
  case True
  from decode_fast_errors [of 0 data 0 TooManyBytes] decode_fast_errors [of 0 data 0 TooFewBytes] True
  show ?thesis by (auto simp: tryDecodeVarint_def kMaxVarintLength64_def)
next
  case False
  then show ?thesis by (auto simp: tryDecodeVarint_def kMaxVarintLength64_def decode_slow_errors)
qed

theorem varint_decode_errors_witness:
  "\<exists>r. tryDecodeVarint [0x80] = Inr r \<and> r = Inl TooFewBytes"
  using varint_decode_errors [of "[0x80]"] by (auto simp: sint_uint)

subsection \<open>Zig-zag\<close>

lemma sign_word: "signed_drop_bit 63 v = (if bit v 63 then - 1 else 0)" for v :: "64 word"
  by (rule bit_eqI) (auto simp: bit_signed_drop_bit_iff Suc_le_eq)

lemma sint_64: "sint v < 0 \<longleftrightarrow> bit v 63" for v :: "64 word"
  by (simp add: sint_uint signed_take_bit_negative_iff bit_uint_iff)

lemma encodeZigZag_cases: "encodeZigZag v = (if sint v < 0 then NOT (push_bit 1 v) else push_bit 1 v)"
  by (simp add: encodeZigZag_def sign_word sint_64)

lemma encodeZigZag_eq: "encodeZigZag v = (if sint v < 0 then - 2 * v - 1 else 2 * v)"
  by (simp add: encodeZigZag_cases push_bit_double not_eq_complement)

lemma bit_shl_1: "bit (push_bit 1 v) (1 + n) \<longleftrightarrow> n < 63 \<and> bit v n" for v :: "64 word"
  unfolding bit_push_bit_iff by (auto simp: possible_bit_word)

lemma decode_encodeZigZag: "decodeZigZag (encodeZigZag v) = v"
proof (cases "bit v 63")
  case True
  then have e: "encodeZigZag v = NOT (push_bit 1 v)" by (simp add: encodeZigZag_cases sint_64)
  have one: "encodeZigZag v AND 1 = 1" unfolding e by (rule bit_eqI) (auto simp: bit_simps bit_0)
  have "decodeZigZag (encodeZigZag v) = NOT (drop_bit 1 (NOT (push_bit 1 v)))"
    unfolding decodeZigZag_def one by (simp add: e)
  also have "\<dots> = v"
  proof (rule bit_eqI)
    fix n assume n: "possible_bit TYPE(64 word) n"
    then have "bit (NOT (drop_bit 1 (NOT (push_bit 1 v)))) n \<longleftrightarrow> \<not> (n < 63 \<and> \<not> bit (push_bit 1 v) (1 + n))"
      unfolding bit_not_iff bit_drop_bit_eq o_def by (auto simp: possible_bit_word)
    with n True show "bit (NOT (drop_bit 1 (NOT (push_bit 1 v)))) n = bit v n"
      unfolding bit_shl_1 by (cases "n = 63") auto
  qed
  finally show ?thesis .
next
  case False
  then have e: "encodeZigZag v = push_bit 1 v" by (simp add: encodeZigZag_cases sint_64)
  have one: "encodeZigZag v AND 1 = 0" unfolding e by (simp add: and_one_eq flip: even_iff_mod_2_eq_zero)
  have "decodeZigZag (encodeZigZag v) = drop_bit 1 (push_bit 1 v)"
    unfolding decodeZigZag_def one by (simp add: e)
  also have "\<dots> = v"
  proof (rule bit_eqI)
    fix n assume "possible_bit TYPE(64 word) n"
    with False show "bit (drop_bit 1 (push_bit 1 v)) n = bit v n" unfolding bit_drop_bit_eq o_def bit_shl_1 by (cases "n = 63") auto
  qed
  finally show ?thesis .
qed

text \<open>
  Zig-zag: decoding inverts encoding, and numbers of small magnitude of either sign get small codes.
\<close>

theorem zigzag_roundtrip:
  "decodeZigZag (encodeZigZag v) = v \<and>
   uint (encodeZigZag v) = (if sint v < 0 then - 2 * sint v - 1 else 2 * sint v)"
proof -
  have s: "- (2 ^ 63) \<le> sint v" "sint v < 2 ^ 63" using sint_range_size [of v] by (simp_all add: size_word_def)
  let ?e = "if sint v < 0 then - 2 * sint v - 1 else 2 * sint v"
  have "encodeZigZag v = word_of_int ?e"
    by (simp add: encodeZigZag_eq)
  then have "uint (encodeZigZag v) = ?e mod 2 ^ 64" by (simp only: uint_word_of_int) simp
  with s show ?thesis by (simp add: decode_encodeZigZag)
qed

end
