(* ===== verification/Folly_Hash.thy ===== *)
theory Folly_Hash
  imports Net_Prelude
begin

text \<open>
  Hash functions, from \<open>src/libs/folly/folly/Hash.h\<close>: the reversible mixing functions with their
  inverses, the combination of hashes, and the string hashes.  Integers are words of their width, so
  that all arithmetic wraps; \<open>size_t\<close> has 64 bits.  A C string is a list of bytes with a zero, and
  reading on without one leaves the array.
\<close>

unbundle bit_operations_syntax

named_theorems mix_simps \<open>cancellation of shifts and factors\<close>

subsection \<open>The code\<close>

definition hash_128_to_64 :: "64 word \<Rightarrow> 64 word \<Rightarrow> 64 word" where
  "hash_128_to_64 upper lower =
     (let kMul = 0x9ddfea08eb382d69;
          a = (lower XOR upper) * kMul;
          a = a XOR drop_bit 47 a;
          b = (upper XOR a) * kMul;
          b = b XOR drop_bit 47 b
      in b * kMul)"

fun hash_range :: "('a \<Rightarrow> 64 word) \<Rightarrow> 'a list \<Rightarrow> 64 word \<Rightarrow> 64 word" where
  "hash_range hasher [] hash = hash"
| "hash_range hasher (x # xs) hash = hash_range hasher xs (hash_128_to_64 hash (hasher x))"

fun hash_combine_generic :: "('a \<Rightarrow> 64 word) \<Rightarrow> 'a list \<Rightarrow> 64 word" where
  "hash_combine_generic hasher [] = 0"
| "hash_combine_generic hasher (t # ts) =
     (let seed = hasher t in
      if ts = [] then seed
      else (let remainder = hash_combine_generic hasher ts in hash_128_to_64 seed remainder))"

definition twang_mix64 :: "64 word \<Rightarrow> 64 word" where
  "twang_mix64 key =
     (let key = NOT key + push_bit 21 key;
          key = key XOR drop_bit 24 key;
          key = key + push_bit 3 key + push_bit 8 key;
          key = key XOR drop_bit 14 key;
          key = key + push_bit 2 key + push_bit 4 key;
          key = key XOR drop_bit 28 key
      in key + push_bit 31 key)"

definition twang_unmix64 :: "64 word \<Rightarrow> 64 word" where
  "twang_unmix64 key =
     (let key = key * 4611686016279904257;
          key = key XOR (drop_bit 28 key XOR drop_bit 56 key);
          key = key * 14933078535860113213;
          key = key XOR (drop_bit 14 key XOR drop_bit 28 key XOR drop_bit 42 key XOR drop_bit 56 key);
          key = key * 15244667743933553977;
          key = key XOR (drop_bit 24 key XOR drop_bit 48 key)
      in (key + 1) * 9223367638806167551)"

definition twang_32from64 :: "64 word \<Rightarrow> 32 word" where
  "twang_32from64 key =
     (let key = NOT key + push_bit 18 key;
          key = key XOR drop_bit 31 key;
          key = key * 21;
          key = key XOR drop_bit 11 key;
          key = key + push_bit 6 key;
          key = key XOR drop_bit 22 key
      in ucast key)"

definition jenkins_rev_mix32 :: "32 word \<Rightarrow> 32 word" where
  "jenkins_rev_mix32 key =
     (let key = key + push_bit 12 key;
          key = key XOR drop_bit 22 key;
          key = key + push_bit 4 key;
          key = key XOR drop_bit 9 key;
          key = key + push_bit 10 key;
          key = key XOR drop_bit 2 key;
          key = key + push_bit 7 key
      in key + push_bit 12 key)"

definition jenkins_rev_unmix32 :: "32 word \<Rightarrow> 32 word" where
  "jenkins_rev_unmix32 key =
     (let key = key * 2364026753;
          key = key XOR
            (drop_bit 2 key XOR drop_bit 4 key XOR drop_bit 6 key XOR drop_bit 8 key XOR
             drop_bit 10 key XOR drop_bit 12 key XOR drop_bit 14 key XOR drop_bit 16 key XOR
             drop_bit 18 key XOR drop_bit 20 key XOR drop_bit 22 key XOR drop_bit 24 key XOR
             drop_bit 26 key XOR drop_bit 28 key XOR drop_bit 30 key);
          key = key * 3222273025;
          key = key XOR (drop_bit 9 key XOR drop_bit 18 key XOR drop_bit 27 key);
          key = key * 4042322161;
          key = key XOR drop_bit 22 key
      in key * 16773121)"

definition FNV_32_HASH_START :: "32 word" where
  "FNV_32_HASH_START = 2166136261"

definition FNV_64_HASH_START :: "64 word" where
  "FNV_64_HASH_START = 14695981039346656037"

definition FNVA_64_HASH_START :: "64 word" where
  "FNVA_64_HASH_START = 14695981039346656037"

text \<open>The loop bodies; a signed \<open>char\<close> is extended with its sign before the exclusive or.\<close>

definition fnv32_step :: "32 word \<Rightarrow> byte \<Rightarrow> 32 word" where
  "fnv32_step hash s =
     (hash + (push_bit 1 hash + push_bit 4 hash + push_bit 7 hash + push_bit 8 hash + push_bit 24 hash)) XOR scast s"

definition fnv64_step :: "64 word \<Rightarrow> byte \<Rightarrow> 64 word" where
  "fnv64_step hash s =
     (hash + (push_bit 1 hash + push_bit 4 hash + push_bit 5 hash + push_bit 7 hash + push_bit 8 hash + push_bit 40 hash))
       XOR scast s"

definition fnva64_step :: "64 word \<Rightarrow> byte \<Rightarrow> 64 word" where
  "fnva64_step hash s =
     (let hash = hash XOR ucast s in
      hash + (push_bit 1 hash + push_bit 4 hash + push_bit 5 hash + push_bit 7 hash + push_bit 8 hash + push_bit 40 hash))"

fun fnv32 :: "byte list \<Rightarrow> 32 word \<Rightarrow> 32 word result" where
  "fnv32 [] hash = Inl OutOfBounds"
| "fnv32 (s # buf) hash = (if s = 0 then Inr hash else fnv32 buf (fnv32_step hash s))"

fun fnv32_buf :: "byte list \<Rightarrow> 32 word \<Rightarrow> 32 word" where
  "fnv32_buf [] hash = hash"
| "fnv32_buf (s # buf) hash = fnv32_buf buf (fnv32_step hash s)"

fun fnv64 :: "byte list \<Rightarrow> 64 word \<Rightarrow> 64 word result" where
  "fnv64 [] hash = Inl OutOfBounds"
| "fnv64 (s # buf) hash = (if s = 0 then Inr hash else fnv64 buf (fnv64_step hash s))"

fun fnv64_buf :: "byte list \<Rightarrow> 64 word \<Rightarrow> 64 word" where
  "fnv64_buf [] hash = hash"
| "fnv64_buf (s # buf) hash = fnv64_buf buf (fnv64_step hash s)"

fun fnva64_buf :: "byte list \<Rightarrow> 64 word \<Rightarrow> 64 word" where
  "fnva64_buf [] hash = hash"
| "fnva64_buf (s # buf) hash = fnva64_buf buf (fnva64_step hash s)"

definition get16bits :: "byte \<Rightarrow> byte \<Rightarrow> 32 word" where
  "get16bits lo hi = ucast lo OR push_bit 8 (ucast hi)"

text \<open>The main loop of \<open>hsieh_hash32_buf\<close> takes four bytes at a time; what is left selects the end case.\<close>

fun hsieh_loop :: "byte list \<Rightarrow> 32 word \<Rightarrow> 32 word" where
  "hsieh_loop (s0 # s1 # s2 # s3 # s) hash =
     (let hash = hash + get16bits s0 s1;
          tmp = push_bit 11 (get16bits s2 s3) XOR hash;
          hash = push_bit 16 hash XOR tmp
      in hsieh_loop s (hash + drop_bit 11 hash))"
| "hsieh_loop [s0, s1, s2] hash =
     (let hash = hash + get16bits s0 s1;
          hash = hash XOR push_bit 16 hash;
          hash = hash XOR push_bit 18 (ucast s2)
      in hash + drop_bit 11 hash)"
| "hsieh_loop [s0, s1] hash =
     (let hash = hash + get16bits s0 s1;
          hash = hash XOR push_bit 11 hash
      in hash + drop_bit 17 hash)"
| "hsieh_loop [s0] hash =
     (let hash = hash + ucast s0;
          hash = hash XOR push_bit 10 hash
      in hash + drop_bit 1 hash)"
| "hsieh_loop [] hash = hash"

definition hsieh_hash32_buf :: "byte list \<Rightarrow> 32 word" where
  "hsieh_hash32_buf buf =
     (if buf = [] then 0
      else (let hash = hsieh_loop buf (word_of_nat (length buf));
                hash = hash XOR push_bit 3 hash;
                hash = hash + drop_bit 5 hash;
                hash = hash XOR push_bit 4 hash;
                hash = hash + drop_bit 17 hash;
                hash = hash XOR push_bit 25 hash
            in hash + drop_bit 6 hash))"

text \<open>The hasher of integers, by the size of the type: four bytes, the narrower ones sign-extended, or eight.\<close>

definition integral_hasher32 :: "32 word \<Rightarrow> 64 word" where
  "integral_hasher32 i = ucast (jenkins_rev_mix32 i)"

definition integral_hasher64 :: "64 word \<Rightarrow> 64 word" where
  "integral_hasher64 i = twang_mix64 i"

subsection \<open>Undoing a step\<close>

lemma xor_cancel [mix_simps]: "x XOR (x XOR y) = y" for x :: "'a::len word"
  by (simp flip: xor.assoc)

lemma xor_self [mix_simps]: "x XOR x = 0" for x :: "'a::len word"
  by simp

lemma drop_drop [mix_simps]: "drop_bit m (drop_bit n x) = drop_bit (m + n) x" for x :: "'a::len word"
  by simp

lemma drop_beyond [mix_simps]: "LENGTH('a) \<le> n \<Longrightarrow> drop_bit n x = 0" for x :: "'a::len word"
  by (rule bit_eqI) (auto simp: bit_simps dest: bit_imp_le_length)

lemmas xor_ac = xor.assoc xor.commute xor.left_commute

text \<open>\<open>x ^ (x >> n)\<close> is undone by the exclusive or of all multiples of the shift.\<close>

lemma xorshift_64:
  fixes x :: "64 word"
  shows "y = x XOR drop_bit 28 x \<Longrightarrow> y XOR (drop_bit 28 y XOR drop_bit 56 y) = x"
    "y = x XOR drop_bit 14 x \<Longrightarrow> y XOR (drop_bit 14 y XOR drop_bit 28 y XOR drop_bit 42 y XOR drop_bit 56 y) = x"
    "y = x XOR drop_bit 24 x \<Longrightarrow> y XOR (drop_bit 24 y XOR drop_bit 48 y) = x"
    "y = x XOR drop_bit 47 x \<Longrightarrow> y XOR drop_bit 47 y = x"
  by (simp_all add: drop_bit_xor mix_simps xor_ac)

lemma xorshift_32:
  fixes x :: "32 word"
  shows "y = x XOR drop_bit 2 x \<Longrightarrow> y XOR
      (drop_bit 2 y XOR drop_bit 4 y XOR drop_bit 6 y XOR drop_bit 8 y XOR drop_bit 10 y XOR drop_bit 12 y XOR
       drop_bit 14 y XOR drop_bit 16 y XOR drop_bit 18 y XOR drop_bit 20 y XOR drop_bit 22 y XOR drop_bit 24 y XOR
       drop_bit 26 y XOR drop_bit 28 y XOR drop_bit 30 y) = x"
    "y = x XOR drop_bit 9 x \<Longrightarrow> y XOR (drop_bit 9 y XOR drop_bit 18 y XOR drop_bit 27 y) = x"
    "y = x XOR drop_bit 22 x \<Longrightarrow> y XOR drop_bit 22 y = x"
  by (simp_all add: drop_bit_xor mix_simps xor_ac)

lemma multiples_64: "(9903520314283042199192993792 :: 64 word) = 0" "(313594649253062377472 :: 64 word) = 0"
    "(4039836952142391803904 :: 64 word) = 0" "(19342794667089993085747200 :: 64 word) = 0"
    "(180619335383076622691028044889297256448 :: 64 word) = 0"
  by simp_all

lemma multiples_32: "(1249418871308288 :: 32 word) = 0" "(3302829850624 :: 32 word) = 0" "(68719476736 :: 32 word) = 0"
  by simp_all

text \<open>Sums of shifts are multiplications by odd constants, undone by multiplying with their inverses.\<close>

lemma factor_64:
  fixes x :: "64 word"
  shows "y = x + push_bit 31 x \<Longrightarrow> y * 4611686016279904257 = x"
    "y = x + push_bit 2 x + push_bit 4 x \<Longrightarrow> y * 14933078535860113213 = x"
    "y = x + push_bit 3 x + push_bit 8 x \<Longrightarrow> y * 15244667743933553977 = x"
    "y = NOT x + push_bit 21 x \<Longrightarrow> (y + 1) * 9223367638806167551 = x"
  by (simp_all add: push_bit_eq_mult not_eq_complement algebra_simps multiples_64)

lemma factor_32:
  fixes x :: "32 word"
  shows "y = x + push_bit 7 x \<Longrightarrow> z = y + push_bit 12 y \<Longrightarrow> z * 2364026753 = x"
    "y = x + push_bit 10 x \<Longrightarrow> y * 3222273025 = x"
    "y = x + push_bit 4 x \<Longrightarrow> y * 4042322161 = x"
    "y = x + push_bit 12 x \<Longrightarrow> y * 16773121 = x"
  by (simp_all add: push_bit_eq_mult algebra_simps multiples_32)

lemma twang_unmix_mix: "twang_unmix64 (twang_mix64 key) = key"
proof -
  define k1 where "k1 = NOT key + push_bit 21 key"
  define k2 where "k2 = k1 XOR drop_bit 24 k1"
  define k3 where "k3 = k2 + push_bit 3 k2 + push_bit 8 k2"
  define k4 where "k4 = k3 XOR drop_bit 14 k3"
  define k5 where "k5 = k4 + push_bit 2 k4 + push_bit 4 k4"
  define k6 where "k6 = k5 XOR drop_bit 28 k5"
  define k7 where "k7 = k6 + push_bit 31 k6"
  have "twang_mix64 key = k7"
    unfolding twang_mix64_def Let_def k7_def k6_def k5_def k4_def k3_def k2_def k1_def by (rule refl)
  then show ?thesis
    by (simp only: twang_unmix64_def Let_def factor_64(1) [OF k7_def] xorshift_64(1) [OF k6_def] factor_64(2) [OF k5_def]
        xorshift_64(2) [OF k4_def] factor_64(3) [OF k3_def] xorshift_64(3) [OF k2_def] factor_64(4) [OF k1_def])
qed

lemma jenkins_unmix_mix: "jenkins_rev_unmix32 (jenkins_rev_mix32 key) = key"
proof -
  define k1 where "k1 = key + push_bit 12 key"
  define k2 where "k2 = k1 XOR drop_bit 22 k1"
  define k3 where "k3 = k2 + push_bit 4 k2"
  define k4 where "k4 = k3 XOR drop_bit 9 k3"
  define k5 where "k5 = k4 + push_bit 10 k4"
  define k6 where "k6 = k5 XOR drop_bit 2 k5"
  define k7 where "k7 = k6 + push_bit 7 k6"
  define k8 where "k8 = k7 + push_bit 12 k7"
  have "jenkins_rev_mix32 key = k8"
    unfolding jenkins_rev_mix32_def Let_def k8_def k7_def k6_def k5_def k4_def k3_def k2_def k1_def by (rule refl)
  then show ?thesis
    by (simp only: jenkins_rev_unmix32_def Let_def factor_32(1) [OF k7_def k8_def] xorshift_32(1) [OF k6_def]
        factor_32(2) [OF k5_def] xorshift_32(2) [OF k4_def] factor_32(3) [OF k3_def] xorshift_32(3) [OF k2_def]
        factor_32(4) [OF k1_def])
qed

text \<open>On a finite type a left inverse is also a right inverse.\<close>

lemma finite_inverse: "(\<And>x. g (f x) = x) \<Longrightarrow> f (g y) = y" for f :: "'a::finite \<Rightarrow> 'a"
proof -
  assume inv: "\<And>x. g (f x) = x"
  then have "inj f" by (rule inj_on_inverseI)
  then have "surj f" by (simp add: finite_UNIV_inj_surj)
  then obtain x where "y = f x" by (rule surjE)
  with inv show ?thesis by simp
qed

text \<open>
  The mixing functions are bijections, and the unmixing functions with their precomputed
  constants are their inverses on both sides.
\<close>

theorem mix_roundtrip:
  "twang_unmix64 (twang_mix64 key) = key \<and> twang_mix64 (twang_unmix64 key) = key \<and>
   jenkins_rev_unmix32 (jenkins_rev_mix32 i) = i \<and> jenkins_rev_mix32 (jenkins_rev_unmix32 i) = i"
  by (simp add: twang_unmix_mix jenkins_unmix_mix finite_inverse [of twang_unmix64 twang_mix64, OF twang_unmix_mix]
      finite_inverse [of jenkins_rev_unmix32 jenkins_rev_mix32, OF jenkins_unmix_mix])

subsection \<open>Combining hashes\<close>

lemma kMul_inverse: "x * 0x9ddfea08eb382d69 * 0xdc56e6f5090b32d9 = x" for x :: "64 word"
  by (simp add: algebra_simps multiples_64)

lemma hash_128_lower: "hash_128_to_64 u l = hash_128_to_64 u l' \<Longrightarrow> l = l'"
proof -
  let ?k = "0x9ddfea08eb382d69 :: 64 word"
  have mul: "x * ?k = y * ?k \<Longrightarrow> x = y" for x y by (metis kMul_inverse)
  have shift: "x XOR drop_bit 47 x = y XOR drop_bit 47 y \<Longrightarrow> x = y" for x y :: "64 word" by (metis xorshift_64(4))
  have xor: "z XOR x = z XOR y \<Longrightarrow> x = y" "x XOR z = y XOR z \<Longrightarrow> x = y" for x y z :: "64 word"
    by (metis xor_cancel, metis xor_cancel xor.commute)
  assume "hash_128_to_64 u l = hash_128_to_64 u l'"
  note eq = this [unfolded hash_128_to_64_def Let_def]
  show ?thesis by (rule xor(2) [OF mul [OF shift [OF xor(1) [OF mul [OF shift [OF mul [OF eq]]]]]]])
qed

lemma hash_range_append: "hash_range h (xs @ ys) seed = hash_range h ys (hash_range h xs seed)"
  by (induction h xs seed rule: hash_range.induct) simp_all

text \<open>
  Combined hashes keep the last component apart: with an injective hasher, two ranges and two argument
  lists that differ in their last element only never collide.
\<close>

theorem combine_keeps_last:
  assumes "inj hasher" "x \<noteq> y"
  shows "hash_range hasher (xs @ [x]) seed \<noteq> hash_range hasher (xs @ [y]) seed \<and>
    hash_combine_generic hasher (xs @ [x]) \<noteq> hash_combine_generic hasher (xs @ [y])"
proof
  have h: "hasher x \<noteq> hasher y" using assms by (auto dest: injD)
  then show "hash_range hasher (xs @ [x]) seed \<noteq> hash_range hasher (xs @ [y]) seed"
    by (auto simp: hash_range_append dest: hash_128_lower)
  show "hash_combine_generic hasher (xs @ [x]) \<noteq> hash_combine_generic hasher (xs @ [y])"
    by (induction xs) (auto simp: h Let_def dest: hash_128_lower)
qed

theorem combine_keeps_last_witness:
  "hash_range twang_mix64 ([1] @ [2]) 0 \<noteq> hash_range twang_mix64 ([1] @ [3]) 0"
  using combine_keeps_last [of twang_mix64 2 3 "[1]" 0] inj_on_inverseI [of UNIV twang_unmix64 twang_mix64, OF twang_unmix_mix]
  by simp

lemma integral_hashers_inj: "inj integral_hasher32" "inj integral_hasher64"
proof -
  show "inj integral_hasher32"
    by (rule inj_on_inverseI [of _ "\<lambda>h. jenkins_rev_unmix32 (ucast h)"])
       (simp add: integral_hasher32_def jenkins_unmix_mix ucast_up_ucast_id is_up)
  show "inj integral_hasher64"
    by (rule inj_on_inverseI [of _ twang_unmix64]) (simp add: integral_hasher64_def twang_unmix_mix)
qed

subsection \<open>String hashes\<close>

text \<open>The sums of shifts multiply by the FNV primes.\<close>

lemma fnv_steps:
  "fnv32_step h s = (h * 16777619) XOR scast s"
  "fnv64_step h' s = (h' * 1099511628211) XOR scast s"
  "fnva64_step h' s = (h' XOR ucast s) * 1099511628211"
  by (simp_all add: fnv32_step_def fnv64_step_def fnva64_step_def Let_def push_bit_eq_mult algebra_simps)

text \<open>
  The two FNV variants agree: the hash of a C string is the hash of the bytes before its zero, and reads nothing
  behind it.  Each is the fold of the FNV step, which multiplies by the FNV prime and is injective in the byte.
\<close>

theorem fnv_equiv:
  assumes "0 \<notin> set str"
  shows "fnv32 (str @ 0 # rest) h = Inr (fnv32_buf str h) \<and> fnv64 (str @ 0 # rest) h' = Inr (fnv64_buf str h') \<and>
    fnv32_buf str h = foldl (\<lambda>h s. (h * 16777619) XOR scast s) h str \<and>
    fnv64_buf str h' = foldl (\<lambda>h s. (h * 1099511628211) XOR scast s) h' str \<and>
    fnva64_buf str h' = foldl (\<lambda>h s. (h XOR ucast s) * 1099511628211) h' str"
  using assms by (induction str arbitrary: h h') (auto simp: fnv_steps)

theorem fnv_equiv_witness:
  "fnv32 ([97, 98] @ 0 # [7]) FNV_32_HASH_START = Inr (fnv32_buf [97, 98] FNV_32_HASH_START)"
  using fnv_equiv [of "[97, 98]" "[7]" FNV_32_HASH_START] by simp

end
