(* ===== verification/Folly_Escape.thy ===== *)
theory Folly_Escape
  imports Net_Prelude
begin

text \<open>
  Escaping of strings, from \<open>src/libs/folly/folly/String-inl.h\<close>, with the tables that
  \<open>src/libs/folly/folly/build/generate_escape_tables.py\<close> writes.  A string is a list of characters;
  \<open>of_char\<close> is the conversion to \<open>unsigned char\<close>.  The loops keep the run of regular
  characters between \<open>last\<close> and \<open>p\<close> and append it when an escape ends it.  \<open>Thrown\<close>
  carries the number of the exception in the order of the source.
\<close>

subsection \<open>The tables\<close>

abbreviation backslash :: char where
  "backslash \<equiv> CHR 0x5C"

abbreviation code :: "char \<Rightarrow> nat" where
  "code \<equiv> of_char"

definition cEscapeTable :: "char \<Rightarrow> char" where
  "cEscapeTable c =
     (if c = CHR 0x22 then CHR 0x22 else if c = backslash then backslash else if c = CHR ''?'' then CHR ''?''
      else if c = CHR 0x0A then CHR ''n'' else if c = CHR 0x0D then CHR ''r'' else if c = CHR 0x09 then CHR ''t''
      else if code c < 32 \<or> 126 < code c then CHR ''O'' else CHR ''P'')"

definition cUnescapeTable :: "char \<Rightarrow> char" where
  "cUnescapeTable c =
     (if c \<in> {CHR 0x27, CHR ''?'', CHR 0x22, backslash} then c
      else if c = CHR ''a'' then CHR 0x07 else if c = CHR ''b'' then CHR 0x08 else if c = CHR ''f'' then CHR 0x0C
      else if c = CHR ''n'' then CHR 0x0A else if c = CHR ''r'' then CHR 0x0D else if c = CHR ''t'' then CHR 0x09
      else if c = CHR ''v'' then CHR 0x0B
      else if 48 \<le> code c \<and> code c \<le> 55 then CHR ''O''
      else if c = CHR ''x'' then CHR ''X'' else CHR ''I'')"

definition hexTable :: "char \<Rightarrow> nat" where
  "hexTable c =
     (if 48 \<le> code c \<and> code c \<le> 57 then code c - 48
      else if 97 \<le> code c \<and> code c \<le> 102 then code c - 97 + 10
      else if 65 \<le> code c \<and> code c \<le> 70 then code c - 65 + 10
      else 16)"

definition uriEscapeTable :: "char \<Rightarrow> nat" where
  "uriEscapeTable c =
     (if 48 \<le> code c \<and> code c \<le> 57 \<or> 65 \<le> code c \<and> code c \<le> 90 \<or> 97 \<le> code c \<and> code c \<le> 122 \<or>
         c \<in> {CHR ''-'', CHR ''_'', CHR ''.'', CHR ''~''} then 0
      else if c = CHR ''/'' then 2
      else if c = CHR '' '' then 3
      else 4)"

definition hexValues :: string where
  "hexValues = ''0123456789abcdef''"

subsection \<open>C escapes\<close>

fun cEscape_loop :: "string \<Rightarrow> string \<Rightarrow> string \<Rightarrow> string" where
  "cEscape_loop [] run out = out @ run"
| "cEscape_loop (c # p) run out =
     (let v = code c; e = cEscapeTable c in
      if e = CHR ''P'' then cEscape_loop p (run @ [c]) out
      else if e = CHR ''O''
      then cEscape_loop p []
        (out @ run @ [backslash, char_of (48 + v div 64 mod 8), char_of (48 + v div 8 mod 8), char_of (48 + v mod 8)])
      else cEscape_loop p [] (out @ run @ [backslash, e]))"

definition cEscape :: "string \<Rightarrow> string \<Rightarrow> string" where
  "cEscape str out = cEscape_loop str [] out"

text \<open>At most three octal digits; any number of hexadecimal ones, of which the last two count.\<close>

fun octal :: "nat \<Rightarrow> string \<Rightarrow> nat \<Rightarrow> nat \<times> string" where
  "octal i [] val = (val, [])"
| "octal i (c # p) val =
     (if 0 < i \<and> 48 \<le> code c \<and> code c \<le> 55 then octal (i - 1) p ((val * 8 mod 256) + (code c - 48))
      else (val, c # p))"

fun hexadecimal :: "string \<Rightarrow> nat \<Rightarrow> nat \<times> string" where
  "hexadecimal [] val = (val, [])"
| "hexadecimal (c # p) val =
     (let h = hexTable c in if h < 16 then hexadecimal p (val * 16 mod 256 + h) else (val, c # p))"

lemma length_octal: "length (snd (octal i p val)) \<le> length p"
  by (induction i p val rule: octal.induct) auto

lemma length_hexadecimal: "length (snd (hexadecimal p val)) \<le> length p"
  by (induction p val rule: hexadecimal.induct) (auto simp: Let_def)

text \<open>
  The test for a backslash at the end compares \<open>p\<close> before it is advanced, when it still points at
  the backslash, so it never holds; the character behind is then read without one being there.
\<close>

function cUnescape_loop :: "bool \<Rightarrow> string \<Rightarrow> string \<Rightarrow> string \<Rightarrow> string result" where
  "cUnescape_loop strict [] run out = Inr (out @ run)"
| "cUnescape_loop strict (c # p) run out =
     (if c \<noteq> backslash then cUnescape_loop strict p (run @ [c]) out
      else (case p of
          [] \<Rightarrow> Inl OutOfBounds
        | x # p' \<Rightarrow>
          (let out = out @ run; e = cUnescapeTable x in
           if e = CHR ''O'' then cUnescape_loop strict (snd (octal 3 p 0)) [] (out @ [char_of (fst (octal 3 p 0))])
           else if e = CHR ''X'' then
             (if p' = []
              then (if strict then Inl (Thrown 2) else cUnescape_loop strict p' [] (out @ [backslash, CHR ''x'']))
              else cUnescape_loop strict (snd (hexadecimal p' 0)) [] (out @ [char_of (fst (hexadecimal p' 0))]))
           else if e = CHR ''I'' then
             (if strict then Inl (Thrown 3) else cUnescape_loop strict p' [] (out @ [backslash, x]))
           else cUnescape_loop strict p' [] (out @ [e]))))"
  by pat_completeness auto
termination
  by (relation "measure (\<lambda>(strict, p, run, out). length p)")
     (auto simp: less_Suc_eq_le intro: le_trans [OF length_octal] le_trans [OF length_hexadecimal])

definition cUnescape :: "string \<Rightarrow> string \<Rightarrow> bool \<Rightarrow> string result" where
  "cUnescape str out strict = cUnescape_loop strict str [] out"

subsection \<open>URI escapes\<close>

datatype UriEscapeMode = UriAll | UriQuery | UriPath

fun mode_value :: "UriEscapeMode \<Rightarrow> nat" where
  "mode_value UriAll = 0" | "mode_value UriQuery = 1" | "mode_value UriPath = 2"

fun uriEscape_loop :: "UriEscapeMode \<Rightarrow> string \<Rightarrow> string \<Rightarrow> string \<Rightarrow> string" where
  "uriEscape_loop mode [] run out = out @ run"
| "uriEscape_loop mode (c # p) run out =
     (let v = code c; discriminator = uriEscapeTable c in
      if discriminator \<le> mode_value mode then uriEscape_loop mode p (run @ [c]) out
      else if mode = UriQuery \<and> discriminator = 3 then uriEscape_loop mode p [] (out @ run @ ''+'')
      else uriEscape_loop mode p [] (out @ run @ [CHR ''%'', hexValues ! (v div 16), hexValues ! (v mod 16)]))"

definition uriEscape :: "string \<Rightarrow> string \<Rightarrow> UriEscapeMode \<Rightarrow> string" where
  "uriEscape str out mode = uriEscape_loop mode str [] out"

fun uriUnescape_loop :: "UriEscapeMode \<Rightarrow> string \<Rightarrow> string \<Rightarrow> string \<Rightarrow> string result" where
  "uriUnescape_loop mode [] run out = Inr (out @ run)"
| "uriUnescape_loop mode (c # p) run out =
     (if c = CHR ''%'' then
        (case p of
           a # b # q \<Rightarrow>
             (let h1 = hexTable a; h2 = hexTable b in
              if h1 = 16 \<or> h2 = 16 then Inl (Thrown 2)
              else uriUnescape_loop mode q [] (out @ run @ [char_of (h1 * 16 + h2)]))
         | _ \<Rightarrow> Inl (Thrown 1))
      else if c = CHR ''+'' \<and> mode = UriQuery then uriUnescape_loop mode p [] (out @ run @ '' '')
      else uriUnescape_loop mode p (run @ [c]) out)"

definition uriUnescape :: "string \<Rightarrow> string \<Rightarrow> UriEscapeMode \<Rightarrow> string result" where
  "uriUnescape str out mode = uriUnescape_loop mode str [] out"

subsection \<open>Hexadecimal strings and display\<close>

definition resize :: "nat \<Rightarrow> string \<Rightarrow> string" where
  "resize n s = take n s @ replicate (n - length s) (CHR 0x00)"

fun hexlify_loop :: "string \<Rightarrow> nat \<Rightarrow> string \<Rightarrow> string" where
  "hexlify_loop [] j output = output"
| "hexlify_loop (c # input) j output =
     hexlify_loop input (j + 2) (output[j := hexValues ! (code c div 16), j + 1 := hexValues ! (code c mod 16)])"

definition hexlify :: "string \<Rightarrow> string \<Rightarrow> bool \<Rightarrow> bool \<times> string" where
  "hexlify input output append_output =
     (let output = (if append_output then output else []) in
      (True, hexlify_loop input (length output) (resize (2 * length input + length output) output)))"

fun unhexlify_loop :: "string \<Rightarrow> nat \<Rightarrow> string \<Rightarrow> bool \<times> string" where
  "unhexlify_loop (a # b # input) j output =
     (let highBits = hexTable a; lowBits = hexTable b in
      if highBits = 16 \<or> lowBits = 16 then (False, output)
      else unhexlify_loop input (j + 1) (output[j := char_of (highBits * 16 + lowBits)]))"
| "unhexlify_loop _ j output = (True, output)"

definition unhexlify :: "string \<Rightarrow> string \<Rightarrow> bool \<times> string" where
  "unhexlify input output =
     (if length input mod 2 \<noteq> 0 then (False, output)
      else unhexlify_loop input 0 (resize (length input div 2) output))"

definition unprintable :: "char \<Rightarrow> bool" where
  "unprintable c \<longleftrightarrow> code c < 0x20 \<or> 0x7e < code c \<or> c = backslash"

definition backslashify_char :: "bool \<Rightarrow> char \<Rightarrow> string" where
  "backslashify_char hex_style c =
     (if unprintable c then
        (let hex = ''x'' @ [hexValues ! (code c div 16), hexValues ! (code c mod 16)] in
         backslash #
         (if hex_style then hex
          else if c = CHR 0x0D then ''r'' else if c = CHR 0x0A then ''n'' else if c = CHR 0x09 then ''t''
          else if c = CHR 0x07 then ''a'' else if c = CHR 0x08 then ''b'' else if c = CHR 0x00 then ''0''
          else if c = backslash then [backslash] else hex))
      else [c])"

fun backslashify_loop :: "string \<Rightarrow> bool \<Rightarrow> string \<Rightarrow> string" where
  "backslashify_loop [] hex_style output = output"
| "backslashify_loop (c # input) hex_style output = backslashify_loop input hex_style (output @ backslashify_char hex_style c)"

definition backslashify :: "string \<Rightarrow> bool \<Rightarrow> string" where
  "backslashify input hex_style = backslashify_loop input hex_style []"

fun count_unprintable :: "string \<Rightarrow> nat \<times> nat \<Rightarrow> nat \<times> nat" where
  "count_unprintable [] (numUnprintable, numPrintablePrefix) = (numUnprintable, numPrintablePrefix)"
| "count_unprintable (c # input) (numUnprintable, numPrintablePrefix) =
     (let numUnprintable = (if unprintable c then numUnprintable + 1 else numUnprintable) in
      count_unprintable input
        (numUnprintable, if numUnprintable = 0 then numPrintablePrefix + 1 else numPrintablePrefix))"

definition humanify :: "string \<Rightarrow> string" where
  "humanify input =
     (let (numUnprintable, numPrintablePrefix) = count_unprintable input (0, 0) in
      if numUnprintable = 0 then input
      else if 5 * numUnprintable \<ge> 3 * length input then
        (if 5 * numPrintablePrefix \<ge> length input then backslashify input False
         else snd (hexlify input ''0x'' True))
      else backslashify input False)"

subsection \<open>Characters and digits\<close>

lemma code_less [simp]: "code c < 256"
  using mod_less_divisor [of 256 "code c"] of_char_mod_256 [of c] by simp

lemma code_char_of: "n < 256 \<Longrightarrow> code (char_of n) = n"
  by simp

lemma hexTable_le: "hexTable c \<le> 16"
  by (auto simp: hexTable_def)

lemma hexTable_hexValues: "d < 16 \<Longrightarrow> hexTable (hexValues ! d) = d"
proof -
  have "\<forall>d \<in> set [0..<16]. hexTable (hexValues ! d) = d"
    unfolding hexTable_def hexValues_def by (simp add: upt_rec)
  then show "d < 16 \<Longrightarrow> hexTable (hexValues ! d) = d" by simp
qed

lemma hex_pair: "char_of (code c div 16 * 16 + code c mod 16) = c"
  by simp

lemma hex_digits: "hexTable (hexValues ! (code c div 16)) = code c div 16" "hexTable (hexValues ! (code c mod 16)) = code c mod 16"
    "code c div 16 \<noteq> 16" "code c mod 16 \<noteq> 16"
proof -
  have "code c div 16 < 16" using code_less [of c] by linarith
  then show "hexTable (hexValues ! (code c div 16)) = code c div 16" "code c div 16 \<noteq> 16" by (simp_all add: hexTable_hexValues)
  show "hexTable (hexValues ! (code c mod 16)) = code c mod 16" "code c mod 16 \<noteq> 16"
    using hexTable_hexValues [of "code c mod 16"] mod_less_divisor [of 16 "code c"] by simp_all
qed

subsection \<open>C escapes: round trip\<close>

text \<open>What the loop emits for one character.\<close>

definition c_escape :: "char \<Rightarrow> string" where
  "c_escape c = (let v = code c; e = cEscapeTable c in
     if e = CHR ''P'' then [c]
     else if e = CHR ''O''
     then [backslash, char_of (48 + v div 64 mod 8), char_of (48 + v div 8 mod 8), char_of (48 + v mod 8)]
     else [backslash, e])"

lemma cEscape_loop_eq: "cEscape_loop p run out = out @ run @ concat (map c_escape p)"
  by (induction p run out rule: cEscape_loop.induct) (simp_all add: Let_def c_escape_def)

lemma escape_table:
  obtains (printable) "cEscapeTable c = CHR ''P''" "c \<noteq> backslash"
  | (octal) "cEscapeTable c = CHR ''O''"
  | (short) e where "cEscapeTable c = e" "e \<noteq> CHR ''P''" "e \<noteq> CHR ''O''" "cUnescapeTable e = c" "c \<notin> {CHR ''O'', CHR ''X'', CHR ''I''}"
proof (cases "c \<in> {CHR 0x22, backslash, CHR ''?'', CHR 0x0A, CHR 0x0D, CHR 0x09}")
  case True
  then show thesis by (intro short [of "cEscapeTable c"]) (auto simp: cEscapeTable_def cUnescapeTable_def)
next
  case False
  then show thesis by (cases "code c < 32 \<or> 126 < code c") (auto intro: printable octal simp: cEscapeTable_def)
qed

lemma octal_digits:
  assumes "a < 8" "b < 8" "d < 8"
  shows "octal 3 (char_of (48 + a) # char_of (48 + b) # char_of (48 + d) # p) 0 = ((a * 64 + b * 8) mod 256 + d, p)"
proof -
  have "code (char_of (48 + n)) = 48 + n" if "n < 8" for n using that by simp
  then show ?thesis using assms by (cases p) (simp_all add: mod_mult_right_eq add_mult_distrib mod_add_eq mult.commute)
qed

lemma octal_first:
  assumes "48 \<le> code c" "code c \<le> 55"
  shows "cUnescapeTable c = CHR ''O''"
proof -
  have "c \<notin> {CHR 0x27, CHR ''?'', CHR 0x22, backslash, CHR ''a'', CHR ''b'', CHR ''f'', CHR ''n'', CHR ''r'', CHR ''t'', CHR ''v''}"
  proof
    assume "c \<in> {CHR 0x27, CHR ''?'', CHR 0x22, backslash, CHR ''a'', CHR ''b'', CHR ''f'', CHR ''n'', CHR ''r'', CHR ''t'', CHR ''v''}"
    then show False using assms by (elim insertE emptyE) simp_all
  qed
  then show ?thesis unfolding cUnescapeTable_def using assms by (simp only: insert_iff empty_iff) simp
qed

lemma octal_value: "(code c div 64 mod 8 * 64 + code c div 8 mod 8 * 8) mod 256 + code c mod 8 = code c"
proof -
  let ?v = "code c"
  have "?v div 64 = ?v div 8 div 8" by (simp flip: div_mult2_eq)
  then have v: "?v div 64 * 64 + ?v div 8 mod 8 * 8 + ?v mod 8 = ?v"
    using div_mult_mod_eq [of "?v div 8" 8] div_mult_mod_eq [of ?v 8] by linarith
  moreover have "?v div 64 < 8" using code_less [of c] by linarith
  moreover from v code_less [of c] have "?v div 64 * 64 + ?v div 8 mod 8 * 8 < 256" by linarith
  ultimately show ?thesis by simp
qed

lemma unescape_escape: "cUnescape_loop strict (c_escape c @ p) run out =
    (if cEscapeTable c = CHR ''P'' then cUnescape_loop strict p (run @ [c]) out else cUnescape_loop strict p [] (out @ run @ [c]))"
proof (cases c rule: escape_table)
  case printable
  then show ?thesis by (simp add: c_escape_def)
next
  case octal
  let ?v = "code c"
  have x: "cUnescapeTable (char_of (48 + ?v div 64 mod 8)) = CHR ''O''"
    using mod_less_divisor [of 8 "?v div 64"] by (intro octal_first) simp_all
  have "octal 3 (char_of (48 + ?v div 64 mod 8) # char_of (48 + ?v div 8 mod 8) # char_of (48 + ?v mod 8) # p) 0 = (?v, p)"
    by (subst octal_digits) (simp_all add: octal_value)
  with octal x show ?thesis by (simp add: c_escape_def Let_def)
next
  case (short e)
  then show ?thesis by (auto simp: c_escape_def Let_def)
qed

lemma unescape_escapes: "cUnescape_loop strict (concat (map c_escape p)) run out = Inr (out @ run @ p)"
proof (induction p arbitrary: run out)
  case (Cons c p)
  then show ?case by (simp only: list.map concat.simps unescape_escape) simp
qed simp

text \<open>
  C escapes, round trip.  Unescaping what was escaped gives the string back, in either mode and
  appended to what was there; the escaped text consists of printable characters and never ends in a lone
  backslash, so that unescaping never leaves the string.
\<close>

theorem cescape_roundtrip:
  "cUnescape (cEscape str []) out strict = Inr (out @ str) \<and> (\<forall>c \<in> set (cEscape str []). 32 \<le> code c \<and> code c \<le> 126)"
proof
  show "cUnescape (cEscape str []) out strict = Inr (out @ str)"
    by (simp add: cUnescape_def cEscape_def cEscape_loop_eq unescape_escapes)
  have "32 \<le> code x \<and> code x \<le> 126" if "x \<in> set (c_escape c)" for x c
  proof (cases "cEscapeTable c = CHR ''O''")
    case True
    have "code (char_of (48 + n mod 8)) = 48 + n mod 8" for n :: nat
      using mod_less_divisor [of 8 n] by simp
    with True that show ?thesis using mod_less_divisor [of 8 "code c"] mod_less_divisor [of 8 "code c div 8"]
      mod_less_divisor [of 8 "code c div 64"] by (auto simp: c_escape_def Let_def)
  next
    case False
    with that show ?thesis by (auto simp: c_escape_def Let_def cEscapeTable_def split: if_splits)
  qed
  then show "\<forall>c \<in> set (cEscape str []). 32 \<le> code c \<and> code c \<le> 126"
    by (auto simp: cEscape_def cEscape_loop_eq)
qed

theorem cescape_roundtrip_witness:
  "cUnescape (cEscape [CHR 0x0A, CHR 0x00, CHR ''7''] []) [] True = Inr [CHR 0x0A, CHR 0x00, CHR ''7'']"
  using cescape_roundtrip [of "[CHR 0x0A, CHR 0x00, CHR ''7'']" "[]" True] by simp

lemma unescape_plain: "backslash \<notin> set p \<Longrightarrow> cUnescape_loop strict (p @ q) run out = cUnescape_loop strict q (run @ p) out"
  by (induction p arbitrary: run) auto

text \<open>
  A backslash at the end of the string is not caught: in strict mode, where it should be refused, and in the
  other one, the character behind the end of the string is read.
\<close>

theorem cunescape_trailing_backslash:
  assumes "backslash \<notin> set str"
  shows "cUnescape (str @ [backslash]) out strict = Inl OutOfBounds"
  using assms by (simp add: cUnescape_def unescape_plain)

theorem cunescape_trailing_backslash_witness: "cUnescape (''ab'' @ [backslash]) [] True = Inl OutOfBounds"
  by (rule cunescape_trailing_backslash) simp

subsection \<open>URI escapes: round trip\<close>

definition uri_escape :: "UriEscapeMode \<Rightarrow> char \<Rightarrow> string" where
  "uri_escape mode c =
     (if uriEscapeTable c \<le> mode_value mode then [c]
      else if mode = UriQuery \<and> uriEscapeTable c = 3 then ''+''
      else [CHR ''%'', hexValues ! (code c div 16), hexValues ! (code c mod 16)])"

lemma uriEscape_loop_eq: "uriEscape_loop mode p run out = out @ run @ concat (map (uri_escape mode) p)"
proof (induction mode p run out rule: uriEscape_loop.induct)
  case (2 mode c p run out)
  then show ?case by (simp add: Let_def uri_escape_def [of mode c])
qed simp

lemma uri_table: "uriEscapeTable (CHR ''%'') = 4" "uriEscapeTable (CHR ''+'') = 4" "uriEscapeTable c = 3 \<Longrightarrow> c = CHR '' ''"
  by (simp_all add: uriEscapeTable_def split: if_splits)

lemma mode_value_less: "mode_value mode \<le> 2"
  by (cases mode) simp_all

lemma uri_unescape_escape: "uriUnescape_loop mode (uri_escape mode c @ p) run out =
    (if uriEscapeTable c \<le> mode_value mode then uriUnescape_loop mode p (run @ [c]) out
     else uriUnescape_loop mode p [] (out @ run @ [c]))"
proof (cases "uriEscapeTable c \<le> mode_value mode")
  case True
  with mode_value_less [of mode] have "c \<noteq> CHR ''%''" "c \<noteq> CHR ''+''" by (auto simp: uri_table)
  with True show ?thesis by (simp add: uri_escape_def)
next
  case False
  then show ?thesis
    by (auto simp: uri_escape_def Let_def hex_digits hex_pair dest: uri_table(3))
qed

lemma uri_unescape_escapes: "uriUnescape_loop mode (concat (map (uri_escape mode) p)) run out = Inr (out @ run @ p)"
proof (induction p arbitrary: run out)
  case (Cons c p)
  then show ?case by (simp only: list.map concat.simps uri_unescape_escape) simp
qed simp

text \<open>
  URI escapes, round trip: unescaping what was escaped gives the string back, in each of the three modes; the escaped
  text has only unreserved characters, percent signs with their digits, and what the mode allows.
\<close>

theorem uri_roundtrip:
  "uriUnescape (uriEscape str [] mode) out mode = Inr (out @ str) \<and>
   (\<forall>c \<in> set (uriEscape str [] mode). uriEscapeTable c = 0 \<or> c = CHR ''%'' \<or> (mode = UriQuery \<and> c = CHR ''+'') \<or> (mode = UriPath \<and> c = CHR ''/''))"
proof
  show "uriUnescape (uriEscape str [] mode) out mode = Inr (out @ str)"
    by (simp add: uriUnescape_def uriEscape_def uriEscape_loop_eq uri_unescape_escapes)
  have hex: "uriEscapeTable (hexValues ! d) = 0" if "d < 16" for d
  proof -
    have "hexTable (hexValues ! d) \<noteq> 16" using that by (simp add: hexTable_hexValues)
    then show ?thesis by (auto simp: hexTable_def uriEscapeTable_def split: if_splits)
  qed
  have "uriEscapeTable x = 0 \<or> x = CHR ''%'' \<or> (mode = UriQuery \<and> x = CHR ''+'') \<or> (mode = UriPath \<and> x = CHR ''/'')"
    if "x \<in> set (uri_escape mode c)" for x c
  proof (cases "uriEscapeTable c \<le> mode_value mode")
    case True
    with that show ?thesis by (cases mode) (auto simp: uri_escape_def uriEscapeTable_def split: if_splits)
  next
    case False
    have "code c div 16 < 16" using code_less [of c] by linarith
    with False that hex [of "code c div 16"] hex [of "code c mod 16"] show ?thesis
      by (auto simp: uri_escape_def split: if_splits)
  qed
  then show "\<forall>c \<in> set (uriEscape str [] mode). uriEscapeTable c = 0 \<or> c = CHR ''%'' \<or> (mode = UriQuery \<and> c = CHR ''+'') \<or>
      (mode = UriPath \<and> c = CHR ''/'')"
    by (simp add: uriEscape_def uriEscape_loop_eq)
qed

theorem uri_roundtrip_witness: "uriUnescape (uriEscape ''a b/c'' [] UriQuery) [] UriQuery = Inr ''a b/c''"
  using uri_roundtrip [of "''a b/c''" UriQuery "[]"] by simp

subsection \<open>Hexadecimal strings: round trip\<close>

definition hex2 :: "char \<Rightarrow> string" where
  "hex2 c = [hexValues ! (code c div 16), hexValues ! (code c mod 16)]"

lemma length_hex2 [simp]: "length (concat (map hex2 s)) = 2 * length s"
  by (induction s) (simp_all add: hex2_def)

lemma length_resize [simp]: "length (resize n s) = n"
  by (simp add: resize_def)

lemma hexlify_loop_eq:
  "j + 2 * length input \<le> length output \<Longrightarrow>
   hexlify_loop input j output = take j output @ concat (map hex2 input) @ drop (j + 2 * length input) output"
proof (induction "input" j "output" rule: hexlify_loop.induct)
  case (2 c "input" j "output")
  then show ?case by (simp add: hex2_def take_update_swap drop_update_swap take_Suc_conv_app_nth list_update_append)
qed simp

lemma hexlify_eq: "hexlify input output append_output = (True, (if append_output then output else []) @ concat (map hex2 input))"
  by (simp add: hexlify_def hexlify_loop_eq Let_def) (simp add: resize_def)

lemma unhexlify_hex2:
  "j + length s \<le> length output \<Longrightarrow>
   unhexlify_loop (concat (map hex2 s)) j output = (True, take j output @ s @ drop (j + length s) output)"
proof (induction s arbitrary: j "output")
  case (Cons c s)
  from Cons.prems show ?case
    by (simp add: hex2_def [of c] hex_digits hex_pair Let_def Cons.IH take_Suc_conv_app_nth)
qed simp

lemma unhexlify_loop_accepts:
  "even (length input) \<Longrightarrow> fst (unhexlify_loop input j output) \<longleftrightarrow> (\<forall>c \<in> set input. hexTable c < 16)"
proof (induction "input" j "output" rule: unhexlify_loop.induct)
  case (1 a b "input" j "output")
  then show ?case using hexTable_le [of a] hexTable_le [of b] by (auto simp: Let_def)
qed auto

text \<open>
  Hexadecimal strings: decoding what was encoded gives the bytes back, whatever the output held before, and a string is
  accepted exactly when it has an even number of characters and all are hexadecimal digits.
\<close>

theorem hex_roundtrip:
  "unhexlify (snd (hexlify str out False)) out' = (True, str) \<and>
   (fst (unhexlify input out') \<longleftrightarrow> even (length input) \<and> list_all (\<lambda>c. hexTable c < 16) input)"
proof
  show "unhexlify (snd (hexlify str out False)) out' = (True, str)"
    by (simp add: hexlify_eq unhexlify_def unhexlify_hex2)
  show "fst (unhexlify input out') \<longleftrightarrow> even (length input) \<and> list_all (\<lambda>c. hexTable c < 16) input"
    by (auto simp: unhexlify_def unhexlify_loop_accepts list_all_iff even_iff_mod_2_eq_zero)
qed

subsection \<open>Display\<close>

lemma hexValues_printable: "d < 16 \<Longrightarrow> 32 \<le> code (hexValues ! d) \<and> code (hexValues ! d) \<le> 126"
  using hexTable_hexValues [of d] by (auto simp: hexTable_def split: if_splits)

lemma backslashify_loop_eq: "backslashify_loop input hex_style output = output @ concat (map (backslashify_char hex_style) input)"
  by (induction "input" hex_style "output" rule: backslashify_loop.induct) simp_all

lemma count_unprintable_eq: "fst (count_unprintable input (n, m)) = n + length (filter unprintable input)"
  by (induction "input" "(n, m)" arbitrary: n m rule: count_unprintable.induct) (auto simp: Let_def)

definition printable :: "string \<Rightarrow> bool" where
  "printable s \<longleftrightarrow> (\<forall>c \<in> set s. 32 \<le> code c \<and> code c \<le> 126)"

lemma hex2_printable: "printable (hex2 c)"
proof -
  have "code c div 16 < 16" using code_less [of c] by linarith
  then show ?thesis using hexValues_printable [of "code c div 16"] hexValues_printable [of "code c mod 16"]
    by (simp add: printable_def hex2_def)
qed

lemma backslashify_printable: "printable (backslashify input hex_style)"
proof -
  have "printable (backslashify_char hex_style c)" for c
  proof (cases "unprintable c")
    case True
    then show ?thesis using hex2_printable [of c]
      by (simp add: backslashify_char_def Let_def printable_def hex2_def)
  next
    case False
    then show ?thesis by (simp add: backslashify_char_def unprintable_def printable_def)
  qed
  then show ?thesis by (auto simp: backslashify_def backslashify_loop_eq printable_def)
qed

text \<open>Whatever the heuristics choose, the humanified string can be shown.\<close>

lemma humanify_printable: "printable (humanify input)"
proof -
  obtain n m where c: "count_unprintable input (0, 0) = (n, m)" by fastforce
  then have "n = length (filter unprintable input)" using count_unprintable_eq [of input 0 0] by simp
  then have "printable input" if "n = 0"
    using that by (auto simp: printable_def unprintable_def filter_empty_conv not_less)
  moreover have "printable (''0x'' @ concat (map hex2 input))"
    using hex2_printable by (auto simp: printable_def)
  ultimately show ?thesis using backslashify_printable [of input False] by (simp add: humanify_def c hexlify_eq)
qed

end
