(* ===== verification/Folly_Split.thy ===== *)
theory Folly_Split
  imports Net_Prelude
begin

text \<open>
  Splitting and joining of strings, from \<open>src/libs/folly/folly/String-inl.h\<close>.  A delimiter is a list of
  characters; the overload for a single character runs the same loop with a delimiter of length one.
  The loops over positions are related to a cut by recursion on the string.
\<close>

subsection \<open>The code\<close>

definition atDelim :: "'a list \<Rightarrow> nat \<Rightarrow> 'a list \<Rightarrow> bool" where
  "atDelim s i delim \<longleftrightarrow> take (length delim) (drop i s) = delim"

definition subpiece :: "'a list \<Rightarrow> nat \<Rightarrow> nat \<Rightarrow> 'a list" where
  "subpiece sp first n = take n (drop first sp)"

text \<open>The loop is entered with a delimiter that is not empty and not longer than the string.\<close>

function split_loop :: "'a list \<Rightarrow> 'a list \<Rightarrow> bool \<Rightarrow> nat \<Rightarrow> nat \<Rightarrow> nat \<Rightarrow> 'a list list \<Rightarrow> 'a list list" where
  "split_loop delim sp ignoreEmpty i tokenStartPos tokenSize out =
     (let dSize = length delim; strSize = length sp in
      if 0 < dSize \<and> i \<le> strSize - dSize then
        if atDelim sp i delim then
          split_loop delim sp ignoreEmpty (i + dSize) (i + dSize) 0
            (if \<not> ignoreEmpty \<or> tokenSize > 0 then out @ [subpiece sp tokenStartPos tokenSize] else out)
        else split_loop delim sp ignoreEmpty (i + 1) tokenStartPos (tokenSize + 1) out
      else
        (let tokenSize = strSize - tokenStartPos in
         if \<not> ignoreEmpty \<or> tokenSize > 0 then out @ [subpiece sp tokenStartPos tokenSize] else out))"
  by auto
termination
  by (relation "measure (\<lambda>(delim, sp, ignoreEmpty, i, tokenStartPos, tokenSize, out). length sp + 1 - i)") (auto simp flip: length_greater_0_conv)

declare split_loop.simps [simp del]

definition internalSplit :: "'a list \<Rightarrow> 'a list \<Rightarrow> bool \<Rightarrow> 'a list list \<Rightarrow> 'a list list" where
  "internalSplit delim sp ignoreEmpty out =
     (let strSize = length sp; dSize = length delim in
      if dSize > strSize \<or> dSize = 0 then
        (if \<not> ignoreEmpty \<or> strSize > 0 then out @ [sp] else out)
      else split_loop delim sp ignoreEmpty 0 0 0 out)"

fun joinAppend :: "'a list \<Rightarrow> 'a list list \<Rightarrow> 'a list \<Rightarrow> 'a list" where
  "joinAppend delimiter [] output = output"
| "joinAppend delimiter (s # rest) output = joinAppend delimiter rest (output @ delimiter @ s)"

definition internalJoinAppend :: "'a list \<Rightarrow> 'a list list \<Rightarrow> 'a list \<Rightarrow> 'a list result" where
  "internalJoinAppend delimiter pieces output =
     (case pieces of [] \<Rightarrow> Inl AssertFail | s # rest \<Rightarrow> Inr (joinAppend delimiter rest (output @ s)))"

definition internalJoin :: "'a list \<Rightarrow> 'a list list \<Rightarrow> 'a list result" where
  "internalJoin delimiter pieces = (if pieces = [] then Inr [] else internalJoinAppend delimiter pieces [])"

fun find_delim :: "'a list \<Rightarrow> 'a list \<Rightarrow> nat option" where
  "find_delim delim [] = (if delim = [] then Some 0 else None)"
| "find_delim delim (c # s) =
     (if atDelim (c # s) 0 delim then Some 0 else map_option Suc (find_delim delim s))"

text \<open>A fixed number of outputs, given by their old values; they are assigned only if all of them are.\<close>

fun splitFixed :: "bool \<Rightarrow> 'a list \<Rightarrow> 'a list \<Rightarrow> 'a list list \<Rightarrow> bool \<times> 'a list list" where
  "splitFixed exact delimiter input [] = (False, [])"
| "splitFixed exact delimiter input [output] =
     (if exact \<and> find_delim delimiter input \<noteq> None then (False, [output]) else (True, [input]))"
| "splitFixed exact delimiter input (outHead # o2 # outTail) =
     (case find_delim delimiter input of
        None \<Rightarrow> (False, outHead # o2 # outTail)
      | Some pos \<Rightarrow>
          (let head = take pos input; tail = drop (pos + length delimiter) input;
               (ok, outs) = splitFixed exact delimiter tail (o2 # outTail) in
           if ok then (True, head # outs) else (False, outHead # outs)))"

subsection \<open>The reference cut\<close>

function pieces_of :: "'a list \<Rightarrow> 'a list \<Rightarrow> 'a list list" where
  "pieces_of delim s =
     (if delim = [] \<or> length s < length delim then [s]
      else if take (length delim) s = delim then [] # pieces_of delim (drop (length delim) s)
      else (case pieces_of delim (tl s) of p # ps \<Rightarrow> (hd s # p) # ps | [] \<Rightarrow> []))"
  by auto
termination
  by (relation "measure (\<lambda>(delim, s). length s)") (auto simp: not_less simp flip: length_greater_0_conv)

declare pieces_of.simps [simp del]

lemma pieces_of_not_Nil [simp]: "pieces_of delim s \<noteq> []"
  by (induction delim s rule: pieces_of.induct) (subst pieces_of.simps, auto split: list.splits)

definition keep :: "bool \<Rightarrow> 'a list list \<Rightarrow> 'a list list" where
  "keep ignoreEmpty ps = (if ignoreEmpty then filter (\<lambda>p. p \<noteq> []) ps else ps)"

definition onto :: "'a list \<Rightarrow> 'a list list \<Rightarrow> 'a list list" where
  "onto p ps = (p @ hd ps) # tl ps"

lemma split_loop_cut:
  assumes d: "delim \<noteq> []" "length delim \<le> length sp"
  shows "start + n \<le> length sp \<Longrightarrow> split_loop delim sp ignoreEmpty (start + n) start n out =
    out @ keep ignoreEmpty (onto (subpiece sp start n) (pieces_of delim (drop (start + n) sp)))"
proof (induction "length sp - (start + n)" arbitrary: start n out rule: less_induct)
  case less
  let ?i = "start + n"
  have n: "subpiece sp start n \<noteq> [] \<longleftrightarrow> 0 < n" using less.prems by (auto simp: subpiece_def)
  show ?case
  proof (cases "?i \<le> length sp - length delim")
    case False
    then have c: "pieces_of delim (drop ?i sp) = [drop ?i sp]" using d less.prems by (subst pieces_of.simps) auto
    have "subpiece sp start n @ drop ?i sp = subpiece sp start (length sp - start)"
      by (simp add: subpiece_def) (metis append_take_drop_id drop_drop add.commute)
    with False d less.prems show ?thesis
      by (subst split_loop.simps) (simp add: c onto_def keep_def Let_def, simp add: subpiece_def)
  next
    case True
    then have l: "length delim \<le> length (drop ?i sp)" "?i < length sp" using d by (simp_all flip: length_greater_0_conv)
    show ?thesis
    proof (cases "atDelim sp ?i delim")
      case at: True
      then have c: "pieces_of delim (drop ?i sp) = [] # pieces_of delim (drop (?i + length delim) sp)"
        using d l by (subst pieces_of.simps) (simp add: atDelim_def add.commute)
      have "split_loop delim sp ignoreEmpty (?i + length delim) (?i + length delim) 0 out' =
          out' @ keep ignoreEmpty (pieces_of delim (drop (?i + length delim) sp))" for out'
        using less.hyps [of "?i + length delim" 0 out'] d l True by (simp add: onto_def subpiece_def flip: length_greater_0_conv)
      with at True d l n show ?thesis
        by (subst split_loop.simps) (simp add: c onto_def keep_def Let_def)
    next
      case False
      then have c: "pieces_of delim (drop ?i sp) = onto [sp ! ?i] (pieces_of delim (drop (start + Suc n) sp))"
        using d l by (subst pieces_of.simps)
          (auto simp: atDelim_def onto_def tl_drop drop_Suc hd_drop_conv_nth split: list.splits)
      have "subpiece sp start (Suc n) = subpiece sp start n @ [sp ! ?i]"
        using l by (simp add: subpiece_def take_Suc_conv_app_nth)
      with False True d l less.hyps [of start "Suc n" out] show ?thesis
        by (subst split_loop.simps) (simp add: c onto_def Let_def)
    qed
  qed
qed

lemma internalSplit_cut: "internalSplit delim sp ignoreEmpty out = out @ keep ignoreEmpty (pieces_of delim sp)"
proof (cases "length sp < length delim \<or> delim = []")
  case True
  then have "pieces_of delim sp = [sp]" by (subst pieces_of.simps) auto
  with True show ?thesis by (auto simp: internalSplit_def keep_def)
next
  case False
  then show ?thesis using split_loop_cut [of delim sp 0 0 ignoreEmpty out]
    by (auto simp: internalSplit_def Let_def onto_def subpiece_def)
qed

subsection \<open>Joining\<close>

definition joined :: "'a list \<Rightarrow> 'a list list \<Rightarrow> 'a list" where
  "joined delim ps = (if ps = [] then [] else hd ps @ concat (map ((@) delim) (tl ps)))"

lemma joinAppend_eq: "joinAppend delimiter ps out = out @ concat (map ((@) delimiter) ps)"
  by (induction delimiter ps out rule: joinAppend.induct) simp_all

lemma internalJoin_eq: "internalJoin delimiter ps = Inr (joined delimiter ps)"
  by (cases ps) (simp_all add: internalJoin_def internalJoinAppend_def joined_def joinAppend_eq)

lemma joined_Cons: "joined delim (p # ps) = (if ps = [] then p else p @ delim @ joined delim ps)"
  by (cases ps) (simp_all add: joined_def)

lemma joined_onto: "ps \<noteq> [] \<Longrightarrow> joined delim (onto p ps) = p @ joined delim ps"
  by (cases ps) (simp_all add: joined_def onto_def)

lemma pieces_of_other:
  "delim \<noteq> [] \<Longrightarrow> length delim \<le> length (c # s) \<Longrightarrow> take (length delim) (c # s) \<noteq> delim \<Longrightarrow>
   pieces_of delim (c # s) = onto [c] (pieces_of delim s)"
  by (subst pieces_of.simps) (auto simp: onto_def split: list.splits)

lemma joined_pieces: "joined delim (pieces_of delim s) = s"
proof (induction delim s rule: pieces_of.induct)
  case (1 delim s)
  consider (stop) "delim = [] \<or> length s < length delim"
    | (here) "delim \<noteq> []" "length delim \<le> length s" "take (length delim) s = delim"
    | (other) c t where "delim \<noteq> []" "length delim \<le> length s" "take (length delim) s \<noteq> delim" "s = c # t"
    by (cases s) force+
  then show ?case
  proof cases
    case stop
    then show ?thesis by (subst pieces_of.simps) (auto simp: joined_def)
  next
    case here
    then show ?thesis using 1(1) by (subst pieces_of.simps) (simp add: joined_Cons, metis append_take_drop_id)
  next
    case other
    then show ?thesis using 1(2) by (simp add: pieces_of_other joined_onto)
  qed
qed

lemma pieces_of_char:
  "pieces_of [c] [] = [] # []"
  "pieces_of [c] (x # s) = (if x = c then [] # pieces_of [c] s else onto [x] (pieces_of [c] s))"
  by (subst pieces_of.simps, simp) (auto simp: pieces_of.simps [of "[c]" "x # s"] onto_def split: list.splits)

lemma pieces_of_plain: "c \<notin> set p \<Longrightarrow> pieces_of [c] (p @ s) = onto p (pieces_of [c] s)"
  by (induction p) (auto simp: pieces_of_char onto_def)

lemma pieces_of_joined: "ps \<noteq> [] \<Longrightarrow> \<forall>p \<in> set ps. c \<notin> set p \<Longrightarrow> pieces_of [c] (joined [c] ps) = ps"
proof (induction ps)
  case (Cons p ps)
  have "pieces_of [c] p = [p]" using pieces_of_plain [of c p "[]"] Cons.prems by (simp add: pieces_of_char onto_def)
  with Cons show ?case by (auto simp: joined_Cons pieces_of_plain pieces_of_char onto_def)
qed simp

text \<open>
  Splitting and joining: joining what any split without dropping gave restores the string, for every delimiter and string,
  empty ones included; pieces that do not contain the delimiter character come back from the joined string;
  and dropping empty pieces is all that \<open>ignoreEmpty\<close> does.
\<close>

theorem split_join_roundtrip:
  "internalJoin delim (internalSplit delim sp False []) = Inr sp \<and>
   internalSplit delim sp True out = out @ filter (\<lambda>p. p \<noteq> []) (internalSplit delim sp False []) \<and>
   (ps \<noteq> [] \<and> list_all (\<lambda>p. c \<notin> set p) ps \<longrightarrow>
     (\<exists>s. internalJoin [c] ps = Inr s \<and> internalSplit [c] s False [] = ps))"
  by (simp add: internalJoin_eq internalSplit_cut keep_def joined_pieces pieces_of_joined list_all_iff)

theorem split_join_roundtrip_witness:
  "\<exists>s. internalJoin '','' [''a'', [], ''b''] = Inr s \<and> internalSplit '','' s False [] = [''a'', [], ''b'']"
  using split_join_roundtrip [of "[]" "[]" "[]" "[''a'', [], ''b'']" "CHR '',''"] by fastforce

subsection \<open>Fixed numbers of pieces\<close>

lemma find_delim_pieces:
  "delim \<noteq> [] \<Longrightarrow> pieces_of delim s =
    (case find_delim delim s of None \<Rightarrow> [s] | Some pos \<Rightarrow> take pos s # pieces_of delim (drop (pos + length delim) s))"
proof (induction delim s rule: find_delim.induct)
  case (1 delim)
  then show ?case by (subst pieces_of.simps) auto
next
  case (2 delim c s)
  show ?case
  proof (cases "atDelim (c # s) 0 delim")
    case True
    then have "length delim \<le> length (c # s)" unfolding atDelim_def by (metis drop0 length_take min.cobounded1 min.commute)
    with True 2 show ?thesis by (subst pieces_of.simps) (auto simp: atDelim_def)
  next
    case False
    show ?thesis
    proof (cases "length delim \<le> length (c # s)")
      case True
      with False 2 have "pieces_of delim (c # s) = onto [c] (pieces_of delim s)"
        by (intro pieces_of_other) (simp_all add: atDelim_def)
      with False 2 show ?thesis by (simp add: onto_def split: option.splits)
    next
      case short: False
      then have "pieces_of delim (c # s) = [c # s]" "pieces_of delim s = [s]"
        using 2 by (subst pieces_of.simps, auto)+
      with False 2 show ?thesis by (auto split: option.splits)
    qed
  qed
qed

text \<open>
  Splitting into a fixed number of outputs.  It succeeds exactly when the string has as many pieces, or, when not exact, at least
  as many; then the outputs are the pieces, the last one with all that follows; otherwise no output is touched.
\<close>

theorem splitFixed_spec:
  assumes "delim \<noteq> []" "outs \<noteq> []"
  shows "splitFixed exact delim input outs =
    (let ps = pieces_of delim input; n = length outs in
     if (if exact then length ps = n else n \<le> length ps)
     then (True, take (n - 1) ps @ [joined delim (drop (n - 1) ps)]) else (False, outs))"
  using assms
proof (induction exact delim "input" outs rule: splitFixed.induct)
  case (2 exact delim "input" out)
  show ?case
  proof (cases "find_delim delim input")
    case None
    with 2 show ?thesis using find_delim_pieces [of delim "input"] by (simp add: joined_def Let_def)
  next
    case (Some pos)
    with 2 show ?thesis using find_delim_pieces [of delim "input"] joined_pieces [of delim "input"] by (simp add: Suc_le_eq Let_def)
  qed
next
  case (3 exact delim "input" out o2 outs)
  show ?case
  proof (cases "find_delim delim input")
    case None
    with 3 show ?thesis using find_delim_pieces [of delim "input"] by (simp add: Let_def)
  next
    case (Some pos)
    with 3 show ?thesis using find_delim_pieces [of delim "input"] by (simp add: Let_def split: prod.splits)
  qed
qed simp

theorem splitFixed_spec_witness:
  "splitFixed True '','' ''a,b'' [''x'', ''y''] = (True, [''a'', ''b''])"
proof -
  have "pieces_of '','' ''a,b'' = [''a'', ''b'']" by (simp add: pieces_of_char onto_def)
  then show ?thesis using splitFixed_spec [of "'',''" "[''x'', ''y'']" True "''a,b''"] by (simp add: joined_def)
qed

end
