(* ===== verification/Folly_Unicode.thy ===== *)
theory Folly_Unicode
  imports Net_Prelude
begin

text \<open>
  UTF-8, from \<open>src/libs/folly/folly/Unicode.cpp\<close>.  \<open>char32_t\<close> is a 32-bit word; the decoder gets
  the bytes from \<open>p\<close> to \<open>e\<close> and returns the code point with the number of bytes by which it advances
  \<open>p\<close>.  Its error exits all do the same: skip one byte or throw.
\<close>

unbundle bit_operations_syntax

subsection \<open>The code\<close>

definition codePointToUtf8 :: "32 word \<Rightarrow> byte list" where
  "codePointToUtf8 cp =
     (if cp \<le> 0x7f then [ucast cp]
      else if cp \<le> 0x7FF then
        [ucast (0xC0 OR drop_bit 6 cp), ucast (0x80 OR (0x3f AND cp))]
      else if cp \<le> 0xFFFF then
        [ucast (0xE0 OR drop_bit 12 cp), ucast (0x80 OR (0x3f AND drop_bit 6 cp)), ucast (0x80 OR (0x3f AND cp))]
      else if cp \<le> 0x10FFFF then
        [ucast (0xF0 OR drop_bit 18 cp), ucast (0x80 OR (0x3f AND drop_bit 12 cp)),
         ucast (0x80 OR (0x3f AND drop_bit 6 cp)), ucast (0x80 OR (0x3f AND cp))]
      else [])"

definition bitMask :: "nat \<Rightarrow> 32 word" where
  "bitMask i = [mask 7, mask 11, mask 16, mask 21] ! i"

text \<open>\<open>None\<close> stands for the error exits.\<close>

function utf8_loop :: "byte list \<Rightarrow> nat \<Rightarrow> byte \<Rightarrow> 32 word \<Rightarrow> (32 word \<times> nat) option" where
  "utf8_loop p i fst0 d =
     (if i \<noteq> 3 \<and> i < length p then
        (let tmp = p ! i in
         if tmp AND 0xC0 \<noteq> 0x80 then None
         else
           (let d = push_bit 6 d OR ucast (tmp AND 0x3F); fst0 = push_bit 1 fst0 in
            if fst0 AND 0x80 = 0 then
              (let d = d AND bitMask i in
               if d AND NOT (bitMask (i - 1)) = 0 then None
               else if i = 2 \<and> (0xD800 \<le> d \<and> d \<le> 0xDFFF \<or> 0x10FFFF < d) then None
               else Some (d, i + 1))
            else utf8_loop p (i + 1) fst0 d))
      else None)"
  by auto
termination
  by (relation "measure (\<lambda>(p, i, fst0, d). length p - i)") auto

declare utf8_loop.simps [simp del]

definition utf8ToCodePoint :: "byte list \<Rightarrow> bool \<Rightarrow> (32 word \<times> nat) result" where
  "utf8ToCodePoint p skipOnError =
     (let error = (if skipOnError then Inr (0xFFFD, 1) else Inl (Thrown 0)) in
      case p of
        [] \<Rightarrow> error
      | fst0 # _ \<Rightarrow>
          if fst0 AND 0x80 = 0 then Inr (ucast fst0, 1)
          else if fst0 AND 0xC0 \<noteq> 0xC0 then error
          else (case utf8_loop p 1 (push_bit 1 fst0) (ucast fst0) of None \<Rightarrow> error | Some r \<Rightarrow> Inr r))"

subsection \<open>Bits of the bytes\<close>

text \<open>The bits of a word literal are those of the integer.\<close>

lemma constants:
  "(0x3f :: int) = mask 6" "(0x80 :: int) = push_bit 7 (mask 1)" "(0xC0 :: int) = push_bit 6 (mask 2)"
  "(0xE0 :: int) = push_bit 5 (mask 3)" "(0xF0 :: int) = push_bit 4 (mask 4)"
  "(0xFC0 :: int) = push_bit 6 (mask 6)"
  by (simp_all add: mask_eq_exp_minus_1 push_bit_eq_mult)

lemma bit_constants:
  "bit (0x3f :: int) n \<longleftrightarrow> n < 6"
  "bit (0x80 :: int) n \<longleftrightarrow> n = 7"
  "bit (0xC0 :: int) n \<longleftrightarrow> 6 \<le> n \<and> n < 8"
  "bit (0xE0 :: int) n \<longleftrightarrow> 5 \<le> n \<and> n < 8"
  "bit (0xF0 :: int) n \<longleftrightarrow> 4 \<le> n \<and> n < 8"
  "bit (0xFC0 :: int) n \<longleftrightarrow> 6 \<le> n \<and> n < 12"
  unfolding constants bit_push_bit_iff bit_mask_iff by auto

lemma bits_bound: "unat cp < 2 ^ k \<Longrightarrow> bit cp n \<Longrightarrow> n < k" for cp :: "32 word"
proof (rule ccontr)
  assume cp: "unat cp < 2 ^ k" "bit cp n" "\<not> n < k"
  then have "(2 :: nat) ^ k \<le> 2 ^ n" by simp
  with cp(1) have "unat cp div 2 ^ n = 0" by (intro div_less) linarith
  moreover have "bit (unat cp) n" using cp(2) by (simp add: bit_unsigned_iff)
  ultimately show False by (simp add: bit_iff_odd)
qed

lemma high_bits: "2 ^ k \<le> unat cp \<Longrightarrow> cp AND NOT (mask k) \<noteq> 0" for cp :: "32 word"
proof
  assume "2 ^ k \<le> unat cp" "cp AND NOT (mask k) = 0"
  then have "cp = take_bit k cp" by (metis bit.conj_disj_distrib bit.disj_cancel_right and.right_neutral or.right_neutral take_bit_eq_mask)
  then have "unat cp = take_bit k (unat cp)" by (metis unsigned_take_bit_eq)
  with \<open>2 ^ k \<le> unat cp\<close> show False by (metis take_bit_nat_less_exp not_le)
qed

text \<open>A continuation byte carries six bits.\<close>

lemma continuation:
  fixes x :: "32 word"
  defines "b \<equiv> ucast (0x80 OR (0x3f AND x)) :: byte"
  shows "b AND 0xC0 = 0x80" "(ucast (b AND 0x3F) :: 32 word) = 0x3f AND x"
  by (rule bit_eqI; auto simp: b_def bit_simps bit_constants)+

lemma test_bit_80: "b AND 0x80 = 0 \<longleftrightarrow> \<not> bit b 7" for b :: byte
proof
  assume "b AND 0x80 = 0"
  then have "\<not> bit (b AND 0x80) 7" by simp
  then show "\<not> bit b 7" by (simp add: bit_and_iff bit_constants)
next
  assume "\<not> bit b 7"
  then show "b AND 0x80 = 0" by (intro bit_eqI) (auto simp: bit_and_iff bit_constants)
qed

lemma shifted:
  "bit (push_bit 1 (push_bit 1 b)) 7 \<longleftrightarrow> bit b 5" "bit (push_bit 1 (push_bit 1 (push_bit 1 b))) 7 \<longleftrightarrow> bit b 4" for b :: byte
  unfolding push_bit_push_bit bit_push_bit_iff by simp_all

subsection \<open>One, two and three bytes\<close>

lemma decode_1:
  assumes "cp \<le> 0x7f"
  shows "utf8ToCodePoint (codePointToUtf8 cp @ rest) skip = Inr (cp, 1)"
proof -
  have "unat cp < 2 ^ 7" using assms by (simp add: word_le_nat_alt)
  note b = bits_bound [OF this]
  have "\<not> bit (ucast cp :: byte) 7" using b [of 7] by (auto simp: bit_simps)
  moreover have "ucast (ucast cp :: byte) = cp"
    by (rule bit_eqI) (auto simp: bit_simps dest: b)
  ultimately show ?thesis using assms by (simp add: codePointToUtf8_def utf8ToCodePoint_def test_bit_80 Let_def)
qed

lemma decode_2:
  assumes "\<not> cp \<le> 0x7f" "cp \<le> 0x7FF"
  shows "utf8ToCodePoint (codePointToUtf8 cp @ rest) skip = Inr (cp, 2)"
proof -
  have "unat cp < 2 ^ 11" using assms by (simp add: word_le_nat_alt)
  note b = bits_bound [OF this]
  let ?f = "ucast (0xC0 OR drop_bit 6 cp) :: byte" and ?t = "ucast (0x80 OR (0x3f AND cp)) :: byte"
  have f: "bit ?f 7" "?f AND 0xC0 = 0xC0" "\<not> bit (push_bit 1 (push_bit 1 ?f)) 7"
    unfolding shifted using b [of 11] by (auto intro!: bit_eqI simp: bit_simps bit_constants)
  have d: "(push_bit 6 (ucast ?f) OR (0x3f AND cp)) AND mask 11 = cp"
    by (rule bit_eqI) (auto simp: bit_simps bit_constants dest: b)
  have n: "cp AND NOT (mask 7) \<noteq> 0"
    using assms(1) by (intro high_bits) (simp_all add: word_le_nat_alt)
  have "utf8_loop (?f # ?t # rest) 1 (push_bit 1 ?f) (ucast ?f) = Some (cp, 2)"
    using f(3) n by (subst utf8_loop.simps) (simp add: continuation test_bit_80 bitMask_def Let_def d)
  with assms f show ?thesis by (simp add: codePointToUtf8_def utf8ToCodePoint_def test_bit_80 Let_def)
qed

lemma decode_3:
  assumes "\<not> cp \<le> 0x7FF" "cp \<le> 0xFFFF" "\<not> (0xD800 \<le> cp \<and> cp \<le> 0xDFFF)"
  shows "utf8ToCodePoint (codePointToUtf8 cp @ rest) skip = Inr (cp, 3)"
proof -
  have "unat cp < 2 ^ 16" using assms by (simp add: word_le_nat_alt)
  note b = bits_bound [OF this]
  let ?f = "ucast (0xE0 OR drop_bit 12 cp) :: byte"
  let ?t = "ucast (0x80 OR (0x3f AND drop_bit 6 cp)) :: byte" and ?u = "ucast (0x80 OR (0x3f AND cp)) :: byte"
  have "bit ?f 5" "\<not> bit ?f 4" using b [of 16] by (auto simp: bit_simps bit_constants)
  then have f: "bit (push_bit 1 (push_bit 1 ?f)) 7" "\<not> bit (push_bit 1 (push_bit 1 (push_bit 1 ?f))) 7"
    using shifted(1) [of ?f] shifted(2) [of ?f] by blast+
  have g: "bit ?f 7" "?f AND 0xC0 = 0xC0" by (auto intro!: bit_eqI simp: bit_simps bit_constants)
  define d where "d = push_bit 6 (ucast ?f) OR (0x3f AND drop_bit 6 cp)"
  have d: "(push_bit 6 d OR (0x3f AND cp)) AND mask 16 = cp"
    unfolding d_def by (rule bit_eqI) (auto simp: bit_simps bit_constants dest: b)
  have n: "cp AND NOT (mask 11) \<noteq> 0" using assms(1) by (intro high_bits) (simp add: word_le_nat_alt)
  have m: "\<not> 0x10FFFF < cp" using assms(2) by (simp add: word_le_nat_alt word_less_nat_alt)
  have "\<not> cp \<le> 0x7f" using assms(1) by (simp add: word_le_nat_alt)
  moreover have "utf8_loop (?f # ?t # ?u # rest) 2 (push_bit 1 (push_bit 1 ?f)) d = Some (cp, 3)"
    using f(2) n m assms(3) by (subst utf8_loop.simps) (simp add: continuation test_bit_80 bitMask_def Let_def d)
  then have "utf8_loop (?f # ?t # ?u # rest) 1 (push_bit 1 ?f) (ucast ?f) = Some (cp, 3)"
    using f(1) by (subst utf8_loop.simps) (simp add: continuation test_bit_80 Let_def numeral_2_eq_2 flip: d_def)
  ultimately show ?thesis using assms g by (simp add: codePointToUtf8_def utf8ToCodePoint_def test_bit_80 Let_def)
qed

lemma decode_4:
  assumes "\<not> cp \<le> 0xFFFF" "cp \<le> 0x10FFFF"
  shows "utf8ToCodePoint (codePointToUtf8 cp @ rest) skip = (if skip then Inr (0xFFFD, 1) else Inl (Thrown 0))"
proof -
  let ?f = "ucast (0xF0 OR drop_bit 18 cp) :: byte"
  let ?s = "ucast (0x80 OR (0x3f AND drop_bit 12 cp)) :: byte"
  let ?t = "ucast (0x80 OR (0x3f AND drop_bit 6 cp)) :: byte" and ?u = "ucast (0x80 OR (0x3f AND cp)) :: byte"
  have "bit ?f 5" "bit ?f 4" by (auto simp: bit_simps bit_constants)
  then have f: "bit (push_bit 1 (push_bit 1 ?f)) 7" "bit (push_bit 1 (push_bit 1 (push_bit 1 ?f))) 7"
    using shifted(1) [of ?f] shifted(2) [of ?f] by blast+
  have g: "bit ?f 7" "?f AND 0xC0 = 0xC0" by (auto intro!: bit_eqI simp: bit_simps bit_constants)
  have "utf8_loop p 3 g d = None" for p g d by (subst utf8_loop.simps) simp
  then have "utf8_loop (?f # ?s # ?t # ?u # rest) 2 (push_bit 1 (push_bit 1 ?f)) d = None" for d
    using f(2) by (subst utf8_loop.simps) (simp add: continuation test_bit_80 Let_def)
  then have "utf8_loop (?f # ?s # ?t # ?u # rest) 1 (push_bit 1 ?f) (ucast ?f) = None"
    using f(1) by (subst utf8_loop.simps) (simp add: continuation test_bit_80 Let_def numeral_2_eq_2)
  moreover have "\<not> cp \<le> 0x7f" "\<not> cp \<le> 0x7ff" using assms(1) by (simp_all add: word_le_nat_alt)
  ultimately show ?thesis using assms g by (simp add: codePointToUtf8_def utf8ToCodePoint_def test_bit_80 Let_def)
qed

text \<open>
  UTF-8, round trip in the basic plane: a code point up to \<open>0xFFFF\<close> that is not a surrogate is
  encoded in one, two or three bytes, and decoding these, whatever follows, gives it back and advances behind them.
\<close>

theorem utf8_roundtrip:
  assumes "cp \<le> 0xFFFF" "\<not> (0xD800 \<le> cp \<and> cp \<le> 0xDFFF)"
  shows "utf8ToCodePoint (codePointToUtf8 cp @ rest) skip = Inr (cp, length (codePointToUtf8 cp))"
proof -
  consider "cp \<le> 0x7f" | "\<not> cp \<le> 0x7f" "cp \<le> 0x7FF" | "\<not> cp \<le> 0x7FF" by blast
  then show ?thesis
  proof cases
    case 1
    then show ?thesis using decode_1 [OF 1, of rest skip] by (simp add: codePointToUtf8_def)
  next
    case 2
    then show ?thesis using decode_2 [OF 2, of rest skip] by (simp add: codePointToUtf8_def)
  next
    case 3
    then have "\<not> cp \<le> 0x7f" by (simp add: word_le_nat_alt)
    with 3 assms show ?thesis using decode_3 [OF 3 assms, of rest skip] by (simp add: codePointToUtf8_def)
  qed
qed

theorem utf8_roundtrip_witness: "utf8ToCodePoint (codePointToUtf8 0x20AC @ [7]) False = Inr (0x20AC, 3)"
  using utf8_roundtrip [of "0x20AC" "[7]" False] by (simp add: codePointToUtf8_def)

text \<open>
  Beyond the basic plane the decoder fails on what the encoder writes: its loop stops before the fourth byte, so that
  every code point from \<open>0x10000\<close> to \<open>0x10FFFF\<close> is an error, or with skipping, the replacement character for one byte.
\<close>

theorem utf8_four_bytes_fail:
  assumes "\<not> cp \<le> 0xFFFF" "cp \<le> 0x10FFFF"
  shows "length (codePointToUtf8 cp) = 4 \<and>
    utf8ToCodePoint (codePointToUtf8 cp @ rest) False = Inl (Thrown 0) \<and>
    utf8ToCodePoint (codePointToUtf8 cp @ rest) True = Inr (0xFFFD, 1)"
proof -
  have "\<not> cp \<le> 0x7f" "\<not> cp \<le> 0x7ff" using assms(1) by (simp_all add: word_le_nat_alt)
  with assms have "length (codePointToUtf8 cp) = 4" by (simp add: codePointToUtf8_def)
  then show ?thesis by (simp add: decode_4 [OF assms])
qed

theorem utf8_four_bytes_fail_witness: "utf8ToCodePoint (codePointToUtf8 0x1F600 @ []) False = Inl (Thrown 0)"
  using utf8_four_bytes_fail [of "0x1F600" "[]"] by simp

end
