(* ===== verification/Folly_Byte_Set.thy ===== *)
theory Folly_Byte_Set
  imports Net_Prelude
begin

text \<open>
  The sparse set of bytes, from \<open>src/libs/folly/folly/SparseByteSet.h\<close>.  Its two arrays are never
  initialised: a set starts with whatever they hold, and the two cross-checking lookups of
  \<open>contains\<close> make the garbage harmless.  \<open>DCHECK_LT\<close> is an assertion of debug builds.
\<close>

subsection \<open>The code\<close>

record byte_set =
  set_size :: "16 word"
  sparse :: "byte list"
  dense :: "byte list"

definition kCapacity :: "16 word" where
  "kCapacity = 256"

text \<open>The constructor sets the size only; \<open>sparse0\<close> and \<open>dense0\<close> are the memory as it was.\<close>

definition SparseByteSet :: "byte list \<Rightarrow> byte list \<Rightarrow> byte_set" where
  "SparseByteSet sparse0 dense0 = \<lparr>set_size = 0, sparse = sparse0, dense = dense0\<rparr>"

definition set_contains :: "byte \<Rightarrow> byte_set \<Rightarrow> bool result" where
  "set_contains i s =
     rbind (list_at (sparse s) (uint i)) (\<lambda>x.
       if uint x < uint (set_size s) then rbind (list_at (dense s) (uint x)) (\<lambda>y. Inr (y = i))
       else Inr False)"

definition set_add :: "bool \<Rightarrow> byte \<Rightarrow> byte_set \<Rightarrow> (bool \<times> byte_set) result" where
  "set_add ndebug i s =
     rbind (set_contains i s) (\<lambda>c.
       if \<not> c then
         rbind (c_assert ndebug (set_size s < kCapacity)) (\<lambda>_.
         rbind (mem_write (dense s) (uint (set_size s)) [i]) (\<lambda>d.
         rbind (mem_write (sparse s) (uint i) [ucast (set_size s)]) (\<lambda>p.
           Inr (True, s\<lparr>dense := d, sparse := p, set_size := set_size s + 1\<rparr>))))
       else Inr (False, s))"

fun add_all :: "bool \<Rightarrow> byte list \<Rightarrow> byte_set \<Rightarrow> (bool list \<times> byte_set) result" where
  "add_all ndebug [] s = Inr ([], s)"
| "add_all ndebug (i # is) s =
     rbind (set_add ndebug i s) (\<lambda>(r, s). rbind (add_all ndebug is s) (\<lambda>(rs, s). Inr (r # rs, s)))"

subsection \<open>The invariant\<close>

definition members :: "byte_set \<Rightarrow> byte list" where
  "members s = take (unat (set_size s)) (dense s)"

definition set_ok :: "byte_set \<Rightarrow> bool" where
  "set_ok s \<longleftrightarrow> length (sparse s) = 256 \<and> length (dense s) = 256 \<and> unat (set_size s) \<le> 256 \<and> distinct (members s) \<and>
     (\<forall>k < unat (set_size s). unat (sparse s ! unat (dense s ! k)) = k)"

lemma unat_byte [simp]: "unat (i :: byte) < 256"
  using unsigned_less [of i] by simp

lemma byte_index: "list_at xs (uint i) = Inr (xs ! unat i)" if "length xs = 256" for i :: byte
  using that unsigned_less [of i] by (simp add: list_at_def)

lemma write_at: "k = unat w \<Longrightarrow> k < length m \<Longrightarrow> mem_write m (uint w) [x] = Inr (m[k := x])"
proof -
  assume k: "k = unat w" "k < length m"
  then have "mem_write m (int k) [x] = Inr (m[k := x])" using mem_write_single [of "int k" m x] by (simp del: of_nat_unat)
  with k(1) show ?thesis by (simp only: uint_nat)
qed

lemma contains_spec:
  assumes "set_ok s"
  shows "set_contains i s = Inr (i \<in> set (members s))"
proof -
  let ?x = "sparse s ! unat i"
  have l: "length (sparse s) = 256" "length (dense s) = 256" "unat (set_size s) \<le> 256"
    and x: "\<And>k. k < unat (set_size s) \<Longrightarrow> unat (sparse s ! unat (dense s ! k)) = k" using assms by (auto simp: set_ok_def)
  have "i \<in> set (members s) \<longleftrightarrow> unat ?x < unat (set_size s) \<and> dense s ! unat ?x = i"
    using l x by (auto simp: members_def in_set_conv_nth)
  moreover have "uint ?x < uint (set_size s) \<longleftrightarrow> unat ?x < unat (set_size s)" by (simp only: uint_nat of_nat_less_iff)
  ultimately show ?thesis using l by (auto simp: set_contains_def byte_index)
qed

text \<open>Not all bytes are members when one is missing, so there is room for it.\<close>

lemma room: "set_ok s \<Longrightarrow> i \<notin> set (members s) \<Longrightarrow> unat (set_size s) < 256"
proof (rule ccontr)
  assume s: "set_ok s" "i \<notin> set (members s)" "\<not> unat (set_size s) < 256"
  then have "length (members s) = 256" "distinct (members s)" by (auto simp: set_ok_def members_def)
  then have "card (set (members s)) = card (UNIV :: byte set)" by (simp add: distinct_card card_word)
  then have "set (members s) = UNIV" by (intro card_subset_eq) auto
  with s(2) show False by simp
qed

lemma add_spec:
  assumes "set_ok s"
  shows "\<exists>s'. set_add ndebug i s = Inr (i \<notin> set (members s), s') \<and> set_ok s' \<and> set (members s') = insert i (set (members s))"
proof (cases "i \<in> set (members s)")
  case True
  then show ?thesis using assms by (auto simp: set_add_def contains_spec)
next
  case False
  let ?n = "unat (set_size s)"
  let ?d = "(dense s)[?n := i]" and ?p = "(sparse s)[unat i := ucast (set_size s)]"
  let ?s = "s\<lparr>dense := ?d, sparse := ?p, set_size := set_size s + 1\<rparr>"
  have ok: "length (sparse s) = 256" "length (dense s) = 256" "distinct (members s)"
    and x: "\<And>k. k < ?n \<Longrightarrow> unat (sparse s ! unat (dense s ! k)) = k" using assms by (auto simp: set_ok_def)
  have n: "?n < 256" using room [OF assms False] .
  then have n1: "unat (set_size s + 1) = ?n + 1" by (simp add: unat_word_ariths)
  have lt: "set_size s < kCapacity" using n by (simp add: kCapacity_def word_less_nat_alt)
  have u: "unat (ucast (set_size s) :: byte) = ?n" using n by (simp add: unsigned_ucast_eq take_bit_nat_eq_self)
  have m: "members ?s = members s @ [i]" using n ok by (simp add: members_def n1 take_Suc_conv_app_nth)
  have "unat (?p ! unat (?d ! k)) = k" if "k < ?n + 1" for k
  proof (cases "k = ?n")
    case True
    then show ?thesis using n ok u unat_byte [of i] by simp
  next
    case False
    then have k: "k < ?n" using that by simp
    then have "dense s ! k \<noteq> i" using \<open>i \<notin> set (members s)\<close> n ok by (auto simp: members_def in_set_conv_nth)
    then show ?thesis using k n ok x [OF k] by (simp add: nth_list_update word_unat_eq_iff)
  qed
  then have "set_ok ?s" using ok n m False by (simp add: set_ok_def n1)
  moreover have "set_add ndebug i s = Inr (True, ?s)"
    using False lt n ok unat_byte [of i] by (simp add: set_add_def contains_spec [OF assms] write_at)
  ultimately show ?thesis using False m by auto
qed

text \<open>
  The sparse set of bytes, over arbitrary uninitialised memory: any sequence of additions runs without leaving the arrays or
  failing the assertion, each tells whether the byte was new, and afterwards exactly the added bytes are contained.
\<close>

theorem byte_set_refines:
  assumes "length sparse0 = 256" "length dense0 = 256"
  shows "\<exists>rs s. add_all ndebug is (SparseByteSet sparse0 dense0) = Inr (rs, s) \<and> length rs = length is \<and>
    (\<forall>k < length is. rs ! k \<longleftrightarrow> is ! k \<notin> set (take k is)) \<and> (\<forall>i. set_contains i s = Inr (i \<in> set is))"
proof -
  have "\<exists>rs s'. add_all ndebug is s = Inr (rs, s') \<and> length rs = length is \<and> set_ok s' \<and>
      set (members s') = set (members s) \<union> set is \<and> (\<forall>k < length is. rs ! k \<longleftrightarrow> is ! k \<notin> set (members s) \<union> set (take k is))"
    if "set_ok s" for s using that
  proof (induction "is" arbitrary: s)
    case (Cons i "is")
    obtain s1 where s1: "set_add ndebug i s = Inr (i \<notin> set (members s), s1)" "set_ok s1" "set (members s1) = insert i (set (members s))"
      using add_spec [OF Cons.prems] by blast
    obtain rs s' where r: "add_all ndebug is s1 = Inr (rs, s')" "length rs = length is" "set_ok s'"
        "set (members s') = set (members s1) \<union> set is" "\<forall>k < length is. rs ! k \<longleftrightarrow> is ! k \<notin> set (members s1) \<union> set (take k is)"
      using Cons.IH [OF s1(2)] by blast
    have "((i \<notin> set (members s)) # rs) ! k \<longleftrightarrow> (i # is) ! k \<notin> set (members s) \<union> set (take k (i # is))"
      if "k < length (i # is)" for k using that r(5) s1(3) by (cases k) auto
    with r s1 show ?case by auto
  qed simp
  moreover have "set_ok (SparseByteSet sparse0 dense0)" "members (SparseByteSet sparse0 dense0) = []"
    using assms by (simp_all add: set_ok_def SparseByteSet_def members_def)
  ultimately show ?thesis by (metis contains_spec empty_set sup_bot.left_neutral)
qed

theorem byte_set_refines_witness:
  "\<exists>rs s. add_all False [7, 9, 7] (SparseByteSet (replicate 256 0) (replicate 256 7)) = Inr (rs, s) \<and> \<not> rs ! 2 \<and>
    set_contains 9 s = Inr True \<and> set_contains 8 s = Inr False"
proof -
  obtain rs s where "add_all False [7, 9, 7] (SparseByteSet (replicate 256 0) (replicate 256 7)) = Inr (rs, s)"
      "\<forall>k < length [7, 9, 7 :: byte]. rs ! k \<longleftrightarrow> [7, 9, 7] ! k \<notin> set (take k [7, 9, 7 :: byte])"
      "\<forall>i. set_contains i s = Inr (i \<in> set [7, 9, 7 :: byte])"
    using byte_set_refines [of "replicate 256 0" "replicate 256 7" False "[7, 9, 7]"] by auto
  then show ?thesis by (intro exI [of _ rs] exI [of _ s]) (auto dest: spec [of _ 2])
qed

end
