(* ===== verification/Folly_RW_Lock.thy ===== *)
theory Folly_RW_Lock
  imports Net_Prelude
begin

text \<open>
  The reader-writer spin lock, from \<open>src/libs/folly/folly/RWSpinLock.h\<close>.  One 32-bit word counts readers
  in fours and has a bit each for an upgradable reader and a writer.  Every operation is one or two
  atomic accesses; \<open>rw_step\<close> interleaves them for any number of threads.  The spinning methods
  repeat the try-operations, which in the step relation is a failed step or none.
\<close>

unbundle bit_operations_syntax

subsection \<open>The code\<close>

definition READER :: "32 word" where "READER = 4"
definition UPGRADED :: "32 word" where "UPGRADED = 2"
definition WRITER :: "32 word" where "WRITER = 1"

definition RWSpinLock :: "32 word" where
  "RWSpinLock = 0"

definition rw_try_lock :: "32 word \<Rightarrow> bool \<times> 32 word" where
  "rw_try_lock bits = (if bits = 0 then (True, WRITER) else (False, bits))"

definition rw_unlock :: "32 word \<Rightarrow> 32 word" where
  "rw_unlock bits = bits AND NOT (WRITER OR UPGRADED)"

text \<open>\<open>try_lock_shared\<close>: the announcement, whether it has to be taken back, and the whole.\<close>

definition announce_shared :: "32 word \<Rightarrow> bool \<times> 32 word" where
  "announce_shared bits = (bits AND (WRITER OR UPGRADED) \<noteq> 0, bits + READER)"

definition rw_try_lock_shared :: "32 word \<Rightarrow> bool \<times> 32 word" where
  "rw_try_lock_shared bits =
     (let (back, bits) = announce_shared bits in if back then (False, bits - READER) else (True, bits))"

definition rw_unlock_shared :: "32 word \<Rightarrow> 32 word" where
  "rw_unlock_shared bits = bits - READER"

definition rw_unlock_and_lock_shared :: "32 word \<Rightarrow> 32 word" where
  "rw_unlock_and_lock_shared bits = rw_unlock (bits + READER)"

definition rw_try_lock_upgrade :: "32 word \<Rightarrow> bool \<times> 32 word" where
  "rw_try_lock_upgrade bits = (bits AND (UPGRADED OR WRITER) = 0, bits OR UPGRADED)"

definition rw_unlock_upgrade :: "32 word \<Rightarrow> 32 word" where
  "rw_unlock_upgrade bits = bits - UPGRADED"

definition rw_try_unlock_upgrade_and_lock :: "32 word \<Rightarrow> bool \<times> 32 word" where
  "rw_try_unlock_upgrade_and_lock bits = (if bits = UPGRADED then (True, WRITER) else (False, bits))"

definition rw_unlock_upgrade_and_lock_shared :: "32 word \<Rightarrow> 32 word" where
  "rw_unlock_upgrade_and_lock_shared bits = bits + (READER - UPGRADED)"

definition rw_unlock_and_lock_upgrade :: "32 word \<Rightarrow> 32 word" where
  "rw_unlock_and_lock_upgrade bits = (bits OR UPGRADED) - WRITER"

subsection \<open>Threads\<close>

text \<open>What a thread holds, or which second half of an operation it is about to do.\<close>

datatype rw_pc = NoLock | Reader | Upgrader | Writer | TakingBack | Downgrading | Upgrading

record rw_system =
  lock_bits :: "32 word"
  rw_pcs :: "nat \<Rightarrow> rw_pc"

inductive rw_step :: "nat \<Rightarrow> rw_system \<Rightarrow> rw_system \<Rightarrow> bool" for n where
  lock: "t < n \<Longrightarrow> rw_pcs s t = NoLock \<Longrightarrow> rw_try_lock (lock_bits s) = (True, b) \<Longrightarrow>
    rw_step n s (s\<lparr>lock_bits := b, rw_pcs := (rw_pcs s)(t := Writer)\<rparr>)"
| unlock: "t < n \<Longrightarrow> rw_pcs s t = Writer \<Longrightarrow>
    rw_step n s (s\<lparr>lock_bits := rw_unlock (lock_bits s), rw_pcs := (rw_pcs s)(t := NoLock)\<rparr>)"
| announce: "t < n \<Longrightarrow> rw_pcs s t = NoLock \<Longrightarrow> announce_shared (lock_bits s) = (back, b) \<Longrightarrow>
    rw_step n s (s\<lparr>lock_bits := b, rw_pcs := (rw_pcs s)(t := (if back then TakingBack else Reader))\<rparr>)"
| take_back: "t < n \<Longrightarrow> rw_pcs s t = TakingBack \<Longrightarrow>
    rw_step n s (s\<lparr>lock_bits := lock_bits s - READER, rw_pcs := (rw_pcs s)(t := NoLock)\<rparr>)"
| unlock_shared: "t < n \<Longrightarrow> rw_pcs s t = Reader \<Longrightarrow>
    rw_step n s (s\<lparr>lock_bits := rw_unlock_shared (lock_bits s), rw_pcs := (rw_pcs s)(t := NoLock)\<rparr>)"
| downgrade_add: "t < n \<Longrightarrow> rw_pcs s t = Writer \<Longrightarrow>
    rw_step n s (s\<lparr>lock_bits := lock_bits s + READER, rw_pcs := (rw_pcs s)(t := Downgrading)\<rparr>)"
| downgrade_unlock: "t < n \<Longrightarrow> rw_pcs s t = Downgrading \<Longrightarrow>
    rw_step n s (s\<lparr>lock_bits := rw_unlock (lock_bits s), rw_pcs := (rw_pcs s)(t := Reader)\<rparr>)"
| upgrade: "t < n \<Longrightarrow> rw_pcs s t = NoLock \<Longrightarrow> rw_try_lock_upgrade (lock_bits s) = (ok, b) \<Longrightarrow>
    rw_step n s (s\<lparr>lock_bits := b, rw_pcs := (rw_pcs s)(t := (if ok then Upgrader else NoLock))\<rparr>)"
| unlock_upgrade: "t < n \<Longrightarrow> rw_pcs s t = Upgrader \<Longrightarrow>
    rw_step n s (s\<lparr>lock_bits := rw_unlock_upgrade (lock_bits s), rw_pcs := (rw_pcs s)(t := NoLock)\<rparr>)"
| upgrade_lock: "t < n \<Longrightarrow> rw_pcs s t = Upgrader \<Longrightarrow> rw_try_unlock_upgrade_and_lock (lock_bits s) = (True, b) \<Longrightarrow>
    rw_step n s (s\<lparr>lock_bits := b, rw_pcs := (rw_pcs s)(t := Writer)\<rparr>)"
| upgrade_shared: "t < n \<Longrightarrow> rw_pcs s t = Upgrader \<Longrightarrow>
    rw_step n s (s\<lparr>lock_bits := rw_unlock_upgrade_and_lock_shared (lock_bits s), rw_pcs := (rw_pcs s)(t := Reader)\<rparr>)"
| writer_or: "t < n \<Longrightarrow> rw_pcs s t = Writer \<Longrightarrow>
    rw_step n s (s\<lparr>lock_bits := lock_bits s OR UPGRADED, rw_pcs := (rw_pcs s)(t := Upgrading)\<rparr>)"
| writer_sub: "t < n \<Longrightarrow> rw_pcs s t = Upgrading \<Longrightarrow>
    rw_step n s (s\<lparr>lock_bits := lock_bits s - WRITER, rw_pcs := (rw_pcs s)(t := Upgrader)\<rparr>)"

inductive rw_reach :: "nat \<Rightarrow> rw_system \<Rightarrow> bool" for n where
  start: "rw_reach n \<lparr>lock_bits = RWSpinLock, rw_pcs = (\<lambda>t. NoLock)\<rparr>"
| step: "rw_reach n s \<Longrightarrow> rw_step n s s' \<Longrightarrow> rw_reach n s'"

subsection \<open>The word\<close>

definition lock_word :: "nat \<Rightarrow> bool \<Rightarrow> bool \<Rightarrow> 32 word" where
  "lock_word r u w = word_of_nat (4 * r + (if u then 2 else 0) + (if w then 1 else 0))"

lemma lock_word_add: "lock_word r u w + READER = lock_word (r + 1) u w"
  by (simp add: lock_word_def READER_def algebra_simps)

lemma lock_word_sub: "0 < r \<Longrightarrow> lock_word r u w - READER = lock_word (r - 1) u w"
  by (cases r) (simp_all add: lock_word_def READER_def algebra_simps)

lemma unat_lock_word: "r < 2 ^ 29 \<Longrightarrow> unat (lock_word r u w) = 4 * r + (if u then 2 else 0) + (if w then 1 else 0)"
  unfolding lock_word_def unsigned_of_nat of_nat_id by (rule take_bit_nat_eq_self) simp

lemma lock_word_bits:
  "lock_word r u w = push_bit 2 (word_of_nat r) OR ((if u then 2 else 0) OR (if w then 1 else 0))"
proof -
  let ?c = "(if u then 2 else 0) OR (if w then 1 else 0) :: 32 word"
  have c: "?c = (if u then 2 else 0) + (if w then 1 else 0)" by simp
  have two: "bit (2 :: int) k \<longleftrightarrow> k = 1" for k using bit_exp_iff [of 1 k, where ?'a = int] by auto
  have "push_bit 2 (word_of_nat r :: 32 word) AND ?c = 0"
    by (rule bit_eqI) (auto simp: bit_simps two)
  then have "push_bit 2 (word_of_nat r) OR ?c = push_bit 2 (word_of_nat r) + ?c" by (simp only: disjunctive_add_eq_or)
  then show ?thesis unfolding c by (simp add: lock_word_def push_bit_eq_mult)
qed

lemma bit_3: "bit (3 :: int) k \<longleftrightarrow> k < 2"
proof -
  have "(3 :: int) = mask 2" by (simp add: mask_eq_exp_minus_1)
  then show ?thesis by (simp only: bit_mask_iff) simp
qed

lemma bit_2: "bit (2 :: int) k \<longleftrightarrow> k = 1"
  using bit_exp_iff [of 1 k, where ?'a = int] by auto

lemmas lock_bit_simps = bit_simps bit_2 bit_3 WRITER_def UPGRADED_def

lemma lock_word_unlock: "rw_unlock (lock_word r u w) = lock_word r False False"
  unfolding rw_unlock_def lock_word_bits
  by (rule bit_eqI) (auto simp: lock_bit_simps)

lemma lock_word_or: "lock_word r u w OR UPGRADED = lock_word r True w"
  unfolding lock_word_bits by (rule bit_eqI) (auto simp: lock_bit_simps)

lemma lock_word_test: "lock_word r u w AND (WRITER OR UPGRADED) = 0 \<longleftrightarrow> \<not> u \<and> \<not> w"
proof -
  have "lock_word r u w AND (WRITER OR UPGRADED) = (if u then 2 else 0) OR (if w then 1 else 0)"
    unfolding lock_word_bits by (rule bit_eqI) (auto simp: lock_bit_simps)
  then show ?thesis by auto
qed

lemma lock_word_test': "lock_word r u w AND (UPGRADED OR WRITER) = 0 \<longleftrightarrow> \<not> u \<and> \<not> w"
  using lock_word_test by (simp only: or.commute [of UPGRADED])

lemma lock_word_eq:
  "r < 2 ^ 29 \<Longrightarrow> lock_word r u w = 0 \<longleftrightarrow> r = 0 \<and> \<not> u \<and> \<not> w"
  "r < 2 ^ 29 \<Longrightarrow> lock_word r u w = UPGRADED \<longleftrightarrow> r = 0 \<and> u \<and> \<not> w"
  using unat_lock_word [of r u w] by (auto simp: UPGRADED_def word_unat_eq_iff)

lemma lock_word_upgrade:
  "lock_word r True w - UPGRADED = lock_word r False w" "lock_word r u True - WRITER = lock_word r u False"
  "lock_word r True w + (READER - UPGRADED) = lock_word (r + 1) False w" "WRITER = lock_word 0 False True"
  by (simp_all add: lock_word_def UPGRADED_def WRITER_def READER_def)

subsection \<open>The invariant\<close>

definition counted :: "rw_pc \<Rightarrow> bool" where
  "counted p \<longleftrightarrow> p \<in> {Reader, TakingBack, Downgrading}"

definition writing :: "rw_pc \<Rightarrow> bool" where
  "writing p \<longleftrightarrow> p \<in> {Writer, Downgrading, Upgrading}"

lemmas pc_kinds [simp] = counted_def writing_def

definition count_of :: "(nat \<Rightarrow> rw_pc) \<Rightarrow> nat" where
  "count_of f = card {t. counted (f t)}"

text \<open>
  Who may hold what at the same time, and what the two flags say: a writer is there exactly if its bit is set, and the
  other bit is set by an upgradable reader, or left by a failed attempt until the writer goes.
\<close>

definition rw_ok :: "nat \<Rightarrow> (nat \<Rightarrow> rw_pc) \<Rightarrow> bool \<Rightarrow> bool \<Rightarrow> bool" where
  "rw_ok n f u w \<longleftrightarrow>
     (\<forall>t. f t \<noteq> NoLock \<longrightarrow> t < n) \<and>
     (w \<longleftrightarrow> (\<exists>t. writing (f t))) \<and>
     (\<forall>t t'. writing (f t) \<longrightarrow> writing (f t') \<longrightarrow> t = t') \<and>
     (\<forall>t t'. writing (f t) \<longrightarrow> f t' \<noteq> Reader \<and> f t' \<noteq> Upgrader) \<and>
     (\<forall>t t'. f t = Upgrader \<longrightarrow> f t' = Upgrader \<longrightarrow> t = t') \<and>
     (\<forall>t. f t = Upgrader \<or> f t = Upgrading \<longrightarrow> u) \<and>
     (u \<longrightarrow> w \<or> (\<exists>t. f t = Upgrader))"

definition rw_inv :: "nat \<Rightarrow> rw_system \<Rightarrow> bool" where
  "rw_inv n s \<longleftrightarrow> (\<exists>u w. lock_bits s = lock_word (count_of (rw_pcs s)) u w \<and> rw_ok n (rw_pcs s) u w)"

text \<open>A thread changes without becoming or ceasing to be a writer or an upgradable reader.\<close>

lemma rw_ok_upd:
  assumes "rw_ok n f u w" "t < n" "writing p = writing (f t)" "(p = Upgrader) = (f t = Upgrader)"
    and "p = Upgrading \<longrightarrow> u" "p = Reader \<longrightarrow> f t = Reader \<or> \<not> w"
  shows "rw_ok n (f(t := p)) u w"
proof -
  let ?g = "f(t := p)"
  have "writing (?g x) = writing (f x)" "(?g x = Upgrader) = (f x = Upgrader)" for x
    using assms(3,4) by (cases "x = t"; simp del: pc_kinds)+
  moreover have "?g x = Reader \<longrightarrow> f x = Reader \<or> \<not> w" "?g x = Upgrading \<longrightarrow> f x = Upgrading \<or> u" for x
    using assms(5,6) by (cases "x = t"; simp)+
  moreover have "?g x \<noteq> NoLock \<longrightarrow> x < n" for x using assms(1,2) by (cases "x = t") (auto simp: rw_ok_def)
  ultimately show ?thesis using assms(1) unfolding rw_ok_def by (simp only: simp_thms) blast
qed

lemma rw_ok_flag: "rw_ok n f u w \<Longrightarrow> u \<or> w \<Longrightarrow> rw_ok n f True w"
  unfolding rw_ok_def by blast

text \<open>What a writer excludes, and the changes from and to the exclusive roles.\<close>

lemma rw_ok_writer:
  assumes "rw_ok n f u w" "writing (f t)"
  shows "w" "t < n" "x \<noteq> t \<Longrightarrow> \<not> writing (f x)" "f x \<noteq> Reader" "f x \<noteq> Upgrader"
proof -
  show "w" "x \<noteq> t \<Longrightarrow> \<not> writing (f x)" "f x \<noteq> Reader" "f x \<noteq> Upgrader"
    using assms unfolding rw_ok_def by blast+
  have "f t \<noteq> NoLock" using assms(2) by auto
  then show "t < n" using assms(1) unfolding rw_ok_def by blast
qed

lemma rw_ok_release:
  assumes "rw_ok n f u w" "writing (f t)" "p \<in> {NoLock, Reader}"
  shows "rw_ok n (f(t := p)) False False"
proof -
  note wr = rw_ok_writer [OF assms(1,2)]
  have g: "\<not> writing ((f(t := p)) x)" "(f(t := p)) x \<noteq> Upgrader" "(f(t := p)) x \<noteq> Upgrading" for x
    using wr(3) [of x] wr(5) [of x] assms(3) by auto
  moreover have "(f(t := p)) x \<noteq> NoLock \<longrightarrow> x < n" for x using assms(1) wr(2) by (cases "x = t") (simp_all add: rw_ok_def)
  ultimately show ?thesis unfolding rw_ok_def by blast
qed

lemma rw_ok_acquire:
  assumes "rw_ok n f u w" "\<not> w" "t < n" "\<And>x. f x \<noteq> Reader" "\<And>x. x \<noteq> t \<Longrightarrow> f x \<noteq> Upgrader"
  shows "rw_ok n (f(t := Writer)) False True"
proof -
  let ?g = "f(t := Writer)"
  have "writing (?g x) = (x = t)" "?g x \<noteq> Reader" "?g x \<noteq> Upgrader" "?g x \<noteq> Upgrading" for x
    using assms by (auto simp: rw_ok_def)
  moreover have "?g x \<noteq> NoLock \<longrightarrow> x < n" for x using assms(1,3) by (cases "x = t") (simp_all add: rw_ok_def)
  ultimately show ?thesis unfolding rw_ok_def by (simp only: simp_thms) blast
qed

lemma rw_ok_upgrade:
  assumes "rw_ok n f u False" "t < n" "\<And>x. x \<noteq> t \<Longrightarrow> f x \<noteq> Upgrader"
  shows "rw_ok n (f(t := Upgrader)) True False" "p \<in> {NoLock, Reader} \<Longrightarrow> rw_ok n (f(t := p)) False False"
proof -
  have w: "\<not> writing (f x)" for x using assms(1) unfolding rw_ok_def by blast
  let ?g = "f(t := Upgrader)"
  have "\<not> writing (?g x)" "(?g x = Upgrader) = (x = t)" for x using w [of x] assms(3) [of x] by auto
  moreover have "(f(t := q)) x \<noteq> NoLock \<longrightarrow> x < n" for q x using assms(1,2) by (cases "x = t") (simp_all add: rw_ok_def)
  ultimately show "rw_ok n ?g True False" unfolding rw_ok_def by (simp only: simp_thms) blast
  show "rw_ok n (f(t := p)) False False" if "p \<in> {NoLock, Reader}"
  proof -
    have "\<not> writing ((f(t := p)) x)" "(f(t := p)) x \<noteq> Upgrader" "(f(t := p)) x \<noteq> Upgrading" for x
      using w [of x] assms(3) [of x] that by auto
    moreover have "(f(t := p)) x \<noteq> NoLock \<longrightarrow> x < n" for x using assms(1,2) by (cases "x = t") (simp_all add: rw_ok_def)
    ultimately show ?thesis unfolding rw_ok_def by blast
  qed
qed

lemma rw_ok_written:
  assumes "rw_ok n f u w" "f t = Upgrading"
  shows "u" "rw_ok n (f(t := Upgrader)) u False"
proof -
  have wr: "writing (f t)" using assms(2) by simp
  note r = rw_ok_writer [OF assms(1) wr]
  show u using assms unfolding rw_ok_def by blast
  moreover have "\<not> writing ((f(t := Upgrader)) x)" "((f(t := Upgrader)) x = Upgrader) = (x = t)" for x
    using r(3) [of x] r(5) [of x] by auto
  moreover have "(f(t := Upgrader)) x \<noteq> NoLock \<longrightarrow> x < n" for x using assms(1) r(2) by (cases "x = t") (simp_all add: rw_ok_def)
  ultimately show "rw_ok n (f(t := Upgrader)) u False" unfolding rw_ok_def by (simp only: simp_thms) blast
qed

lemma finite_counted: "rw_ok n f u w \<Longrightarrow> finite {t. counted (f t)}"
  by (rule finite_subset [of _ "{..<n}"]) (auto simp: rw_ok_def)

lemma count_bound: "rw_ok n f u w \<Longrightarrow> count_of f \<le> n"
proof -
  assume "rw_ok n f u w"
  then have "{t. counted (f t)} \<subseteq> {..<n}" by (auto simp: rw_ok_def)
  then show ?thesis unfolding count_of_def using card_mono [of "{..<n}" "{t. counted (f t)}"] by simp
qed

lemma count_zero: "rw_ok n f u w \<Longrightarrow> count_of f = 0 \<Longrightarrow> \<not> counted (f t)"
  unfolding count_of_def using finite_counted by (auto simp del: pc_kinds)

text \<open>How the count changes with one thread.\<close>

lemma count_upd:
  assumes "rw_ok n f u w"
  shows "\<not> counted (f t) \<Longrightarrow> counted p \<Longrightarrow> count_of (f(t := p)) = count_of f + 1"
    "counted (f t) \<Longrightarrow> \<not> counted p \<Longrightarrow> 0 < count_of f \<and> count_of (f(t := p)) = count_of f - 1"
    "counted (f t) \<longleftrightarrow> counted p \<Longrightarrow> count_of (f(t := p)) = count_of f"
proof -
  note fin = finite_counted [OF assms]
  have eq: "{t'. counted ((f(t := p)) t')} = (if counted p then insert t {t. counted (f t)} else {t. counted (f t)} - {t})"
    by (auto simp del: pc_kinds)
  show "\<not> counted (f t) \<Longrightarrow> counted p \<Longrightarrow> count_of (f(t := p)) = count_of f + 1"
    unfolding count_of_def eq using fin by (simp del: pc_kinds)
  show "counted (f t) \<Longrightarrow> \<not> counted p \<Longrightarrow> 0 < count_of f \<and> count_of (f(t := p)) = count_of f - 1"
    unfolding count_of_def eq using fin by (auto simp: card_gt_0_iff simp del: pc_kinds)
  show "counted (f t) \<longleftrightarrow> counted p \<Longrightarrow> count_of (f(t := p)) = count_of f"
    unfolding count_of_def eq by (auto simp: insert_absorb simp del: pc_kinds)
qed

lemma rw_invI:
  "lock_bits s = b \<Longrightarrow> rw_pcs s = f \<Longrightarrow> rw_ok n f u w \<Longrightarrow> b = lock_word (count_of f) u w \<Longrightarrow> rw_inv n s"
  by (auto simp: rw_inv_def)

lemma rw_upgrader: "rw_ok n f u w \<Longrightarrow> f t = Upgrader \<Longrightarrow> u \<and> \<not> w \<and> (\<forall>x. x \<noteq> t \<longrightarrow> f x \<noteq> Upgrader)"
  unfolding rw_ok_def by blast

text \<open>Reader and writer steps, then the steps that involve the upgradable reader.\<close>

lemma rw_step_inv:
  assumes "rw_step n s s'" "rw_inv n s" "n < 2 ^ 29"
  shows "rw_inv n s'"
proof -
  from assms(2) obtain u w where b: "lock_bits s = lock_word (count_of (rw_pcs s)) u w" and ok: "rw_ok n (rw_pcs s) u w"
    by (auto simp: rw_inv_def)
  let ?f = "rw_pcs s" let ?r = "count_of ?f"
  have r: "?r < 2 ^ 29" using count_bound [OF ok] assms(3) by simp
  note upd = count_upd [OF ok] and zero = count_zero [OF ok]
  show ?thesis
    using assms(1)
  proof cases
    case (lock t b')
    then have z: "?r = 0" "\<not> u" "\<not> w" "b' = WRITER" using r by (auto simp: rw_try_lock_def b lock_word_eq split: if_splits)
    have "rw_ok n (?f(t := Writer)) False True"
      using lock(2) z ok zero [OF z(1)] by (intro rw_ok_acquire [OF ok]) (auto simp: rw_ok_def)
    then show ?thesis using lock z upd(3) [of t Writer] by (intro rw_invI) (auto simp: lock_word_upgrade(4))
  next
    case (unlock t)
    show ?thesis using unlock upd(3) [of t NoLock] rw_ok_release [OF ok, of t NoLock]
      by (intro rw_invI) (auto simp: b lock_word_unlock)
  next
    case (announce t refused b')
    then have v: "refused \<longleftrightarrow> u \<or> w" "b' = lock_word (?r + 1) u w"
      by (auto simp: announce_shared_def b lock_word_test lock_word_add)
    let ?p = "if refused then TakingBack else Reader"
    have "rw_ok n (?f(t := ?p)) u w" using announce(2,3) v(1) by (intro rw_ok_upd [OF ok]) auto
    then show ?thesis using announce v(2) upd(1) [of t ?p] by (intro rw_invI) auto
  next
    case (take_back t)
    show ?thesis using take_back upd(2) [of t NoLock] rw_ok_upd [OF ok, of t NoLock]
      by (intro rw_invI) (auto simp: b lock_word_sub)
  next
    case (unlock_shared t)
    show ?thesis using unlock_shared upd(2) [of t NoLock] rw_ok_upd [OF ok, of t NoLock]
      by (intro rw_invI) (auto simp: b rw_unlock_shared_def lock_word_sub)
  next
    case (downgrade_add t)
    show ?thesis using downgrade_add upd(1) [of t Downgrading] rw_ok_upd [OF ok, of t Downgrading]
      by (intro rw_invI) (auto simp: b lock_word_add)
  next
    case (downgrade_unlock t)
    show ?thesis using downgrade_unlock upd(3) [of t Reader] rw_ok_release [OF ok, of t Reader]
      by (intro rw_invI) (auto simp: b lock_word_unlock)
  next
    case (upgrade t got b')
    then have v: "got \<longleftrightarrow> \<not> u \<and> \<not> w" "b' = lock_word ?r True w"
      by (auto simp: rw_try_lock_upgrade_def b lock_word_test' lock_word_or)
    let ?p = "if got then Upgrader else NoLock"
    have "?f x \<noteq> Upgrader" if "\<not> u" for x using ok that unfolding rw_ok_def by blast
    then have "rw_ok n (?f(t := ?p)) True w"
      using v(1) upgrade(2,3) ok rw_ok_flag [OF ok] rw_ok_upgrade(1) [of n ?f u t] by (cases got) (auto simp: fun_upd_idem)
    then show ?thesis using upgrade v(2) upd(3) [of t ?p] by (intro rw_invI) auto
  next
    case (unlock_upgrade t)
    show ?thesis using unlock_upgrade upd(3) [of t NoLock] rw_upgrader [OF ok] ok rw_ok_upgrade(2) [of n ?f u t NoLock]
      by (intro rw_invI [where u = False and w = False]) (auto simp: b rw_unlock_upgrade_def lock_word_upgrade)
  next
    case (upgrade_lock t b')
    then have z: "?r = 0" "b' = WRITER"
      using r by (auto simp: rw_try_unlock_upgrade_and_lock_def b lock_word_eq split: if_splits)
    have "rw_ok n (?f(t := Writer)) False True"
      using upgrade_lock(2,3) rw_upgrader [OF ok upgrade_lock(3)] zero [OF z(1)] by (intro rw_ok_acquire [OF ok]) auto
    then show ?thesis using upgrade_lock z upd(3) [of t Writer] by (intro rw_invI) (auto simp: lock_word_upgrade(4))
  next
    case (upgrade_shared t)
    show ?thesis using upgrade_shared upd(1) [of t Reader] rw_upgrader [OF ok] ok rw_ok_upgrade(2) [of n ?f u t Reader]
      by (intro rw_invI [where u = False and w = False]) (auto simp: b rw_unlock_upgrade_and_lock_shared_def lock_word_upgrade(3))
  next
    case (writer_or t)
    show ?thesis using writer_or upd(3) [of t Upgrading] rw_ok_writer(1) [OF ok, of t] rw_ok_upd [OF rw_ok_flag [OF ok], of t Upgrading]
      by (intro rw_invI [where u = True and w = w]) (auto simp: b lock_word_or)
  next
    case (writer_sub t)
    show ?thesis using writer_sub upd(3) [of t Upgrader] rw_ok_writer(1) [OF ok, of t] rw_ok_written [OF ok, of t]
      by (intro rw_invI [where u = u and w = False]) (auto simp: b lock_word_upgrade(2))
  qed
qed

lemma rw_reach_inv: "rw_reach n s \<Longrightarrow> n < 2 ^ 29 \<Longrightarrow> rw_inv n s"
proof (induction rule: rw_reach.induct)
  case start
  show ?case by (intro rw_invI [where u = False and w = False]) (auto simp: RWSpinLock_def rw_ok_def count_of_def lock_word_def)
next
  case (step s s')
  then show ?case using rw_step_inv by blast
qed



text \<open>The operations as a whole, run alone.\<close>

lemma rw_alone:
  "rw_try_lock 0 = (True, WRITER)" "rw_unlock WRITER = 0"
  "r < 2 ^ 29 \<Longrightarrow> rw_try_lock_shared (lock_word r u w) = (if u \<or> w then (False, lock_word r u w) else (True, lock_word (r + 1) u w))"
  "rw_unlock_and_lock_shared (lock_word r u True) = lock_word (r + 1) False False"
  "rw_unlock_and_lock_upgrade (lock_word r u True) = lock_word r True False"
proof -
  show "rw_try_lock 0 = (True, WRITER)" by (simp add: rw_try_lock_def)
  show "rw_unlock WRITER = 0" using lock_word_unlock [of 0 False True] by (simp add: lock_word_upgrade(4) [symmetric]) (simp add: lock_word_def)
  show "rw_try_lock_shared (lock_word r u w) = (if u \<or> w then (False, lock_word r u w) else (True, lock_word (r + 1) u w))"
    using lock_word_sub [of "r + 1" u w] by (simp add: rw_try_lock_shared_def announce_shared_def lock_word_test lock_word_add)
  show "rw_unlock_and_lock_shared (lock_word r u True) = lock_word (r + 1) False False"
    by (simp only: rw_unlock_and_lock_shared_def lock_word_add lock_word_unlock)
  show "rw_unlock_and_lock_upgrade (lock_word r u True) = lock_word r True False"
    by (simp only: rw_unlock_and_lock_upgrade_def lock_word_or lock_word_upgrade(2))
qed

end
