(* ===== verification/Fmt_Buffer.thy ===== *)
theory Fmt_Buffer
  imports Net_Prelude
begin

text \<open>
  The output buffer of the formatting library that comes with spdlog
  (\<open>src/libs/spdlog/include/spdlog/fmt/bundled/format.h\<close>): \<open>Buffer\<close> and
  \<open>MemoryBuffer\<close>.  A buffer starts in the array inside the object, block 0, and moves to a new
  block whenever it grows.  A pointer is a block and an offset, so that a pointer kept across a
  growth is seen to be stale: a write through it is lost if it points into the object and is a use
  after free otherwise.  Characters nobody has written are \<open>None\<close>.  Memory does not run out.
\<close>

definition INLINE_BUFFER_SIZE :: nat where
  "INLINE_BUFFER_SIZE = 500"

record mem_buffer =
  block :: nat
  mem :: "char option list"
  buf_size :: nat
  buf_capacity :: nat

type_synonym char_ptr = "nat \<times> int"

definition MemoryBuffer :: mem_buffer where
  "MemoryBuffer = \<lparr>block = 0, mem = replicate INLINE_BUFFER_SIZE None, buf_size = 0, buf_capacity = INLINE_BUFFER_SIZE\<rparr>"

definition grow :: "nat \<Rightarrow> mem_buffer \<Rightarrow> mem_buffer" where
  "grow n b =
     (let new_capacity = buf_capacity b + buf_capacity b div 2;
          new_capacity = (if n > new_capacity then n else new_capacity) in
      b\<lparr>block := block b + 1, mem := take (buf_size b) (mem b) @ replicate (new_capacity - buf_size b) None,
        buf_capacity := new_capacity\<rparr>)"

definition resize :: "nat \<Rightarrow> mem_buffer \<Rightarrow> mem_buffer" where
  "resize new_size b =
     (let b = (if new_size > buf_capacity b then grow new_size b else b) in b\<lparr>buf_size := new_size\<rparr>)"

definition reserve :: "nat \<Rightarrow> mem_buffer \<Rightarrow> mem_buffer" where
  "reserve capacity b = (if capacity > buf_capacity b then grow capacity b else b)"

definition clear :: "mem_buffer \<Rightarrow> mem_buffer" where
  "clear b = b\<lparr>buf_size := 0\<rparr>"

text \<open>Characters stored one after the other from a pointer on: \<open>std::uninitialized_copy\<close> and \<open>*p = c\<close>.\<close>

definition put :: "char_ptr \<Rightarrow> string \<Rightarrow> mem_buffer \<Rightarrow> mem_buffer result" where
  "put p cs b =
     (if cs = [] then Inr b
      else if fst p = block b then rbind (mem_write (mem b) (snd p) (map Some cs)) (\<lambda>m. Inr (b\<lparr>mem := m\<rparr>))
      else if fst p = 0 then
        (if 0 \<le> snd p \<and> snd p + int (length cs) \<le> int INLINE_BUFFER_SIZE then Inr b else Inl OutOfBounds)
      else Inl UseAfterFree)"

abbreviation advance :: "char_ptr \<Rightarrow> int \<Rightarrow> char_ptr" where
  "advance p n \<equiv> (fst p, snd p + n)"

definition push_back :: "char \<Rightarrow> mem_buffer \<Rightarrow> mem_buffer result" where
  "push_back c b =
     (let b = (if buf_size b = buf_capacity b then grow (buf_size b + 1) b else b) in
      rbind (put (block b, int (buf_size b)) [c] b) (\<lambda>b. Inr (b\<lparr>buf_size := buf_size b + 1\<rparr>)))"

definition append_chars :: "string \<Rightarrow> mem_buffer \<Rightarrow> mem_buffer result" where
  "append_chars cs b =
     (let new_size = buf_size b + length cs;
          b = (if new_size > buf_capacity b then grow new_size b else b) in
      rbind (put (block b, int (buf_size b)) cs b) (\<lambda>b. Inr (b\<lparr>buf_size := new_size\<rparr>)))"

definition grow_buffer :: "nat \<Rightarrow> mem_buffer \<Rightarrow> char_ptr \<times> mem_buffer" where
  "grow_buffer n b = (let b' = resize (buf_size b + n) b in ((block b', int (buf_size b)), b'))"

subsection \<open>What a buffer holds\<close>

definition buf_ok :: "mem_buffer \<Rightarrow> bool" where
  "buf_ok b \<longleftrightarrow> length (mem b) = buf_capacity b \<and> buf_size b \<le> buf_capacity b \<and>
     (block b = 0 \<longrightarrow> buf_capacity b = INLINE_BUFFER_SIZE)"

definition holds :: "mem_buffer \<Rightarrow> string \<Rightarrow> bool" where
  "holds b cs \<longleftrightarrow> buf_ok b \<and> take (buf_size b) (mem b) = map Some cs"

text \<open>
  The state between growing and filling: the text before, areas in between, and unused memory behind.
\<close>

definition filling :: "mem_buffer \<Rightarrow> char option list \<Rightarrow> bool" where
  "filling b xs \<longleftrightarrow> buf_ok b \<and> take (buf_size b) (mem b) = xs"

lemma holds_filling: "holds b cs \<longleftrightarrow> filling b (map Some cs)"
  by (simp add: holds_def filling_def)

lemma filling_length: "filling b xs \<Longrightarrow> buf_size b = length xs"
  by (auto simp: filling_def buf_ok_def)

lemma holds_new: "holds MemoryBuffer []"
  by (simp add: holds_def MemoryBuffer_def buf_ok_def)

lemma grow_ok: "buf_ok b \<Longrightarrow> buf_size b \<le> n \<Longrightarrow> buf_ok (grow n b) \<and> n \<le> buf_capacity (grow n b) \<and>
    buf_size (grow n b) = buf_size b \<and> take (buf_size b) (mem (grow n b)) = take (buf_size b) (mem b)"
  by (auto simp: grow_def Let_def buf_ok_def)

lemma resize_filling:
  assumes "filling b xs" "length xs \<le> n"
  shows "\<exists>ys. filling (resize n b) (xs @ ys) \<and> length ys = n - length xs"
proof -
  let ?b = "if n > buf_capacity b then grow n b else b"
  have s: "buf_size b = length xs"
    by (rule filling_length [OF assms(1)])
  have ok: "buf_ok b" and t: "take (length xs) (mem b) = xs"
    using assms(1) unfolding filling_def s by blast+
  have g: "buf_ok ?b \<and> n \<le> buf_capacity ?b \<and> take (length xs) (mem ?b) = xs"
    using grow_ok [OF ok, of n] s t assms(2) ok by auto
  then have "take n (mem ?b) = xs @ take (n - length xs) (drop (length xs) (mem ?b))"
    using take_add [of "length xs" "n - length xs" "mem ?b"] assms(2) by simp
  moreover have "length (take (n - length xs) (drop (length xs) (mem ?b))) = n - length xs"
    using g assms(2) by (auto simp: buf_ok_def)
  ultimately show ?thesis
    using g by (auto simp: filling_def resize_def Let_def buf_ok_def)
qed

lemma grow_buffer_filling:
  assumes "filling b xs"
  obtains b' ys where "grow_buffer n b = ((block b', int (length xs)), b')" "filling b' (xs @ ys)" "length ys = n"
  using resize_filling [OF assms, of "length xs + n"] filling_length [OF assms]
  by (auto simp: grow_buffer_def Let_def)

lemma put_filling:
  assumes "filling b (xs @ ys @ zs)" "length cs = length ys" "p = (block b, int (length xs))"
  obtains b' where "put p cs b = Inr b'" "filling b' (xs @ map Some cs @ zs)" "block b' = block b"
    "buf_capacity b' = buf_capacity b"
proof (cases "cs = []")
  case True
  with assms that [of b] show thesis by (simp add: put_def)
next
  case False
  obtain r where m: "mem b = xs @ ys @ zs @ r"
    using assms(1) append_take_drop_id [of "buf_size b" "mem b"] by (metis append.assoc filling_def)
  have n: "buf_size b = length (xs @ ys @ zs)"
    by (rule filling_length [OF assms(1)])
  have "mem_write (mem b) (int (length xs)) (map Some cs) = Inr (xs @ map Some cs @ zs @ r)"
    using assms(2) by (simp add: m mem_write_ok)
  moreover have "filling (b\<lparr>mem := xs @ map Some cs @ zs @ r\<rparr>) (xs @ map Some cs @ zs)"
    using assms(1,2) by (simp add: filling_def buf_ok_def m n)
  ultimately show thesis
    using that [of "b\<lparr>mem := xs @ map Some cs @ zs @ r\<rparr>"] assms(3) False by (simp add: put_def)
qed

lemma put_size: "put p cs (b\<lparr>buf_size := n\<rparr>) = rbind (put p cs b) (\<lambda>b. Inr (b\<lparr>buf_size := n\<rparr>))"
  by (simp add: put_def rbind_def split: sum.split)

lemma append_chars_grow: "append_chars cs b = (case grow_buffer (length cs) b of (p, b') \<Rightarrow> put p cs b')"
  by (simp add: append_chars_def grow_buffer_def resize_def Let_def put_size)
     (simp add: grow_def Let_def)

lemma append_chars_holds:
  assumes "holds b cs"
  obtains b' where "append_chars xs b = Inr b'" "holds b' (cs @ xs)"
proof -
  obtain b1 ys where g: "grow_buffer (length xs) b = ((block b1, int (length (map Some cs))), b1)"
    "filling b1 (map Some cs @ ys)" "length ys = length xs"
    using grow_buffer_filling assms unfolding holds_filling by metis
  obtain b' where "put (block b1, int (length (map Some cs))) xs b1 = Inr b'" "filling b' (map Some cs @ map Some xs)"
    using put_filling [of b1 "map Some cs" ys "[]" xs, OF _ _ refl] g(2,3) by auto
  with g(1) that show thesis by (simp add: append_chars_grow holds_filling)
qed

lemma push_back_append: "push_back c b = append_chars [c] b" if "buf_ok b"
proof -
  have "buf_size b = buf_capacity b \<longleftrightarrow> buf_size b + 1 > buf_capacity b"
    using that by (auto simp: buf_ok_def)
  then show ?thesis
    by (auto simp: push_back_def append_chars_def Let_def put_def rbind_def grow_def split: sum.splits)
qed

lemma push_back_holds:
  assumes "holds b cs"
  obtains b' where "push_back c b = Inr b'" "holds b' (cs @ [c])"
  using append_chars_holds [OF assms, of "[c]"] push_back_append assms that by (auto simp: holds_def)

end
