(* ===== verification/Fmt_Integer.thy ===== *)
theory Fmt_Integer
  imports Fmt_Buffer
begin

unbundle bit_operations_syntax

text \<open>
  Integers and padded strings written to a buffer, from
  \<open>src/libs/spdlog/include/spdlog/fmt/bundled/format.h\<close> and \<open>format.cc\<close>: counting the decimal
  digits from the position of the highest bit, writing two digits at a time from the end, preparing the
  area for sign, padding and precision, and the bases 2, 8, 10 and 16.  An unsigned number is a
  \<open>nat\<close> below \<open>2 ^ bits\<close>, with \<open>bits\<close> 32 or 64 the width of \<open>MainType\<close>.
  \<open>Thrown\<close> carries the line that throws the \<open>FormatError\<close>.
\<close>

subsection \<open>Digits\<close>

definition DIGITS :: string where
  "DIGITS =
     ''0001020304050607080910111213141516171819'' @
     ''2021222324252627282930313233343536373839'' @
     ''4041424344454647484950515253545556575859'' @
     ''6061626364656667686970717273747576777879'' @
     ''8081828384858687888990919293949596979899''"

definition FMT_POWERS_OF_10 :: "nat \<Rightarrow> nat list" where
  "FMT_POWERS_OF_10 factor =
     [factor * 10, factor * 100, factor * 1000, factor * 10000, factor * 100000, factor * 1000000,
      factor * 10000000, factor * 100000000, factor * 1000000000]"

definition POWERS_OF_10_32 :: "nat list" where
  "POWERS_OF_10_32 = 0 # FMT_POWERS_OF_10 1"

definition POWERS_OF_10_64 :: "nat list" where
  "POWERS_OF_10_64 = 0 # FMT_POWERS_OF_10 1 @ FMT_POWERS_OF_10 1000000000 @ [1000000000 * 1000000000 * 10]"

text \<open>The number of binary digits, which \<open>__builtin_clz\<close> takes from the width.\<close>

fun bit_length :: "nat \<Rightarrow> nat" where
  "bit_length n = (if n = 0 then 0 else Suc (bit_length (n div 2)))"

declare bit_length.simps [simp del]

definition clz :: "nat \<Rightarrow> nat \<Rightarrow> nat" where
  "clz bits n = bits - bit_length n"

definition count_digits64 :: "nat \<Rightarrow> nat" where
  "count_digits64 n =
     (let t = (64 - clz 64 (n OR 1)) * 1233 div 2 ^ 12 in
      t - (if n < POWERS_OF_10_64 ! t then 1 else 0) + 1)"

definition count_digits32 :: "nat \<Rightarrow> nat" where
  "count_digits32 n =
     (let t = (32 - clz 32 (n OR 1)) * 1233 div 2 ^ 12 in
      t - (if n < POWERS_OF_10_32 ! t then 1 else 0) + 1)"

definition count_digits :: "nat \<Rightarrow> nat \<Rightarrow> nat" where
  "count_digits bits n = (if bits = 32 then count_digits32 n else count_digits64 n)"

text \<open>The version without \<open>__builtin_clz\<close>.\<close>

fun count_digits_loop :: "nat \<Rightarrow> nat \<Rightarrow> nat" where
  "count_digits_loop count n =
     (if n < 10 then count
      else if n < 100 then count + 1
      else if n < 1000 then count + 2
      else if n < 10000 then count + 3
      else count_digits_loop (count + 4) (n div 10000))"

declare count_digits_loop.simps [simp del]

definition count_digits_fallback :: "nat \<Rightarrow> nat" where
  "count_digits_fallback n = count_digits_loop 1 n"

text \<open>
  \<open>thousands_sep\<close> is called after each digit; \<open>None\<close> is \<open>NoThousandsSep\<close>.  It counts the
  digits and moves the pointer.
\<close>

definition thousands_sep :: "string option \<Rightarrow> nat \<Rightarrow> char_ptr \<Rightarrow> mem_buffer \<Rightarrow> (nat \<times> char_ptr \<times> mem_buffer) result" where
  "thousands_sep sep digit_index p b =
     (case sep of
        None \<Rightarrow> Inr (digit_index, p, b)
      | Some s \<Rightarrow>
          (let digit_index = digit_index + 1 in
           if digit_index mod 3 \<noteq> 0 then Inr (digit_index, p, b)
           else (let p = advance p (- int (length s)) in rbind (put p s b) (\<lambda>b. Inr (digit_index, p, b)))))"

definition digit_char :: "nat \<Rightarrow> char" where
  "digit_char d = char_of (48 + d)"

fun decimal_loop :: "string option \<Rightarrow> nat \<Rightarrow> nat \<Rightarrow> char_ptr \<Rightarrow> mem_buffer \<Rightarrow> mem_buffer result" where
  "decimal_loop sep k val p b =
     (if val \<ge> 100 then
        (let index = val mod 100 * 2; p = advance p (- 1) in
         rbind (put p [DIGITS ! (index + 1)] b) (\<lambda>b.
         rbind (thousands_sep sep k p b) (\<lambda>(k, p, b).
         let p = advance p (- 1) in
         rbind (put p [DIGITS ! index] b) (\<lambda>b.
         rbind (thousands_sep sep k p b) (\<lambda>(k, p, b).
         decimal_loop sep k (val div 100) p b)))))
      else if val < 10 then put (advance p (- 1)) [digit_char val] b
      else
        (let index = val * 2; p = advance p (- 1) in
         rbind (put p [DIGITS ! (index + 1)] b) (\<lambda>b.
         rbind (thousands_sep sep k p b) (\<lambda>(k, p, b).
         put (advance p (- 1)) [DIGITS ! index] b))))"

declare decimal_loop.simps [simp del]

definition format_decimal :: "char_ptr \<Rightarrow> nat \<Rightarrow> nat \<Rightarrow> string option \<Rightarrow> mem_buffer \<Rightarrow> mem_buffer result" where
  "format_decimal buf val num_digits sep b = decimal_loop sep 0 val (advance buf (int num_digits)) b"

text \<open>The loops over groups of \<open>s\<close> bits, with \<open>s\<close> one of 1, 3 and 4.\<close>

lemma drop_bit_less [termination_simp]:
  assumes "0 < s" "0 < drop_bit s n"
  shows "drop_bit s n < (n :: nat)"
proof -
  have "1 < (2::nat) ^ s"
    using assms(1) by (intro one_less_power) simp_all
  moreover have "0 < n"
    using assms(2) by (cases n) (simp_all add: drop_bit_eq_div)
  ultimately show ?thesis
    by (simp add: drop_bit_eq_div)
qed

fun shift_count :: "nat \<Rightarrow> nat \<Rightarrow> nat" where
  "shift_count s n = (if s = 0 \<or> drop_bit s n = 0 then 1 else 1 + shift_count s (drop_bit s n))"

fun shift_digits :: "nat \<Rightarrow> (nat \<Rightarrow> char) \<Rightarrow> nat \<Rightarrow> char_ptr \<Rightarrow> mem_buffer \<Rightarrow> mem_buffer result" where
  "shift_digits s f n p b =
     rbind (put p [f (n AND mask s)] b) (\<lambda>b.
       if s = 0 \<or> drop_bit s n = 0 then Inr b else shift_digits s f (drop_bit s n) (advance p (- 1)) b)"

declare shift_count.simps [simp del] shift_digits.simps [simp del]

subsection \<open>Format specifiers\<close>

datatype Alignment = ALIGN_DEFAULT | ALIGN_LEFT | ALIGN_RIGHT | ALIGN_CENTER | ALIGN_NUMERIC

definition SIGN_FLAG :: "32 word" where
  "SIGN_FLAG = 1"

definition PLUS_FLAG :: "32 word" where
  "PLUS_FLAG = 2"

definition MINUS_FLAG :: "32 word" where
  "MINUS_FLAG = 4"

definition HASH_FLAG :: "32 word" where
  "HASH_FLAG = 8"

definition CHAR_FLAG :: "32 word" where
  "CHAR_FLAG = 0x10"

record format_spec =
  spec_width :: nat
  spec_fill :: char
  spec_align :: Alignment
  spec_flags :: "32 word"
  spec_precision :: int
  spec_type :: char

definition FormatSpec :: "nat \<Rightarrow> char \<Rightarrow> char \<Rightarrow> format_spec" where
  "FormatSpec width type fill =
     \<lparr>spec_width = width, spec_fill = fill, spec_align = ALIGN_DEFAULT, spec_flags = 0, spec_precision = - 1, spec_type = type\<rparr>"

definition spec_flag :: "format_spec \<Rightarrow> 32 word \<Rightarrow> bool" where
  "spec_flag spec f \<longleftrightarrow> spec_flags spec AND f \<noteq> 0"

text \<open>\<open>pad\<close> and the specifier of a plain number.\<close>

definition pad :: "nat \<Rightarrow> char \<Rightarrow> format_spec" where
  "pad width fill = FormatSpec width CHR 0x00 fill"

definition TypeSpec :: "char \<Rightarrow> format_spec" where
  "TypeSpec type = FormatSpec 0 type CHR '' ''"

subsection \<open>The writer\<close>

definition fill_padding :: "char_ptr \<Rightarrow> nat \<Rightarrow> nat \<Rightarrow> char \<Rightarrow> mem_buffer \<Rightarrow> (char_ptr \<times> mem_buffer) result" where
  "fill_padding buf total_size content_size fill b =
     (let padding = total_size - content_size; left_padding = padding div 2 in
      rbind (put buf (replicate left_padding fill) b) (\<lambda>b.
      let buf = advance buf (int left_padding) in
      rbind (put (advance buf (int content_size)) (replicate (padding - left_padding) fill) b) (\<lambda>b.
      Inr (buf, b))))"

definition prepare_aligned :: "nat \<Rightarrow> nat \<Rightarrow> char \<Rightarrow> Alignment \<Rightarrow> string \<Rightarrow> mem_buffer \<Rightarrow> (char_ptr \<times> mem_buffer) result" where
  "prepare_aligned num_digits width fill align prefix b =
     (let n = length prefix + num_digits in
      if width \<le> n then
        (let (p, b) = grow_buffer n b in
         rbind (put p prefix b) (\<lambda>b. Inr (advance p (int n - 1), b)))
      else
        (let (p, b) = grow_buffer width b; p_end = advance p (int width) in
         case align of
           ALIGN_LEFT \<Rightarrow>
             rbind (put p prefix b) (\<lambda>b.
             let p = advance p (int n) in
             rbind (put p (replicate (width - n) fill) b) (\<lambda>b. Inr (advance p (- 1), b)))
         | ALIGN_CENTER \<Rightarrow>
             rbind (fill_padding p width n fill b) (\<lambda>(p, b).
             rbind (put p prefix b) (\<lambda>b. Inr (advance (advance p (int n)) (- 1), b)))
         | ALIGN_NUMERIC \<Rightarrow>
             (if prefix \<noteq> [] then
                rbind (put p prefix b) (\<lambda>b.
                rbind (put (advance p (int (length prefix))) (replicate (width - n) fill) b) (\<lambda>b. Inr (advance p_end (- 1), b)))
              else rbind (put p (replicate (width - n) fill) b) (\<lambda>b. Inr (advance p_end (- 1), b)))
         | _ \<Rightarrow>
             rbind (put (advance p_end (- int n)) prefix b) (\<lambda>b.
             rbind (put p (replicate (width - n) fill) b) (\<lambda>b. Inr (advance p_end (- 1), b)))))"

definition prepare_int_buffer :: "nat \<Rightarrow> format_spec \<Rightarrow> string \<Rightarrow> mem_buffer \<Rightarrow> (char_ptr \<times> mem_buffer) result" where
  "prepare_int_buffer num_digits spec prefix b =
     (let width = spec_width spec; align = spec_align spec; fill = spec_fill spec in
      if spec_precision spec > int num_digits then
        (let prefix = (if prefix \<noteq> [] \<and> last prefix = CHR ''0'' then butlast prefix else prefix);
             number_size = length prefix + nat (spec_precision spec);
             sub = (\<lambda>b. prepare_aligned num_digits number_size CHR ''0'' ALIGN_NUMERIC prefix b) in
         if number_size \<ge> width then sub b
         else
           (let b = reserve width b; fill_size = width - number_size in
            if align \<noteq> ALIGN_LEFT then
              (let (p, b) = grow_buffer fill_size b in rbind (put p (replicate fill_size fill) b) sub)
            else
              rbind (sub b) (\<lambda>(res, b).
              let (p, b) = grow_buffer fill_size b in
              rbind (put p (replicate fill_size fill) b) (\<lambda>b. Inr (res, b)))))
      else prepare_aligned num_digits width fill align prefix b)"

definition sign_prefix :: "format_spec \<Rightarrow> int \<Rightarrow> string" where
  "sign_prefix spec val =
     (if val < 0 then ''-''
      else if spec_flag spec SIGN_FLAG then (if spec_flag spec PLUS_FLAG then ''+'' else '' '') else [])"

definition write_int :: "nat \<Rightarrow> string \<Rightarrow> int \<Rightarrow> format_spec \<Rightarrow> mem_buffer \<Rightarrow> mem_buffer result" where
  "write_int bits locale_sep val spec b =
     (let abs_value = (if val < 0 then nat ((0 - val mod 2 ^ bits) mod 2 ^ bits) else nat (val mod 2 ^ bits));
          prefix = sign_prefix spec val;
          type = spec_type spec in
      if type \<in> {CHR 0x00, CHR ''d''} then
        (let num_digits = count_digits bits abs_value in
         rbind (prepare_int_buffer num_digits spec prefix b) (\<lambda>(p, b).
         format_decimal (advance p 1) abs_value 0 None b))
      else if type \<in> {CHR ''x'', CHR ''X''} then
        (let prefix = (if spec_flag spec HASH_FLAG then prefix @ [CHR ''0'', type] else prefix);
             num_digits = shift_count 4 abs_value in
         rbind (prepare_int_buffer num_digits spec prefix b) (\<lambda>(p, b).
         let digits = (if type = CHR ''x'' then ''0123456789abcdef'' else ''0123456789ABCDEF'') in
         shift_digits 4 (\<lambda>d. digits ! d) abs_value p b))
      else if type \<in> {CHR ''b'', CHR ''B''} then
        (let prefix = (if spec_flag spec HASH_FLAG then prefix @ [CHR ''0'', type] else prefix);
             num_digits = shift_count 1 abs_value in
         rbind (prepare_int_buffer num_digits spec prefix b) (\<lambda>(p, b). shift_digits 1 digit_char abs_value p b))
      else if type = CHR ''o'' then
        (let prefix = (if spec_flag spec HASH_FLAG then prefix @ [CHR ''0''] else prefix);
             num_digits = shift_count 3 abs_value in
         rbind (prepare_int_buffer num_digits spec prefix b) (\<lambda>(p, b). shift_digits 3 digit_char abs_value p b))
      else if type = CHR ''n'' then
        (let num_digits = count_digits bits abs_value;
             n = num_digits + length locale_sep * ((num_digits - 1) div 3) in
         rbind (prepare_int_buffer n spec prefix b) (\<lambda>(p, b).
         format_decimal (advance p 1) abs_value 0 (Some locale_sep) b))
      else Inl (Thrown 3448))"

definition write_decimal :: "nat \<Rightarrow> int \<Rightarrow> mem_buffer \<Rightarrow> mem_buffer result" where
  "write_decimal bits val b =
     (let abs_value = nat (val mod 2 ^ bits);
          abs_value' = nat ((0 - int abs_value) mod 2 ^ bits) in
      if val < 0 then
        (let num_digits = count_digits bits abs_value'; (p, b) = grow_buffer (1 + num_digits) b in
         rbind (format_decimal (advance p 1) abs_value' num_digits None b) (\<lambda>b. put p ''-'' b))
      else
        (let num_digits = count_digits bits abs_value; (p, b) = grow_buffer num_digits b in
         format_decimal p abs_value num_digits None b))"

definition write_str :: "string \<Rightarrow> format_spec \<Rightarrow> mem_buffer \<Rightarrow> mem_buffer result" where
  "write_str s spec b =
     (let n = length s; width = spec_width spec; fill = spec_fill spec in
      if width > n then
        (let (out, b) = grow_buffer width b in
         if spec_align spec = ALIGN_RIGHT then
           rbind (put out (replicate (width - n) fill) b) (\<lambda>b. put (advance out (int (width - n))) s b)
         else if spec_align spec = ALIGN_CENTER then
           rbind (fill_padding out width n fill b) (\<lambda>(out, b). put out s b)
         else rbind (put (advance out (int n)) (replicate (width - n) fill) b) (\<lambda>b. put out s b))
      else (let (out, b) = grow_buffer n b in put out s b))"

subsection \<open>Counting digits\<close>

fun decimal :: "nat \<Rightarrow> string" where
  "decimal n = (if n < 10 then [digit_char n] else decimal (n div 10) @ [digit_char (n mod 10)])"

declare decimal.simps [simp del]

lemma length_decimal: "10 ^ k \<le> n \<Longrightarrow> n < 10 ^ Suc k \<Longrightarrow> length (decimal n) = Suc k"
proof (induction k arbitrary: n)
  case (Suc k)
  have "10 * 1 \<le> 10 * (10::nat) ^ k"
    by (intro mult_left_mono) simp_all
  then have "\<not> n < 10"
    using Suc.prems(1) unfolding power_Suc by linarith
  moreover have "10 ^ k \<le> n div 10" "n div 10 < 10 ^ Suc k"
    using Suc.prems by (simp_all add: less_eq_div_iff_mult_less_eq div_less_iff_less_mult)
  ultimately show ?case using Suc.IH by (simp add: decimal.simps [of n])
qed (simp add: decimal.simps)

lemma length_decimal_small: "n < 10 \<Longrightarrow> length (decimal n) = 1"
  by (simp add: decimal.simps)

lemma decimal_nonempty: "0 < length (decimal n)"
  by (subst decimal.simps) simp

lemma bit_length_bounds: "n < 2 ^ bit_length n \<and> (n \<noteq> 0 \<longrightarrow> 2 ^ bit_length n \<le> 2 * n)"
proof (induction n rule: bit_length.induct)
  case (1 n)
  show ?case
  proof (cases "n = 0")
    case False
    with 1 have "n div 2 < 2 ^ bit_length (n div 2)" "n div 2 \<noteq> 0 \<longrightarrow> 2 ^ bit_length (n div 2) \<le> 2 * (n div 2)"
      by auto
    moreover have "n div 2 = 0 \<longrightarrow> (2::nat) ^ bit_length (n div 2) = 1"
      by (simp add: bit_length.simps)
    ultimately have "n < 2 * 2 ^ bit_length (n div 2)" "2 * 2 ^ bit_length (n div 2) \<le> 2 * n"
      using False by linarith+
    with False show ?thesis by (simp add: bit_length.simps [of n])
  qed (simp add: bit_length.simps)
qed

lemma bit_length_or_one: "bit_length (n OR 1) = (if n = 0 then 1 else bit_length n)"
proof -
  have half: "(n OR 1) div 2 = n div 2"
    unfolding or_one_eq by (cases "even n") (auto elim!: evenE)
  have "n OR 1 \<noteq> 0"
    unfolding or_one_eq by (cases "even n") (auto elim!: oddE)
  then have "bit_length (n OR 1) = Suc (bit_length (n div 2))"
    using bit_length.simps [of "n OR 1"] unfolding half by (simp only: if_False)
  then show ?thesis
    using bit_length.simps [of n] bit_length.simps [of 0] by (cases "n = 0") simp_all
qed

definition table_ok :: "nat list \<Rightarrow> nat \<Rightarrow> bool" where
  "table_ok powers b \<longleftrightarrow>
     (let t = b * 1233 div 2 ^ 12 in
      powers ! t = (if t = 0 then 0 else 10 ^ t) \<and> (t = 0 \<or> 10 ^ (t - 1) \<le> (2::nat) ^ (b - 1)) \<and> (2::nat) ^ b \<le> 10 ^ (t + 1))"

lemma tables: "list_all (table_ok POWERS_OF_10_64) [1..<65]" "list_all (table_ok POWERS_OF_10_32) [1..<33]"
  by (simp_all add: table_ok_def POWERS_OF_10_64_def POWERS_OF_10_32_def FMT_POWERS_OF_10_def upt_rec)

lemma table_64: "1 \<le> b \<Longrightarrow> b \<le> 64 \<Longrightarrow> table_ok POWERS_OF_10_64 b"
  using tables(1) by (auto simp: list_all_iff)

lemma table_32: "1 \<le> b \<Longrightarrow> b \<le> 32 \<Longrightarrow> table_ok POWERS_OF_10_32 b"
  using tables(2) by (auto simp: list_all_iff)

lemma bit_length_range:
  assumes "n < 2 ^ bits" "0 < bits"
  shows "1 \<le> bit_length (n OR 1)" "bit_length (n OR 1) \<le> bits"
proof -
  have "(2::nat) ^ bit_length n < 2 ^ Suc bits \<or> n = 0"
    using bit_length_bounds [of n] assms(1) by auto
  then have "bit_length n \<le> bits \<or> n = 0"
    by (auto simp del: power_Suc)
  then show "1 \<le> bit_length (n OR 1)" "bit_length (n OR 1) \<le> bits"
    using assms(2) unfolding bit_length_or_one by (auto simp: bit_length.simps [of n])
qed

lemma count_from_bits:
  assumes "\<And>b. 1 \<le> b \<Longrightarrow> b \<le> bits \<Longrightarrow> table_ok powers b" "n < 2 ^ bits" "0 < bits"
    and "t = bit_length (n OR 1) * 1233 div 2 ^ 12"
  shows "t - (if n < powers ! t then 1 else 0) + 1 = length (decimal n)"
proof -
  let ?b = "bit_length (n OR 1)"
  note b = bit_length_range [OF assms(2,3)]
  then have ok: "table_ok powers ?b"
    by (rule assms(1))
  have lower: "2 ^ (?b - 1) \<le> n \<or> n = 0"
    using bit_length_bounds [of n] b(1) unfolding bit_length_or_one by (cases "bit_length n") auto
  have upper: "n < 2 ^ ?b"
    using bit_length_bounds [of n] unfolding bit_length_or_one by auto
  show ?thesis
  proof (cases "t = 0")
    case True
    then have "n < 10" "powers ! t = 0"
      using ok upper assms(4) by (auto simp: table_ok_def Let_def)
    then show ?thesis using True by (simp add: length_decimal_small)
  next
    case False
    then have t: "powers ! t = 10 ^ t" "10 ^ (t - 1) \<le> (2::nat) ^ (?b - 1)" "n < 10 ^ Suc t"
      using ok upper assms(4) unfolding table_ok_def Let_def by auto
    moreover have "n \<noteq> 0"
      using False assms(4) unfolding bit_length_or_one by (auto intro: gr0I)
    ultimately have "10 ^ (t - 1) \<le> n"
      using lower by auto
    then show ?thesis
      using t False length_decimal [of "t - 1" n] length_decimal [of t n] by auto
  qed
qed

lemma count_digits_decimal:
  assumes "bits = 32 \<or> bits = 64" "n < 2 ^ bits"
  shows "count_digits bits n = length (decimal n)"
proof -
  have c: "bits - clz bits (n OR 1) = bit_length (n OR 1)"
    using bit_length_range [OF assms(2)] assms(1) by (auto simp: clz_def)
  from assms(1) show ?thesis
  proof
    assume 32: "bits = 32"
    show ?thesis
      using count_from_bits [of 32 POWERS_OF_10_32 n, OF table_32 _ _ refl] c assms(2)
      unfolding 32 count_digits_def count_digits32_def Let_def by simp
  next
    assume 64: "bits = 64"
    show ?thesis
      using count_from_bits [of 64 POWERS_OF_10_64 n, OF table_64 _ _ refl] c assms(2)
      unfolding 64 count_digits_def count_digits64_def Let_def by simp
  qed
qed

lemma count_digits_loop_decimal: "count_digits_loop (Suc count) n = count + length (decimal n)"
proof (induction n arbitrary: count rule: less_induct)
  case (less n)
  have d: "length (decimal m) = (if m < 10 then 1 else Suc (length (decimal (m div 10))))" for m
    by (simp add: decimal.simps [of m])
  have "length (decimal n) = (if n < 10 then 1 else if n < 100 then 2 else if n < 1000 then 3 else if n < 10000 then 4
      else 4 + length (decimal (n div 10000)))"
    by (simp add: d [of n] d [of "n div 10"] d [of "n div 100"] d [of "n div 1000"] div_mult2_eq [symmetric]
        div_less_iff_less_mult)
  then show ?case
    using less [of "n div 10000" "count + 4"] by (simp add: count_digits_loop.simps [of _ n])
qed

lemma decimal_length_less: "k < length (decimal n) \<longleftrightarrow> k = 0 \<or> 10 ^ k \<le> n"
proof (induction k arbitrary: n)
  case 0
  show ?case using decimal_nonempty [of n] by simp
next
  case (Suc k)
  show ?case
  proof (cases "n < 10")
    case True
    then have "n < 10 * 10 ^ k"
      using one_le_power [of "10::nat" k] by linarith
    with True show ?thesis by (simp add: length_decimal_small)
  next
    case False
    then have "length (decimal n) = Suc (length (decimal (n div 10)))"
      by (simp add: decimal.simps [of n])
    then show ?thesis
      using Suc [of "n div 10"] False by (cases k) (auto simp: less_eq_div_iff_mult_less_eq ac_simps)
  qed
qed

text \<open>
  Counting decimal digits.  The two functions that work from the position of the highest bit, with one
  multiplication and one comparison, and the one that divides agree on every number of their type, and
  the result is the number of decimal digits.
\<close>

theorem count_digits_equiv:
  assumes "bits = 32 \<or> bits = 64" "n < 2 ^ bits"
  shows "count_digits bits n = count_digits_fallback n \<and> (k < count_digits bits n \<longleftrightarrow> k = 0 \<or> 10 ^ k \<le> n)"
  using count_digits_decimal [OF assms] count_digits_loop_decimal [of 0 n] decimal_length_less [of k n]
  by (simp add: count_digits_fallback_def)

theorem count_digits_equiv_witness:
  "count_digits 64 18446744073709551615 = count_digits_fallback 18446744073709551615 \<and>
    (19 < count_digits 64 18446744073709551615 \<longleftrightarrow> (19::nat) = 0 \<or> 10 ^ 19 \<le> (18446744073709551615::nat))"
  using count_digits_equiv [of 64 18446744073709551615 19] by simp

end
