(* ===== verification/Fmt_Writer.thy ===== *)
theory Fmt_Writer
  imports Fmt_Integer
begin

text \<open>
  Correctness of the writer of \<open>Fmt_Integer\<close>: what \<open>write_int\<close>, \<open>write_decimal\<close> and
  \<open>write_str\<close> append to a buffer.  Digits are written from the end of an area that
  \<open>prepare_int_buffer\<close> has left between prefix and padding; \<open>area\<close> describes the state in
  between.  \<open>int_text\<close> is the text a number should have.
\<close>

subsection \<open>Writing backwards\<close>

text \<open>\<open>n\<close> characters before \<open>p\<close> are still to be written, between \<open>xs\<close> and \<open>zs\<close>.\<close>

definition area :: "mem_buffer \<Rightarrow> char option list \<Rightarrow> nat \<Rightarrow> char option list \<Rightarrow> char_ptr \<Rightarrow> bool" where
  "area b xs n zs p \<longleftrightarrow> (\<exists>ys. filling b (xs @ ys @ zs) \<and> length ys = n) \<and> p = (block b, int (length xs + n))"

lemma area_done: "area b xs 0 zs p \<Longrightarrow> filling b (xs @ zs)"
  by (auto simp: area_def)

lemma area_put:
  assumes "area b xs (n + length cs) zs p"
  obtains b' where "put (advance p (- int (length cs))) cs b = Inr b'"
    "area b' xs n (map Some cs @ zs) (advance p (- int (length cs)))"
proof -
  obtain ys where ys: "filling b (xs @ ys @ zs)" "length ys = n + length cs" and p: "p = (block b, int (length xs + (n + length cs)))"
    using assms by (auto simp: area_def)
  obtain u v where uv: "ys = u @ v" "length u = n" "length v = length cs"
    using ys(2) by (metis append_take_drop_id length_drop length_take min.absorb2 le_add1 diff_add_inverse)
  have "filling b ((xs @ u) @ v @ zs)"
    using ys(1) uv(1) by simp
  from put_filling [OF this uv(3) [symmetric] refl] obtain b' where
    "put (block b, int (length (xs @ u))) cs b = Inr b'" "filling b' ((xs @ u) @ map Some cs @ zs)" "block b' = block b"
    by blast
  with uv(2) p show thesis
    by (intro that [of b']) (auto simp: area_def)
qed

lemma area_put_char:
  assumes "area b xs (Suc n) zs p"
  obtains b' where "put (advance p (- 1)) [c] b = Inr b'" "area b' xs n (Some c # zs) (advance p (- 1))"
  using area_put [of b xs n "[c]" zs p] assms by auto

definition sep_at :: "string option \<Rightarrow> nat \<Rightarrow> string" where
  "sep_at sep k = (case sep of None \<Rightarrow> [] | Some s \<Rightarrow> if Suc k mod 3 = 0 then s else [])"

text \<open>Digits, the lowest first, written out with a separator after every third.\<close>

fun grouped :: "string option \<Rightarrow> nat \<Rightarrow> string \<Rightarrow> string" where
  "grouped sep k [] = []"
| "grouped sep k [d] = [d]"
| "grouped sep k (d # d' # ds) = grouped sep (Suc k) (d' # ds) @ sep_at sep k @ [d]"

lemma grouped_None: "grouped None k ds = rev ds"
  by (induction "None :: string option" k ds rule: grouped.induct) (simp_all add: sep_at_def)

lemma area_sep:
  assumes "area b xs (n + length (sep_at sep k)) zs p"
  obtains k' p' b' where "thousands_sep sep k p b = Inr (k', p', b')" "area b' xs n (map Some (sep_at sep k) @ zs) p'"
    "k' = Suc k \<or> sep = None"
proof (cases "sep_at sep k = []")
  case True
  then show thesis
    using assms that [of "if sep = None then k else Suc k" p b] area_put [of b xs n "[]" zs p]
    by (cases sep) (auto simp: thousands_sep_def sep_at_def grouped_None put_def split: if_splits)
next
  case False
  then obtain s where s: "sep = Some s" "Suc k mod 3 = 0" "sep_at sep k = s"
    by (auto simp: sep_at_def split: option.splits if_splits)
  from area_put [OF assms] obtain b' where "put (advance p (- int (length s))) s b = Inr b'"
    "area b' xs n (map Some s @ zs) (advance p (- int (length s)))"
    unfolding s(3) by metis
  with s that show thesis by (simp add: thousands_sep_def Let_def)
qed

lemma DIGITS_pairs: "list_all (\<lambda>i. DIGITS ! (i * 2) = digit_char (i div 10) \<and> DIGITS ! (i * 2 + 1) = digit_char (i mod 10)) [0..<100]"
  by code_simp

lemma DIGITS_pair: "i < 100 \<Longrightarrow> DIGITS ! (i * 2) = digit_char (i div 10)" "i < 100 \<Longrightarrow> DIGITS ! (i * 2 + 1) = digit_char (i mod 10)"
  using DIGITS_pairs by (auto simp: list_all_iff)

lemma rev_decimal:
  "v < 10 \<Longrightarrow> rev (decimal v) = [digit_char v]"
  "10 \<le> v \<Longrightarrow> rev (decimal v) = digit_char (v mod 10) # rev (decimal (v div 10))"
  by (simp_all add: decimal.simps [of v])

lemma grouped_decimal:
  assumes "10 \<le> v"
  shows "grouped sep k (rev (decimal v)) = grouped sep (Suc k) (rev (decimal (v div 10))) @ sep_at sep k @ [digit_char (v mod 10)]"
proof -
  obtain d ds where "rev (decimal (v div 10)) = d # ds"
    using decimal_nonempty [of "v div 10"] by (cases "rev (decimal (v div 10))") auto
  then show ?thesis by (simp add: rev_decimal(2) [OF assms])
qed

lemma area_digit_sep:
  assumes "area b xs (n + length (sep_at sep k) + 1) zs p"
  obtains b1 k' p' b' where "put (advance p (- 1)) [c] b = Inr b1" "thousands_sep sep k (advance p (- 1)) b1 = Inr (k', p', b')"
    "area b' xs n (map Some (sep_at sep k @ [c]) @ zs) p'" "k' = Suc k \<or> sep = None"
proof -
  obtain b1 where b1: "put (advance p (- 1)) [c] b = Inr b1"
    "area b1 xs (n + length (sep_at sep k)) (Some c # zs) (advance p (- 1))"
    using area_put_char [of b xs "n + length (sep_at sep k)" zs p c] assms by auto
  from area_sep [OF this(2)] that b1(1) show thesis
    by (metis append.assoc append_Cons append_Nil map_append list.simps(8,9))
qed

lemma decimal_loop_area:
  assumes "area b xs (length (grouped sep k (rev (decimal v)))) zs p"
  shows "\<exists>b'. decimal_loop sep k v p b = Inr b' \<and> filling b' (xs @ map Some (grouped sep k (rev (decimal v))) @ zs)"
  using assms
proof (induction v arbitrary: k p b zs rule: less_induct)
  case (less v)
  consider (one) "v < 10" | (two) "10 \<le> v" "v < 100" | (more) "100 \<le> v"
    by linarith
  then show ?case
  proof cases
    case one
    then have g: "grouped sep k (rev (decimal v)) = [digit_char v]"
      by (simp add: rev_decimal)
    obtain b' where "put (advance p (- 1)) [digit_char v] b = Inr b'" "area b' xs 0 (Some (digit_char v) # zs) (advance p (- 1))"
      using area_put_char [of b xs 0 zs p "digit_char v"] less.prems unfolding g by auto
    with one area_done [OF this(2)] show ?thesis
      unfolding g by (simp add: decimal_loop.simps [of sep k v])
  next
    case two
    then have g: "grouped sep k (rev (decimal v)) = [digit_char (v div 10)] @ sep_at sep k @ [digit_char (v mod 10)]"
      by (simp add: grouped_decimal rev_decimal)
    have "area b xs (Suc 0 + length (sep_at sep k) + 1) zs p"
      using less.prems unfolding g by simp
    from area_digit_sep [OF this, of "digit_char (v mod 10)"] obtain b1 k' p' b2 where
      1: "put (advance p (- 1)) [digit_char (v mod 10)] b = Inr b1"
      "thousands_sep sep k (advance p (- 1)) b1 = Inr (k', p', b2)"
      "area b2 xs (Suc 0) (map Some (sep_at sep k @ [digit_char (v mod 10)]) @ zs) p'"
      by metis
    from area_put_char [OF this(3), of "digit_char (v div 10)"] obtain b3 where
      2: "put (advance p' (- 1)) [digit_char (v div 10)] b2 = Inr b3"
      "filling b3 (xs @ Some (digit_char (v div 10)) # map Some (sep_at sep k @ [digit_char (v mod 10)]) @ zs)"
      by (metis area_done)
    have "decimal_loop sep k v p b = Inr b3"
      using two 1(1,2) 2(1) DIGITS_pair [of v] by (simp add: decimal_loop.simps [of sep k v] Let_def)
    with 2(2) show ?thesis
      unfolding g by simp
  next
    case more
    let ?t = "grouped sep (Suc (Suc k)) (rev (decimal (v div 100)))" and ?c = "digit_char (v mod 10)"
      and ?d = "digit_char (v div 10 mod 10)"
    have g: "grouped sep k (rev (decimal v)) = (?t @ sep_at sep (Suc k) @ [?d]) @ sep_at sep k @ [?c]"
      using more by (simp add: grouped_decimal div_mult2_eq [symmetric])
    have d: "v mod 100 div 10 = v div 10 mod 10" "v mod 100 mod 10 = v mod 10"
      using mod_mult2_eq [of v 10 10] by (simp_all add: mod_mod_cancel)
    have "area b xs (length ?t + length (sep_at sep (Suc k)) + 1 + length (sep_at sep k) + 1) zs p"
      using less.prems unfolding g by (simp add: ac_simps)
    from area_digit_sep [OF this, of ?c] obtain b1 k1 p1 b2 where
      1: "put (advance p (- 1)) [?c] b = Inr b1" "thousands_sep sep k (advance p (- 1)) b1 = Inr (k1, p1, b2)"
      "area b2 xs (length ?t + length (sep_at sep (Suc k)) + 1) (map Some (sep_at sep k @ [?c]) @ zs) p1" "k1 = Suc k \<or> sep = None"
      by metis
    have s1: "sep_at sep k1 = sep_at sep (Suc k)"
      using 1(4) by (auto simp: sep_at_def)
    from area_digit_sep [OF 1(3) [folded s1], of ?d] obtain b3 k2 p2 b4 where
      2: "put (advance p1 (- 1)) [?d] b2 = Inr b3" "thousands_sep sep k1 (advance p1 (- 1)) b3 = Inr (k2, p2, b4)"
      "area b4 xs (length ?t) (map Some (sep_at sep k1 @ [?d]) @ map Some (sep_at sep k @ [?c]) @ zs) p2" "k2 = Suc k1 \<or> sep = None"
      by metis
    have t: "?t = grouped sep k2 (rev (decimal (v div 100)))"
      using 1(4) 2(4) by (auto simp: grouped_None)
    have "decimal_loop sep k v p b = decimal_loop sep k2 (v div 100) p2 b4"
      using more 1(1,2) 2(1,2) d DIGITS_pair [of "v mod 100"] by (simp add: decimal_loop.simps [of sep k v] Let_def)
    with less.IH [OF _ 2(3) [unfolded t]] more show ?thesis
      unfolding g t s1 by simp
  qed
qed

lemma grouped_length: "length (grouped (Some sep) k ds) = length ds + length sep * ((k + length ds - 1) div 3 - k div 3)"
proof (induction "Some sep" k ds rule: grouped.induct)
  case (3 k d d' ds)
  have "Suc k mod 3 = 0 \<Longrightarrow> Suc k div 3 = Suc (k div 3)" "Suc k mod 3 \<noteq> 0 \<Longrightarrow> Suc k div 3 = k div 3"
    by (simp_all add: div_Suc)
  moreover obtain j where "Suc (k + length ds) div 3 = Suc k div 3 + j"
    using le_Suc_ex [OF div_le_mono [of "Suc k" "Suc (k + length ds)" 3]] by auto
  ultimately show ?case
    using 3 by (auto simp: sep_at_def algebra_simps)
qed simp_all

fun radix :: "nat \<Rightarrow> (nat \<Rightarrow> char) \<Rightarrow> nat \<Rightarrow> string" where
  "radix s f n = (if s = 0 \<or> drop_bit s n = 0 then [] else radix s f (drop_bit s n)) @ [f (take_bit s n)]"

declare radix.simps [simp del]

lemma shift_count_radix: "shift_count s n = length (radix s f n)"
  by (induction s n rule: shift_count.induct) (subst shift_count.simps, subst radix.simps, simp)

lemma shift_digits_area:
  assumes "area b xs (length (radix s f n)) zs (advance p 1)"
  shows "\<exists>b'. shift_digits s f n p b = Inr b' \<and> filling b' (xs @ map Some (radix s f n) @ zs)"
  using assms
proof (induction s f n p b arbitrary: zs rule: shift_digits.induct)
  case (1 s f n p b)
  let ?r = "if s = 0 \<or> drop_bit s n = 0 then [] else radix s f (drop_bit s n)"
  have r: "radix s f n = ?r @ [f (take_bit s n)]"
    by (rule radix.simps)
  have "area b xs (Suc (length ?r)) zs (advance p 1)"
    using 1(2) unfolding r by simp
  from area_put_char [OF this, of "f (take_bit s n)"] obtain b1 where
    b1: "put p [f (take_bit s n)] b = Inr b1" "area b1 xs (length ?r) (Some (f (take_bit s n)) # zs) p"
    by auto
  show ?case
  proof (cases "s = 0 \<or> drop_bit s n = 0")
    case True
    then have "radix s f n = [f (take_bit s n)]" "area b1 xs 0 (Some (f (take_bit s n)) # zs) p"
      using r b1(2) by simp_all
    with True b1(1) area_done show ?thesis
      by (simp add: shift_digits.simps [of s f n] take_bit_eq_mask [symmetric])
  next
    case False
    then obtain b' where "shift_digits s f (drop_bit s n) (advance p (- 1)) b1 = Inr b'"
      "filling b' (xs @ map Some (radix s f (drop_bit s n)) @ Some (f (take_bit s n)) # zs)"
      using 1(1) [of b1 "Some (f (take_bit s n)) # zs"] b1 by auto
    with False b1(1) r show ?thesis
      by (simp add: shift_digits.simps [of s f n] take_bit_eq_mask [symmetric])
  qed
qed

subsection \<open>The area for a number\<close>

definition aligned_layout :: "nat \<Rightarrow> nat \<Rightarrow> char \<Rightarrow> Alignment \<Rightarrow> string \<Rightarrow> string \<times> string" where
  "aligned_layout num_digits width fill align prefix =
     (let n = width - (length prefix + num_digits) in
      case align of
        ALIGN_LEFT \<Rightarrow> (prefix, replicate n fill)
      | ALIGN_CENTER \<Rightarrow> (replicate (n div 2) fill @ prefix, replicate (n - n div 2) fill)
      | ALIGN_NUMERIC \<Rightarrow> (prefix @ replicate n fill, [])
      | _ \<Rightarrow> (replicate n fill @ prefix, []))"

lemma aligned_layout_narrow:
  "width \<le> length prefix + num_digits \<Longrightarrow> aligned_layout num_digits width fill align prefix = (prefix, [])"
  by (cases align) (simp_all add: aligned_layout_def)

lemma filling_split:
  assumes "filling b (xs @ ys)" "length ys = m + n"
  obtains u v where "filling b (xs @ u @ v)" "length u = m" "length v = n"
  using assms by (metis append_take_drop_id add_diff_cancel_left' le_add1 length_drop length_take min.absorb2)

lemma filling_split3:
  assumes "filling b (xs @ ys)" "length ys = m + n + k"
  obtains u v w where "filling b (xs @ u @ v @ w)" "length u = m" "length v = n" "length w = k"
proof -
  obtain u y where u: "filling b (xs @ u @ y)" "length u = m" "length y = n + k"
    using filling_split [of b xs ys m "n + k"] assms by (metis add.assoc)
  obtain v w where "filling b ((xs @ u) @ v @ w)" "length v = n" "length w = k"
    using filling_split [of b "xs @ u" y n k] u by (metis append.assoc)
  with u(2) that show thesis by simp
qed

text \<open>Two pieces written into three areas.\<close>

lemma put_first_second:
  assumes "filling b (xs @ u @ v @ w)" "length cs = length u" "length ds = length v"
  obtains b1 b2 where "put (block b, int (length xs)) cs b = Inr b1"
    "put (block b, int (length xs + length cs)) ds b1 = Inr b2" "filling b2 (xs @ map Some cs @ map Some ds @ w)" "block b2 = block b"
proof -
  obtain b1 where b1: "put (block b, int (length xs)) cs b = Inr b1" "filling b1 ((xs @ map Some cs) @ v @ w)" "block b1 = block b"
    using put_filling [OF assms(1,2) refl] by (metis append.assoc)
  from put_filling [OF this(2) assms(3) refl] b1 that show thesis
    by (metis append.assoc length_append length_map)
qed

lemma put_second_first:
  assumes "filling b (xs @ u @ v @ w)" "length cs = length u" "length ds = length v"
  obtains b1 b2 where "put (block b, int (length xs + length cs)) ds b = Inr b1"
    "put (block b, int (length xs)) cs b1 = Inr b2" "filling b2 (xs @ map Some cs @ map Some ds @ w)" "block b2 = block b"
proof -
  have "filling b ((xs @ u) @ v @ w)" using assms(1) by simp
  from put_filling [OF this assms(3) refl] obtain b1 where
    b1: "put (block b, int (length (xs @ u))) ds b = Inr b1" "filling b1 (xs @ u @ map Some ds @ w)" "block b1 = block b"
    by (metis append.assoc)
  from put_filling [OF this(2) assms(2) refl] b1 assms(2) that show thesis
    by (metis length_append)
qed

lemma put_first_third:
  assumes "filling b (xs @ u @ v @ w)" "length cs = length u" "length ds = length w"
  obtains b1 b2 where "put (block b, int (length xs)) cs b = Inr b1"
    "put (block b, int (length xs + length cs + length v)) ds b1 = Inr b2" "filling b2 (xs @ map Some cs @ v @ map Some ds)" "block b2 = block b"
proof -
  obtain b1 where b1: "put (block b, int (length xs)) cs b = Inr b1" "filling b1 ((xs @ map Some cs @ v) @ w @ [])" "block b1 = block b"
    using put_filling [OF assms(1,2) refl] by (metis append.assoc append_Nil2)
  from put_filling [OF this(2) assms(3) refl] b1 that show thesis
    by (metis append.assoc append_Nil2 add.assoc length_append length_map)
qed

lemma areaI: "filling b (xs @ ys @ zs) \<Longrightarrow> length ys = n \<Longrightarrow> p = (block b, int (length xs + n)) \<Longrightarrow> area b xs n zs p"
  by (auto simp: area_def)

lemma fill_padding_filling:
  assumes "filling b (xs @ a @ c @ w)" "length a = pd div 2" "length c = m" "length w = pd - pd div 2"
    and "n - m = pd" "p = (block b, int (length xs))"
  shows "\<exists>b'. fill_padding p n m fill b = Inr ((block b', int (length (xs @ a))), b') \<and>
    filling b' (xs @ map Some (replicate (pd div 2) fill) @ c @ map Some (replicate (pd - pd div 2) fill))"
proof -
  let ?l = "replicate (pd div 2) fill" and ?r = "replicate (pd - pd div 2) fill"
  obtain b1 where b1: "put p ?l b = Inr b1" "filling b1 (xs @ map Some ?l @ c @ w)" "block b1 = block b"
    using put_filling [OF assms(1) _ assms(6), of ?l] assms(2) by (metis length_replicate)
  have "filling b1 ((xs @ map Some ?l @ c) @ w @ [])"
    using b1(2) by simp
  then obtain b2 where "put (block b1, int (length (xs @ map Some ?l @ c))) ?r b1 = Inr b2"
    "filling b2 ((xs @ map Some ?l @ c) @ map Some ?r @ [])" "block b2 = block b1"
    using put_filling [OF _ _ refl, of b1 "xs @ map Some ?l @ c" w "[]" ?r] assms(4) by (metis length_replicate)
  with b1 show ?thesis
    using assms(2,3,5,6) by (auto simp: fill_padding_def Let_def ac_simps)
qed

lemma prepare_aligned_area:
  assumes "filling b xs" "aligned_layout num_digits width fill align prefix = (l, r)"
  shows "\<exists>p b'. prepare_aligned num_digits width fill align prefix b = Inr (p, b') \<and>
    area b' (xs @ map Some l) num_digits (map Some r) (advance p 1)"
proof (cases "width \<le> length prefix + num_digits")
  case True
  let ?n = "length prefix + num_digits"
  have lr: "l = prefix" "r = []"
    using assms(2) aligned_layout_narrow [OF True] by auto
  obtain b1 ys where g: "grow_buffer ?n b = ((block b1, int (length xs)), b1)" "filling b1 (xs @ ys)" "length ys = ?n"
    using grow_buffer_filling [OF assms(1), of ?n] by metis
  obtain u v where uv: "filling b1 (xs @ u @ v)" "length u = length prefix" "length v = num_digits"
    using filling_split [OF g(2,3)] by metis
  obtain b2 where "put (block b1, int (length xs)) prefix b1 = Inr b2" "filling b2 (xs @ map Some prefix @ v)" "block b2 = block b1"
    using put_filling [OF uv(1) uv(2) [symmetric] refl] by metis
  then show ?thesis
    using True g(1) uv(3) lr by (auto simp: prepare_aligned_def Let_def intro!: areaI [of _ _ v])
next
  case False
  let ?n = "length prefix + num_digits" and ?f = "replicate (width - (length prefix + num_digits)) fill"
  obtain b1 ys where g: "grow_buffer width b = ((block b1, int (length xs)), b1)" "filling b1 (xs @ ys)" "length ys = width"
    using grow_buffer_filling [OF assms(1), of width] by metis
  have w: "width = length prefix + num_digits + length ?f" "width = length ?f + length prefix + num_digits"
    "width = length prefix + length ?f + num_digits"
    using False by auto
  have right: ?thesis if "align = ALIGN_DEFAULT \<or> align = ALIGN_RIGHT"
  proof -
    have lr: "l = ?f @ prefix" "r = []"
      using assms(2) that by (auto simp: aligned_layout_def Let_def)
    obtain z u v where "filling b1 (xs @ z @ u @ v)" "length ?f = length z" "length prefix = length u" "length v = num_digits"
      using filling_split3 [OF g(2) trans [OF g(3) w(2)]] by metis
    from put_second_first [OF this(1,2,3)] obtain b2 b3 where "put (block b1, int (length xs + length ?f)) prefix b1 = Inr b2"
      "put (block b1, int (length xs)) ?f b2 = Inr b3"
      "filling b3 (xs @ map Some ?f @ map Some prefix @ v)" "block b3 = block b1"
      by metis
    moreover have e: "(block b1, int (length xs) + int width - int ?n) = (block b1, int (length xs + length ?f))"
      using False by simp
    moreover have "prepare_aligned num_digits width fill align prefix b =
        rbind (put (block b1, int (length xs) + int width - int ?n) prefix b1) (\<lambda>b.
        rbind (put (block b1, int (length xs)) ?f b) (\<lambda>b. Inr ((block b1, int (length xs) + int width - 1), b)))"
      using False g(1) that by (auto simp: prepare_aligned_def Let_def algebra_simps)
    ultimately have "prepare_aligned num_digits width fill align prefix b = Inr ((block b1, int (length xs) + int width - 1), b3)"
      by (simp only: e rbind_Inr)
    moreover have "area b3 (xs @ map Some l) num_digits (map Some r) (block b1, int (length xs) + int width)"
      using \<open>filling b3 _\<close> \<open>block b3 = block b1\<close> \<open>length v = num_digits\<close> False lr by (intro areaI [of _ _ v]) auto
    ultimately show ?thesis by auto
  qed
  show ?thesis
  proof (cases align)
    case ALIGN_LEFT
    then have lr: "l = prefix" "r = ?f"
      using assms(2) by (auto simp: aligned_layout_def Let_def)
    obtain u v z where "filling b1 (xs @ u @ v @ z)" "length prefix = length u" "length v = num_digits" "length ?f = length z"
      using filling_split3 [OF g(2) trans [OF g(3) w(1)]] by metis
    from put_first_third [OF this(1,2,4)] obtain b2 b3 where "put (block b1, int (length xs)) prefix b1 = Inr b2"
      "put (block b1, int (length xs + length prefix + length v)) ?f b2 = Inr b3"
      "filling b3 (xs @ map Some prefix @ v @ map Some ?f)" "block b3 = block b1"
      by metis
    then show ?thesis
      using False g(1) lr ALIGN_LEFT \<open>length v = num_digits\<close>
      by (auto simp: prepare_aligned_def Let_def ac_simps intro!: areaI [of _ _ v])
  next
    case ALIGN_CENTER
    let ?k = "width - (length prefix + num_digits)"
    let ?a = "replicate (?k div 2) fill" and ?r = "replicate (?k - ?k div 2) fill"
    have lr: "l = ?a @ prefix" "r = ?r"
      using assms(2) ALIGN_CENTER by (auto simp: aligned_layout_def Let_def)
    have "width = ?k div 2 + ?n + (?k - ?k div 2)"
      using False by auto
    from filling_split3 [OF g(2) trans [OF g(3) this]] obtain a c z where
      c: "filling b1 (xs @ a @ c @ z)" "length a = ?k div 2" "length c = ?n" "length z = ?k - ?k div 2"
      by metis
    from fill_padding_filling [OF this refl refl, of fill] obtain b2 where
      b2: "fill_padding (block b1, int (length xs)) width ?n fill b1 = Inr ((block b2, int (length (xs @ a))), b2)"
      "filling b2 (xs @ map Some ?a @ c @ map Some ?r)"
      by metis
    obtain u v where uv: "c = u @ v" "length prefix = length u" "length v = num_digits"
      using c(3) by (metis append_take_drop_id add_diff_cancel_left' le_add1 length_drop length_take min.absorb2)
    have "filling b2 ((xs @ map Some ?a) @ u @ v @ map Some ?r)"
      using b2(2) uv(1) by simp
    from put_filling [OF this uv(2) refl] obtain b3 where
      "put (block b2, int (length (xs @ map Some ?a))) prefix b2 = Inr b3"
      "filling b3 ((xs @ map Some ?a) @ map Some prefix @ v @ map Some ?r)" "block b3 = block b2"
      by metis
    then show ?thesis
      using False g(1) lr ALIGN_CENTER b2(1) uv(3) c(2)
      by (auto simp: prepare_aligned_def Let_def ac_simps intro!: areaI [of _ _ v])
  next
    case ALIGN_NUMERIC
    then have lr: "l = prefix @ ?f" "r = []"
      using assms(2) by (auto simp: aligned_layout_def Let_def)
    obtain u z v where "filling b1 (xs @ u @ z @ v)" "length prefix = length u" "length ?f = length z" "length v = num_digits"
      using filling_split3 [OF g(2) trans [OF g(3) w(3)]] by metis
    from put_first_second [OF this(1,2,3)] obtain b2 b3 where "put (block b1, int (length xs)) prefix b1 = Inr b2"
      "put (block b1, int (length xs + length prefix)) ?f b2 = Inr b3"
      "filling b3 (xs @ map Some prefix @ map Some ?f @ v)" "block b3 = block b1"
      by metis
    then show ?thesis
      using False g(1) lr ALIGN_NUMERIC \<open>length v = num_digits\<close> put_def [of _ "[]"]
      by (auto simp: prepare_aligned_def Let_def ac_simps intro!: areaI [of _ _ v])
  next
    case ALIGN_DEFAULT
    with right show ?thesis by simp
  next
    case ALIGN_RIGHT
    with right show ?thesis by simp
  qed
qed

lemma put_capacity: "put p cs b = Inr b' \<Longrightarrow> buf_capacity b' = buf_capacity b"
  by (auto simp: put_def rbind_eq_Inr split: if_splits)

lemma grow_buffer_capacity: "grow_buffer n b = (p, b') \<Longrightarrow> buf_capacity b \<le> buf_capacity b'"
  by (auto simp: grow_buffer_def resize_def grow_def Let_def)

lemma grow_buffer_stays: "grow_buffer n b = (p, b') \<Longrightarrow> buf_size b + n \<le> buf_capacity b \<Longrightarrow> block b' = block b"
  by (auto simp: grow_buffer_def resize_def Let_def)

lemma prepare_aligned_capacity:
  "prepare_aligned num_digits width fill align prefix b = Inr (p, b') \<Longrightarrow> buf_capacity b \<le> buf_capacity b'"
  by (cases align)
     (force simp: prepare_aligned_def fill_padding_def Let_def rbind_eq_Inr
       dest!: put_capacity grow_buffer_capacity split: prod.splits if_splits)+

lemma reserve_filling:
  assumes "filling b xs"
  shows "filling (reserve n b) xs"
    and "buf_size b = 0 \<or> buf_size b + n \<le> buf_capacity b \<Longrightarrow> length xs + n \<le> buf_capacity (reserve n b)"
proof -
  have ok: "buf_ok b" "buf_size b = length xs" "take (length xs) (mem b) = xs"
    using assms filling_length [OF assms] unfolding filling_def by auto
  have "\<not> n \<le> buf_capacity b \<Longrightarrow> length xs \<le> n"
    using ok(1,2) by (auto simp: buf_ok_def)
  then show "filling (reserve n b) xs"
    and "buf_size b = 0 \<or> buf_size b + n \<le> buf_capacity b \<Longrightarrow> length xs + n \<le> buf_capacity (reserve n b)"
    using ok grow_ok [OF ok(1), of n] by (auto simp: reserve_def filling_def)
qed

lemma fill_filling:
  assumes "filling b xs"
  obtains b1 b' where "grow_buffer n b = ((block b', int (length xs)), b1)" "put (block b', int (length xs)) (replicate n c) b1 = Inr b'"
    "filling b' (xs @ map Some (replicate n c))" "buf_size b + n \<le> buf_capacity b \<longrightarrow> block b' = block b"
proof -
  obtain b1 ys where g: "grow_buffer n b = ((block b1, int (length xs)), b1)" "filling b1 (xs @ ys)" "length ys = n"
    using grow_buffer_filling [OF assms] by metis
  obtain b' where "put (block b1, int (length xs)) (replicate n c) b1 = Inr b'"
    "filling b' (xs @ map Some (replicate n c))" "block b' = block b1"
    using put_filling [of b1 xs ys "[]" "replicate n c", OF _ _ refl] g(2,3) by auto
  with g(1) that grow_buffer_stays [OF g(1)] show thesis by metis
qed

definition number_layout :: "nat \<Rightarrow> format_spec \<Rightarrow> string \<Rightarrow> string \<times> string" where
  "number_layout num_digits spec prefix =
     (if spec_precision spec > int num_digits then
        (let prefix = (if prefix \<noteq> [] \<and> last prefix = CHR ''0'' then butlast prefix else prefix);
             number = prefix @ replicate (nat (spec_precision spec) - num_digits) CHR ''0'';
             filler = replicate (spec_width spec - (length prefix + nat (spec_precision spec))) (spec_fill spec) in
         if spec_align spec = ALIGN_LEFT then (number, filler) else (filler @ number, []))
      else aligned_layout num_digits (spec_width spec) (spec_fill spec) (spec_align spec) prefix)"

text \<open>The condition under which the pointer to the digits is not left behind by a growing buffer.\<close>

definition keeps :: "format_spec \<Rightarrow> mem_buffer \<Rightarrow> bool" where
  "keeps spec b \<longleftrightarrow> spec_align spec \<noteq> ALIGN_LEFT \<or> spec_precision spec < 0 \<or> buf_size b = 0 \<or>
     buf_size b + spec_width spec \<le> buf_capacity b"

lemma prepare_int_buffer_area:
  assumes "filling b xs" "number_layout num_digits spec prefix = (l, r)" "keeps spec b"
  shows "\<exists>p b'. prepare_int_buffer num_digits spec prefix b = Inr (p, b') \<and>
    area b' (xs @ map Some l) num_digits (map Some r) (advance p 1)"
proof (cases "spec_precision spec > int num_digits")
  case False
  with assms prepare_aligned_area [OF assms(1)] show ?thesis
    by (simp add: prepare_int_buffer_def number_layout_def Let_def)
next
  case True
  let ?p = "if prefix \<noteq> [] \<and> last prefix = CHR ''0'' then butlast prefix else prefix"
  let ?size = "length ?p + nat (spec_precision spec)"
  let ?sub = "prepare_aligned num_digits ?size CHR ''0'' ALIGN_NUMERIC ?p"
    and ?number = "?p @ replicate (nat (spec_precision spec) - num_digits) CHR ''0''"
    and ?filler = "replicate (spec_width spec - ?size) (spec_fill spec)"
  have sub: "\<exists>p b'. ?sub b = Inr (p, b') \<and> area b' (ys @ map Some ?number) num_digits [] (advance p 1)"
    if "filling b ys" for b ys
    using prepare_aligned_area [OF that, of num_digits ?size "CHR ''0''" ALIGN_NUMERIC ?p] True
    by (auto simp: aligned_layout_def Let_def)
  have lr: "(l, r) = (if spec_align spec = ALIGN_LEFT then (?number, ?filler) else (?filler @ ?number, []))"
    using assms(2) True by (simp add: number_layout_def Let_def)
  let ?b = "reserve (spec_width spec) b"
  consider (narrow) "spec_width spec \<le> ?size" | (left) "?size < spec_width spec" "spec_align spec = ALIGN_LEFT"
    | (right) "?size < spec_width spec" "spec_align spec \<noteq> ALIGN_LEFT"
    by linarith
  then show ?thesis
  proof cases
    case narrow
    then have "l = ?number" "r = []"
      using lr by (auto split: if_splits)
    with narrow True sub [OF assms(1)] show ?thesis
      by (simp add: prepare_int_buffer_def Let_def)
  next
    case right
    then have l: "l = ?filler @ ?number" "r = []"
      using lr by auto
    from fill_filling [OF reserve_filling(1) [OF assms(1)]] obtain b1 b2 where
      "grow_buffer (spec_width spec - ?size) ?b = ((block b2, int (length xs)), b1)"
      "put (block b2, int (length xs)) ?filler b1 = Inr b2" "filling b2 (xs @ map Some ?filler)"
      by metis
    with sub [OF this(3)] l right True show ?thesis
      by (simp add: prepare_int_buffer_def Let_def)
  next
    case left
    then have l: "l = ?number" "r = ?filler"
      using lr by auto
    obtain p b1 where b1: "?sub ?b = Inr (p, b1)" "area b1 (xs @ map Some ?number) num_digits [] (advance p 1)"
      using sub [OF reserve_filling(1) [OF assms(1)]] by metis
    then obtain ys where ys: "filling b1 ((xs @ map Some ?number) @ ys)" "length ys = num_digits"
      by (auto simp: area_def)
    from fill_filling [OF this(1)] obtain b2 b3 where
      b3: "grow_buffer (spec_width spec - ?size) b1 = ((block b3, int (length ((xs @ map Some ?number) @ ys))), b2)"
      "put (block b3, int (length ((xs @ map Some ?number) @ ys))) ?filler b2 = Inr b3"
      "filling b3 (((xs @ map Some ?number) @ ys) @ map Some ?filler)"
      "buf_size b1 + (spec_width spec - ?size) \<le> buf_capacity b1 \<longrightarrow> block b3 = block b1"
      by metis
    have "length xs + spec_width spec \<le> buf_capacity b1"
      using reserve_filling(2) [OF assms(1)] assms(3) left True prepare_aligned_capacity [OF b1(1)]
      by (fastforce simp: keeps_def)
    then have "block b3 = block b1"
      using b3(4) filling_length [OF ys(1)] ys(2) True left(1) by (auto simp: nat_less_iff)
    then have "area b3 (xs @ map Some l) num_digits (map Some r) (advance p 1)"
      using b3(3) ys(2) b1(2) l by (auto simp: area_def)
    with b1(1) b3(1,2) left True show ?thesis
      by (simp add: prepare_int_buffer_def Let_def)
  qed
qed

subsection \<open>The text of a number\<close>

definition int_digits :: "string \<Rightarrow> char \<Rightarrow> nat \<Rightarrow> string" where
  "int_digits locale_sep type n =
     (if type = CHR ''x'' then radix 4 (\<lambda>d. ''0123456789abcdef'' ! d) n
      else if type = CHR ''X'' then radix 4 (\<lambda>d. ''0123456789ABCDEF'' ! d) n
      else if type \<in> {CHR ''b'', CHR ''B''} then radix 1 digit_char n
      else if type = CHR ''o'' then radix 3 digit_char n
      else if type = CHR ''n'' then grouped (Some locale_sep) 0 (rev (decimal n))
      else decimal n)"

definition int_prefix :: "format_spec \<Rightarrow> int \<Rightarrow> string" where
  "int_prefix spec val = sign_prefix spec val @
     (if \<not> spec_flag spec HASH_FLAG then []
      else if spec_type spec \<in> {CHR ''x'', CHR ''X'', CHR ''b'', CHR ''B''} then [CHR ''0'', spec_type spec]
      else if spec_type spec = CHR ''o'' then ''0'' else [])"

definition int_text :: "string \<Rightarrow> format_spec \<Rightarrow> int \<Rightarrow> string" where
  "int_text locale_sep spec val =
     (let ds = int_digits locale_sep (spec_type spec) (nat \<bar>val\<bar>);
          (l, r) = number_layout (length ds) spec (int_prefix spec val) in l @ ds @ r)"

definition int_types :: "char set" where
  "int_types = {CHR 0x00, CHR ''d'', CHR ''x'', CHR ''X'', CHR ''b'', CHR ''B'', CHR ''o'', CHR ''n''}"

definition in_range :: "nat \<Rightarrow> int \<Rightarrow> bool" where
  "in_range bits val \<longleftrightarrow> (bits = 32 \<or> bits = 64) \<and> - (2 ^ (bits - 1)) \<le> val \<and> val < 2 ^ bits"

lemma abs_in_range:
  assumes "in_range bits val"
  shows "(if val < 0 then nat ((0 - val mod 2 ^ bits) mod 2 ^ bits) else nat (val mod 2 ^ bits)) = nat \<bar>val\<bar>"
    and "nat \<bar>val\<bar> < 2 ^ bits"
proof -
  have r: "- (2 ^ bits) < val" "val < 2 ^ bits"
    using assms by (auto simp: in_range_def)
  have "(0 - val mod 2 ^ bits) mod 2 ^ bits = - val" if "val < 0"
    using r(1) that by (simp add: mod_minus_eq)
  then show "(if val < 0 then nat ((0 - val mod 2 ^ bits) mod 2 ^ bits) else nat (val mod 2 ^ bits)) = nat \<bar>val\<bar>"
    using r(2) by auto
  show "nat \<bar>val\<bar> < 2 ^ bits"
    using r by (simp add: nat_less_iff)
qed

lemma write_int_holds:
  assumes "in_range bits val" "holds b cs" "spec_type spec \<in> int_types" "keeps spec b"
  shows "\<exists>b'. write_int bits locale_sep val spec b = Inr b' \<and> holds b' (cs @ int_text locale_sep spec val)"
proof -
  let ?ds = "int_digits locale_sep (spec_type spec) (nat \<bar>val\<bar>)"
  obtain l r where lr: "number_layout (length ?ds) spec (int_prefix spec val) = (l, r)"
    by fastforce
  obtain p b1 where p: "prepare_int_buffer (length ?ds) spec (int_prefix spec val) b = Inr (p, b1)"
    "area b1 (map Some cs @ map Some l) (length ?ds) (map Some r) (advance p 1)"
    using prepare_int_buffer_area [OF _ lr assms(4), of "map Some cs"] assms(2) unfolding holds_filling by metis
  let ?n = "nat \<bar>val\<bar>"
  note n = abs_in_range [OF assms(1)]
  have count: "count_digits bits ?n = length (decimal ?n)"
    using assms(1) n(2) by (intro count_digits_decimal) (auto simp: in_range_def)
  have group: "length (decimal ?n) + length locale_sep * ((length (decimal ?n) - 1) div 3) = length (grouped (Some locale_sep) 0 (rev (decimal ?n)))"
    by (simp add: grouped_length)
  have "\<exists>b'. write_int bits locale_sep val spec b = Inr b' \<and> filling b' ((map Some cs @ map Some l) @ map Some ?ds @ map Some r)"
    (is "\<exists>b'. ?write = Inr b' \<and> ?done b'")
  proof -
    consider (dec) "spec_type spec \<in> {CHR 0x00, CHR ''d''}" | (hex) "spec_type spec \<in> {CHR ''x'', CHR ''X''}"
      | (bin) "spec_type spec \<in> {CHR ''b'', CHR ''B''}" | (oct) "spec_type spec = CHR ''o''" | (num) "spec_type spec = CHR ''n''"
      using assms(3) by (auto simp: int_types_def)
    then show ?thesis
    proof cases
      case dec
      then have ds: "?ds = decimal ?n"
        by (auto simp: int_digits_def)
      have pre: "int_prefix spec val = sign_prefix spec val"
        using dec by (auto simp: int_prefix_def)
      have "?write = decimal_loop None 0 ?n (advance p 1) b1"
        using p(1) dec count unfolding ds pre write_int_def n(1) by (auto simp: Let_def format_decimal_def)
      then show ?thesis
        using decimal_loop_area [of b1 _ None 0 ?n] p(2) unfolding ds grouped_None rev_rev_ident by metis
    next
      case num
      then have ds: "?ds = grouped (Some locale_sep) 0 (rev (decimal ?n))"
        by (auto simp: int_digits_def)
      have pre: "int_prefix spec val = sign_prefix spec val"
        using num by (auto simp: int_prefix_def)
      have "?write = decimal_loop (Some locale_sep) 0 ?n (advance p 1) b1"
        using p(1) num count group unfolding ds pre write_int_def n(1) by (simp add: Let_def format_decimal_def)
      then show ?thesis
        using decimal_loop_area [of b1 _ "Some locale_sep" 0 ?n] p(2) unfolding ds by metis
    next
      case hex
      let ?f = "\<lambda>d. (if spec_type spec = CHR ''x'' then ''0123456789abcdef'' else ''0123456789ABCDEF'') ! d"
      have ds: "?ds = radix 4 ?f ?n"
        using hex by (auto simp: int_digits_def)
      have pre: "int_prefix spec val = (if spec_flag spec HASH_FLAG then sign_prefix spec val @ [CHR ''0'', spec_type spec] else sign_prefix spec val)"
        using hex by (auto simp: int_prefix_def)
      have "?write = shift_digits 4 ?f ?n p b1"
        using p(1) hex unfolding ds pre write_int_def n(1) by (auto simp: Let_def shift_count_radix [of _ _ ?f])
      then show ?thesis
        using shift_digits_area [of b1 _ 4 ?f ?n] p(2) unfolding ds by metis
    next
      case bin
      then have ds: "?ds = radix 1 digit_char ?n"
        by (auto simp: int_digits_def)
      have pre: "int_prefix spec val = (if spec_flag spec HASH_FLAG then sign_prefix spec val @ [CHR ''0'', spec_type spec] else sign_prefix spec val)"
        using bin by (auto simp: int_prefix_def)
      have "?write = shift_digits 1 digit_char ?n p b1"
        using p(1) bin unfolding ds pre write_int_def n(1) by (auto simp: Let_def shift_count_radix [of _ _ digit_char])
      then show ?thesis
        using shift_digits_area [of b1 _ 1 digit_char ?n] p(2) unfolding ds by metis
    next
      case oct
      then have ds: "?ds = radix 3 digit_char ?n"
        by (auto simp: int_digits_def)
      have pre: "int_prefix spec val = (if spec_flag spec HASH_FLAG then sign_prefix spec val @ [CHR ''0''] else sign_prefix spec val)"
        using oct by (auto simp: int_prefix_def)
      have "?write = shift_digits 3 digit_char ?n p b1"
        using p(1) oct unfolding ds pre write_int_def n(1) by (auto simp: Let_def shift_count_radix [of _ _ digit_char])
      then show ?thesis
        using shift_digits_area [of b1 _ 3 digit_char ?n] p(2) unfolding ds by metis
    qed
  qed
  then show ?thesis
    using lr by (auto simp: holds_filling int_text_def)
qed

lemma put_block: "put p cs b = Inr b' \<Longrightarrow> block b' = block b"
  by (auto simp: put_def rbind_eq_Inr split: if_splits)

lemma thousands_sep_block: "thousands_sep sep k p b = Inr (k', p', b') \<Longrightarrow> block b' = block b"
  by (auto simp: thousands_sep_def Let_def rbind_eq_Inr dest: put_block split: option.splits if_splits)

lemma decimal_loop_block: "decimal_loop sep k v p b = Inr b' \<Longrightarrow> block b' = block b"
proof (induction v arbitrary: k p b rule: less_induct)
  case (less v)
  have step: "v div 100 < v" if "100 \<le> v"
    using that by simp
  from less.prems show ?case
    by (auto simp: decimal_loop.simps [of sep k v] Let_def rbind_eq_Inr split: if_splits
        dest!: less.IH [OF step] thousands_sep_block put_block)
qed

subsection \<open>Plain numbers and strings\<close>

lemma write_decimal_holds:
  assumes "in_range bits val" "holds b cs"
  shows "\<exists>b'. write_decimal bits val b = Inr b' \<and> holds b' (cs @ (if val < 0 then ''-'' else []) @ decimal (nat \<bar>val\<bar>))"
proof -
  let ?n = "nat \<bar>val\<bar>" and ?xs = "map Some cs"
  have f: "filling b ?xs" using assms(2) by (simp add: holds_filling)
  have r: "bits = 32 \<or> bits = 64" "- (2 ^ (bits - 1)) \<le> val" "val < 2 ^ bits"
    using assms(1) by (auto simp: in_range_def)
  note n = abs_in_range [OF assms(1)]
  have count: "count_digits bits ?n = length (decimal ?n)"
    using count_digits_decimal [OF r(1) n(2)] .
  have loop: "\<exists>b'. decimal_loop None 0 ?n p b = Inr b' \<and> filling b' (xs @ map Some (decimal ?n) @ zs)"
    if "area b xs (length (decimal ?n)) zs p" for b xs zs p
    using decimal_loop_area [of b xs None 0 ?n zs p] that by (simp add: grouped_None)
  show ?thesis
  proof (cases "val < 0")
    case True
    obtain b1 ys where g: "grow_buffer (1 + length (decimal ?n)) b = ((block b1, int (length ?xs)), b1)"
      "filling b1 (?xs @ ys)" "length ys = 1 + length (decimal ?n)"
      using grow_buffer_filling [OF f] by metis
    then obtain y u where y: "ys = y # u" "length u = length (decimal ?n)"
      by (cases ys) auto
    have "area b1 (?xs @ [y]) (length (decimal ?n)) [] (block b1, int (length ?xs) + 1 + int (length (decimal ?n)))"
      using g(2) y by (intro areaI [of _ _ u]) auto
    from loop [OF this] obtain b2 where b2: "decimal_loop None 0 ?n (block b1, int (length ?xs) + 1 + int (length (decimal ?n))) b1 = Inr b2"
      "filling b2 (?xs @ [y] @ map Some (decimal ?n))"
      by auto
    obtain b3 where "put (block b2, int (length ?xs)) ''-'' b2 = Inr b3" "filling b3 (?xs @ map Some ''-'' @ map Some (decimal ?n))"
      using put_filling [OF b2(2) _ refl, of "''-''"] by auto
    then show ?thesis
      using True g(1) b2(1) decimal_loop_block [OF b2(1)] count n(1)
      by (auto simp: write_decimal_def Let_def format_decimal_def holds_filling)
  next
    case False
    obtain b1 ys where g: "grow_buffer (length (decimal ?n)) b = ((block b1, int (length ?xs)), b1)"
      "filling b1 (?xs @ ys)" "length ys = length (decimal ?n)"
      using grow_buffer_filling [OF f] by metis
    then have "area b1 ?xs (length (decimal ?n)) [] (block b1, int (length ?xs) + int (length (decimal ?n)))"
      by (intro areaI [of _ _ ys]) auto
    from loop [OF this] show ?thesis
      using False g(1) count n(1) by (auto simp: write_decimal_def Let_def format_decimal_def holds_filling)
  qed
qed

definition str_text :: "format_spec \<Rightarrow> string \<Rightarrow> string" where
  "str_text spec s =
     (let n = spec_width spec - length s in
      if spec_align spec = ALIGN_RIGHT then replicate n (spec_fill spec) @ s
      else if spec_align spec = ALIGN_CENTER then replicate (n div 2) (spec_fill spec) @ s @ replicate (n - n div 2) (spec_fill spec)
      else s @ replicate n (spec_fill spec))"

lemma write_str_holds:
  assumes "holds b cs"
  shows "\<exists>b'. write_str s spec b = Inr b' \<and> holds b' (cs @ str_text spec s)"
proof -
  let ?xs = "map Some cs" and ?k = "spec_width spec - length s" and ?c = "spec_fill spec"
  let ?w = "max (length s) (spec_width spec)" and ?f = "replicate ?k ?c"
  have f: "filling b ?xs" using assms by (simp add: holds_filling)
  obtain b1 ys where g: "grow_buffer ?w b = ((block b1, int (length ?xs)), b1)" "filling b1 (?xs @ ys)" "length ys = ?w"
    using grow_buffer_filling [OF f] by metis
  consider (narrow) "spec_width spec \<le> length s" | (right) "length s < spec_width spec" "spec_align spec = ALIGN_RIGHT"
    | (center) "length s < spec_width spec" "spec_align spec = ALIGN_CENTER"
    | (left) "length s < spec_width spec" "spec_align spec \<noteq> ALIGN_RIGHT" "spec_align spec \<noteq> ALIGN_CENTER"
    by linarith
  then show ?thesis
  proof cases
    case narrow
    then obtain b2 where "put (block b1, int (length ?xs)) s b1 = Inr b2" "filling b2 (?xs @ map Some s)"
      using put_filling [of b1 ?xs ys "[]" s, OF _ _ refl] g(2,3) by auto
    with narrow g(1) show ?thesis
      by (auto simp: write_str_def str_text_def Let_def holds_filling max_def)
  next
    case right
    have "length ys = length ?f + length s + 0"
      using g(3) right by auto
    from filling_split3 [OF g(2) this] obtain z u where "filling b1 (?xs @ z @ u @ [])" "length ?f = length z" "length s = length u"
      by (metis length_0_conv)
    from put_first_second [OF this] obtain b2 b3 where "put (block b1, int (length ?xs)) ?f b1 = Inr b2"
      "put (block b1, int (length ?xs + length ?f)) s b2 = Inr b3" "filling b3 (?xs @ map Some ?f @ map Some s)"
      by (metis append_Nil2)
    with right g(1) show ?thesis
      by (auto simp: write_str_def str_text_def Let_def holds_filling max_def add_diff_eq)
  next
    case center
    have "length ys = ?k div 2 + length s + (?k - ?k div 2)"
      using g(3) center by auto
    from filling_split3 [OF g(2) this] obtain a u z where
      "filling b1 (?xs @ a @ u @ z)" "length a = ?k div 2" "length u = length s" "length z = ?k - ?k div 2"
      by metis
    from fill_padding_filling [OF this refl refl, of ?c] obtain b2 where
      b2: "fill_padding (block b1, int (length ?xs)) (spec_width spec) (length s) ?c b1 = Inr ((block b2, int (length (?xs @ a))), b2)"
      "filling b2 ((?xs @ map Some (replicate (?k div 2) ?c)) @ u @ map Some (replicate (?k - ?k div 2) ?c))"
      by (metis append.assoc)
    from put_filling [OF this(2) \<open>length u = length s\<close> [symmetric] refl] \<open>length a = ?k div 2\<close> obtain b3 where
      "put (block b2, int (length (?xs @ a))) s b2 = Inr b3"
      "filling b3 ((?xs @ map Some (replicate (?k div 2) ?c)) @ map Some s @ map Some (replicate (?k - ?k div 2) ?c))"
      by (metis length_append length_map length_replicate)
    with center g(1) b2(1) show ?thesis
      by (auto simp: write_str_def str_text_def Let_def holds_filling max_def)
  next
    case left
    have "length ys = length s + length ?f + 0"
      using g(3) left by auto
    from filling_split3 [OF g(2) this] obtain u z where "filling b1 (?xs @ u @ z @ [])" "length s = length u" "length ?f = length z"
      by (metis length_0_conv)
    from put_second_first [OF this] obtain b2 b3 where "put (block b1, int (length ?xs + length s)) ?f b1 = Inr b2"
      "put (block b1, int (length ?xs)) s b2 = Inr b3" "filling b3 (?xs @ map Some s @ map Some ?f)"
      by (metis append_Nil2)
    with left g(1) show ?thesis
      by (auto simp: write_str_def str_text_def Let_def holds_filling max_def)
  qed
qed

subsection \<open>Reading numbers back\<close>

definition digit_value :: "char \<Rightarrow> nat" where
  "digit_value c = (if of_char c \<le> (57::nat) then of_char c - 48 else if of_char c \<le> (90::nat) then of_char c - 55 else of_char c - 87)"

definition read_digits :: "nat \<Rightarrow> string \<Rightarrow> nat" where
  "read_digits base ds = foldl (\<lambda>v c. v * base + digit_value c) 0 ds"

definition read_int :: "nat \<Rightarrow> string \<Rightarrow> int" where
  "read_int base t = (if t \<noteq> [] \<and> hd t = CHR ''-'' then - int (read_digits base (tl t)) else int (read_digits base t))"

lemma digit_values:
  "d < 10 \<Longrightarrow> digit_value (digit_char d) = d" "d < 10 \<Longrightarrow> digit_char d \<noteq> CHR ''-''"
  "d < 16 \<Longrightarrow> digit_value (''0123456789abcdef'' ! d) = d" "d < 16 \<Longrightarrow> ''0123456789abcdef'' ! d \<noteq> CHR ''-''"
  "d < 16 \<Longrightarrow> digit_value (''0123456789ABCDEF'' ! d) = d" "d < 16 \<Longrightarrow> ''0123456789ABCDEF'' ! d \<noteq> CHR ''-''"
proof -
  have "list_all (\<lambda>d. digit_value (digit_char d) = d \<and> digit_char d \<noteq> CHR ''-'') [0..<10]"
    "list_all (\<lambda>d. digit_value (''0123456789abcdef'' ! d) = d \<and> ''0123456789abcdef'' ! d \<noteq> CHR ''-'') [0..<16]"
    "list_all (\<lambda>d. digit_value (''0123456789ABCDEF'' ! d) = d \<and> ''0123456789ABCDEF'' ! d \<noteq> CHR ''-'') [0..<16]"
    by code_simp+
  then show "d < 10 \<Longrightarrow> digit_value (digit_char d) = d" "d < 10 \<Longrightarrow> digit_char d \<noteq> CHR ''-''"
    "d < 16 \<Longrightarrow> digit_value (''0123456789abcdef'' ! d) = d" "d < 16 \<Longrightarrow> ''0123456789abcdef'' ! d \<noteq> CHR ''-''"
    "d < 16 \<Longrightarrow> digit_value (''0123456789ABCDEF'' ! d) = d" "d < 16 \<Longrightarrow> ''0123456789ABCDEF'' ! d \<noteq> CHR ''-''"
    by (simp_all add: list_all_iff)
qed

lemma read_decimal: "read_digits 10 (decimal n) = n" "hd (decimal n) \<noteq> CHR ''-''"
proof (induction n rule: less_induct)
  case (less n)
  have d: "decimal n = (if n < 10 then [digit_char n] else decimal (n div 10) @ [digit_char (n mod 10)])"
    by (rule decimal.simps)
  { case 1
    show ?case using less(1) [of "n div 10"] by (subst d) (simp add: read_digits_def digit_values)
  next
    case 2
    show ?case using less(2) [of "n div 10"] decimal_nonempty [of "n div 10"] by (subst d) (simp add: digit_values) }
qed

lemma read_radix:
  assumes "0 < s" "\<And>d. d < 2 ^ s \<Longrightarrow> digit_value (f d) = d \<and> f d \<noteq> CHR ''-''"
  shows "read_digits (2 ^ s) (radix s f n) = n" "radix s f n \<noteq> [] \<and> hd (radix s f n) \<noteq> CHR ''-''"
proof (induction n rule: less_induct)
  case (less n)
  have r: "radix s f n = (if drop_bit s n = 0 then [] else radix s f (drop_bit s n)) @ [f (take_bit s n)]"
    using assms(1) by (subst radix.simps) simp
  have f: "digit_value (f (take_bit s n)) = take_bit s n \<and> f (take_bit s n) \<noteq> CHR ''-''"
    by (intro assms(2)) (simp add: take_bit_eq_mod)
  have n: "drop_bit s n * 2 ^ s + take_bit s n = n"
    by (simp only: drop_bit_eq_div take_bit_eq_mod div_mult_mod_eq)
  { case 1
    show ?case using less(1) [of "drop_bit s n"] drop_bit_less [OF assms(1), of n] f n by (subst r) (auto simp: read_digits_def)
  next
    case 2
    show ?case using less(2) [of "drop_bit s n"] drop_bit_less [OF assms(1), of n] f unfolding r by auto }
qed

text \<open>A plain specifier: no width, no precision and no flags.\<close>

lemma plain_text:
  "int_text locale_sep (TypeSpec t) val = (if val < 0 then ''-'' else []) @ int_digits locale_sep t (nat \<bar>val\<bar>)"
  by (simp add: int_text_def TypeSpec_def FormatSpec_def number_layout_def aligned_layout_def int_prefix_def sign_prefix_def
      spec_flag_def Let_def)

definition base_of :: "char \<Rightarrow> nat" where
  "base_of t = (if t \<in> {CHR ''x'', CHR ''X''} then 16 else if t \<in> {CHR ''b'', CHR ''B''} then 2 else if t = CHR ''o'' then 8 else 10)"

lemma read_int_digits:
  assumes "t \<in> int_types" "t \<noteq> CHR ''n''"
  shows "read_digits (base_of t) (int_digits locale_sep t n) = n"
    and "int_digits locale_sep t n \<noteq> [] \<and> hd (int_digits locale_sep t n) \<noteq> CHR ''-''"
proof -
  have lower: "read_digits 16 (radix 4 (\<lambda>d. ''0123456789abcdef'' ! d) n) = n \<and>
      radix 4 (\<lambda>d. ''0123456789abcdef'' ! d) n \<noteq> [] \<and> hd (radix 4 (\<lambda>d. ''0123456789abcdef'' ! d) n) \<noteq> CHR ''-''"
    using read_radix [of 4 "\<lambda>d. ''0123456789abcdef'' ! d" n] digit_values(3,4) by auto
  have upper: "read_digits 16 (radix 4 (\<lambda>d. ''0123456789ABCDEF'' ! d) n) = n \<and>
      radix 4 (\<lambda>d. ''0123456789ABCDEF'' ! d) n \<noteq> [] \<and> hd (radix 4 (\<lambda>d. ''0123456789ABCDEF'' ! d) n) \<noteq> CHR ''-''"
    using read_radix [of 4 "\<lambda>d. ''0123456789ABCDEF'' ! d" n] digit_values(5,6) by auto
  have small: "read_digits (2 ^ s) (radix s digit_char n) = n \<and> radix s digit_char n \<noteq> [] \<and> hd (radix s digit_char n) \<noteq> CHR ''-''"
    if "s = 1 \<or> s = 3" for s
    using read_radix [of s digit_char n] digit_values(1,2) that by auto
  have "decimal n \<noteq> []"
    using decimal_nonempty [of n] by auto
  then show "read_digits (base_of t) (int_digits locale_sep t n) = n"
    "int_digits locale_sep t n \<noteq> [] \<and> hd (int_digits locale_sep t n) \<noteq> CHR ''-''"
    using assms lower upper small [of 1] small [of 3] read_decimal [of n]
    by (auto simp: int_digits_def base_of_def int_types_def)
qed

text \<open>
  (C28) Writing an integer.  For every specifier of an integer type, that is with any width, fill, alignment,
  sign and prefix flags and any precision, and for every value of a 32-bit or 64-bit type, including the
  smallest one, \<open>write_int\<close> leaves what the buffer held and appends exactly the text of the
  number; it writes nowhere else and through no stale pointer.  The one exception is excluded by
  \<open>keeps\<close>: a precision together with left alignment in a buffer that has to grow for the
  padding.  \<open>write_decimal\<close> appends the text of the plain specifier.
\<close>

theorem write_int_spec:
  assumes "in_range bits val" "holds b cs" "spec_type spec \<in> int_types" "keeps spec b"
  shows "(\<exists>b'. write_int bits locale_sep val spec b = Inr b' \<and> holds b' (cs @ int_text locale_sep spec val)) \<and>
    (\<exists>b'. write_decimal bits val b = Inr b' \<and> holds b' (cs @ int_text locale_sep (TypeSpec CHR ''d'') val))"
  using write_int_holds [OF assms] write_decimal_holds [OF assms(1,2)]
  by (simp add: plain_text int_digits_def)

text \<open>
  Numbers can be read back.  What \<open>write_int\<close> appends for a plain specifier of base 2, 8, 10 or 16
  is a text whose value in that base is the number written.
\<close>

theorem write_int_roundtrip:
  assumes "in_range bits val" "holds b cs" "t \<in> int_types" "t \<noteq> CHR ''n''"
  shows "\<exists>b' text. write_int bits locale_sep val (TypeSpec t) b = Inr b' \<and> holds b' (cs @ text) \<and> read_int (base_of t) text = val"
proof -
  have "spec_type (TypeSpec t) \<in> int_types" "keeps (TypeSpec t) b"
    using assms(3) by (simp_all add: TypeSpec_def FormatSpec_def keeps_def)
  from write_int_holds [OF assms(1,2) this] obtain b' where
    "write_int bits locale_sep val (TypeSpec t) b = Inr b'" "holds b' (cs @ int_text locale_sep (TypeSpec t) val)"
    by blast
  moreover have "read_int (base_of t) (int_text locale_sep (TypeSpec t) val) = val"
    using read_int_digits [OF assms(3,4), of locale_sep "nat \<bar>val\<bar>"] by (cases "val < 0") (simp_all add: plain_text read_int_def)
  ultimately show ?thesis by blast
qed

theorem write_int_spec_witness:
  "(\<exists>b'. write_int 32 [] (- 2147483648) (pad 12 CHR ''*'') MemoryBuffer = Inr b' \<and>
      holds b' ([] @ int_text [] (pad 12 CHR ''*'') (- 2147483648))) \<and>
    (\<exists>b'. write_decimal 32 (- 2147483648) MemoryBuffer = Inr b' \<and> holds b' ([] @ int_text [] (TypeSpec CHR ''d'') (- 2147483648)))"
  by (rule write_int_spec [OF _ holds_new])
     (simp_all add: in_range_def pad_def FormatSpec_def int_types_def keeps_def)

theorem write_int_roundtrip_witness:
  "\<exists>b' text. write_int 64 [] 255 (TypeSpec CHR ''x'') MemoryBuffer = Inr b' \<and> holds b' ([] @ text) \<and> read_int (base_of CHR ''x'') text = 255"
  by (rule write_int_roundtrip [OF _ holds_new]) (simp_all add: in_range_def int_types_def)

subsection \<open>The pointer that is left behind\<close>

lemma put_stale: "fst p = 0 \<Longrightarrow> block b \<noteq> 0 \<Longrightarrow> 0 \<le> snd p \<Longrightarrow> snd p + int (length cs) \<le> int INLINE_BUFFER_SIZE \<Longrightarrow> put p cs b = Inr b"
  by (simp add: put_def)

lemma decimal_loop_stale:
  assumes "fst p = 0" "block b \<noteq> 0" "int (length (decimal v)) \<le> snd p" "snd p \<le> int INLINE_BUFFER_SIZE"
  shows "decimal_loop None k v p b = Inr b"
  using assms
proof (induction v arbitrary: k p rule: less_induct)
  case (less v)
  have len: "length (decimal v) = (if v < 10 then 1 else if v < 100 then 2 else 2 + length (decimal (v div 100)))"
    by (simp add: decimal.simps [of v] decimal.simps [of "v div 10"] div_mult2_eq [symmetric] div_less_iff_less_mult)
  show ?case
    using less len put_stale [of _ b "[_]"]
    by (subst decimal_loop.simps) (auto simp: thousands_sep_def Let_def)
qed

lemma grow_buffer_moves: "grow_buffer n b = (p, b') \<Longrightarrow> buf_capacity b < buf_size b + n \<Longrightarrow> block b' = Suc (block b) \<and> fst p = Suc (block b)"
  by (auto simp: grow_buffer_def resize_def grow_def Let_def)

lemma put_nil: "put p [] b = Inr b"
  by (simp add: put_def)

lemma prepare_numeric_stays:
  assumes "prepare_aligned num_digits width fill ALIGN_NUMERIC [] b = Inr (p, b')" "num_digits \<le> width" "buf_size b + width \<le> buf_capacity b"
  shows "block b' = block b"
proof -
  obtain q b1 where g: "grow_buffer width b = (q, b1)"
    by fastforce
  then have "block b1 = block b"
    using assms(3) by (rule grow_buffer_stays)
  moreover have "put q (replicate (width - num_digits) fill) b1 = Inr b'"
  proof (cases "width = num_digits")
    case True
    with assms(1) g show ?thesis by (simp add: prepare_aligned_def put_nil)
  next
    case False
    with assms(1,2) g show ?thesis
      by (cases "put q (replicate (width - num_digits) fill) b1") (simp_all add: prepare_aligned_def)
  qed
  ultimately show ?thesis
    using put_block by metis
qed

text \<open>
  (C29) With left alignment and a precision, the padding is appended after the area for the digits, and
  when that makes the buffer grow, the pointer to the digits still points into the old memory: the
  digits are lost.  For a buffer still inside the object in which the number fits and the padding
  does not, the result is the same for all numbers with equally many digits.
\<close>

theorem precision_left_loses_digits:
  assumes "holds b cs" "block b = 0" "spec_align spec = ALIGN_LEFT" "spec_type spec = CHR ''d''" "spec_flags spec = 0"
    and "int (length (decimal n)) < spec_precision spec" "length (decimal m) = length (decimal n)" "n < 2 ^ 32" "m < 2 ^ 32"
    and "length cs + nat (spec_precision spec) \<le> 500" "500 < length cs + spec_width spec" "spec_width spec \<le> 500"
  shows "\<exists>b'. write_int 32 locale_sep (int n) spec b = Inr b' \<and> write_int 32 locale_sep (int m) spec b = Inr b' \<and>
    buf_size b' = length cs + spec_width spec"
proof -
  let ?d = "length (decimal n)" and ?k = "nat (spec_precision spec)" and ?xs = "map Some cs"
  let ?z = "map Some (replicate (?k - ?d) CHR ''0'')"
  have f: "filling b ?xs"
    using assms(1) by (simp add: holds_filling)
  have cap: "buf_capacity b = 500" "buf_size b = length cs"
    using assms(1,2) filling_length [OF f] by (simp_all add: holds_def buf_ok_def INLINE_BUFFER_SIZE_def)
  obtain p b1 where b1: "prepare_aligned ?d ?k CHR ''0'' ALIGN_NUMERIC [] b = Inr (p, b1)" "area b1 (?xs @ ?z) ?d [] (advance p 1)"
    using prepare_aligned_area [OF f, of ?d ?k "CHR ''0''" ALIGN_NUMERIC "[]"] by (auto simp: aligned_layout_def)
  have "block b1 = 0"
    using prepare_numeric_stays [OF b1(1)] assms(2,6,10) cap by simp
  from b1(2) obtain ys where ys: "filling b1 (?xs @ ?z @ ys)" "length ys = ?d"
    by (auto simp: area_def)
  have p: "advance p 1 = (0, int (length cs + ?k))"
    using b1(2) \<open>block b1 = 0\<close> assms(6) by (auto simp: area_def)
  have cap1: "buf_capacity b1 = 500"
    using ys(1) \<open>block b1 = 0\<close> by (simp add: filling_def buf_ok_def INLINE_BUFFER_SIZE_def)
  have s1: "buf_size b1 = length cs + ?k"
    using filling_length [OF ys(1)] ys(2) assms(6) by simp
  from fill_filling [OF ys(1)] obtain b2 b3 where
    b3: "grow_buffer (spec_width spec - ?k) b1 = ((block b3, int (length (?xs @ ?z @ ys))), b2)"
    "put (block b3, int (length (?xs @ ?z @ ys))) (replicate (spec_width spec - ?k) (spec_fill spec)) b2 = Inr b3"
    "filling b3 ((?xs @ ?z @ ys) @ map Some (replicate (spec_width spec - ?k) (spec_fill spec)))"
    by metis
  have "block b3 = 1"
    using grow_buffer_moves [OF b3(1)] s1 cap1 assms(10,11) \<open>block b1 = 0\<close> by simp
  then have stale: "decimal_loop None 0 v (advance p 1) b3 = Inr b3" if "length (decimal v) = ?d" for v
    unfolding p using that assms(6,10) by (intro decimal_loop_stale) (auto simp: INLINE_BUFFER_SIZE_def)
  have prep: "prepare_int_buffer ?d spec [] b = Inr (p, b3)"
    using assms(3,6,10,11,12) b1(1) b3(1,2) cap by (simp add: prepare_int_buffer_def reserve_def Let_def)
  have "write_int 32 locale_sep (int v) spec b = Inr b3" if "length (decimal v) = ?d" "v < 2 ^ 32" for v
    using prep stale [OF that(1)] count_digits_decimal [of 32 v] that assms(4,5)
    by (simp add: write_int_def sign_prefix_def spec_flag_def format_decimal_def Let_def)
  moreover have "buf_size b3 = length cs + spec_width spec"
    using filling_length [OF b3(3)] ys(2) assms(6,10,11) by simp
  ultimately show ?thesis
    using assms(7,8,9) by auto
qed

theorem precision_left_loses_digits_witness:
  "\<exists>b b'. append_chars (replicate 490 CHR ''a'') MemoryBuffer = Inr b \<and>
    write_int 32 [] 7 \<lparr>spec_width = 20, spec_fill = CHR '' '', spec_align = ALIGN_LEFT, spec_flags = 0, spec_precision = 5, spec_type = CHR ''d''\<rparr> b = Inr b' \<and>
    write_int 32 [] 8 \<lparr>spec_width = 20, spec_fill = CHR '' '', spec_align = ALIGN_LEFT, spec_flags = 0, spec_precision = 5, spec_type = CHR ''d''\<rparr> b = Inr b'"
proof -
  obtain b where b: "append_chars (replicate 490 CHR ''a'') MemoryBuffer = Inr b" "holds b ([] @ replicate 490 CHR ''a'')"
    using append_chars_holds [OF holds_new] by metis
  have "block b = 0"
    using b(1) by (auto simp: append_chars_def MemoryBuffer_def INLINE_BUFFER_SIZE_def Let_def rbind_eq_Inr dest!: put_block)
  with b show ?thesis
    using precision_left_loses_digits [of b "replicate 490 CHR ''a''"
        "\<lparr>spec_width = 20, spec_fill = CHR '' '', spec_align = ALIGN_LEFT, spec_flags = 0, spec_precision = 5, spec_type = CHR ''d''\<rparr>" 7 8 "[]"]
    by (auto simp: decimal.simps)
qed

end
