(* ===== verification/Fmt_Format.thy ===== *)
theory Fmt_Format
  imports Fmt_Writer "HOL-Library.Sublist"
begin

text \<open>
  Format strings, from \<open>src/libs/spdlog/include/spdlog/fmt/bundled/format.h\<close>: the arguments, the
  visitor that writes one argument, the parser of a replacement field and
  \<open>BasicFormatter::format\<close>.  A pointer into the format string is the rest of the string up to its
  terminating zero, so that \<open>*s\<close> is \<open>peek\<close>.  \<open>Thrown\<close> carries the line that
  throws.  Arguments of floating-point, wide-string and user-defined types are left out; the packing of
  the argument types into one word is a list here.  The thousands separator of the C locale is a
  parameter.
\<close>

unbundle bit_operations_syntax

subsection \<open>Arguments\<close>

text \<open>A C string has an address, 0 for the null pointer; a string has its characters unless its data is null.\<close>

datatype fmt_value =
    Arg_INT int | Arg_UINT int | Arg_LONG_LONG int | Arg_ULONG_LONG int | Arg_BOOL bool | Arg_CHAR int
  | Arg_CSTRING int string | Arg_STRING "string option" | Arg_POINTER int

datatype fmt_arg = Positional fmt_value | Named string fmt_value

fun arg_value :: "fmt_arg \<Rightarrow> fmt_value" where
  "arg_value (Positional v) = v"
| "arg_value (Named n v) = v"

fun integer_type :: "fmt_value \<Rightarrow> bool" where
  "integer_type (Arg_CSTRING p s) = False"
| "integer_type (Arg_STRING s) = False"
| "integer_type (Arg_POINTER p) = False"
| "integer_type v = True"

abbreviation numeric_type :: "fmt_value \<Rightarrow> bool" where
  "numeric_type v \<equiv> integer_type v"

subsection \<open>Writing one argument\<close>

definition write_str_value :: "string option \<Rightarrow> format_spec \<Rightarrow> mem_buffer \<Rightarrow> mem_buffer result" where
  "write_str_value s spec b =
     (if spec_type spec \<noteq> CHR 0x00 \<and> spec_type spec \<noteq> CHR ''s'' then Inl (Thrown 3223)
      else case s of
        None \<Rightarrow> Inl (Thrown 3230)
      | Some str \<Rightarrow>
          write_str (if 0 \<le> spec_precision spec \<and> nat (spec_precision spec) < length str
                     then take (nat (spec_precision spec)) str else str) spec b)"

definition write_pointer :: "string \<Rightarrow> int \<Rightarrow> format_spec \<Rightarrow> mem_buffer \<Rightarrow> mem_buffer result" where
  "write_pointer locale_sep p spec b = write_int 64 locale_sep p (spec\<lparr>spec_flags := HASH_FLAG, spec_type := CHR ''x''\<rparr>) b"

definition visit_bool :: "string \<Rightarrow> bool \<Rightarrow> format_spec \<Rightarrow> mem_buffer \<Rightarrow> mem_buffer result" where
  "visit_bool locale_sep v spec b =
     (if spec_type spec \<noteq> CHR 0x00 then write_int 32 locale_sep (if v then 1 else 0) spec b
      else write_str_value (Some (if v then ''true'' else ''false'')) spec b)"

definition visit_char :: "string \<Rightarrow> int \<Rightarrow> format_spec \<Rightarrow> mem_buffer \<Rightarrow> mem_buffer result" where
  "visit_char locale_sep v spec b =
     (if spec_type spec \<noteq> CHR 0x00 \<and> spec_type spec \<noteq> CHR ''c''
      then write_int 32 locale_sep v (spec\<lparr>spec_flags := spec_flags spec OR CHAR_FLAG\<rparr>) b
      else if spec_align spec = ALIGN_NUMERIC \<or> spec_flags spec \<noteq> 0 then Inl (Thrown 2364)
      else
        (let c = char_of (nat (v mod 256)); width = spec_width spec; fill = spec_fill spec in
         if width > 1 then
           (let (out, b) = grow_buffer width b in
            if spec_align spec = ALIGN_RIGHT then
              rbind (put out (replicate (width - 1) fill) b) (\<lambda>b. put (advance out (int (width - 1))) [c] b)
            else if spec_align spec = ALIGN_CENTER then
              rbind (fill_padding out width 1 fill b) (\<lambda>(out, b). put out [c] b)
            else rbind (put (advance out 1) (replicate (width - 1) fill) b) (\<lambda>b. put out [c] b))
         else (let (out, b) = grow_buffer 1 b in put out [c] b)))"

definition visit_cstring :: "string \<Rightarrow> int \<Rightarrow> string \<Rightarrow> format_spec \<Rightarrow> mem_buffer \<Rightarrow> mem_buffer result" where
  "visit_cstring locale_sep p s spec b =
     (if spec_type spec = CHR ''p'' then write_pointer locale_sep p spec b
      else write_str_value (if p = 0 then None else Some s) spec b)"

definition visit_pointer :: "string \<Rightarrow> int \<Rightarrow> format_spec \<Rightarrow> mem_buffer \<Rightarrow> mem_buffer result" where
  "visit_pointer locale_sep p spec b =
     (if spec_type spec \<noteq> CHR 0x00 \<and> spec_type spec \<noteq> CHR ''p'' then Inl (Thrown 2418)
      else write_pointer locale_sep p spec b)"

fun visit :: "string \<Rightarrow> format_spec \<Rightarrow> fmt_value \<Rightarrow> mem_buffer \<Rightarrow> mem_buffer result" where
  "visit sep spec (Arg_INT v) = write_int 32 sep v spec"
| "visit sep spec (Arg_UINT v) = write_int 32 sep v spec"
| "visit sep spec (Arg_LONG_LONG v) = write_int 64 sep v spec"
| "visit sep spec (Arg_ULONG_LONG v) = write_int 64 sep v spec"
| "visit sep spec (Arg_BOOL v) = visit_bool sep v spec"
| "visit sep spec (Arg_CHAR v) = visit_char sep v spec"
| "visit sep spec (Arg_CSTRING p s) = visit_cstring sep p s spec"
| "visit sep spec (Arg_STRING s) = write_str_value s spec"
| "visit sep spec (Arg_POINTER p) = visit_pointer sep p spec"

subsection \<open>Parsing\<close>

definition peek :: "string \<Rightarrow> char" where
  "peek s = (case s of [] \<Rightarrow> CHR 0x00 | c # _ \<Rightarrow> c)"

definition is_digit :: "char \<Rightarrow> bool" where
  "is_digit c \<longleftrightarrow> 48 \<le> (of_char c :: nat) \<and> (of_char c :: nat) \<le> 57"

definition is_name_start :: "char \<Rightarrow> bool" where
  "is_name_start c \<longleftrightarrow> 97 \<le> (of_char c :: nat) \<and> (of_char c :: nat) \<le> 122 \<or>
     65 \<le> (of_char c :: nat) \<and> (of_char c :: nat) \<le> 90 \<or> c = CHR ''_''"

text \<open>
  The loop of \<open>parse_nonnegative_int\<close> in \<open>unsigned\<close> arithmetic, with its test for wrap-around.
\<close>

fun nonnegative_loop :: "nat \<Rightarrow> string \<Rightarrow> nat \<times> string" where
  "nonnegative_loop val [] = (val, [])"
| "nonnegative_loop val (c # s) =
     (if is_digit c then
        (let new_value = (val * 10 + (of_char c - 48)) mod 2 ^ 32 in
         if new_value < val then (2 ^ 32 - 1, s) else nonnegative_loop new_value s)
      else (val, c # s))"

definition parse_nonnegative_int :: "string \<Rightarrow> (nat \<times> string) result" where
  "parse_nonnegative_int s =
     rbind (c_assert False (is_digit (peek s))) (\<lambda>_.
     let (val, s) = nonnegative_loop 0 s in
     if val > 2 ^ 31 - 1 then Inl (Thrown 4197) else Inr (val, s))"

definition require_numeric_argument :: "fmt_value \<Rightarrow> unit result" where
  "require_numeric_argument v = (if \<not> numeric_type v then Inl (Thrown 4207) else Inr ())"

definition check_sign :: "fmt_value \<Rightarrow> unit result" where
  "check_sign v =
     rbind (require_numeric_argument v) (\<lambda>_.
     case v of Arg_UINT _ \<Rightarrow> Inl (Thrown 4218) | Arg_ULONG_LONG _ \<Rightarrow> Inl (Thrown 4218) | _ \<Rightarrow> Inr ())"

text \<open>
  Taking an argument.  \<open>nx\<close> is \<open>next_arg_index_\<close>: positive after automatic numbering, -1 after
  manual numbering.  An error is the line that sets the message.
\<close>

definition do_get_arg :: "fmt_arg list \<Rightarrow> nat \<Rightarrow> int + fmt_value" where
  "do_get_arg args i = (if i < length args then Inr (arg_value (args ! i)) else Inl 454)"

definition next_arg :: "fmt_arg list \<Rightarrow> int \<Rightarrow> (int + fmt_value) \<times> int" where
  "next_arg args nx = (if 0 \<le> nx then (do_get_arg args (nat nx), nx + 1) else (Inl 2449, nx))"

definition get_arg :: "fmt_arg list \<Rightarrow> int \<Rightarrow> nat \<Rightarrow> (int + fmt_value) \<times> int" where
  "get_arg args nx i = (if nx > 0 then (Inl 2464, nx) else (do_get_arg args i, - 1))"

fun find_named :: "fmt_arg list \<Rightarrow> string \<Rightarrow> fmt_value option" where
  "find_named [] n = None"
| "find_named (Positional v # args) n = find_named args n"
| "find_named (Named m v # args) n = (if m = n then Some v else find_named args n)"

definition get_named_arg :: "fmt_arg list \<Rightarrow> int \<Rightarrow> string \<Rightarrow> (int + fmt_value) \<times> int" where
  "get_named_arg args nx n =
     (if nx > 0 then (Inl 2464, nx)
      else (case find_named args n of None \<Rightarrow> Inl 4235 | Some v \<Rightarrow> Inr v, - 1))"

definition parse_arg_index :: "fmt_arg list \<Rightarrow> int \<Rightarrow> string \<Rightarrow> (fmt_value \<times> int \<times> string) result" where
  "parse_arg_index args nx s =
     rbind (if is_digit (peek s)
            then rbind (parse_nonnegative_int s) (\<lambda>(i, s). Inr (get_arg args nx i, s))
            else Inr (next_arg args nx, s)) (\<lambda>((r, nx), s).
     case r of
       Inl e \<Rightarrow> Inl (Thrown (if peek s \<noteq> CHR ''}'' \<and> peek s \<noteq> CHR '':'' then 4249 else e))
     | Inr v \<Rightarrow> Inr (v, nx, s))"

definition parse_arg_name :: "fmt_arg list \<Rightarrow> int \<Rightarrow> string \<Rightarrow> (fmt_value \<times> int \<times> string) result" where
  "parse_arg_name args nx s =
     rbind (c_assert False (is_name_start (peek s))) (\<lambda>_.
     let p = (\<lambda>c. is_name_start c \<or> is_digit c);
         (r, nx) = get_named_arg args nx (takeWhile p s) in
     case r of Inl e \<Rightarrow> Inl (Thrown e) | Inr v \<Rightarrow> Inr (v, nx, dropWhile p s))"

definition parse_arg :: "fmt_arg list \<Rightarrow> int \<Rightarrow> string \<Rightarrow> (fmt_value \<times> int \<times> string) result" where
  "parse_arg args nx s = (if is_name_start (peek s) then parse_arg_name args nx s else parse_arg_index args nx s)"

definition align_of :: "char \<Rightarrow> Alignment" where
  "align_of c =
     (if c = CHR ''<'' then ALIGN_LEFT else if c = CHR ''>'' then ALIGN_RIGHT
      else if c = CHR ''='' then ALIGN_NUMERIC else if c = CHR ''^'' then ALIGN_CENTER else ALIGN_DEFAULT)"

definition parse_align :: "fmt_value \<Rightarrow> format_spec \<Rightarrow> string \<Rightarrow> (format_spec \<times> string) result" where
  "parse_align v spec s =
     (case s of
        [] \<Rightarrow> Inr (spec, s)
      | c # s1 \<Rightarrow>
          (let a = align_of (peek s1) in
           if a \<noteq> ALIGN_DEFAULT then
             (if c = CHR ''}'' then Inr (spec\<lparr>spec_align := a\<rparr>, s)
              else if c = CHR ''{'' then Inl (Thrown 4315)
              else rbind (if a = ALIGN_NUMERIC then require_numeric_argument v else Inr ()) (\<lambda>_.
                Inr (spec\<lparr>spec_align := a, spec_fill := c\<rparr>, tl s1)))
           else
             (let a = align_of c in
              if a \<noteq> ALIGN_DEFAULT then
                rbind (if a = ALIGN_NUMERIC then require_numeric_argument v else Inr ()) (\<lambda>_.
                  Inr (spec\<lparr>spec_align := a\<rparr>, s1))
              else Inr (spec\<lparr>spec_align := ALIGN_DEFAULT\<rparr>, s))))"

definition parse_sign :: "fmt_value \<Rightarrow> format_spec \<Rightarrow> string \<Rightarrow> (format_spec \<times> string) result" where
  "parse_sign v spec s =
     (case s of
        [] \<Rightarrow> Inr (spec, s)
      | c # s1 \<Rightarrow>
          if c = CHR ''+'' then rbind (check_sign v) (\<lambda>_. Inr (spec\<lparr>spec_flags := spec_flags spec OR (SIGN_FLAG OR PLUS_FLAG)\<rparr>, s1))
          else if c = CHR ''-'' then rbind (check_sign v) (\<lambda>_. Inr (spec\<lparr>spec_flags := spec_flags spec OR MINUS_FLAG\<rparr>, s1))
          else if c = CHR '' '' then rbind (check_sign v) (\<lambda>_. Inr (spec\<lparr>spec_flags := spec_flags spec OR SIGN_FLAG\<rparr>, s1))
          else Inr (spec, s))"

definition parse_hash :: "fmt_value \<Rightarrow> format_spec \<Rightarrow> string \<Rightarrow> (format_spec \<times> string) result" where
  "parse_hash v spec s =
     (case s of
        [] \<Rightarrow> Inr (spec, s)
      | c # s1 \<Rightarrow>
          if c = CHR ''#'' then rbind (require_numeric_argument v) (\<lambda>_. Inr (spec\<lparr>spec_flags := spec_flags spec OR HASH_FLAG\<rparr>, s1))
          else Inr (spec, s))"

definition parse_zero :: "fmt_value \<Rightarrow> format_spec \<Rightarrow> string \<Rightarrow> (format_spec \<times> string) result" where
  "parse_zero v spec s =
     (case s of
        [] \<Rightarrow> Inr (spec, s)
      | c # s1 \<Rightarrow>
          if c = CHR ''0'' then rbind (require_numeric_argument v) (\<lambda>_.
            Inr (spec\<lparr>spec_align := ALIGN_NUMERIC, spec_fill := CHR ''0''\<rparr>, s1))
          else Inr (spec, s))"

text \<open>The value of an argument used as width or precision; the lines are those of the three errors.\<close>

definition int_argument :: "int \<Rightarrow> int \<Rightarrow> int \<Rightarrow> fmt_value \<Rightarrow> nat result" where
  "int_argument negative not_integer too_big v =
     rbind (case v of
         Arg_INT i \<Rightarrow> if i < 0 then Inl (Thrown negative) else Inr i
       | Arg_UINT i \<Rightarrow> Inr i
       | Arg_LONG_LONG i \<Rightarrow> if i < 0 then Inl (Thrown negative) else Inr i
       | Arg_ULONG_LONG i \<Rightarrow> Inr i
       | _ \<Rightarrow> Inl (Thrown not_integer)) (\<lambda>i.
     if i > 2 ^ 31 - 1 then Inl (Thrown too_big) else Inr (nat i))"

definition parse_width :: "fmt_arg list \<Rightarrow> int \<Rightarrow> format_spec \<Rightarrow> string \<Rightarrow> (format_spec \<times> int \<times> string) result" where
  "parse_width args nx spec s =
     (if is_digit (peek s) then rbind (parse_nonnegative_int s) (\<lambda>(w, s). Inr (spec\<lparr>spec_width := w\<rparr>, nx, s))
      else case s of
        [] \<Rightarrow> Inr (spec, nx, s)
      | c # s1 \<Rightarrow>
          if c = CHR ''{'' then
            rbind (parse_arg args nx s1) (\<lambda>(v, nx, s).
            case s of
              [] \<Rightarrow> Inl (Thrown 4372)
            | d # s \<Rightarrow>
                if d \<noteq> CHR ''}'' then Inl (Thrown 4372)
                else rbind (int_argument 4378 4393 4396 v) (\<lambda>w. Inr (spec\<lparr>spec_width := w\<rparr>, nx, s)))
          else Inr (spec, nx, s))"

definition parse_precision :: "fmt_arg list \<Rightarrow> int \<Rightarrow> fmt_value \<Rightarrow> format_spec \<Rightarrow> string \<Rightarrow> (format_spec \<times> int \<times> string) result" where
  "parse_precision args nx v spec s =
     (case s of
        [] \<Rightarrow> Inr (spec, nx, s)
      | c # s \<Rightarrow>
          if c \<noteq> CHR ''.'' then Inr (spec, nx, c # s)
          else
            rbind (if is_digit (peek s) then rbind (parse_nonnegative_int s) (\<lambda>(p, s). Inr (p, nx, s))
                   else case s of
                     [] \<Rightarrow> Inl (Thrown 4444)
                   | d # s1 \<Rightarrow>
                       if d = CHR ''{'' then
                         rbind (parse_arg args nx s1) (\<lambda>(v, nx, s).
                         case s of
                           [] \<Rightarrow> Inl (Thrown 4415)
                         | d # s \<Rightarrow>
                             if d \<noteq> CHR ''}'' then Inl (Thrown 4415)
                             else rbind (int_argument 4421 4436 4439 v) (\<lambda>p. Inr (p, nx, s)))
                       else Inl (Thrown 4444)) (\<lambda>(p, nx, s).
            if integer_type v \<or> (case v of Arg_POINTER _ \<Rightarrow> True | _ \<Rightarrow> False) then Inl (Thrown 4448)
            else Inr (spec\<lparr>spec_precision := int p\<rparr>, nx, s)))"

definition parse_type :: "format_spec \<Rightarrow> string \<Rightarrow> format_spec \<times> string" where
  "parse_type spec s =
     (case s of [] \<Rightarrow> (spec, s) | c # s1 \<Rightarrow> if c \<noteq> CHR ''}'' then (spec\<lparr>spec_type := c\<rparr>, s1) else (spec, s))"

definition parse_spec :: "fmt_arg list \<Rightarrow> int \<Rightarrow> fmt_value \<Rightarrow> string \<Rightarrow> (format_spec \<times> int \<times> string) result" where
  "parse_spec args nx v s =
     (let spec = FormatSpec 0 CHR 0x00 CHR '' '' in
      case s of
        [] \<Rightarrow> Inr (spec, nx, s)
      | c # s1 \<Rightarrow>
          if c \<noteq> CHR '':'' then Inr (spec, nx, s)
          else
            rbind (parse_align v spec s1) (\<lambda>(spec, s).
            rbind (parse_sign v spec s) (\<lambda>(spec, s).
            rbind (parse_hash v spec s) (\<lambda>(spec, s).
            rbind (parse_zero v spec s) (\<lambda>(spec, s).
            rbind (parse_width args nx spec s) (\<lambda>(spec, nx, s).
            rbind (parse_precision args nx v spec s) (\<lambda>(spec, nx, s).
            let (spec, s) = parse_type spec s in Inr (spec, nx, s))))))))"

definition close_field :: "string \<Rightarrow> string result" where
  "close_field s = (case s of [] \<Rightarrow> Inl (Thrown 4460) | c # s \<Rightarrow> if c \<noteq> CHR ''}'' then Inl (Thrown 4460) else Inr s)"

text \<open>A replacement field behind its opening brace: the argument, its specifier and the rest of the format string.\<close>

definition parse_field :: "fmt_arg list \<Rightarrow> int \<Rightarrow> string \<Rightarrow> (fmt_value \<times> format_spec \<times> int \<times> string) result" where
  "parse_field args nx s =
     rbind (parse_arg args nx s) (\<lambda>(v, nx, s).
     rbind (parse_spec args nx v s) (\<lambda>(spec, nx, s).
     rbind (close_field s) (\<lambda>s. Inr (v, spec, nx, s))))"

definition write_run :: "string \<Rightarrow> mem_buffer \<Rightarrow> mem_buffer result" where
  "write_run run b = (if run = [] then Inr b else append_chars run b)"

subsection \<open>What is parsed gets shorter\<close>

named_theorems parses \<open>what a parser leaves is a suffix of what it was given\<close>

lemma case_sum_eq_Inr: "(case r of Inl e \<Rightarrow> Inl (f e) | Inr v \<Rightarrow> Inr (g v)) = Inr y \<longleftrightarrow> (\<exists>v. r = Inr v \<and> g v = y)"
  by (cases r) auto

lemma suffix_tl: "suffix (tl s) s"
  by (cases s) (auto simp: suffix_ConsI)

lemma nonnegative_loop_suffix: "suffix (snd (nonnegative_loop val s)) s"
  by (induction val s rule: nonnegative_loop.induct) (auto simp: Let_def suffix_ConsI)

lemma parse_nonnegative_int_suffix [parses]: "parse_nonnegative_int s = Inr (w, s') \<Longrightarrow> suffix s' s"
  using nonnegative_loop_suffix [of 0 s]
  by (auto simp: parse_nonnegative_int_def rbind_eq_Inr split: prod.splits if_splits)

lemma parse_arg_index_suffix: "parse_arg_index args nx s = Inr (v, nx', s') \<Longrightarrow> suffix s' s"
  by (cases "is_digit (peek s)")
     (auto simp: parse_arg_index_def rbind_eq_Inr case_sum_eq_Inr split: prod.split_asm dest: parse_nonnegative_int_suffix)

lemma parse_arg_name_suffix: "parse_arg_name args nx s = Inr (v, nx', s') \<Longrightarrow> suffix s' s"
  by (auto simp: parse_arg_name_def Let_def rbind_eq_Inr suffix_dropWhile split: prod.splits sum.splits)

lemma parse_arg_suffix [parses]: "parse_arg args nx s = Inr (v, nx', s') \<Longrightarrow> suffix s' s"
  by (auto simp: parse_arg_def dest: parse_arg_index_suffix parse_arg_name_suffix split: if_splits)

lemma parse_align_suffix [parses]: "parse_align v spec s = Inr (spec', s') \<Longrightarrow> suffix s' s"
  by (auto simp: parse_align_def Let_def rbind_eq_Inr suffix_ConsI suffix_tl split: list.splits if_splits)

lemma parse_sign_suffix [parses]: "parse_sign v spec s = Inr (spec', s') \<Longrightarrow> suffix s' s"
  by (auto simp: parse_sign_def rbind_eq_Inr suffix_ConsI split: list.splits if_splits)

lemma parse_hash_suffix [parses]: "parse_hash v spec s = Inr (spec', s') \<Longrightarrow> suffix s' s"
  by (auto simp: parse_hash_def rbind_eq_Inr suffix_ConsI split: list.splits if_splits)

lemma parse_zero_suffix [parses]: "parse_zero v spec s = Inr (spec', s') \<Longrightarrow> suffix s' s"
  by (auto simp: parse_zero_def rbind_eq_Inr suffix_ConsI split: list.splits if_splits)

text \<open>A width or precision taken from an argument in braces.\<close>

lemma braced_suffix:
  assumes "rbind (parse_arg args nx s) (\<lambda>(v, nx, s). case s of [] \<Rightarrow> Inl e
      | d # s \<Rightarrow> if d \<noteq> CHR ''}'' then Inl e else rbind (g v) (\<lambda>w. Inr (h w, nx, s))) = Inr (r, nx', s')"
  shows "suffix s' s" "\<exists>w. r = h w"
proof -
  obtain v n t where p: "parse_arg args nx s = Inr (v, n, t)" and
    "(case t of [] \<Rightarrow> Inl e | d # s \<Rightarrow> if d \<noteq> CHR ''}'' then Inl e else rbind (g v) (\<lambda>w. Inr (h w, n, s))) = Inr (r, nx', s')"
    using assms by (auto simp: rbind_eq_Inr)
  then have "t = CHR ''}'' # s'" "\<exists>w. r = h w"
    by (auto simp: rbind_eq_Inr split: list.split_asm if_split_asm)
  with parse_arg_suffix [OF p] show "suffix s' s" "\<exists>w. r = h w"
    by (simp_all add: suffix_ConsD)
qed

lemma parse_width_suffix [parses]:
  assumes "parse_width args nx spec s = Inr (spec', nx', s')"
  shows "suffix s' s"
proof (cases "is_digit (peek s)")
  case True
  with assms show ?thesis
    by (auto simp: parse_width_def rbind_eq_Inr dest: parse_nonnegative_int_suffix)
next
  case False
  with assms show ?thesis
    by (cases s) (auto simp: parse_width_def dest: braced_suffix(1) intro: suffix_ConsI split: if_split_asm)
qed

lemma parse_precision_suffix [parses]:
  assumes "parse_precision args nx v spec s = Inr (spec', nx', s')"
  shows "suffix s' s"
proof (cases "peek s = CHR ''.''")
  case True
  then obtain t where t: "s = CHR ''.'' # t"
    by (cases s) (auto simp: peek_def)
  have "suffix s' t"
  proof (cases "is_digit (peek t)")
    case True
    with assms t show ?thesis
      by (auto simp: parse_precision_def rbind_eq_Inr dest: parse_nonnegative_int_suffix split: if_split_asm)
  next
    case False
    obtain p n where "(case t of [] \<Rightarrow> Inl (Thrown 4444) | d # s1 \<Rightarrow>
        if d = CHR ''{'' then
          rbind (parse_arg args nx s1) (\<lambda>(v, nx, s). case s of [] \<Rightarrow> Inl (Thrown 4415)
            | d # s \<Rightarrow> if d \<noteq> CHR ''}'' then Inl (Thrown 4415) else rbind (int_argument 4421 4436 4439 v) (\<lambda>p. Inr (p, nx, s)))
        else Inl (Thrown 4444)) = Inr (p, n, s')"
      using assms t False by (auto simp: parse_precision_def rbind_eq_Inr split: if_split_asm)
    then show ?thesis
      by (cases t) (auto dest: braced_suffix(1) [where h = "\<lambda>p. p"] intro: suffix_ConsI split: if_split_asm)
  qed
  with t show ?thesis by (simp add: suffix_ConsI)
next
  case False
  with assms show ?thesis
    by (cases s) (auto simp: parse_precision_def peek_def)
qed

lemma parse_type_suffix [parses]: "snd (parse_type spec s) = s' \<Longrightarrow> suffix s' s"
  by (auto simp: parse_type_def suffix_ConsI split: list.splits if_splits)

lemma parse_spec_suffix [parses]:
  assumes "parse_spec args nx v s = Inr (spec, nx', s')"
  shows "suffix s' s"
proof (cases "peek s = CHR '':''")
  case True
  then obtain s0 where s0: "s = CHR '':'' # s0"
    by (cases s) (auto simp: peek_def)
  with assms obtain p1 s1 p2 s2 p3 s3 p4 s4 p5 n5 s5 p6 n6 s6 where
    "parse_align v (FormatSpec 0 CHR 0x00 CHR '' '') s0 = Inr (p1, s1)" "parse_sign v p1 s1 = Inr (p2, s2)"
    "parse_hash v p2 s2 = Inr (p3, s3)" "parse_zero v p3 s3 = Inr (p4, s4)"
    "parse_width args nx p4 s4 = Inr (p5, n5, s5)" "parse_precision args n5 v p5 s5 = Inr (p6, n6, s6)"
    "snd (parse_type p6 s6) = s'"
    by (auto simp: parse_spec_def Let_def rbind_eq_Inr case_prod_beta)
  then have "suffix s' s0"
    by (meson parses suffix_order.trans)
  with s0 show ?thesis by (simp add: suffix_ConsI)
next
  case False
  with assms show ?thesis by (auto simp: parse_spec_def Let_def peek_def split: list.splits)
qed

lemma parse_field_suffix:
  assumes "parse_field args nx s = Inr (v, spec, nx', s')"
  shows "suffix (CHR ''}'' # s') s"
proof -
  obtain n1 s1 n2 s2 where "parse_arg args nx s = Inr (v, n1, s1)" "parse_spec args n1 v s1 = Inr (spec, n2, s2)" "close_field s2 = Inr s'"
    using assms by (auto simp: parse_field_def rbind_eq_Inr)
  moreover from this(3) have "s2 = CHR ''}'' # s'"
    by (auto simp: close_field_def split: list.splits if_splits)
  ultimately show ?thesis
    by (metis parse_arg_suffix parse_spec_suffix suffix_order.trans)
qed

lemma parse_field_shorter: "parse_field args nx s = Inr (v, spec, nx', s') \<Longrightarrow> length s' < length s"
  by (drule parse_field_suffix) (auto dest: suffix_length_le)

subsection \<open>The format string\<close>

function format_loop :: "string \<Rightarrow> fmt_arg list \<Rightarrow> int \<Rightarrow> string \<Rightarrow> string \<Rightarrow> mem_buffer \<Rightarrow> mem_buffer result" where
  "format_loop sep args nx run [] b = write_run run b"
| "format_loop sep args nx run (c # s) b =
     (if c \<noteq> CHR ''{'' \<and> c \<noteq> CHR ''}'' then format_loop sep args nx (run @ [c]) s b
      else if peek s = c then
        (case write_run (run @ [c]) b of Inl e \<Rightarrow> Inl e | Inr b \<Rightarrow> format_loop sep args nx [] (tl s) b)
      else if c = CHR ''}'' then Inl (Thrown 4483)
      else
        (case write_run run b of Inl e \<Rightarrow> Inl e
         | Inr b \<Rightarrow>
           (case parse_field args nx s of Inl e \<Rightarrow> Inl e
            | Inr (v, spec, nx, s) \<Rightarrow>
              (case visit sep spec v b of Inl e \<Rightarrow> Inl e
               | Inr b \<Rightarrow> format_loop sep args nx [] s b))))"
  by pat_completeness auto
termination
  by (relation "measure (\<lambda>(sep, args, nx, run, s, b). length s)")
     (auto simp: less_Suc_eq dest: parse_field_shorter)

definition format :: "string \<Rightarrow> fmt_arg list \<Rightarrow> string \<Rightarrow> mem_buffer \<Rightarrow> mem_buffer result" where
  "format sep args format_str b = format_loop sep args 0 [] (takeWhile (\<lambda>c. c \<noteq> CHR 0x00) format_str) b"

subsection \<open>The parser throws and never faults\<close>

definition only_throws :: "'a result \<Rightarrow> bool" where
  "only_throws m \<longleftrightarrow> (\<forall>e. m = Inl e \<longrightarrow> (\<exists>l. e = Thrown l))"

named_theorems throwing \<open>computations whose only faults are exceptions\<close>

lemma only_throws_intros [throwing]:
  "only_throws (Inr x)" "only_throws (Inl (Thrown l))"
  "only_throws m \<Longrightarrow> (\<And>x. m = Inr x \<Longrightarrow> only_throws (f x)) \<Longrightarrow> only_throws (rbind m f)"
  by (auto simp: only_throws_def rbind_def split: sum.splits)

lemma parse_nonnegative_int_throws [throwing]: "is_digit (peek s) \<Longrightarrow> only_throws (parse_nonnegative_int s)"
  by (auto simp: parse_nonnegative_int_def only_throws_def split: prod.splits)

lemma require_numeric_throws [throwing]: "only_throws (require_numeric_argument v)"
  by (simp add: require_numeric_argument_def only_throws_def)

lemma check_sign_throws [throwing]: "only_throws (check_sign v)"
  by (cases v) (auto simp: check_sign_def intro!: throwing)

lemma parse_arg_throws [throwing]: "only_throws (parse_arg args nx s)"
  by (auto simp: parse_arg_def parse_arg_name_def parse_arg_index_def Let_def intro!: throwing split: prod.splits sum.splits)

lemma int_argument_throws [throwing]: "only_throws (int_argument x y z v)"
  by (cases v) (auto simp: int_argument_def intro!: throwing)

lemma parse_flags_throw [throwing]:
  "only_throws (parse_align v spec s)" "only_throws (parse_sign v spec s)" "only_throws (parse_hash v spec s)"
  "only_throws (parse_zero v spec s)"
  by (auto simp: parse_align_def parse_sign_def parse_hash_def parse_zero_def Let_def intro!: throwing split: list.splits)

lemma parse_width_throws [throwing]: "only_throws (parse_width args nx spec s)"
  by (auto simp: parse_width_def intro!: throwing split: list.splits)

lemma parse_precision_throws [throwing]: "only_throws (parse_precision args nx v spec s)"
  by (auto simp: parse_precision_def intro!: throwing split: list.splits)

lemma parse_spec_throws [throwing]: "only_throws (parse_spec args nx v s)"
  by (auto simp: parse_spec_def Let_def intro!: throwing split: list.splits prod.splits)

lemma parse_field_throws [throwing]: "only_throws (parse_field args nx s)"
  by (auto simp: parse_field_def close_field_def intro!: throwing split: list.splits prod.splits)

subsection \<open>The text of an argument\<close>

definition str_value_text :: "string option \<Rightarrow> format_spec \<Rightarrow> string result" where
  "str_value_text s spec =
     (if spec_type spec \<noteq> CHR 0x00 \<and> spec_type spec \<noteq> CHR ''s'' then Inl (Thrown 3223)
      else case s of
        None \<Rightarrow> Inl (Thrown 3230)
      | Some str \<Rightarrow> Inr (str_text spec (if 0 \<le> spec_precision spec then take (nat (spec_precision spec)) str else str)))"

definition int_value_text :: "string \<Rightarrow> format_spec \<Rightarrow> int \<Rightarrow> string result" where
  "int_value_text sep spec v = (if spec_type spec \<in> int_types then Inr (int_text sep spec v) else Inl (Thrown 3448))"

fun visit_text :: "string \<Rightarrow> format_spec \<Rightarrow> fmt_value \<Rightarrow> string result" where
  "visit_text sep spec (Arg_INT v) = int_value_text sep spec v"
| "visit_text sep spec (Arg_UINT v) = int_value_text sep spec v"
| "visit_text sep spec (Arg_LONG_LONG v) = int_value_text sep spec v"
| "visit_text sep spec (Arg_ULONG_LONG v) = int_value_text sep spec v"
| "visit_text sep spec (Arg_BOOL v) =
     (if spec_type spec \<noteq> CHR 0x00 then int_value_text sep spec (if v then 1 else 0)
      else str_value_text (Some (if v then ''true'' else ''false'')) spec)"
| "visit_text sep spec (Arg_CHAR v) =
     (if spec_type spec \<noteq> CHR 0x00 \<and> spec_type spec \<noteq> CHR ''c''
      then int_value_text sep (spec\<lparr>spec_flags := spec_flags spec OR CHAR_FLAG\<rparr>) v
      else if spec_align spec = ALIGN_NUMERIC \<or> spec_flags spec \<noteq> 0 then Inl (Thrown 2364)
      else Inr (str_text spec [char_of (nat (v mod 256))]))"
| "visit_text sep spec (Arg_CSTRING p s) = str_value_text (if p = 0 then None else Some s) spec"
| "visit_text sep spec (Arg_STRING s) = str_value_text s spec"
| "visit_text sep spec (Arg_POINTER p) =
     (if spec_type spec \<noteq> CHR 0x00 \<and> spec_type spec \<noteq> CHR ''p'' then Inl (Thrown 2418)
      else Inr (int_text sep (spec\<lparr>spec_flags := HASH_FLAG, spec_type := CHR ''x''\<rparr>) p))"

fun value_ok :: "fmt_value \<Rightarrow> bool" where
  "value_ok (Arg_INT v) = in_range 32 v"
| "value_ok (Arg_UINT v) = in_range 32 v"
| "value_ok (Arg_LONG_LONG v) = in_range 64 v"
| "value_ok (Arg_ULONG_LONG v) = in_range 64 v"
| "value_ok (Arg_CHAR v) = in_range 32 v"
| "value_ok (Arg_POINTER p) = in_range 64 p"
| "value_ok v = True"

definition appends :: "(mem_buffer \<Rightarrow> mem_buffer result) \<Rightarrow> string result \<Rightarrow> bool" where
  "appends m r \<longleftrightarrow> (\<forall>b cs. holds b cs \<longrightarrow>
     (case r of Inl e \<Rightarrow> m b = Inl e | Inr t \<Rightarrow> \<exists>b'. m b = Inr b' \<and> holds b' (cs @ t)))"

lemma appendsD:
  assumes "appends m r" "holds b cs"
  obtains (err) e where "r = Inl e" "m b = Inl e" | (ok) t b' where "r = Inr t" "m b = Inr b'" "holds b' (cs @ t)"
  using assms unfolding appends_def by (cases r) fastforce+

lemma write_int_appends:
  assumes "in_range bits v" "spec_precision spec < 0"
  shows "appends (write_int bits sep v spec) (int_value_text sep spec v)"
proof -
  have "spec_type spec \<notin> int_types \<Longrightarrow> write_int bits sep v spec b = Inl (Thrown 3448)" for b
    by (simp add: write_int_def int_types_def)
  moreover have "keeps spec b" for b
    using assms(2) by (simp add: keeps_def)
  ultimately show ?thesis
    using write_int_holds [OF assms(1)] by (auto simp: appends_def int_value_text_def)
qed

lemma write_str_value_appends: "appends (write_str_value s spec) (str_value_text s spec)"
  using write_str_holds
  by (auto simp: appends_def write_str_value_def str_value_text_def split: option.splits)

lemma visit_char_str:
  "visit_char sep v spec =
     (if spec_type spec \<noteq> CHR 0x00 \<and> spec_type spec \<noteq> CHR ''c''
      then write_int 32 sep v (spec\<lparr>spec_flags := spec_flags spec OR CHAR_FLAG\<rparr>)
      else if spec_align spec = ALIGN_NUMERIC \<or> spec_flags spec \<noteq> 0 then (\<lambda>b. Inl (Thrown 2364))
      else write_str [char_of (nat (v mod 256))] spec)"
proof
  fix b
  have "visit_char sep v spec b =
     (if spec_type spec \<noteq> CHR 0x00 \<and> spec_type spec \<noteq> CHR ''c''
      then write_int 32 sep v (spec\<lparr>spec_flags := spec_flags spec OR CHAR_FLAG\<rparr>) b
      else if spec_align spec = ALIGN_NUMERIC \<or> spec_flags spec \<noteq> 0 then Inl (Thrown 2364)
      else write_str [char_of (nat (v mod 256))] spec b)"
    unfolding visit_char_def write_str_def Let_def list.size add_0 One_nat_def [symmetric] of_nat_1 by (rule refl)
  then show "visit_char sep v spec b =
     (if spec_type spec \<noteq> CHR 0x00 \<and> spec_type spec \<noteq> CHR ''c''
      then write_int 32 sep v (spec\<lparr>spec_flags := spec_flags spec OR CHAR_FLAG\<rparr>)
      else if spec_align spec = ALIGN_NUMERIC \<or> spec_flags spec \<noteq> 0 then (\<lambda>b. Inl (Thrown 2364))
      else write_str [char_of (nat (v mod 256))] spec) b"
    by simp
qed

lemma write_str_appends: "appends (write_str s spec) (Inr (str_text spec s))"
  using write_str_holds by (auto simp: appends_def)

lemma throw_appends: "appends (\<lambda>b. Inl e) (Inl e)"
  by (simp add: appends_def)

text \<open>What the parser allows: no precision with integers and pointers.  A C string printed as a pointer is the gap.\<close>

definition fits :: "format_spec \<Rightarrow> fmt_value \<Rightarrow> bool" where
  "fits spec v \<longleftrightarrow>
     (case v of Arg_CSTRING _ _ \<Rightarrow> spec_type spec \<noteq> CHR ''p'' | Arg_STRING _ \<Rightarrow> True | _ \<Rightarrow> spec_precision spec < 0)"

lemma visit_appends:
  assumes "value_ok v" "fits spec v"
  shows "appends (visit sep spec v) (visit_text sep spec v)"
proof (cases v)
  case (Arg_CHAR c)
  then have "appends (write_int 32 sep c (spec\<lparr>spec_flags := spec_flags spec OR CHAR_FLAG\<rparr>))
      (int_value_text sep (spec\<lparr>spec_flags := spec_flags spec OR CHAR_FLAG\<rparr>) c)"
    using assms by (intro write_int_appends) (auto simp: fits_def)
  with Arg_CHAR show ?thesis
    using write_str_appends throw_appends by (simp add: visit_char_str)
next
  case (Arg_POINTER p)
  have "visit_pointer sep p spec =
      (if spec_type spec \<noteq> CHR 0x00 \<and> spec_type spec \<noteq> CHR ''p'' then (\<lambda>b. Inl (Thrown 2418))
       else write_int 64 sep p (spec\<lparr>spec_flags := HASH_FLAG, spec_type := CHR ''x''\<rparr>))"
    by (auto simp: visit_pointer_def write_pointer_def)
  with Arg_POINTER show ?thesis
    using assms throw_appends write_int_appends [of 64 p "spec\<lparr>spec_flags := HASH_FLAG, spec_type := CHR ''x''\<rparr>" sep]
    by (simp add: fits_def int_value_text_def int_types_def)
next
  case (Arg_BOOL x)
  have "in_range 32 (if x then 1 else 0)" by (simp add: in_range_def)
  moreover have "visit_bool sep x spec =
      (if spec_type spec \<noteq> CHR 0x00 then write_int 32 sep (if x then 1 else 0) spec
       else write_str_value (Some (if x then ''true'' else ''false'')) spec)"
    by (auto simp: visit_bool_def)
  ultimately show ?thesis
    using Arg_BOOL assms(2) write_int_appends [of 32 "if x then 1 else 0" spec sep] write_str_value_appends
    by (simp add: fits_def)
next
  case (Arg_CSTRING p s)
  with assms(2) have "visit_cstring sep p s spec = write_str_value (if p = 0 then None else Some s) spec"
    by (auto simp: visit_cstring_def fits_def)
  with Arg_CSTRING show ?thesis
    using write_str_value_appends by simp
qed (use assms write_int_appends write_str_value_appends in \<open>simp_all add: fits_def\<close>)

subsection \<open>What the parser lets through\<close>

named_theorems keeps_fields \<open>the steps of the parser leave precision and type alone\<close>

lemma parse_flags_keep [keeps_fields]:
  "parse_align v spec s = Inr (spec', s') \<Longrightarrow> spec_precision spec' = spec_precision spec \<and> spec_type spec' = spec_type spec"
  "parse_sign v spec s = Inr (spec', s') \<Longrightarrow> spec_precision spec' = spec_precision spec \<and> spec_type spec' = spec_type spec"
  "parse_hash v spec s = Inr (spec', s') \<Longrightarrow> spec_precision spec' = spec_precision spec \<and> spec_type spec' = spec_type spec"
  "parse_zero v spec s = Inr (spec', s') \<Longrightarrow> spec_precision spec' = spec_precision spec \<and> spec_type spec' = spec_type spec"
  by (auto simp: parse_align_def parse_sign_def parse_hash_def parse_zero_def Let_def rbind_eq_Inr split: list.split_asm if_split_asm)

lemma parse_width_keeps [keeps_fields]:
  assumes "parse_width args nx spec s = Inr (spec', nx', s')"
  shows "spec_precision spec' = spec_precision spec \<and> spec_type spec' = spec_type spec"
proof (cases "is_digit (peek s)")
  case True
  with assms show ?thesis by (auto simp: parse_width_def rbind_eq_Inr)
next
  case False
  with assms have "\<exists>w. spec' = spec\<lparr>spec_width := w\<rparr> \<or> spec' = spec"
    by (cases s) (auto simp: parse_width_def dest: braced_suffix(2) split: if_split_asm)
  then show ?thesis by auto
qed

definition precision_refused :: "fmt_value \<Rightarrow> bool" where
  "precision_refused v \<longleftrightarrow> integer_type v \<or> (case v of Arg_POINTER _ \<Rightarrow> True | _ \<Rightarrow> False)"

lemma parse_precision_keeps:
  assumes "parse_precision args nx v spec s = Inr (spec', nx', s')"
  shows "spec_type spec' = spec_type spec \<and> (precision_refused v \<longrightarrow> spec_precision spec' = spec_precision spec)"
  using assms unfolding parse_precision_def precision_refused_def [symmetric]
  by (cases s) (auto simp: rbind_eq_Inr split: if_split_asm)

lemma parse_type_in: "spec_precision (fst (parse_type spec s)) = spec_precision spec \<and>
    (spec_type (fst (parse_type spec s)) = spec_type spec \<or> spec_type (fst (parse_type spec s)) \<in> set s)"
  by (auto simp: parse_type_def split: list.splits)

lemma parse_spec_fits:
  assumes "parse_spec args nx v s = Inr (spec, nx', s')"
  shows "(precision_refused v \<longrightarrow> spec_precision spec = - 1) \<and> (spec_type spec = CHR 0x00 \<or> spec_type spec \<in> set s)"
proof (cases "peek s = CHR '':''")
  case True
  let ?d = "FormatSpec 0 CHR 0x00 CHR '' ''"
  from True obtain s0 where s0: "s = CHR '':'' # s0"
    by (cases s) (auto simp: peek_def)
  with assms obtain p1 s1 p2 s2 p3 s3 p4 s4 p5 n5 s5 p6 n6 s6 where
    p: "parse_align v ?d s0 = Inr (p1, s1)" "parse_sign v p1 s1 = Inr (p2, s2)"
    "parse_hash v p2 s2 = Inr (p3, s3)" "parse_zero v p3 s3 = Inr (p4, s4)"
    "parse_width args nx p4 s4 = Inr (p5, n5, s5)" "parse_precision args n5 v p5 s5 = Inr (p6, n6, s6)"
    "fst (parse_type p6 s6) = spec"
    by (auto simp: parse_spec_def Let_def rbind_eq_Inr case_prod_beta)
  have "suffix s6 s0"
    using p(1-6) by (meson parses suffix_order.trans)
  then have "set s6 \<subseteq> set s"
    using s0 by (auto dest: set_mono_suffix)
  moreover have "spec_precision p5 = - 1" "spec_type p5 = CHR 0x00"
    using keeps_fields(1) [OF p(1)] keeps_fields(2) [OF p(2)] keeps_fields(3) [OF p(3)] keeps_fields(4) [OF p(4)]
      parse_width_keeps [OF p(5)] by (simp_all add: FormatSpec_def)
  ultimately show ?thesis
    using parse_precision_keeps [OF p(6)] parse_type_in [of p6 s6] p(7) by auto
next
  case False
  with assms show ?thesis
    by (cases s) (auto simp: parse_spec_def Let_def peek_def FormatSpec_def split: if_split_asm)
qed

lemma do_get_arg_in: "do_get_arg args i = Inr v \<Longrightarrow> v \<in> arg_value ` set args"
  by (auto simp: do_get_arg_def split: if_splits)

lemma find_named_in: "find_named args n = Some v \<Longrightarrow> v \<in> arg_value ` set args"
  by (induction args n rule: find_named.induct) (auto split: if_splits)

lemma parse_arg_in:
  assumes "parse_arg args nx s = Inr (v, nx', s')"
  shows "v \<in> arg_value ` set args"
proof (cases "is_name_start (peek s)")
  case True
  then have "fst (get_named_arg args nx (takeWhile (\<lambda>c. is_name_start c \<or> is_digit c) s)) = Inr v"
    using assms by (auto simp: parse_arg_def parse_arg_name_def Let_def rbind_eq_Inr split: prod.split_asm sum.split_asm)
  then show ?thesis
    by (auto simp: get_named_arg_def split: if_split_asm option.split_asm dest: find_named_in)
next
  case False
  then have "(\<exists>n. next_arg args nx = (Inr v, n)) \<or> (\<exists>i n. get_arg args nx i = (Inr v, n))"
    using assms
    by (cases "is_digit (peek s)")
       (auto simp: parse_arg_def parse_arg_index_def rbind_eq_Inr case_sum_eq_Inr split: prod.split_asm)
  then show ?thesis
    by (auto simp: get_arg_def next_arg_def dest: do_get_arg_in split: if_split_asm)
qed

definition safe_args :: "fmt_arg list \<Rightarrow> string \<Rightarrow> bool" where
  "safe_args args s \<longleftrightarrow> list_all (\<lambda>a. value_ok (arg_value a) \<and>
     (case arg_value a of Arg_CSTRING _ _ \<Rightarrow> CHR ''p'' \<notin> set s | _ \<Rightarrow> True)) args"

lemma safe_args_mono: "safe_args args s \<Longrightarrow> set s' \<subseteq> set s \<Longrightarrow> safe_args args s'"
  unfolding safe_args_def list_all_iff by (auto split: fmt_value.splits)

lemma parse_field_fits:
  assumes "parse_field args nx s = Inr (v, spec, nx', s')" "safe_args args s"
  shows "value_ok v \<and> fits spec v"
proof -
  obtain n1 s1 s2 where a: "parse_arg args nx s = Inr (v, n1, s1)" and p: "parse_spec args n1 v s1 = Inr (spec, nx', s2)"
    using assms(1) by (auto simp: parse_field_def rbind_eq_Inr)
  have "set s1 \<subseteq> set s"
    using parse_arg_suffix [OF a] by (rule set_mono_suffix)
  moreover have "value_ok v" "case v of Arg_CSTRING _ _ \<Rightarrow> CHR ''p'' \<notin> set s | _ \<Rightarrow> True"
    using parse_arg_in [OF a] assms(2) by (auto simp: safe_args_def list_all_iff)
  ultimately show ?thesis
    using parse_spec_fits [OF p] by (cases v) (auto simp: fits_def precision_refused_def)
qed

subsection \<open>Parsing and rendering as two passes\<close>

datatype piece = Lit char | Field fmt_value format_spec

function parse_format :: "fmt_arg list \<Rightarrow> int \<Rightarrow> string \<Rightarrow> piece list result" where
  "parse_format args nx [] = Inr []"
| "parse_format args nx (c # s) =
     (if c \<noteq> CHR ''{'' \<and> c \<noteq> CHR ''}'' then rbind (parse_format args nx s) (\<lambda>ps. Inr (Lit c # ps))
      else if peek s = c then rbind (parse_format args nx (tl s)) (\<lambda>ps. Inr (Lit c # ps))
      else if c = CHR ''}'' then Inl (Thrown 4483)
      else
        (case parse_field args nx s of Inl e \<Rightarrow> Inl e
         | Inr (v, spec, nx, s) \<Rightarrow> rbind (parse_format args nx s) (\<lambda>ps. Inr (Field v spec # ps))))"
  by pat_completeness auto
termination
  by (relation "measure (\<lambda>(args, nx, s). length s)")
     (auto simp: less_Suc_eq dest: parse_field_shorter)

fun render :: "string \<Rightarrow> piece list \<Rightarrow> string result" where
  "render sep [] = Inr []"
| "render sep (Lit c # ps) = rbind (render sep ps) (\<lambda>t. Inr (c # t))"
| "render sep (Field v spec # ps) = rbind (visit_text sep spec v) (\<lambda>t. rbind (render sep ps) (\<lambda>u. Inr (t @ u)))"

text \<open>The outcome a run of the formatter should have behind what the buffer holds.\<close>

definition outcome :: "string \<Rightarrow> piece list result \<Rightarrow> string \<Rightarrow> mem_buffer result \<Rightarrow> bool" where
  "outcome sep r cs m \<longleftrightarrow>
     (case rbind r (render sep) of
        Inl e \<Rightarrow> \<exists>l. m = Inl (Thrown l)
      | Inr t \<Rightarrow> \<exists>b. m = Inr b \<and> holds b (cs @ t))"

lemma outcome_Lit: "outcome sep r (cs @ [c]) m \<Longrightarrow> outcome sep (rbind r (\<lambda>ps. Inr (Lit c # ps))) cs m"
  by (cases r) (auto simp: outcome_def rbind_def split: sum.splits)

lemma outcome_Field: "visit_text sep spec v = Inr t \<Longrightarrow> outcome sep r (cs @ t) m \<Longrightarrow> outcome sep (rbind r (\<lambda>ps. Inr (Field v spec # ps))) cs m"
  by (cases r) (auto simp: outcome_def rbind_def split: sum.splits)

lemma outcome_Field_throws:
  "visit_text sep spec v = Inl (Thrown l) \<Longrightarrow> outcome sep (rbind r (\<lambda>ps. Inr (Field v spec # ps))) cs (Inl (Thrown l))"
  by (cases r) (auto simp: outcome_def)

lemma write_run_holds:
  assumes "holds b cs"
  obtains b' where "write_run run b = Inr b'" "holds b' (cs @ run)"
proof (cases "run = []")
  case True
  with assms that [of b] show thesis by (simp add: write_run_def)
next
  case False
  with append_chars_holds [OF assms, of run] that show thesis by (auto simp: write_run_def)
qed

lemma visit_text_throws: "visit_text sep spec v = Inl e \<Longrightarrow> \<exists>l. e = Thrown l"
  by (cases v) (auto simp: int_value_text_def str_value_text_def split: if_split_asm option.split_asm)

lemma format_loop_outcome:
  "holds b cs \<Longrightarrow> safe_args args s \<Longrightarrow> outcome sep (parse_format args nx s) (cs @ run) (format_loop sep args nx run s b)"
proof (induction sep args nx run s b arbitrary: cs rule: format_loop.induct)
  case (1 sep args nx run b)
  from write_run_holds [OF 1(1), of run] show ?case
    by (auto simp: outcome_def)
next
  case (2 sep args nx run c s b)
  note IH = "2.IH" and b = "2.prems"(1)
  have safe: "safe_args args s" "safe_args args (tl s)"
    using safe_args_mono [OF "2.prems"(2), of s] safe_args_mono [OF "2.prems"(2), of "tl s"] set_mono_suffix [OF suffix_tl, of s]
    by auto
  consider (plain) "c \<noteq> CHR ''{''" "c \<noteq> CHR ''}''" | (double) "c = CHR ''{'' \<or> c = CHR ''}''" "peek s = c"
    | (unmatched) "c = CHR ''}''" "peek s \<noteq> c" | (field) "c = CHR ''{''" "peek s \<noteq> c"
    by blast
  then show ?case
  proof cases
    case plain
    with IH(1) [OF _ b safe(1)] show ?thesis by (auto intro: outcome_Lit)
  next
    case double
    obtain b' where b': "write_run (run @ [c]) b = Inr b'" "holds b' (cs @ run @ [c])"
      using write_run_holds [OF b] by metis
    with IH(2) [OF _ double(2) b'(1) b'(2) safe(2)] double show ?thesis
      by (auto intro: outcome_Lit)
  next
    case unmatched
    then show ?thesis by (auto simp: outcome_def)
  next
    case field
    obtain b1 where b1: "write_run run b = Inr b1" "holds b1 (cs @ run)"
      using write_run_holds [OF b] by metis
    show ?thesis
    proof (cases "parse_field args nx s")
      case (Inl e)
      then obtain l where "e = Thrown l"
        using parse_field_throws [of args nx s] by (auto simp: only_throws_def)
      with Inl field b1(1) show ?thesis by (simp add: outcome_def)
    next
      case (Inr x)
      then obtain v spec nx' s' where x: "parse_field args nx s = Inr (v, spec, nx', s')"
        by (cases x) auto
      have safe': "safe_args args s'"
        using safe_args_mono [OF safe(1), of s'] set_mono_suffix [OF parse_field_suffix [OF x]] by simp
      have fits: "value_ok v" "fits spec v"
        using parse_field_fits [OF x safe(1)] by simp_all
      show ?thesis
      proof (cases rule: appendsD [OF visit_appends [OF fits, of sep] b1(2)])
        case (1 e)
        then obtain l where "e = Thrown l"
          using visit_text_throws by metis
        with 1 x field b1(1) show ?thesis
          using outcome_Field_throws [of sep spec v l] by simp
      next
        case (2 t b')
        have "outcome sep (parse_format args nx' s') ((cs @ run @ t) @ []) (format_loop sep args nx' [] s' b')"
          using field b1(1) x 2 safe' by (intro IH(3)) auto
        then have "outcome sep (rbind (parse_format args nx' s') (\<lambda>ps. Inr (Field v spec # ps))) (cs @ run) (format_loop sep args nx' [] s' b')"
          using 2(1) by (intro outcome_Field) auto
        with 2 x field b1(1) show ?thesis by simp
      qed
    qed
  qed
qed

end
