(* ===== verification/Fmt_Props.thy ===== *)
theory Fmt_Props
  imports Fmt_Format
begin

unbundle bit_operations_syntax

text \<open>
  Properties of the format strings of \<open>Fmt_Format\<close>: the one pass of the formatter against parsing
  and rendering, escaped text and replacement fields, the round trip of format specifiers and the
  range of the numbers in them.
\<close>

lemmas parser_defs = parse_field_def parse_arg_def parse_arg_index_def parse_arg_name_def is_name_start_def is_digit_def
  peek_def parse_nonnegative_int_def get_arg_def next_arg_def do_get_arg_def parse_spec_def parse_align_def align_of_def
  parse_sign_def parse_hash_def parse_zero_def require_numeric_argument_def parse_width_def parse_precision_def
  parse_type_def close_field_def FormatSpec_def Let_def

lemmas text_defs = int_value_text_def int_types_def int_text_def int_digits_def number_layout_def aligned_layout_def
  int_prefix_def sign_prefix_def spec_flag_def str_value_text_def str_text_def Let_def FormatSpec_def

lemma format_outcome:
  assumes "holds b cs" "safe_args args fs" "CHR 0x00 \<notin> set fs"
  shows "outcome sep (parse_format args 0 fs) cs (format sep args fs b)"
proof -
  have "takeWhile (\<lambda>c. c \<noteq> CHR 0x00) fs = fs"
    using assms(3) by (auto simp: takeWhile_eq_all_conv)
  then have "format sep args fs b = format_loop sep args 0 [] fs b"
    by (simp only: format_def)
  then show ?thesis
    using format_loop_outcome [OF assms(1,2), of sep 0 "[]"] by simp
qed



subsection \<open>Text and plain fields\<close>

fun escape :: "string \<Rightarrow> string" where
  "escape [] = []"
| "escape (c # s) = (if c = CHR ''{'' \<or> c = CHR ''}'' then c # c # escape s else c # escape s)"

lemma parse_format_escape: "parse_format args nx (escape t @ s) = rbind (parse_format args nx s) (\<lambda>ps. Inr (map Lit t @ ps))"
proof (induction t)
  case Nil
  show ?case by (cases "parse_format args nx s") auto
next
  case (Cons c t)
  then show ?case by (cases "parse_format args nx s") (auto simp: peek_def)
qed

abbreviation default_spec :: format_spec where
  "default_spec \<equiv> FormatSpec 0 CHR 0x00 CHR '' ''"

lemma parse_field_plain:
  "n < length args \<Longrightarrow> parse_field args (int n) (CHR ''}'' # s) = Inr (arg_value (args ! n), default_spec, int n + 1, s)"
  by (simp add: parse_field_def parse_arg_def parse_arg_index_def is_name_start_def is_digit_def peek_def next_arg_def
      do_get_arg_def parse_spec_def close_field_def)

definition template :: "(string \<times> fmt_arg) list \<Rightarrow> string \<Rightarrow> string" where
  "template xs t = concat (map (\<lambda>(t, a). escape t @ ''{}'') xs) @ escape t"

lemma parse_template:
  "parse_format (pre @ map snd xs) (int (length pre)) (template xs t) =
     Inr (concat (map (\<lambda>(t, a). map Lit t @ [Field (arg_value a) default_spec]) xs) @ map Lit t)"
proof (induction xs arbitrary: pre)
  case Nil
  show ?case using parse_format_escape [of pre "int (length pre)" t "[]"] by (simp add: template_def)
next
  case (Cons x xs)
  obtain u a where x: "x = (u, a)" by fastforce
  have "template (x # xs) t = escape u @ CHR ''{'' # CHR ''}'' # template xs t"
    by (simp add: template_def x)
  moreover have "peek (CHR ''}'' # template xs t) = CHR ''}''"
    by (simp add: peek_def)
  moreover have "int (length pre) + 1 = int (length (pre @ [a]))" "pre @ map snd (x # xs) = (pre @ [a]) @ map snd xs"
    by (simp_all add: x)
  ultimately show ?case
    using Cons [of "pre @ [a]"] parse_field_plain [of "length pre" "pre @ map snd (x # xs)" "template xs t"]
    by (simp add: parse_format_escape x nth_append add.commute)
qed

lemma render_append: "render sep (ps @ qs) = rbind (render sep ps) (\<lambda>t. rbind (render sep qs) (\<lambda>u. Inr (t @ u)))"
  by (induction sep ps rule: render.induct) (auto simp: rbind_def split: sum.splits)

lemma render_Lit: "render sep (map Lit t) = Inr t"
  by (induction t) auto

lemma render_template:
  assumes "list_all (\<lambda>(t, a). visit_text sep default_spec (arg_value a) = Inr (f a)) xs"
  shows "render sep (concat (map (\<lambda>(t, a). map Lit t @ [Field (arg_value a) default_spec]) xs) @ map Lit t) =
    Inr (concat (map (\<lambda>(t, a). t @ f a) xs) @ t)"
  using assms by (induction xs) (auto simp: render_append render_Lit)

text \<open>
  Replacement fields.  A format string of texts, with their braces doubled, and empty fields in between
  is formatted to the texts with the arguments in their places, in order, each in its default form; for
  an integer argument that is the number in decimal.
\<close>

theorem format_substitutes:
  assumes "holds b cs" "safe_args (map snd xs) (template xs t)" "CHR 0x00 \<notin> set (template xs t)"
    and "list_all (\<lambda>(t, a). visit_text sep default_spec (arg_value a) = Inr (f a)) xs"
  shows "(\<exists>b'. format sep (map snd xs) (template xs t) b = Inr b' \<and> holds b' (cs @ concat (map (\<lambda>(t, a). t @ f a) xs) @ t)) \<and>
    visit_text sep default_spec (Arg_INT n) = Inr ((if n < 0 then ''-'' else []) @ decimal (nat \<bar>n\<bar>))"
proof -
  have "rbind (parse_format (map snd xs) 0 (template xs t)) (render sep) = Inr (concat (map (\<lambda>(t, a). t @ f a) xs) @ t)"
    using parse_template [of "[]" xs t] render_template [OF assms(4)] by simp
  moreover have "int_text sep default_spec n = (if n < 0 then ''-'' else []) @ decimal (nat \<bar>n\<bar>)"
    using plain_text [of sep "CHR 0x00" n] by (simp add: TypeSpec_def int_digits_def)
  ultimately show ?thesis
    using format_outcome [OF assms(1,2,3), of sep]
    by (simp add: outcome_def int_value_text_def int_types_def FormatSpec_def)
qed

theorem format_substitutes_witness:
  "(\<exists>b'. format [] (map snd [(''{'', Positional (Arg_INT (- 5))), (''}='', Positional (Arg_BOOL True))])
      (template [(''{'', Positional (Arg_INT (- 5))), (''}='', Positional (Arg_BOOL True))] ''!'') MemoryBuffer = Inr b' \<and> holds b' ''{-5}=true!'') \<and>
    visit_text [] default_spec (Arg_INT 12) = Inr ''12''"
proof -
  let ?f = "\<lambda>a. case arg_value a of Arg_BOOL _ \<Rightarrow> ''true'' | _ \<Rightarrow> ''-5''"
  let ?xs = "[(''{'', Positional (Arg_INT (- 5))), (''}='', Positional (Arg_BOOL True))]"
  have d: "decimal 5 = ''5''" "decimal 12 = ''12''"
    by (simp_all add: decimal.simps digit_char_def char_of_def bit_0)
  then have v: "visit_text [] default_spec (Arg_INT (- 5)) = Inr ''-5''" "visit_text [] default_spec (Arg_BOOL True) = Inr ''true''"
    by (simp_all add: text_defs)
  show ?thesis
    using format_substitutes [OF holds_new, of ?xs "''!''" "[]" ?f 12] d v
    by (simp add: safe_args_def in_range_def template_def)
qed

subsection \<open>Numbers and specifiers\<close>

lemma of_char_digit [simp]: "d < 10 \<Longrightarrow> of_char (digit_char d) = 48 + d"
  by (simp add: digit_char_def)

lemma is_digit_digit_char [simp]: "d < 10 \<Longrightarrow> is_digit (digit_char d)"
  by (simp add: is_digit_def)

lemma nonnegative_loop_decimal: "n < 2 ^ 32 \<Longrightarrow> nonnegative_loop 0 (decimal n @ s) = nonnegative_loop n s"
proof (induction n arbitrary: s rule: less_induct)
  case (less n)
  show ?case
  proof (cases "n < 10")
    case True
    then show ?thesis by (simp add: decimal.simps [of n])
  next
    case False
    then have "nonnegative_loop 0 (decimal (n div 10) @ digit_char (n mod 10) # s) =
        nonnegative_loop (n div 10) (digit_char (n mod 10) # s)"
      using less.IH [of "n div 10"] less.prems by simp
    also have "\<dots> = nonnegative_loop n s"
      using less.prems div_le_dividend [of n 10] by (simp add: not_less [symmetric])
    finally show ?thesis
      using False by (simp add: decimal.simps [of n])
  qed
qed

lemma nonnegative_loop_stop: "\<not> is_digit (peek s) \<Longrightarrow> nonnegative_loop n s = (n, s)"
  by (cases s) (auto simp: peek_def)

lemma hd_decimal: "is_digit (hd (decimal n))" "0 < n \<Longrightarrow> hd (decimal n) \<noteq> CHR ''0''"
proof -
  have "\<exists>d < 10. hd (decimal n) = digit_char d \<and> (0 < n \<longrightarrow> 0 < d)"
  proof (induction n rule: less_induct)
    case (less n)
    show ?case
    proof (cases "n < 10")
      case True
      then show ?thesis by (auto simp: decimal.simps [of n])
    next
      case False
      then show ?thesis
        using less.IH [of "n div 10"] decimal_nonempty [of "n div 10"] by (auto simp: decimal.simps [of n])
    qed
  qed
  then obtain d where d: "d < 10" "hd (decimal n) = digit_char d" "0 < n \<longrightarrow> 0 < d"
    by blast
  then show "is_digit (hd (decimal n))" by simp
  show "hd (decimal n) \<noteq> CHR ''0''" if "0 < n"
  proof
    assume "hd (decimal n) = CHR ''0''"
    then have "of_char (digit_char d) = (of_char (CHR ''0'') :: nat)"
      using d(2) by (simp only:)
    then show False using d that by simp
  qed
qed

lemma peek_decimal: "peek (decimal n @ s) = hd (decimal n)"
  using decimal_nonempty [of n] by (cases "decimal n") (auto simp: peek_def)

lemma parse_nonnegative_int_decimal:
  assumes "n < 2 ^ 32" "\<not> is_digit (peek s)"
  shows "parse_nonnegative_int (decimal n @ s) = (if n \<le> 2 ^ 31 - 1 then Inr (n, s) else Inl (Thrown 4197))"
  using assms hd_decimal(1) [of n]
  by (simp add: parse_nonnegative_int_def nonnegative_loop_decimal nonnegative_loop_stop peek_decimal)



text \<open>A specifier as it is written, for the parts an integer argument allows, and the one it stands for.\<close>

fun align_char :: "Alignment \<Rightarrow> char" where
  "align_char ALIGN_LEFT = CHR ''<''"
| "align_char ALIGN_RIGHT = CHR ''>''"
| "align_char ALIGN_CENTER = CHR ''^''"
| "align_char _ = CHR ''=''"

datatype sign_option = No_sign | Plus | Minus | Space

fun sign_string :: "sign_option \<Rightarrow> string" where
  "sign_string No_sign = []"
| "sign_string Plus = ''+''"
| "sign_string Minus = ''-''"
| "sign_string Space = '' ''"

fun sign_flags :: "sign_option \<Rightarrow> 32 word" where
  "sign_flags No_sign = 0"
| "sign_flags Plus = SIGN_FLAG OR PLUS_FLAG"
| "sign_flags Minus = MINUS_FLAG"
| "sign_flags Space = SIGN_FLAG"

definition spec_string :: "char \<Rightarrow> Alignment \<Rightarrow> sign_option \<Rightarrow> bool \<Rightarrow> nat \<Rightarrow> char \<Rightarrow> string" where
  "spec_string fill align sign hash width type =
     fill # align_char align # sign_string sign @ (if hash then ''#'' else []) @ (if width = 0 then [] else decimal width) @ [type]"

definition spec_of :: "char \<Rightarrow> Alignment \<Rightarrow> sign_option \<Rightarrow> bool \<Rightarrow> nat \<Rightarrow> char \<Rightarrow> format_spec" where
  "spec_of fill align sign hash width type =
     \<lparr>spec_width = width, spec_fill = fill, spec_align = align, spec_flags = sign_flags sign OR (if hash then HASH_FLAG else 0),
      spec_precision = - 1, spec_type = type\<rparr>"

lemma align_of_char: "align \<noteq> ALIGN_DEFAULT \<Longrightarrow> align_of (align_char align) = align"
  by (cases align) (simp_all add: align_of_def)

lemma parse_width_decimal:
  assumes "width \<le> 2 ^ 31 - 1" "\<not> is_digit c" "c \<noteq> CHR ''{''" "spec_width spec = 0"
  shows "parse_width args nx spec ((if width = 0 then [] else decimal width) @ c # s) = Inr (spec\<lparr>spec_width := width\<rparr>, nx, c # s)"
proof (cases "width = 0")
  case True
  with assms show ?thesis by (simp add: parse_width_def peek_def)
next
  case False
  have "parse_nonnegative_int (decimal width @ c # s) = Inr (width, c # s)"
    using parse_nonnegative_int_decimal [of width "c # s"] assms by (simp add: peek_def)
  with False show ?thesis
    using hd_decimal(1) [of width] by (simp add: parse_width_def peek_decimal)
qed

lemma parse_align_string:
  "fill \<notin> set ''{}'' \<Longrightarrow> align \<noteq> ALIGN_DEFAULT \<Longrightarrow> numeric_type v \<Longrightarrow>
    parse_align v spec (fill # align_char align # s) = Inr (spec\<lparr>spec_align := align, spec_fill := fill\<rparr>, s)"
  by (simp add: parse_align_def peek_def align_of_char require_numeric_argument_def Let_def)

lemma parse_sign_string:
  "peek s \<notin> set ''+- '' \<Longrightarrow> check_sign v = Inr () \<Longrightarrow>
    parse_sign v spec (sign_string sign @ s) = Inr (spec\<lparr>spec_flags := spec_flags spec OR sign_flags sign\<rparr>, s)"
  by (cases sign; cases s) (auto simp: parse_sign_def peek_def)

lemma parse_hash_string:
  "peek s \<noteq> CHR ''#'' \<Longrightarrow> numeric_type v \<Longrightarrow>
    parse_hash v spec ((if hash then ''#'' else []) @ s) =
      Inr (spec\<lparr>spec_flags := spec_flags spec OR (if hash then HASH_FLAG else 0)\<rparr>, s)"
  by (cases s) (auto simp: parse_hash_def peek_def require_numeric_argument_def)

lemma parse_zero_absent: "peek s \<noteq> CHR ''0'' \<Longrightarrow> parse_zero v spec s = Inr (spec, s)"
  by (cases s) (auto simp: parse_zero_def peek_def)

text \<open>
  Specifiers.  Fill, alignment, sign, \<open>#\<close>, width and type of a signed integer argument, written in this
  order, are parsed to the specifier with exactly these parts, for every fill character but a brace and
  every width that fits an \<open>int\<close>; the parser stops at the closing brace and takes no further argument.
\<close>

theorem parse_spec_roundtrip:
  assumes "fill \<notin> set ''{}''" "align \<noteq> ALIGN_DEFAULT" "width \<le> 2 ^ 31 - 1" "type \<in> set ''dxXbBon''" "v = Arg_INT i \<or> v = Arg_LONG_LONG i"
  shows "parse_spec args nx v (CHR '':'' # spec_string fill align sign hash width type @ CHR ''}'' # s) =
    Inr (spec_of fill align sign hash width type, nx, CHR ''}'' # s)"
proof -
  let ?w = "(if width = 0 then [] else decimal width) @ type # CHR ''}'' # s"
  have v: "numeric_type v" "check_sign v = Inr ()"
    using assms(5) by (auto simp: check_sign_def require_numeric_argument_def)
  have t: "type \<notin> set ''+- #0.{}''" "\<not> is_digit type"
    using assms(4) by (auto simp: is_digit_def)
  have "peek ?w \<notin> set ''+- #0''"
  proof (cases "width = 0")
    case True
    with t show ?thesis by (simp add: peek_def)
  next
    case False
    with hd_decimal [of width] show ?thesis
      by (auto simp: peek_decimal is_digit_def)
  qed
  then have p: "peek ?w \<notin> set ''+- ''" "peek ?w \<noteq> CHR ''#''" "peek ?w \<noteq> CHR ''0''"
    by simp_all
  have h: "peek ((if hash then ''#'' else []) @ ?w) \<notin> set ''+- ''"
    using p(1) by (simp add: peek_def)
  show ?thesis
    using parse_align_string [OF assms(1,2) v(1)] parse_sign_string [OF h v(2)] parse_hash_string [OF p(2) v(1)]
      parse_zero_absent [OF p(3)] parse_width_decimal [OF assms(3) t(2)] t(1)
    by (simp add: parse_spec_def spec_string_def spec_of_def FormatSpec_def parse_precision_def parse_type_def)
qed

theorem parse_spec_roundtrip_witness:
  "parse_spec [] 1 (Arg_INT 7) (CHR '':'' # spec_string CHR ''*'' ALIGN_CENTER Plus True 12 CHR ''x'' @ ''}'') =
    Inr (spec_of CHR ''*'' ALIGN_CENTER Plus True 12 CHR ''x'', 1, ''}'')"
  using parse_spec_roundtrip [of "CHR ''*''" ALIGN_CENTER 12 "CHR ''x''" "Arg_INT 7" 7 "[]" 1 Plus True "[]"] by simp

end
