(* ===== verification/Spdlog_Files.thy ===== *)
theory Spdlog_Files
  imports Fmt_Props
begin

text \<open>
  The file sinks of spdlog: \<open>details/file_helper.h\<close>, the file functions of \<open>details/os.h\<close> and
  \<open>sinks/file_sinks.h\<close>.  The file system maps names to contents, and an open stream keeps what the
  C library has not written yet.  Every library call has a number; \<open>file_env\<close> says for each call
  whether it fails, how much of the stream's buffer the library writes out on its own, and what the clock
  shows.  Operations return the sink also when they throw, because the next message finds it in that
  state; \<open>Thrown\<close> carries the line that throws.  A stream is named by the file it was opened on: the
  sinks close a file before they rename or remove it.  File names hold no zero character.
\<close>

subsection \<open>Files and streams\<close>

record tm =
  tm_min :: int
  tm_hour :: int
  tm_mday :: int
  tm_mon :: int
  tm_year :: int
  tm_sec :: int

datatype file_call = Fopen | Fclose | Fflush | Fwrite | Remove | Rename | Stat | Fstat

record file_env =
  trouble :: "file_call \<Rightarrow> nat \<Rightarrow> bool"
  partial_count :: "nat \<Rightarrow> nat"
  spill :: "nat \<Rightarrow> nat"
  clock :: "nat \<Rightarrow> int"
  local_tm :: "int \<Rightarrow> tm"
  mktime :: "tm \<Rightarrow> int"

record file_world =
  files :: "string \<rightharpoonup> string"
  calls :: nat

record stream =
  stream_name :: string
  unflushed :: string

definition tick :: "file_world \<Rightarrow> file_world" where
  "tick w = w\<lparr>calls := Suc (calls w)\<rparr>"

definition write_out :: "string \<Rightarrow> string \<Rightarrow> file_world \<Rightarrow> file_world" where
  "write_out name cs w =
     (case files w name of None \<Rightarrow> w | Some c \<Rightarrow> w\<lparr>files := (files w)(name \<mapsto> c @ cs)\<rparr>)"

definition fopen_s :: "file_env \<Rightarrow> string \<Rightarrow> bool \<Rightarrow> file_world \<Rightarrow> stream option \<times> file_world" where
  "fopen_s e name trunc w =
     (if trouble e Fopen (calls w) then (None, tick w)
      else (Some \<lparr>stream_name = name, unflushed = []\<rparr>,
        tick w\<lparr>files := (files w)(name \<mapsto>
          (if trunc then [] else case files w name of None \<Rightarrow> [] | Some c \<Rightarrow> c))\<rparr>))"

definition fclose :: "file_env \<Rightarrow> stream \<Rightarrow> file_world \<Rightarrow> file_world" where
  "fclose e f w =
     (if trouble e Fclose (calls w) then tick w else tick (write_out (stream_name f) (unflushed f) w))"

definition fflush :: "file_env \<Rightarrow> stream \<Rightarrow> file_world \<Rightarrow> stream \<times> file_world" where
  "fflush e f w =
     (if trouble e Fflush (calls w) then (f, tick w)
      else (f\<lparr>unflushed := []\<rparr>, tick (write_out (stream_name f) (unflushed f) w)))"

definition fwrite :: "file_env \<Rightarrow> string \<Rightarrow> stream \<Rightarrow> file_world \<Rightarrow> nat \<times> stream \<times> file_world" where
  "fwrite e data f w =
     (let n = (if trouble e Fwrite (calls w) then min (partial_count e (calls w)) (length data - 1) else length data);
          cs = unflushed f @ take n data;
          k = spill e (calls w) in
      (n, f\<lparr>unflushed := drop k cs\<rparr>, tick (write_out (stream_name f) (take k cs) w)))"

definition remove_file :: "file_env \<Rightarrow> string \<Rightarrow> file_world \<Rightarrow> int \<times> file_world" where
  "remove_file e name w =
     (if trouble e Remove (calls w) \<or> files w name = None then (- 1, tick w)
      else (0, tick w\<lparr>files := (files w)(name := None)\<rparr>))"

definition rename_file :: "file_env \<Rightarrow> string \<Rightarrow> string \<Rightarrow> file_world \<Rightarrow> int \<times> file_world" where
  "rename_file e src target w =
     (if trouble e Rename (calls w) \<or> files w src = None then (- 1, tick w)
      else (0, tick w\<lparr>files := (files w)(src := None, target := files w src)\<rparr>))"

definition file_exists :: "file_env \<Rightarrow> string \<Rightarrow> file_world \<Rightarrow> bool \<times> file_world" where
  "file_exists e name w = (\<not> trouble e Stat (calls w) \<and> files w name \<noteq> None, tick w)"

definition filesize :: "file_env \<Rightarrow> stream \<Rightarrow> file_world \<Rightarrow> nat result \<times> file_world" where
  "filesize e f w =
     (case files w (stream_name f) of
        Some c \<Rightarrow> if trouble e Fstat (calls w) then (Inl (Thrown 250), tick w) else (Inr (length c), tick w)
      | None \<Rightarrow> (Inl (Thrown 250), tick w))"

subsection \<open>The file helper\<close>

record file_helper =
  helper_fd :: "stream option"
  helper_filename :: string

definition new_file_helper :: file_helper where
  "new_file_helper = \<lparr>helper_fd = None, helper_filename = []\<rparr>"

definition open_tries :: nat where
  "open_tries = 5"

definition close_file :: "file_env \<Rightarrow> file_helper \<Rightarrow> file_world \<Rightarrow> file_helper \<times> file_world" where
  "close_file e h w =
     (case helper_fd h of None \<Rightarrow> (h, w) | Some f \<Rightarrow> (h\<lparr>helper_fd := None\<rparr>, fclose e f w))"

fun open_loop :: "file_env \<Rightarrow> nat \<Rightarrow> string \<Rightarrow> bool \<Rightarrow> file_world \<Rightarrow> stream option \<times> file_world" where
  "open_loop e 0 name trunc w = (None, w)"
| "open_loop e (Suc tries) name trunc w =
     (case fopen_s e name trunc w of
        (Some f, w) \<Rightarrow> (Some f, w)
      | (None, w) \<Rightarrow> open_loop e tries name trunc w)"

definition open_file :: "file_env \<Rightarrow> string \<Rightarrow> bool \<Rightarrow> file_helper \<Rightarrow> file_world \<Rightarrow> unit result \<times> file_helper \<times> file_world" where
  "open_file e name trunc h w =
     (let (h, w) = close_file e h w; (f, w) = open_loop e open_tries name trunc w in
      (if f = None then Inl (Thrown 60) else Inr (), h\<lparr>helper_fd := f, helper_filename := name\<rparr>, w))"

definition reopen :: "file_env \<Rightarrow> bool \<Rightarrow> file_helper \<Rightarrow> file_world \<Rightarrow> unit result \<times> file_helper \<times> file_world" where
  "reopen e trunc h w =
     (if helper_filename h = [] then (Inl (Thrown 66), h, w) else open_file e (helper_filename h) trunc h w)"

text \<open>\<open>fflush\<close> of a null stream flushes the other streams of the process, of which the model has none.\<close>

definition flush_file :: "file_env \<Rightarrow> file_helper \<Rightarrow> file_world \<Rightarrow> file_helper \<times> file_world" where
  "flush_file e h w =
     (case helper_fd h of
        None \<Rightarrow> (h, tick w)
      | Some f \<Rightarrow> (let (f, w) = fflush e f w in (h\<lparr>helper_fd := Some f\<rparr>, w)))"

definition write_file :: "file_env \<Rightarrow> string \<Rightarrow> file_helper \<Rightarrow> file_world \<Rightarrow> unit result \<times> file_helper \<times> file_world" where
  "write_file e msg h w =
     (case helper_fd h of
        None \<Rightarrow> (Inl NullDeref, h, w)
      | Some f \<Rightarrow>
          (let (n, f, w) = fwrite e msg f w in
           (if n \<noteq> length msg then Inl (Thrown 91) else Inr (), h\<lparr>helper_fd := Some f\<rparr>, w)))"

definition size_file :: "file_env \<Rightarrow> file_helper \<Rightarrow> file_world \<Rightarrow> nat result \<times> file_world" where
  "size_file e h w =
     (case helper_fd h of None \<Rightarrow> (Inl (Thrown 97), w) | Some f \<Rightarrow> filesize e f w)"

text \<open>A computation that may throw, followed by another one in the state it leaves.\<close>

definition ebind :: "'a result \<times> 's \<Rightarrow> ('a \<Rightarrow> 's \<Rightarrow> 'b result \<times> 's) \<Rightarrow> 'b result \<times> 's" where
  "ebind m f = (case m of (Inl x, s) \<Rightarrow> (Inl x, s) | (Inr a, s) \<Rightarrow> f a s)"

subsection \<open>The simple file sink\<close>

record simple_file_sink =
  simple_force_flush :: bool
  simple_helper :: file_helper

definition new_simple_sink :: "file_env \<Rightarrow> string \<Rightarrow> bool \<Rightarrow> file_world \<Rightarrow> simple_file_sink result \<times> file_world" where
  "new_simple_sink e name trunc w =
     (let (r, h, w) = open_file e name trunc new_file_helper w in
      (rbind r (\<lambda>_. Inr \<lparr>simple_force_flush = False, simple_helper = h\<rparr>), w))"

definition set_force_flush :: "bool \<Rightarrow> simple_file_sink \<Rightarrow> simple_file_sink" where
  "set_force_flush force_flush s = s\<lparr>simple_force_flush := force_flush\<rparr>"

definition simple_flush :: "file_env \<Rightarrow> simple_file_sink \<Rightarrow> file_world \<Rightarrow> simple_file_sink \<times> file_world" where
  "simple_flush e s w = (let (h, w) = flush_file e (simple_helper s) w in (s\<lparr>simple_helper := h\<rparr>, w))"

definition simple_sink_it :: "file_env \<Rightarrow> string \<Rightarrow> simple_file_sink \<Rightarrow> file_world \<Rightarrow> unit result \<times> simple_file_sink \<times> file_world" where
  "simple_sink_it e msg s w =
     ebind (let (r, h, w) = write_file e msg (simple_helper s) w in (r, s\<lparr>simple_helper := h\<rparr>, w)) (\<lambda>_ (s, w).
     (Inr (), if simple_force_flush s then simple_flush e s w else (s, w)))"

subsection \<open>The rotating file sink\<close>

definition str :: "mem_buffer \<Rightarrow> string result" where
  "str b = (let cs = take (buf_size b) (mem b) in if None \<in> set cs then Inl Uninitialised else Inr (map the cs))"

definition calc_filename :: "string \<Rightarrow> nat \<Rightarrow> string result" where
  "calc_filename filename index =
     rbind (if index \<noteq> 0
            then format [] [Positional (Arg_STRING (Some filename)), Positional (Arg_ULONG_LONG (int index))] ''{}.{}'' MemoryBuffer
            else format [] [Positional (Arg_STRING (Some filename))] ''{}'' MemoryBuffer) str"

record rotating_file_sink =
  rot_base :: string
  rot_max_size :: nat
  rot_max_files :: nat
  rot_current_size :: nat
  rot_helper :: file_helper

definition new_rotating_sink :: "file_env \<Rightarrow> string \<Rightarrow> nat \<Rightarrow> nat \<Rightarrow> file_world \<Rightarrow> rotating_file_sink result \<times> file_world" where
  "new_rotating_sink e base max_size max_files w =
     (case calc_filename base 0 of
        Inl x \<Rightarrow> (Inl x, w)
      | Inr name \<Rightarrow>
          (let (r, h, w) = open_file e name False new_file_helper w in
           case r of
             Inl x \<Rightarrow> (Inl x, w)
           | Inr _ \<Rightarrow>
               (let (r, w) = size_file e h w in
                (rbind r (\<lambda>n. Inr \<lparr>rot_base = base, rot_max_size = max_size, rot_max_files = max_files,
                   rot_current_size = n, rot_helper = h\<rparr>), w))))"

fun rotate_files :: "file_env \<Rightarrow> string \<Rightarrow> nat \<Rightarrow> file_world \<Rightarrow> unit result \<times> file_world" where
  "rotate_files e base 0 w = (Inr (), w)"
| "rotate_files e base (Suc i) w =
     ebind (rbind (calc_filename base i) (\<lambda>src. rbind (calc_filename base (Suc i)) (\<lambda>target. Inr (src, target))), w)
       (\<lambda>(src, target) w.
     ebind (let (ex, w) = file_exists e target w in
            if ex then (let (r, w) = remove_file e target w in (if r \<noteq> 0 then Inl (Thrown 128) else Inr (), w))
            else (Inr (), w)) (\<lambda>_ w.
     ebind (let (ex, w) = file_exists e src w in
            if ex then (let (r, w) = rename_file e src target w in (if r \<noteq> 0 then Inl (Thrown 133) else Inr (), w))
            else (Inr (), w)) (\<lambda>_ w.
     rotate_files e base i w)))"

definition rotate_sink :: "file_env \<Rightarrow> rotating_file_sink \<Rightarrow> file_world \<Rightarrow> unit result \<times> rotating_file_sink \<times> file_world" where
  "rotate_sink e s w =
     (let (h, w) = close_file e (rot_helper s) w;
          s = s\<lparr>rot_helper := h\<rparr>;
          (r, w) = rotate_files e (rot_base s) (rot_max_files s) w in
      ebind (r, s, w) (\<lambda>_ (s, w).
      let (r, h, w) = reopen e True (rot_helper s) w in (r, s\<lparr>rot_helper := h\<rparr>, w)))"

definition rotating_sink_it :: "file_env \<Rightarrow> string \<Rightarrow> rotating_file_sink \<Rightarrow> file_world \<Rightarrow> unit result \<times> rotating_file_sink \<times> file_world" where
  "rotating_sink_it e msg s w =
     (let s = s\<lparr>rot_current_size := (rot_current_size s + length msg) mod 2 ^ 64\<rparr> in
      ebind (if rot_current_size s > rot_max_size s
             then ebind (rotate_sink e s w) (\<lambda>_ (s, w). (Inr (), s\<lparr>rot_current_size := length msg\<rparr>, w))
             else (Inr (), s, w)) (\<lambda>_ (s, w).
      let (r, h, w) = write_file e msg (rot_helper s) w in (r, s\<lparr>rot_helper := h\<rparr>, w)))"

definition rotating_flush :: "file_env \<Rightarrow> rotating_file_sink \<Rightarrow> file_world \<Rightarrow> rotating_file_sink \<times> file_world" where
  "rotating_flush e s w = (let (h, w) = flush_file e (rot_helper s) w in (s\<lparr>rot_helper := h\<rparr>, w))"

subsection \<open>The daily file sink\<close>

text \<open>The clock counts nanoseconds; \<open>time_t\<close> counts seconds.\<close>

definition now_tp :: "file_env \<Rightarrow> file_world \<Rightarrow> int \<times> file_world" where
  "now_tp e w = (clock e (calls w), tick w)"

definition localtime_now :: "file_env \<Rightarrow> file_world \<Rightarrow> tm \<times> file_world" where
  "localtime_now e w = (let (t, w) = now_tp e w in (local_tm e (t div 10 ^ 9), w))"

definition default_daily_filename :: "file_env \<Rightarrow> string \<Rightarrow> file_world \<Rightarrow> string result \<times> file_world" where
  "default_daily_filename e base w =
     (let (tm, w) = localtime_now e w in
      (rbind (format [] [Positional (Arg_STRING (Some base)), Positional (Arg_INT (tm_year tm + 1900)),
                 Positional (Arg_INT (tm_mon tm + 1)), Positional (Arg_INT (tm_mday tm)),
                 Positional (Arg_INT (tm_hour tm)), Positional (Arg_INT (tm_min tm))]
                ''{}_{:04d}-{:02d}-{:02d}_{:02d}-{:02d}'' MemoryBuffer) str, w))"

definition dateonly_daily_filename :: "file_env \<Rightarrow> string \<Rightarrow> file_world \<Rightarrow> string result \<times> file_world" where
  "dateonly_daily_filename e base w =
     (let (tm, w) = localtime_now e w in
      (rbind (format [] [Positional (Arg_STRING (Some base)), Positional (Arg_INT (tm_year tm + 1900)),
                 Positional (Arg_INT (tm_mon tm + 1)), Positional (Arg_INT (tm_mday tm))]
                ''{}_{:04d}-{:02d}-{:02d}'' MemoryBuffer) str, w))"

record daily_file_sink =
  day_base :: string
  day_rotation_h :: int
  day_rotation_m :: int
  day_rotation_tp :: int
  day_helper :: file_helper

definition next_rotation_tp :: "file_env \<Rightarrow> int \<Rightarrow> int \<Rightarrow> file_world \<Rightarrow> int \<times> file_world" where
  "next_rotation_tp e rotation_h rotation_m w =
     (let (now, w) = now_tp e w;
          date = (local_tm e (now div 10 ^ 9))\<lparr>tm_hour := rotation_h, tm_min := rotation_m, tm_sec := 0\<rparr>;
          rotation_time = mktime e date * 10 ^ 9 in
      (if rotation_time > now then rotation_time else rotation_time + 24 * 3600 * 10 ^ 9, w))"

text \<open>\<open>calc\<close> is the template argument \<open>FileNameCalc\<close>.\<close>

definition daily_open :: "(file_env \<Rightarrow> string \<Rightarrow> file_world \<Rightarrow> string result \<times> file_world) \<Rightarrow> file_env \<Rightarrow>
    daily_file_sink \<Rightarrow> file_world \<Rightarrow> unit result \<times> daily_file_sink \<times> file_world" where
  "daily_open calc e s w =
     (let (name, w) = calc e (day_base s) w in
      ebind (name, s, w) (\<lambda>name (s, w).
      let (r, h, w) = open_file e name False (day_helper s) w in (r, s\<lparr>day_helper := h\<rparr>, w)))"

definition new_daily_sink :: "(file_env \<Rightarrow> string \<Rightarrow> file_world \<Rightarrow> string result \<times> file_world) \<Rightarrow> file_env \<Rightarrow>
    string \<Rightarrow> int \<Rightarrow> int \<Rightarrow> file_world \<Rightarrow> daily_file_sink result \<times> file_world" where
  "new_daily_sink calc e base rotation_hour rotation_minute w =
     (if rotation_hour < 0 \<or> rotation_hour > 23 \<or> rotation_minute < 0 \<or> rotation_minute > 59 then (Inl (Thrown 194), w)
      else
        (let (tp, w) = next_rotation_tp e rotation_hour rotation_minute w;
             (r, s, w) = daily_open calc e \<lparr>day_base = base, day_rotation_h = rotation_hour, day_rotation_m = rotation_minute,
               day_rotation_tp = tp, day_helper = new_file_helper\<rparr> w in
         (rbind r (\<lambda>_. Inr s), w)))"

definition daily_sink_it :: "(file_env \<Rightarrow> string \<Rightarrow> file_world \<Rightarrow> string result \<times> file_world) \<Rightarrow> file_env \<Rightarrow>
    string \<Rightarrow> daily_file_sink \<Rightarrow> file_world \<Rightarrow> unit result \<times> daily_file_sink \<times> file_world" where
  "daily_sink_it calc e msg s w =
     (let (now, w) = now_tp e w in
      ebind (if now \<ge> day_rotation_tp s
             then ebind (daily_open calc e s w) (\<lambda>_ (s, w).
               let (tp, w) = next_rotation_tp e (day_rotation_h s) (day_rotation_m s) w in (Inr (), s\<lparr>day_rotation_tp := tp\<rparr>, w))
             else (Inr (), s, w)) (\<lambda>_ (s, w).
      let (r, h, w) = write_file e msg (day_helper s) w in (r, s\<lparr>day_helper := h\<rparr>, w)))"

definition daily_flush :: "file_env \<Rightarrow> daily_file_sink \<Rightarrow> file_world \<Rightarrow> daily_file_sink \<times> file_world" where
  "daily_flush e s w = (let (h, w) = flush_file e (day_helper s) w in (s\<lparr>day_helper := h\<rparr>, w))"

end
