(* ===== verification/Spdlog_Sinks.thy ===== *)
theory Spdlog_Sinks
  imports Spdlog_Files
begin

text \<open>
  Properties of the file sinks of \<open>Spdlog_Files\<close>: the rotating sink against a list of files that
  is shifted by one when the newest is full, what it loses when a file cannot be opened, the daily
  sink, and flushing while another thread rotates.
\<close>

subsection \<open>Names of rotated files\<close>

lemma str_holds: "holds b cs \<Longrightarrow> str b = Inr cs"
  by (auto simp: str_def holds_def Let_def comp_def)

fun log_name :: "string \<Rightarrow> nat \<Rightarrow> string" where
  "log_name base 0 = base"
| "log_name base (Suc i) = base @ ''.'' @ decimal (Suc i)"

lemma decimal_eq [simp]: "decimal m = decimal n \<longleftrightarrow> m = n"
  using read_decimal(1) by metis

lemma log_name_eq [simp]: "log_name base i = log_name base j \<longleftrightarrow> i = j"
proof
  assume "log_name base i = log_name base j"
  then show "i = j"
    by (cases i; cases j) auto
qed simp

lemma log_name_Suc_base: "log_name base (Suc i) \<noteq> base"
  by simp

lemma plain_values:
  "visit_text [] default_spec (Arg_STRING (Some s)) = Inr s"
  "visit_text [] default_spec (Arg_ULONG_LONG (int n)) = Inr (decimal n)"
  using plain_text [of "[]" "CHR 0x00" "int n"]
  by (simp_all add: str_value_text_def str_text_def FormatSpec_def int_value_text_def int_types_def TypeSpec_def int_digits_def Let_def)

lemma format_plain:
  assumes "list_all (\<lambda>(t, a). visit_text [] default_spec (arg_value a) = Inr (f a)) xs"
    "safe_args (map snd xs) (template xs t)" "CHR 0x00 \<notin> set (template xs t)"
  shows "rbind (format [] (map snd xs) (template xs t) MemoryBuffer) str = Inr (concat (map (\<lambda>(t, a). t @ f a) xs) @ t)"
proof -
  have "rbind (parse_format (map snd xs) 0 (template xs t)) (render []) = Inr (concat (map (\<lambda>(t, a). t @ f a) xs) @ t)"
    using parse_template [of "[]" xs t] render_template [OF assms(1)] by simp
  with format_outcome [OF holds_new assms(2,3), of "[]"] show ?thesis
    by (auto simp: outcome_def str_holds)
qed

lemma calc_filename_name: "i < 2 ^ 64 \<Longrightarrow> calc_filename base i = Inr (log_name base i)"
proof (cases i)
  case 0
  have "rbind (format [] [Positional (Arg_STRING (Some base))] ''{}'' MemoryBuffer) str = Inr base"
    using format_plain [of "\<lambda>_. base" "[([], Positional (Arg_STRING (Some base)))]" "[]"] plain_values(1) [of base]
    by (simp add: template_def safe_args_def)
  with 0 show ?thesis by (simp add: calc_filename_def)
next
  case (Suc j)
  assume "i < 2 ^ 64"
  then have "rbind (format [] [Positional (Arg_STRING (Some base)), Positional (Arg_ULONG_LONG (int i))] ''{}.{}'' MemoryBuffer) str =
      Inr (base @ ''.'' @ decimal i)"
    using format_plain [of "\<lambda>a. case arg_value a of Arg_STRING _ \<Rightarrow> base | _ \<Rightarrow> decimal i"
        "[([], Positional (Arg_STRING (Some base))), (''.'', Positional (Arg_ULONG_LONG (int i)))]" "[]"] plain_values(1) [of base] plain_values(2) [of i]
    by (simp add: template_def safe_args_def in_range_def)
  with Suc show ?thesis by (simp add: calc_filename_def)
qed

subsection \<open>Calls that do not fail\<close>

text \<open>No library call fails but, possibly, opening a file.\<close>

definition calls_succeed :: "file_env \<Rightarrow> bool" where
  "calls_succeed e \<longleftrightarrow> (\<forall>c n. c \<noteq> Fopen \<longrightarrow> \<not> trouble e c n)"

definition healthy :: "file_env \<Rightarrow> bool" where
  "healthy e \<longleftrightarrow> calls_succeed e \<and> (\<forall>n. \<not> trouble e Fopen n)"

lemma tick_simps [simp]: "files (tick w) = files w" "files (tick w\<lparr>files := fs\<rparr>) = fs"
  by (simp_all add: tick_def)

lemma files_write_out: "files w name = Some c \<Longrightarrow> files (write_out name cs w) = (files w)(name \<mapsto> c @ cs)"
  by (simp add: write_out_def)

lemma rotate_files_Suc:
  assumes "calls_succeed e" "Suc i < 2 ^ 64"
  obtains w' where "rotate_files e base (Suc i) w = rotate_files e base i w'"
    "files w' = (files w)(log_name base i := None, log_name base (Suc i) := files w (log_name base i))"
proof -
  have n: "calc_filename base i = Inr (log_name base i)" "calc_filename base (Suc i) = Inr (log_name base (Suc i))"
    using assms(2) by (simp_all add: calc_filename_name del: log_name.simps)
  let ?src = "log_name base i" and ?target = "log_name base (Suc i)"
  have ne: "?src \<noteq> ?target" by (simp del: log_name.simps)
  have "\<exists>w'. rotate_files e base (Suc i) w = rotate_files e base i w' \<and>
      files w' = (files w)(?src := None, ?target := files w ?src)"
    using assms(1) ne
    by (cases "files w ?src"; cases "files w ?target")
       (auto simp: n ebind_def file_exists_def remove_file_def rename_file_def calls_succeed_def simp del: log_name.simps
         intro!: exI conjI [OF refl] ext)
  then show ?thesis using that by blast
qed

lemma rotate_files_shift:
  assumes "calls_succeed e" "n < 2 ^ 64"
  shows "\<exists>w'. rotate_files e base n w = (Inr (), w') \<and>
    (\<forall>i. 0 < i \<and> i \<le> n \<longrightarrow> files w' (log_name base i) = files w (log_name base (i - 1))) \<and>
    (0 < n \<longrightarrow> files w' base = None) \<and>
    (\<forall>x. (\<forall>i \<le> n. x \<noteq> log_name base i) \<or> n = 0 \<longrightarrow> files w' x = files w x)"
  using assms(2)
proof (induction n arbitrary: w)
  case (Suc n)
  obtain w1 where w1: "rotate_files e base (Suc n) w = rotate_files e base n w1"
    "files w1 = (files w)(log_name base n := None, log_name base (Suc n) := files w (log_name base n))"
    using rotate_files_Suc [OF assms(1) Suc.prems] .
  have "n < 2 ^ 64" using Suc.prems by simp
  from Suc.IH [OF this, of w1] obtain w' where w': "rotate_files e base n w1 = (Inr (), w')"
    "\<And>i. 0 < i \<Longrightarrow> i \<le> n \<Longrightarrow> files w' (log_name base i) = files w1 (log_name base (i - 1))"
    "0 < n \<Longrightarrow> files w' base = None" "\<And>x. (\<forall>i \<le> n. x \<noteq> log_name base i) \<or> n = 0 \<Longrightarrow> files w' x = files w1 x"
    by blast
  have "files w' (log_name base (Suc n)) = files w (log_name base n)"
    using w'(4) [of "log_name base (Suc n)"] w1(2) by (simp del: log_name.simps)
  moreover have "files w' base = None"
    using w'(3) w'(4) [of base] w1(2) by (cases n) auto
  moreover have "files w' (log_name base i) = files w (log_name base (i - 1))" if "0 < i" "i \<le> n" for i
    using w'(2) [OF that] that w1(2) by (cases i) (auto simp del: log_name.simps)
  moreover have "files w' x = files w x" if "\<forall>i \<le> Suc n. x \<noteq> log_name base i" for x
    using w'(4) [of x] that w1(2) by (simp del: log_name.simps)
  ultimately show ?case
    using w'(1) w1(1) by (auto simp: le_Suc_eq simp del: log_name.simps rotate_files.simps)
qed simp

subsection \<open>What a sink promises\<close>

fun sink_all :: "(file_env \<Rightarrow> string \<Rightarrow> 's \<Rightarrow> file_world \<Rightarrow> unit result \<times> 's \<times> file_world) \<Rightarrow> file_env \<Rightarrow>
    string list \<Rightarrow> 's \<Rightarrow> file_world \<Rightarrow> unit result \<times> 's \<times> file_world" where
  "sink_all sink_it e [] s w = (Inr (), s, w)"
| "sink_all sink_it e (m # ms) s w = ebind (sink_it e m s w) (\<lambda>_ (s, w). sink_all sink_it e ms s w)"

locale log_sink =
  fixes sink_it :: "file_env \<Rightarrow> string \<Rightarrow> 's \<Rightarrow> file_world \<Rightarrow> unit result \<times> 's \<times> file_world"
    and ok :: "'s \<Rightarrow> file_world \<Rightarrow> bool"
    and kept :: "'s \<Rightarrow> file_world \<Rightarrow> 'a"
    and step :: "string \<Rightarrow> 'a \<Rightarrow> 'a"
    and room :: "string list \<Rightarrow> 'a \<Rightarrow> bool"
  assumes sink_step: "healthy e \<Longrightarrow> ok s w \<Longrightarrow> room (m # ms) (kept s w) \<Longrightarrow>
      \<exists>s' w'. sink_it e m s w = (Inr (), s', w') \<and> ok s' w' \<and> kept s' w' = step m (kept s w)"
    and room_step: "room (m # ms) a \<Longrightarrow> room ms (step m a)"
begin

lemma sink_all_kept:
  "healthy e \<Longrightarrow> ok s w \<Longrightarrow> room ms (kept s w) \<Longrightarrow>
    \<exists>s' w'. sink_all sink_it e ms s w = (Inr (), s', w') \<and> ok s' w' \<and> kept s' w' = fold step ms (kept s w)"
proof (induction ms arbitrary: s w)
  case (Cons m ms)
  obtain s1 w1 where 1: "sink_it e m s w = (Inr (), s1, w1)" "ok s1 w1" "kept s1 w1 = step m (kept s w)"
    using sink_step [OF Cons.prems] by blast
  with Cons.IH [OF Cons.prems(1) 1(2)] room_step [OF Cons.prems(3)] show ?case
    by (simp add: ebind_def)
qed simp

end

subsection \<open>The helper when nothing fails\<close>

lemma write_file_healthy:
  assumes "calls_succeed e" "helper_fd h = Some f" "files w (stream_name f) = Some c"
  shows "\<exists>f' c' w'. write_file e msg h w = (Inr (), h\<lparr>helper_fd := Some f'\<rparr>, w') \<and> stream_name f' = stream_name f \<and>
    files w' = (files w)(stream_name f \<mapsto> c') \<and> c' @ unflushed f' = c @ unflushed f @ msg"
proof -
  let ?k = "spill e (calls w)" and ?cs = "unflushed f @ msg"
  have "write_file e msg h w =
      (Inr (), h\<lparr>helper_fd := Some (f\<lparr>unflushed := drop ?k ?cs\<rparr>)\<rparr>, tick (write_out (stream_name f) (take ?k ?cs) w))"
    using assms by (simp add: write_file_def fwrite_def calls_succeed_def Let_def del: take_append drop_append)
  then show ?thesis
    using files_write_out [OF assms(3), of "take ?k ?cs"]
    by (intro exI [of _ "f\<lparr>unflushed := drop ?k ?cs\<rparr>"] exI [of _ "c @ take ?k ?cs"] exI) (auto simp del: take_append drop_append)
qed

lemma close_file_healthy:
  assumes "calls_succeed e" "helper_fd h = Some f" "files w (stream_name f) = Some c"
  shows "\<exists>w'. close_file e h w = (h\<lparr>helper_fd := None\<rparr>, w') \<and> files w' = (files w)(stream_name f \<mapsto> c @ unflushed f)"
  using assms by (auto simp: close_file_def fclose_def calls_succeed_def files_write_out)

lemma open_closed_healthy:
  assumes "healthy e" "helper_fd h = None"
  shows "\<exists>w'. open_file e name trunc h w = (Inr (), h\<lparr>helper_fd := Some \<lparr>stream_name = name, unflushed = []\<rparr>, helper_filename := name\<rparr>, w') \<and>
    files w' = (files w)(name \<mapsto> (if trunc then [] else case files w name of None \<Rightarrow> [] | Some c \<Rightarrow> c))"
proof -
  have "open_loop e open_tries name trunc w = fopen_s e name trunc w"
    using assms by (simp add: open_tries_def eval_nat_numeral fopen_s_def healthy_def)
  then show ?thesis
    using assms by (auto simp: open_file_def close_file_def fopen_s_def healthy_def)
qed

subsection \<open>The rotating sink refines a list of files\<close>

definition rot_ok :: "rotating_file_sink \<Rightarrow> file_world \<Rightarrow> bool" where
  "rot_ok s w \<longleftrightarrow> (case helper_fd (rot_helper s) of
       None \<Rightarrow> False
     | Some f \<Rightarrow> stream_name f = rot_base s \<and> (case files w (rot_base s) of
           None \<Rightarrow> False
         | Some c \<Rightarrow> rot_current_size s = length c + length (unflushed f))) \<and>
     helper_filename (rot_helper s) = rot_base s \<and> rot_base s \<noteq> [] \<and> rot_max_files s < 2 ^ 64"

record log_files =
  lf_max_size :: nat
  lf_max_files :: nat
  newest :: string
  older :: "string option list"

definition rot_abs :: "rotating_file_sink \<Rightarrow> file_world \<Rightarrow> log_files" where
  "rot_abs s w = \<lparr>lf_max_size = rot_max_size s, lf_max_files = rot_max_files s,
     newest = the (files w (rot_base s)) @ (case helper_fd (rot_helper s) of None \<Rightarrow> [] | Some f \<Rightarrow> unflushed f),
     older = map (\<lambda>i. files w (log_name (rot_base s) (Suc i))) [0..<rot_max_files s]\<rparr>"

definition rot_log :: "string \<Rightarrow> log_files \<Rightarrow> log_files" where
  "rot_log msg l =
     (if length (newest l) + length msg > lf_max_size l
      then l\<lparr>newest := msg, older := take (lf_max_files l) (Some (newest l) # older l)\<rparr>
      else l\<lparr>newest := newest l @ msg\<rparr>)"

definition rot_room :: "string list \<Rightarrow> log_files \<Rightarrow> bool" where
  "rot_room ms l \<longleftrightarrow> length (newest l) + length (concat ms) < 2 ^ 64"

lemma rotate_sink_healthy:
  assumes "healthy e" "rot_ok s w"
  shows "\<exists>w'. rotate_sink e s w = (Inr (), s\<lparr>rot_helper := (rot_helper s)\<lparr>helper_fd := Some \<lparr>stream_name = rot_base s, unflushed = []\<rparr>\<rparr>\<rparr>, w') \<and>
    files w' (rot_base s) = Some [] \<and>
    (\<forall>i. i < rot_max_files s \<longrightarrow> files w' (log_name (rot_base s) (Suc i)) =
      (if i = 0 then Some (newest (rot_abs s w)) else files w (log_name (rot_base s) i)))"
proof -
  obtain f c where f: "helper_fd (rot_helper s) = Some f" "stream_name f = rot_base s" "files w (rot_base s) = Some c"
    "helper_filename (rot_helper s) = rot_base s" "rot_base s \<noteq> []" "rot_max_files s < 2 ^ 64"
    using assms(2) by (auto simp: rot_ok_def split: option.splits)
  have e: "calls_succeed e" using assms(1) by (simp add: healthy_def)
  obtain w1 where w1: "close_file e (rot_helper s) w = ((rot_helper s)\<lparr>helper_fd := None\<rparr>, w1)"
    "files w1 = (files w)(rot_base s \<mapsto> c @ unflushed f)"
    using close_file_healthy [OF e f(1), of w c] f by auto
  obtain w2 where w2: "rotate_files e (rot_base s) (rot_max_files s) w1 = (Inr (), w2)"
    "\<forall>i. 0 < i \<and> i \<le> rot_max_files s \<longrightarrow> files w2 (log_name (rot_base s) i) = files w1 (log_name (rot_base s) (i - 1))"
    using rotate_files_shift [OF e f(6), of "rot_base s" w1] by blast
  obtain w3 where w3: "open_file e (rot_base s) True ((rot_helper s)\<lparr>helper_fd := None\<rparr>) w2 =
      (Inr (), (rot_helper s)\<lparr>helper_fd := Some \<lparr>stream_name = rot_base s, unflushed = []\<rparr>, helper_filename := rot_base s\<rparr>, w3)"
    "files w3 = (files w2)(rot_base s \<mapsto> [])"
    using open_closed_healthy [OF assms(1), of "(rot_helper s)\<lparr>helper_fd := None\<rparr>" "rot_base s" True w2] by auto
  have "files w3 (log_name (rot_base s) (Suc i)) =
      (if i = 0 then Some (newest (rot_abs s w)) else files w (log_name (rot_base s) i))" if "i < rot_max_files s" for i
    using w2(2) [rule_format, of "Suc i"] that w1(2) w3(2) f by (cases i) (auto simp: rot_abs_def)
  moreover have "(rot_helper s)\<lparr>helper_filename := rot_base s\<rparr> = rot_helper s"
    using f(4) by (cases "rot_helper s") simp
  ultimately show ?thesis
    using w1 w2(1) w3 f(4,5) by (auto simp: rotate_sink_def ebind_def reopen_def Let_def)
qed

lemma rot_write:
  assumes "calls_succeed e" "helper_fd (rot_helper s) = Some f" "stream_name f = rot_base s" "files w (rot_base s) = Some c"
    "helper_filename (rot_helper s) = rot_base s" "rot_base s \<noteq> []" "rot_max_files s < 2 ^ 64"
    "rot_current_size s = length c + length (unflushed f) + length msg"
  shows "\<exists>s' w'. (let (r, h, w) = write_file e msg (rot_helper s) w in (r, s\<lparr>rot_helper := h\<rparr>, w)) = (Inr (), s', w') \<and>
    rot_ok s' w' \<and> rot_abs s' w' = (rot_abs s w)\<lparr>newest := c @ unflushed f @ msg\<rparr>"
proof -
  obtain f' c' w' where w: "write_file e msg (rot_helper s) w = (Inr (), (rot_helper s)\<lparr>helper_fd := Some f'\<rparr>, w')"
    "stream_name f' = rot_base s" "files w' = (files w)(rot_base s \<mapsto> c')" "c' @ unflushed f' = c @ unflushed f @ msg"
    using write_file_healthy [OF assms(1,2), of w c msg] assms(3,4) by auto
  have "length c' + length (unflushed f') = length c + length (unflushed f) + length msg"
    using arg_cong [OF w(4), of length] by simp
  then show ?thesis
    using w assms(5-8) by (simp add: rot_ok_def rot_abs_def)
qed

lemma rotating_sink_step:
  assumes "healthy e" "rot_ok s w" "rot_room (msg # ms) (rot_abs s w)"
  shows "\<exists>s' w'. rotating_sink_it e msg s w = (Inr (), s', w') \<and> rot_ok s' w' \<and> rot_abs s' w' = rot_log msg (rot_abs s w)"
proof -
  obtain f c where f: "helper_fd (rot_helper s) = Some f" "stream_name f = rot_base s" "files w (rot_base s) = Some c"
    "helper_filename (rot_helper s) = rot_base s" "rot_base s \<noteq> []" "rot_max_files s < 2 ^ 64"
    "rot_current_size s = length c + length (unflushed f)"
    using assms(2) by (auto simp: rot_ok_def split: option.splits)
  have e: "calls_succeed e" using assms(1) by (simp add: healthy_def)
  let ?s = "s\<lparr>rot_current_size := rot_current_size s + length msg\<rparr>"
  have size: "(rot_current_size s + length msg) mod 2 ^ 64 = rot_current_size s + length msg"
    using assms(3) f by (simp add: rot_room_def rot_abs_def)
  have abs: "rot_abs ?s w = rot_abs s w" "newest (rot_abs s w) = c @ unflushed f" "lf_max_size (rot_abs s w) = rot_max_size s"
    using f by (simp_all add: rot_abs_def)
  show ?thesis
  proof (cases "rot_current_size s + length msg > rot_max_size s")
    case False
    with rot_write [of e ?s f w c msg] e f size abs show ?thesis
      by (simp add: rotating_sink_it_def ebind_def rot_log_def)
  next
    case True
    let ?f = "\<lparr>stream_name = rot_base s, unflushed = []\<rparr>"
    let ?t = "s\<lparr>rot_current_size := length msg, rot_helper := (rot_helper s)\<lparr>helper_fd := Some ?f\<rparr>\<rparr>"
    obtain w' where w': "rotate_sink e s w = (Inr (), s\<lparr>rot_helper := (rot_helper s)\<lparr>helper_fd := Some ?f\<rparr>\<rparr>, w')"
      "files w' (rot_base s) = Some []" "\<And>i. i < rot_max_files s \<Longrightarrow> files w' (log_name (rot_base s) (Suc i)) =
        (if i = 0 then Some (newest (rot_abs s w)) else files w (log_name (rot_base s) i))"
      using rotate_sink_healthy [OF assms(1,2)] by blast
    have r: "rotate_sink e ?s w = (Inr (), ?s\<lparr>rot_helper := (rot_helper s)\<lparr>helper_fd := Some ?f\<rparr>\<rparr>, w')"
      using w'(1) by (cases s) (auto simp: rotate_sink_def ebind_def Let_def split: prod.splits sum.splits)
    have "older (rot_abs ?t w') = take (rot_max_files s) (Some (newest (rot_abs s w)) # older (rot_abs s w))"
      using w'(3) by (intro nth_equalityI) (auto simp: rot_abs_def nth_Cons' simp del: log_name.simps)
    then have "(rot_abs ?t w')\<lparr>newest := msg\<rparr> = rot_log msg (rot_abs s w)"
      using True f(7) abs by (simp add: rot_log_def rot_abs_def)
    with rot_write [of e ?t ?f w' "[]" msg] e f w'(2) size True r show ?thesis
      by (simp add: rotating_sink_it_def ebind_def)
  qed
qed

lemma rot_room_step: "rot_room (m # ms) l \<Longrightarrow> rot_room ms (rot_log m l)"
  by (auto simp: rot_room_def rot_log_def)

interpretation rot: log_sink rotating_sink_it rot_ok rot_abs rot_log rot_room
  using rotating_sink_step rot_room_step by unfold_locales blast+

text \<open>
  Messages grouped into files, newest first: no file exceeds the limit unless it holds a single message,
  and a file is closed only when the next message does not fit.
\<close>

fun packed :: "nat \<Rightarrow> string list list \<Rightarrow> bool" where
  "packed n [] = True"
| "packed n [c] = (length (concat c) \<le> n \<or> length c \<le> 1)"
| "packed n (d # c # cs) = ((length (concat d) \<le> n \<or> length d \<le> 1) \<and> d \<noteq> [] \<and> n < length (concat c) + length (hd d) \<and> packed n (c # cs))"

definition grouped :: "string list list \<Rightarrow> log_files \<Rightarrow> bool" where
  "grouped cs l \<longleftrightarrow> cs \<noteq> [] \<and> packed (lf_max_size l) cs \<and> newest l = concat (hd cs) \<and>
     older l = take (lf_max_files l) (map (\<lambda>c. Some (concat c)) (tl cs) @ replicate (lf_max_files l) None)"

lemma packed_append: "packed n (c # cs) \<Longrightarrow> length (concat c) + length m \<le> n \<Longrightarrow> packed n ((c @ [m]) # cs)"
  by (cases cs) auto

lemma rot_log_grouped:
  assumes "grouped cs l"
  shows "\<exists>cs'. grouped cs' (rot_log m l) \<and> concat (rev cs') = concat (rev cs) @ [m]"
proof -
  obtain c cs0 where cs: "cs = c # cs0" "newest l = concat c"
    using assms by (cases cs) (auto simp: grouped_def)
  show ?thesis
  proof (cases "length (newest l) + length m > lf_max_size l")
    case True
    with assms cs have "grouped ([m] # cs) (rot_log m l)"
      by (auto simp: grouped_def rot_log_def take_Cons' intro: arg_cong2 [where f = take])
    then show ?thesis by (intro exI [of _ "[m] # cs"]) simp
  next
    case False
    with assms cs have "grouped ((c @ [m]) # cs0) (rot_log m l)"
      by (auto simp: grouped_def rot_log_def intro: packed_append)
    then show ?thesis using cs by (intro exI [of _ "(c @ [m]) # cs0"]) simp
  qed
qed

lemma fold_rot_grouped:
  "grouped cs l \<Longrightarrow> \<exists>cs'. grouped cs' (fold rot_log ms l) \<and> concat (rev cs') = concat (rev cs) @ ms"
proof (induction ms arbitrary: cs l)
  case (Cons m ms)
  obtain cs1 where "grouped cs1 (rot_log m l)" "concat (rev cs1) = concat (rev cs) @ [m]"
    using rot_log_grouped [OF Cons.prems] by blast
  with Cons.IH [of cs1 "rot_log m l"] show ?case by auto
qed auto

lemma rotating_new:
  assumes "healthy e" "base \<noteq> []" "max_files < 2 ^ 64" "\<forall>i \<le> max_files. files w (log_name base i) = None"
  shows "\<exists>s w'. new_rotating_sink e base max_size max_files w = (Inr s, w') \<and> rot_ok s w' \<and>
    rot_abs s w' = \<lparr>lf_max_size = max_size, lf_max_files = max_files, newest = [], older = replicate max_files None\<rparr>"
proof -
  have n: "calc_filename base 0 = Inr base" using calc_filename_name [of 0 base] by simp
  have b: "files w base = None" using assms(4) by (metis le0 log_name.simps(1))
  obtain w1 where w1: "open_file e base False new_file_helper w =
      (Inr (), new_file_helper\<lparr>helper_fd := Some \<lparr>stream_name = base, unflushed = []\<rparr>, helper_filename := base\<rparr>, w1)"
    "files w1 = (files w)(base \<mapsto> [])"
    using open_closed_healthy [OF assms(1), of new_file_helper base False w] b by (auto simp: new_file_helper_def)
  have "map (\<lambda>i. files w1 (log_name base (Suc i))) [0..<max_files] = replicate max_files None"
    using assms(4) w1(2) by (intro nth_equalityI) (auto simp: Suc_le_eq log_name_Suc_base simp del: log_name.simps(2))
  then show ?thesis
    using n w1 assms(1-3)
    by (simp add: new_rotating_sink_def size_file_def filesize_def healthy_def calls_succeed_def rot_ok_def rot_abs_def)
qed

text \<open>
  (C38) The rotating sink as a whole, when no call fails.  A new sink on unused names accepts every message; afterwards
  its files, from the newest to the oldest, hold the messages in order, grouped so that a file
  exceeds the limit only if it holds a single message and is closed only when the next message does not
  fit; groups older than the number of files are gone.
\<close>

theorem rotating_keeps_tail:
  assumes "healthy e" "base \<noteq> []" "max_files < 2 ^ 64" "\<forall>i \<le> max_files. files w (log_name base i) = None"
    and "length (concat ms) < 2 ^ 64"
  shows "\<exists>s0 w0 s w' cs. new_rotating_sink e base max_size max_files w = (Inr s0, w0) \<and>
    sink_all rotating_sink_it e ms s0 w0 = (Inr (), s, w') \<and> concat (rev cs) = ms \<and> packed max_size cs \<and>
    newest (rot_abs s w') = concat (hd cs) \<and>
    older (rot_abs s w') = take max_files (map (\<lambda>c. Some (concat c)) (tl cs) @ replicate max_files None)"
proof -
  let ?l = "\<lparr>lf_max_size = max_size, lf_max_files = max_files, newest = [], older = replicate max_files None\<rparr>"
  obtain s0 w0 where 0: "new_rotating_sink e base max_size max_files w = (Inr s0, w0)" "rot_ok s0 w0" "rot_abs s0 w0 = ?l"
    using rotating_new [OF assms(1-4), of max_size] by blast
  obtain s w' where 1: "sink_all rotating_sink_it e ms s0 w0 = (Inr (), s, w')" "rot_abs s w' = fold rot_log ms ?l"
    using rot.sink_all_kept [OF assms(1) 0(2), of ms] 0(3) assms(5) by (auto simp: rot_room_def)
  have "grouped [[]] ?l" by (simp add: grouped_def)
  then obtain cs where cs: "grouped cs (fold rot_log ms ?l)" "concat (rev cs) = ms"
    using fold_rot_grouped [of "[[]]" ?l ms] by auto
  moreover have "lf_max_size (fold rot_log ms l) = lf_max_size l \<and> lf_max_files (fold rot_log ms l) = lf_max_files l" for l
    by (induction ms arbitrary: l) (auto simp: rot_log_def)
  ultimately show ?thesis
    using 0(1) 1 by (intro exI) (auto simp: grouped_def)
qed

definition quiet_env :: file_env where
  "quiet_env = \<lparr>trouble = \<lambda>c n. False, partial_count = \<lambda>n. 0, spill = \<lambda>n. 1, clock = \<lambda>n. 3600 * 10 ^ 9,
     local_tm = \<lambda>t. \<lparr>tm_min = 0, tm_hour = 1, tm_mday = 1, tm_mon = 0, tm_year = 70, tm_sec = 0\<rparr>,
     mktime = \<lambda>d. tm_hour d * 3600 + tm_min d * 60 + tm_sec d\<rparr>"

theorem rotating_keeps_tail_witness:
  "\<exists>s0 w0 s w'. new_rotating_sink quiet_env ''log'' 3 1 \<lparr>files = Map.empty, calls = 0\<rparr> = (Inr s0, w0) \<and>
    sink_all rotating_sink_it quiet_env [''ab'', ''cd'', ''e''] s0 w0 = (Inr (), s, w')"
  using rotating_keeps_tail [of quiet_env "''log''" 1 "\<lparr>files = Map.empty, calls = 0\<rparr>" "[''ab'', ''cd'', ''e'']" 3]
  by (auto simp: quiet_env_def healthy_def calls_succeed_def)

subsection \<open>When the new file cannot be opened\<close>

text \<open>The logger catches what a sink throws, and hands the next message to the sink as it was left.\<close>

fun sink_each :: "(file_env \<Rightarrow> string \<Rightarrow> 's \<Rightarrow> file_world \<Rightarrow> unit result \<times> 's \<times> file_world) \<Rightarrow> file_env \<Rightarrow>
    string list \<Rightarrow> 's \<Rightarrow> file_world \<Rightarrow> 's \<times> file_world" where
  "sink_each sink_it e [] s w = (s, w)"
| "sink_each sink_it e (m # ms) s w = (case sink_it e m s w of (r, s, w) \<Rightarrow> sink_each sink_it e ms s w)"

definition no_open :: "file_env \<Rightarrow> bool" where
  "no_open e \<longleftrightarrow> calls_succeed e \<and> (\<forall>n. trouble e Fopen n)"

lemma open_loop_fails: "no_open e \<Longrightarrow> \<exists>w'. open_loop e n name trunc w = (None, w') \<and> files w' = files w"
proof (induction n arbitrary: w)
  case (Suc n)
  then show ?case using Suc.IH [of "tick w"] by (auto simp: fopen_s_def no_open_def)
qed simp

definition rot_failed :: "rotating_file_sink \<Rightarrow> bool" where
  "rot_failed s \<longleftrightarrow> helper_fd (rot_helper s) = None \<and> rot_max_size s < rot_current_size s \<and>
     helper_filename (rot_helper s) = rot_base s \<and> rot_base s \<noteq> [] \<and> 0 < rot_max_files s \<and> rot_max_files s < 2 ^ 64"

lemma rotate_fails:
  assumes "no_open e" "close_file e (rot_helper s) w = ((rot_helper s)\<lparr>helper_fd := None\<rparr>, w0)"
    "rot_failed (s\<lparr>rot_helper := (rot_helper s)\<lparr>helper_fd := None\<rparr>\<rparr>)"
  shows "\<exists>s' w'. rotate_sink e s w = (Inl (Thrown 60), s', w') \<and> s' = s\<lparr>rot_helper := (rot_helper s)\<lparr>helper_fd := None\<rparr>\<rparr> \<and>
    files w' (rot_base s) = None \<and>
    (\<forall>i. 0 < i \<and> i \<le> rot_max_files s \<longrightarrow> files w' (log_name (rot_base s) i) = files w0 (log_name (rot_base s) (i - 1)))"
proof -
  have e: "calls_succeed e" using assms(1) by (simp add: no_open_def)
  obtain w2 where w2: "rotate_files e (rot_base s) (rot_max_files s) w0 = (Inr (), w2)"
    "\<forall>i. 0 < i \<and> i \<le> rot_max_files s \<longrightarrow> files w2 (log_name (rot_base s) i) = files w0 (log_name (rot_base s) (i - 1))"
    "files w2 (rot_base s) = None"
    using rotate_files_shift [OF e, of "rot_max_files s" "rot_base s" w0] assms(3) by (auto simp: rot_failed_def)
  obtain w3 where "open_loop e open_tries (rot_base s) True w2 = (None, w3)" "files w3 = files w2"
    using open_loop_fails [OF assms(1)] by blast
  moreover have "(rot_helper s)\<lparr>helper_fd := None, helper_filename := rot_base s\<rparr> = (rot_helper s)\<lparr>helper_fd := None\<rparr>"
    using assms(3) by (cases "rot_helper s") (simp add: rot_failed_def)
  ultimately show ?thesis
    using assms(2,3) w2
    by (simp add: rotate_sink_def ebind_def reopen_def open_file_def close_file_def [of e "_\<lparr>helper_fd := None\<rparr>"] rot_failed_def)
qed

lemma rotating_sink_fails:
  assumes "no_open e" "rot_failed s" "rot_current_size s + length m < 2 ^ 64"
  shows "\<exists>s' w'. rotating_sink_it e m s w = (Inl (Thrown 60), s', w') \<and> rot_failed s' \<and> rot_base s' = rot_base s \<and>
    rot_max_files s' = rot_max_files s \<and> rot_current_size s' = rot_current_size s + length m \<and> files w' (rot_base s) = None \<and>
    (\<forall>i. 0 < i \<and> i \<le> rot_max_files s \<longrightarrow> files w' (log_name (rot_base s) i) = files w (log_name (rot_base s) (i - 1)))"
proof -
  let ?s = "s\<lparr>rot_current_size := rot_current_size s + length m\<rparr>"
  have h: "(rot_helper s)\<lparr>helper_fd := None\<rparr> = rot_helper s"
    using assms(2) by (cases "rot_helper s") (simp add: rot_failed_def)
  then have "close_file e (rot_helper ?s) w = ((rot_helper ?s)\<lparr>helper_fd := None\<rparr>, w)"
    using assms(2) by (simp add: close_file_def rot_failed_def)
  moreover have f: "rot_failed (?s\<lparr>rot_helper := (rot_helper ?s)\<lparr>helper_fd := None\<rparr>\<rparr>)"
    using assms(2) by (simp add: rot_failed_def)
  ultimately show ?thesis
    using rotate_fails [OF assms(1), of ?s w w] assms(2,3) f
    by (auto simp: rotating_sink_it_def ebind_def rot_failed_def)
qed

lemma failed_shift:
  assumes "no_open e"
  shows "rot_failed s \<Longrightarrow> rot_current_size s + length (concat ms) < 2 ^ 64 \<Longrightarrow> i \<le> rot_max_files s \<Longrightarrow>
    files (snd (sink_each rotating_sink_it e ms s w)) (log_name (rot_base s) i) =
      (if i < length ms then None else files w (log_name (rot_base s) (i - length ms)))"
proof (induction ms arbitrary: s w)
  case (Cons m ms)
  obtain s' w' where s': "rotating_sink_it e m s w = (Inl (Thrown 60), s', w')" "rot_failed s'" "rot_base s' = rot_base s"
    "rot_max_files s' = rot_max_files s" "rot_current_size s' = rot_current_size s + length m" "files w' (rot_base s) = None"
    "\<And>i. 0 < i \<Longrightarrow> i \<le> rot_max_files s \<Longrightarrow> files w' (log_name (rot_base s) i) = files w (log_name (rot_base s) (i - 1))"
    using rotating_sink_fails [OF assms Cons.prems(1), of m w] Cons.prems(2) by auto
  have "files w' (log_name (rot_base s) (i - length ms)) =
      (if i \<le> length ms then None else files w (log_name (rot_base s) (i - Suc (length ms))))"
    using s'(6) s'(7) [of "i - length ms"] Cons.prems(3) by (auto simp: Suc_diff_Suc)
  with Cons.IH [OF s'(2)] s' Cons.prems(2,3) show ?case by (simp add: less_Suc_eq_le)
qed simp

lemma rotating_first_failure:
  assumes "no_open e" "rot_ok s w" "0 < rot_max_files s"
    and "rot_max_size s < length (newest (rot_abs s w)) + length m" "length (newest (rot_abs s w)) + length m < 2 ^ 64"
  shows "\<exists>s' w'. rotating_sink_it e m s w = (Inl (Thrown 60), s', w') \<and> rot_failed s' \<and> rot_base s' = rot_base s \<and>
    rot_max_files s' = rot_max_files s \<and> rot_current_size s' = length (newest (rot_abs s w)) + length m \<and> files w' (rot_base s) = None"
proof -
  obtain f c where f: "helper_fd (rot_helper s) = Some f" "stream_name f = rot_base s" "files w (rot_base s) = Some c"
    "helper_filename (rot_helper s) = rot_base s" "rot_base s \<noteq> []" "rot_max_files s < 2 ^ 64"
    "rot_current_size s = length c + length (unflushed f)"
    using assms(2) by (auto simp: rot_ok_def split: option.splits)
  let ?s = "s\<lparr>rot_current_size := rot_current_size s + length m\<rparr>"
  have n: "length (newest (rot_abs s w)) = rot_current_size s" using f by (simp add: rot_abs_def)
  obtain w0 where w0: "close_file e (rot_helper ?s) w = ((rot_helper ?s)\<lparr>helper_fd := None\<rparr>, w0)"
    using close_file_healthy [of e "rot_helper s" f w c] assms(1) f by (auto simp: no_open_def)
  have "rot_failed (?s\<lparr>rot_helper := (rot_helper ?s)\<lparr>helper_fd := None\<rparr>\<rparr>)"
    using f assms(3,4) n by (simp add: rot_failed_def)
  with rotate_fails [OF assms(1) w0] assms(4,5) n show ?thesis
    by (auto simp: rotating_sink_it_def ebind_def)
qed

text \<open>
  (C39) Losing the log.  While no file can be opened, for instance because the process has no descriptor left, every message
  rotates the files once more: after one message more than there are old files, every file of the log is
  gone, although the old ones had been written successfully.
\<close>

theorem rotating_open_failure_loses_log:
  assumes "no_open e" "rot_ok s w" "0 < rot_max_files s" "i \<le> rot_max_files s" "length ms = rot_max_files s"
    and "rot_max_size s < length (newest (rot_abs s w)) + length m"
    and "length (newest (rot_abs s w)) + length (concat (m # ms)) < 2 ^ 64"
  shows "files (snd (sink_each rotating_sink_it e (m # ms) s w)) (log_name (rot_base s) i) = None"
proof -
  obtain s' w' where s': "rotating_sink_it e m s w = (Inl (Thrown 60), s', w')" "rot_failed s'" "rot_base s' = rot_base s"
    "rot_max_files s' = rot_max_files s" "rot_current_size s' = length (newest (rot_abs s w)) + length m" "files w' (rot_base s) = None"
    using rotating_first_failure [OF assms(1,2,3,6)] assms(7) by auto
  have "rot_current_size s' + length (concat ms) < 2 ^ 64"
    using s'(5) assms(7) by simp
  from failed_shift [OF assms(1) s'(2) this, of i w'] s' assms(4,5) show ?thesis
    by (cases "i < length ms") auto
qed

definition full_sink :: rotating_file_sink where
  "full_sink = \<lparr>rot_base = ''log'', rot_max_size = 3, rot_max_files = 1, rot_current_size = 2,
     rot_helper = \<lparr>helper_fd = Some \<lparr>stream_name = ''log'', unflushed = ''y''\<rparr>, helper_filename = ''log''\<rparr>\<rparr>"

definition full_world :: file_world where
  "full_world = \<lparr>files = [''log'' \<mapsto> ''x'', ''log.1'' \<mapsto> ''older''], calls = 0\<rparr>"

theorem rotating_open_failure_loses_log_witness:
  "let w = snd (sink_each rotating_sink_it (quiet_env\<lparr>trouble := \<lambda>c n. c = Fopen\<rparr>) [''ab'', ''c''] full_sink full_world) in
    files w (log_name ''log'' 0) = None \<and> files w (log_name ''log'' 1) = None"
  using rotating_open_failure_loses_log [of "quiet_env\<lparr>trouble := \<lambda>c n. c = Fopen\<rparr>" full_sink full_world 0 "[''c'']" "''ab''"]
    rotating_open_failure_loses_log [of "quiet_env\<lparr>trouble := \<lambda>c n. c = Fopen\<rparr>" full_sink full_world 1 "[''c'']" "''ab''"]
  by (simp add: no_open_def calls_succeed_def rot_ok_def rot_abs_def full_sink_def full_world_def Let_def)

subsection \<open>The daily sink\<close>

text \<open>
  What is relied on of the C library's calendar at the times the clock shows: the fields of a broken-down time
  are in range, and \<open>mktime\<close> puts another time of day on the same day.  This holds where clocks are not
  set forward or back in the course of the year.
\<close>

definition fields_ok :: "tm \<Rightarrow> bool" where
  "fields_ok d \<longleftrightarrow> (\<forall>v \<in> {tm_year d + 1900, tm_mon d + 1, tm_mday d, tm_hour d, tm_min d}. 0 \<le> v \<and> v < 2 ^ 31)"

definition second_of_day :: "tm \<Rightarrow> int" where
  "second_of_day d = tm_hour d * 3600 + tm_min d * 60 + tm_sec d"

abbreviation clock_tm :: "file_env \<Rightarrow> nat \<Rightarrow> tm" where
  "clock_tm e n \<equiv> local_tm e (clock e n div 10 ^ 9)"

definition plain_days :: "file_env \<Rightarrow> bool" where
  "plain_days e \<longleftrightarrow> (\<forall>n. fields_ok (clock_tm e n) \<and> 0 \<le> second_of_day (clock_tm e n) \<and> second_of_day (clock_tm e n) < 86400 \<and>
     (\<forall>h m. mktime e ((clock_tm e n)\<lparr>tm_hour := h, tm_min := m, tm_sec := 0\<rparr>) =
        clock e n div 10 ^ 9 - second_of_day (clock_tm e n) + h * 3600 + m * 60))"

lemma next_rotation_bounds:
  assumes "plain_days e" "0 \<le> h" "h \<le> 23" "0 \<le> m" "m \<le> 59"
  shows "clock e (calls w) < fst (next_rotation_tp e h m w) \<and> fst (next_rotation_tp e h m w) \<le> clock e (calls w) + 24 * 3600 * 10 ^ 9"
proof -
  let ?n = "clock e (calls w)" and ?t = "clock e (calls w) div 10 ^ 9"
  let ?r = "mktime e ((local_tm e ?t)\<lparr>tm_hour := h, tm_min := m, tm_sec := 0\<rparr>)"
  have r: "?r \<le> ?t + 86340" "?t - 86399 \<le> ?r"
    using assms(1) [unfolded plain_days_def, rule_format, of "calls w"] assms(2-5) by auto
  have "?t * 10 ^ 9 \<le> ?n" "?n < ?t * 10 ^ 9 + 10 ^ 9"
    by (simp_all add: minus_mod_eq_div_mult [symmetric] algebra_simps)
  with r show ?thesis
    by (simp add: next_rotation_tp_def now_tp_def Let_def)
qed

lemma open_file_healthy:
  assumes "healthy e" "helper_fd h = Some f" "files w (stream_name f) = Some c"
  shows "\<exists>w'. open_file e name trunc h w =
      (Inr (), h\<lparr>helper_fd := Some \<lparr>stream_name = name, unflushed = []\<rparr>, helper_filename := name\<rparr>, w') \<and>
    files w' = (let fs = (files w)(stream_name f \<mapsto> c @ unflushed f) in
      fs(name \<mapsto> (if trunc then [] else case fs name of None \<Rightarrow> [] | Some c \<Rightarrow> c)))"
proof -
  have "calls_succeed e" using assms(1) by (simp add: healthy_def)
  then obtain w1 where w1: "close_file e h w = (h\<lparr>helper_fd := None\<rparr>, w1)" "files w1 = (files w)(stream_name f \<mapsto> c @ unflushed f)"
    using close_file_healthy [OF _ assms(2,3)] by blast
  have "open_file e name trunc h w = open_file e name trunc (h\<lparr>helper_fd := None\<rparr>) w1"
    by (simp add: open_file_def w1(1) close_file_def [of e "h\<lparr>helper_fd := None\<rparr>"])
  moreover obtain w' where "open_file e name trunc (h\<lparr>helper_fd := None\<rparr>) w1 =
      (Inr (), h\<lparr>helper_fd := None, helper_fd := Some \<lparr>stream_name = name, unflushed = []\<rparr>, helper_filename := name\<rparr>, w')"
    "files w' = (files w1)(name \<mapsto> (if trunc then [] else case files w1 name of None \<Rightarrow> [] | Some c \<Rightarrow> c))"
    using open_closed_healthy [OF assms(1), of "h\<lparr>helper_fd := None\<rparr>" name trunc w1] by auto
  ultimately show ?thesis
    unfolding w1(2) Let_def by simp
qed

definition padded :: "nat \<Rightarrow> int \<Rightarrow> string" where
  "padded w n = replicate (w - length (decimal (nat n))) CHR ''0'' @ decimal (nat n)"

definition day_name :: "string \<Rightarrow> tm \<Rightarrow> string" where
  "day_name base d = base @ ''_'' @ padded 4 (tm_year d + 1900) @ ''-'' @ padded 2 (tm_mon d + 1) @ ''-'' @ padded 2 (tm_mday d) @
     ''_'' @ padded 2 (tm_hour d) @ ''-'' @ padded 2 (tm_min d)"

abbreviation zero_spec :: "nat \<Rightarrow> format_spec" where
  "zero_spec w \<equiv> \<lparr>spec_width = w, spec_fill = CHR ''0'', spec_align = ALIGN_NUMERIC, spec_flags = 0, spec_precision = - 1, spec_type = CHR ''d''\<rparr>"

lemma zero_text: "0 \<le> n \<Longrightarrow> visit_text [] (zero_spec w) (Arg_INT n) = Inr (padded w n)"
  by (simp add: text_defs padded_def)

lemma parse_daily:
  "parse_format [Positional a, Positional b, Positional c, Positional d, Positional x, Positional y] 0
     ''{}_{:04d}-{:02d}-{:02d}_{:02d}-{:02d}'' =
   Inr [Field a default_spec, Lit CHR ''_'', Field b (zero_spec 4), Lit CHR ''-'', Field c (zero_spec 2), Lit CHR ''-'', Field d (zero_spec 2),
     Lit CHR ''_'', Field x (zero_spec 2), Lit CHR ''-'', Field y (zero_spec 2)]"
  if "numeric_type b" "numeric_type c" "numeric_type d" "numeric_type x" "numeric_type y"
  using that by (simp add: parser_defs)

lemma daily_name:
  assumes "fields_ok (local_tm e (clock e (calls w) div 10 ^ 9))"
  shows "default_daily_filename e base w = (Inr (day_name base (local_tm e (clock e (calls w) div 10 ^ 9))), tick w)"
proof -
  let ?d = "local_tm e (clock e (calls w) div 10 ^ 9)"
  let ?args = "[Positional (Arg_STRING (Some base)), Positional (Arg_INT (tm_year ?d + 1900)), Positional (Arg_INT (tm_mon ?d + 1)),
    Positional (Arg_INT (tm_mday ?d)), Positional (Arg_INT (tm_hour ?d)), Positional (Arg_INT (tm_min ?d))]"
  have "rbind (parse_format ?args 0 ''{}_{:04d}-{:02d}-{:02d}_{:02d}-{:02d}'') (render []) = Inr (day_name base ?d)"
    using assms plain_values(1) [of base] zero_text
    by (simp add: parse_daily fields_ok_def day_name_def del: visit_text.simps parse_format.simps)
  moreover have "safe_args ?args ''{}_{:04d}-{:02d}-{:02d}_{:02d}-{:02d}''"
    using assms by (simp add: safe_args_def fields_ok_def in_range_def)
  ultimately have "rbind (format [] ?args ''{}_{:04d}-{:02d}-{:02d}_{:02d}-{:02d}'' MemoryBuffer) str = Inr (day_name base ?d)"
    using format_outcome [OF holds_new, of ?args "''{}_{:04d}-{:02d}-{:02d}_{:02d}-{:02d}''" "[]"]
    by (auto simp: outcome_def str_holds)
  then show ?thesis
    by (simp add: default_daily_filename_def localtime_now_def now_tp_def)
qed

definition day_ok :: "daily_file_sink \<Rightarrow> file_world \<Rightarrow> bool" where
  "day_ok s w \<longleftrightarrow> (case helper_fd (day_helper s) of
       None \<Rightarrow> False | Some f \<Rightarrow> files w (stream_name f) \<noteq> None) \<and>
     0 \<le> day_rotation_h s \<and> day_rotation_h s \<le> 23 \<and> 0 \<le> day_rotation_m s \<and> day_rotation_m s \<le> 59"

text \<open>The files as a reader sees them once the open stream is flushed.\<close>

definition day_view :: "daily_file_sink \<Rightarrow> file_world \<Rightarrow> string \<rightharpoonup> string" where
  "day_view s w = (case helper_fd (day_helper s) of
       None \<Rightarrow> files w
     | Some f \<Rightarrow> (files w)(stream_name f := map_option (\<lambda>c. c @ unflushed f) (files w (stream_name f))))"

definition day_file :: "daily_file_sink \<Rightarrow> string" where
  "day_file s = (case helper_fd (day_helper s) of None \<Rightarrow> [] | Some f \<Rightarrow> stream_name f)"

lemma day_tick [simp]:
  "day_ok s (tick w) = day_ok s w" "day_view s (tick w) = day_view s w" "calls (tick w) = Suc (calls w)"
  "day_ok (s\<lparr>day_rotation_tp := tp\<rparr>) w = day_ok s w" "day_view (s\<lparr>day_rotation_tp := tp\<rparr>) w = day_view s w"
  "day_file (s\<lparr>day_rotation_tp := tp\<rparr>) = day_file s"
  unfolding day_ok_def day_view_def day_file_def tick_simps(1) by (simp_all add: tick_def)

lemma day_write:
  assumes "healthy e" "day_ok s w"
  shows "\<exists>s' w'. (let (r, h, w) = write_file e msg (day_helper s) w in (r, s\<lparr>day_helper := h\<rparr>, w)) = (Inr (), s', w') \<and>
    day_ok s' w' \<and> day_file s' = day_file s \<and> day_rotation_tp s' = day_rotation_tp s \<and>
    day_view s' w' = (day_view s w)(day_file s \<mapsto> the (day_view s w (day_file s)) @ msg)"
proof -
  obtain f c where f: "helper_fd (day_helper s) = Some f" "files w (stream_name f) = Some c"
    using assms(2) by (auto simp: day_ok_def split: option.splits)
  have "calls_succeed e" using assms(1) by (simp add: healthy_def)
  then obtain f' c' w' where w': "write_file e msg (day_helper s) w = (Inr (), (day_helper s)\<lparr>helper_fd := Some f'\<rparr>, w')"
    "stream_name f' = stream_name f" "files w' = (files w)(stream_name f \<mapsto> c')" "c' @ unflushed f' = c @ unflushed f @ msg"
    using write_file_healthy [of e "day_helper s" f w c msg] f by auto
  then show ?thesis
    using f assms(2) by (simp add: day_ok_def day_view_def day_file_def)
qed

lemma day_reopen:
  assumes "healthy e" "day_ok s w" "fields_ok (local_tm e (clock e (calls w) div 10 ^ 9))"
  defines "n \<equiv> day_name (day_base s) (local_tm e (clock e (calls w) div 10 ^ 9))"
  shows "\<exists>s' w'. daily_open default_daily_filename e s w = (Inr (), s', w') \<and> day_ok s' w' \<and> day_file s' = n \<and>
    day_rotation_h s' = day_rotation_h s \<and> day_rotation_m s' = day_rotation_m s \<and>
    day_view s' w' = (day_view s w)(n \<mapsto> (case day_view s w n of None \<Rightarrow> [] | Some c \<Rightarrow> c))"
proof -
  obtain f c where f: "helper_fd (day_helper s) = Some f" "files w (stream_name f) = Some c"
    using assms(2) by (auto simp: day_ok_def split: option.splits)
  obtain w' where w': "open_file e n False (day_helper s) (tick w) =
      (Inr (), (day_helper s)\<lparr>helper_fd := Some \<lparr>stream_name = n, unflushed = []\<rparr>, helper_filename := n\<rparr>, w')"
    "files w' = (let fs = (files w)(stream_name f \<mapsto> c @ unflushed f) in fs(n \<mapsto> (case fs n of None \<Rightarrow> [] | Some c \<Rightarrow> c)))"
    using open_file_healthy [OF assms(1) f(1), of "tick w" c n False] f(2) by auto
  have "daily_open default_daily_filename e s w = (Inr (), s\<lparr>day_helper :=
      (day_helper s)\<lparr>helper_fd := Some \<lparr>stream_name = n, unflushed = []\<rparr>, helper_filename := n\<rparr>\<rparr>, w')"
    using daily_name [OF assms(3), of "day_base s"] w'(1) by (simp add: daily_open_def ebind_def n_def)
  then show ?thesis
    using w'(2) f assms(2) by (auto simp: day_ok_def day_view_def day_file_def Let_def)
qed

text \<open>
  The daily sink, when no call fails and the calendar is as assumed.  A message goes to the end of the open
  file until the rotation time; at or after it, the old file is closed and the message goes to the end of the file
  named after the local date and time, and the next rotation time is later than the clock by at most 24 hours.
\<close>

theorem daily_sink_step:
  assumes "healthy e" "plain_days e" "day_ok s w"
  shows "\<exists>s' w'. daily_sink_it default_daily_filename e msg s w = (Inr (), s', w') \<and> day_ok s' w' \<and>
    day_view s' w' = (day_view s w)(day_file s' \<mapsto> (case day_view s w (day_file s') of None \<Rightarrow> [] | Some c \<Rightarrow> c) @ msg) \<and>
    (if clock e (calls w) < day_rotation_tp s then day_file s' = day_file s \<and> day_rotation_tp s' = day_rotation_tp s
     else day_file s' = day_name (day_base s) (clock_tm e (Suc (calls w))) \<and>
       (\<exists>n. clock e n < day_rotation_tp s' \<and> day_rotation_tp s' \<le> clock e n + 24 * 3600 * 10 ^ 9))"
proof (cases "clock e (calls w) < day_rotation_tp s")
  case True
  have "day_view s w (day_file s) \<noteq> None"
    using assms(3) by (auto simp: day_ok_def day_view_def day_file_def split: option.splits)
  with day_write [OF assms(1), of s "tick w" msg] assms(3) True show ?thesis
    by (auto simp: daily_sink_it_def now_tp_def ebind_def)
next
  case False
  have k: "day_ok s (tick w)"
    using assms(3) by simp
  let ?n = "day_name (day_base s) (clock_tm e (Suc (calls w)))"
  obtain s1 w1 where 1: "daily_open default_daily_filename e s (tick w) = (Inr (), s1, w1)" "day_ok s1 w1" "day_file s1 = ?n"
    "day_rotation_h s1 = day_rotation_h s" "day_rotation_m s1 = day_rotation_m s"
    "day_view s1 w1 = (day_view s w)(?n \<mapsto> (case day_view s w ?n of None \<Rightarrow> [] | Some c \<Rightarrow> c))"
    using day_reopen [OF assms(1) k] assms(2) by (auto simp: plain_days_def)
  obtain tp where tp: "next_rotation_tp e (day_rotation_h s) (day_rotation_m s) w1 = (tp, tick w1)"
    by (simp add: next_rotation_tp_def now_tp_def Let_def)
  then have b: "clock e (calls w1) < tp \<and> tp \<le> clock e (calls w1) + 24 * 3600 * 10 ^ 9"
    using next_rotation_bounds [OF assms(2), of "day_rotation_h s" "day_rotation_m s" w1] assms(3) by (simp add: day_ok_def)
  let ?s = "s1\<lparr>day_rotation_tp := tp\<rparr>"
  have s: "day_ok ?s (tick w1)" "day_file ?s = ?n" "day_view ?s (tick w1) = day_view s1 w1"
    using 1 by simp_all
  obtain s' w' where "(let (r, h, w) = write_file e msg (day_helper ?s) (tick w1) in (r, ?s\<lparr>day_helper := h\<rparr>, w)) = (Inr (), s', w')"
    "day_ok s' w'" "day_file s' = ?n" "day_rotation_tp s' = tp"
    "day_view s' w' = (day_view s1 w1)(?n \<mapsto> the (day_view s1 w1 ?n) @ msg)"
    using day_write [OF assms(1) s(1), of msg] s by auto
  moreover have "\<exists>n. clock e n < tp \<and> tp \<le> clock e n + 24 * 3600 * 10 ^ 9"
    using b by blast
  ultimately show ?thesis
    using False 1 tp by (auto simp: daily_sink_it_def now_tp_def ebind_def)
qed

theorem daily_sink_step_witness:
  "\<exists>s' w'. daily_sink_it default_daily_filename quiet_env ''m''
      \<lparr>day_base = ''log'', day_rotation_h = 2, day_rotation_m = 30, day_rotation_tp = 0,
        day_helper = \<lparr>helper_fd = Some \<lparr>stream_name = ''old'', unflushed = []\<rparr>, helper_filename = ''old''\<rparr>\<rparr>
      \<lparr>files = [''old'' \<mapsto> ''x''], calls = 0\<rparr> = (Inr (), s', w') \<and>
    day_file s' = day_name ''log'' (clock_tm quiet_env 1)"
  using daily_sink_step [of quiet_env "\<lparr>day_base = ''log'', day_rotation_h = 2, day_rotation_m = 30, day_rotation_tp = 0,
      day_helper = \<lparr>helper_fd = Some \<lparr>stream_name = ''old'', unflushed = []\<rparr>, helper_filename = ''old''\<rparr>\<rparr>"
    "\<lparr>files = [''old'' \<mapsto> ''x''], calls = 0\<rparr>" "''m''"]
  by (auto simp: quiet_env_def healthy_def calls_succeed_def plain_days_def fields_ok_def second_of_day_def day_ok_def)

subsection \<open>The simple sink\<close>

definition simple_ok :: "simple_file_sink \<Rightarrow> file_world \<Rightarrow> bool" where
  "simple_ok s w \<longleftrightarrow> (case helper_fd (simple_helper s) of None \<Rightarrow> False | Some f \<Rightarrow> files w (stream_name f) \<noteq> None)"

definition simple_content :: "simple_file_sink \<Rightarrow> file_world \<Rightarrow> string" where
  "simple_content s w = (case helper_fd (simple_helper s) of None \<Rightarrow> [] | Some f \<Rightarrow> the (files w (stream_name f)) @ unflushed f)"

definition simple_file :: "simple_file_sink \<Rightarrow> string" where
  "simple_file s = (case helper_fd (simple_helper s) of None \<Rightarrow> [] | Some f \<Rightarrow> stream_name f)"

definition simple_pending :: "simple_file_sink \<Rightarrow> string" where
  "simple_pending s = (case helper_fd (simple_helper s) of None \<Rightarrow> [] | Some f \<Rightarrow> unflushed f)"

lemma simple_sink_step:
  assumes "healthy e" "simple_ok s w"
  shows "\<exists>s' w'. simple_sink_it e m s w = (Inr (), s', w') \<and> simple_ok s' w' \<and> simple_content s' w' = simple_content s w @ m \<and>
    simple_file s' = simple_file s \<and> (\<forall>x. x \<noteq> simple_file s \<longrightarrow> files w' x = files w x) \<and>
    (simple_force_flush s \<longrightarrow> simple_pending s' = [])"
proof -
  obtain f c where f: "helper_fd (simple_helper s) = Some f" "files w (stream_name f) = Some c"
    using assms(2) by (auto simp: simple_ok_def split: option.splits)
  have e: "calls_succeed e" using assms(1) by (simp add: healthy_def)
  then obtain f' c' w' where w': "write_file e m (simple_helper s) w = (Inr (), (simple_helper s)\<lparr>helper_fd := Some f'\<rparr>, w')"
    "stream_name f' = stream_name f" "files w' = (files w)(stream_name f \<mapsto> c')" "c' @ unflushed f' = c @ unflushed f @ m"
    using write_file_healthy [of e "simple_helper s" f w c m] f by auto
  then have "files (write_out (stream_name f) (unflushed f') w') = (files w)(stream_name f \<mapsto> c' @ unflushed f')"
    using files_write_out [of w' "stream_name f" c'] by simp
  with w' f e show ?thesis
    by (simp add: simple_sink_it_def ebind_def simple_flush_def flush_file_def fflush_def calls_succeed_def simple_ok_def simple_content_def
        simple_file_def simple_pending_def)
qed

lemma simple_flush_step:
  assumes "healthy e" "simple_ok s w"
  shows "\<exists>s' w'. simple_flush e s w = (s', w') \<and> simple_ok s' w' \<and> simple_content s' w' = simple_content s w \<and>
    simple_file s' = simple_file s \<and> (\<forall>x. x \<noteq> simple_file s \<longrightarrow> files w' x = files w x) \<and> simple_pending s' = []"
proof -
  obtain f c where f: "helper_fd (simple_helper s) = Some f" "files w (stream_name f) = Some c"
    using assms(2) by (auto simp: simple_ok_def split: option.splits)
  then show ?thesis
    using assms(1) files_write_out [of w "stream_name f" c "unflushed f"]
    by (simp add: simple_flush_def flush_file_def fflush_def healthy_def calls_succeed_def simple_ok_def simple_content_def
        simple_file_def simple_pending_def)
qed

interpretation simple: log_sink simple_sink_it simple_ok simple_content "\<lambda>m c. c @ m" "\<lambda>ms c. True"
  using simple_sink_step by unfold_locales blast+

subsection \<open>Flushing while another thread rotates\<close>

text \<open>
  \<open>base_sink::log\<close> holds the mutex while it rotates; \<open>base_sink::flush\<close> does not take it.  One thread
  rotates, another one flushes; a step is an access to \<open>_fd\<close> or a call of the C library on a stream.
  Streams are numbered; \<open>locked\<close> says whether flushing takes the mutex, which it does not in the source.
\<close>

datatype rotate_pc = Rotate_idle | Rotate_fclose | Rotate_null | Rotate_open

datatype flush_pc = Flush_idle | Flush_load | Flush_call "nat option" | Flush_fault fault

record flush_state =
  race_fd :: "nat option"
  live_streams :: "nat set"
  fresh_stream :: nat
  rotate_pc :: rotate_pc
  flush_pc :: flush_pc

inductive flush_step :: "bool \<Rightarrow> flush_state \<Rightarrow> flush_state \<Rightarrow> bool" for locked where
  rotate_begin: "rotate_pc s = Rotate_idle \<Longrightarrow> race_fd s \<noteq> None \<Longrightarrow> \<not> locked \<or> flush_pc s = Flush_idle \<Longrightarrow>
    flush_step locked s (s\<lparr>rotate_pc := Rotate_fclose\<rparr>)"
| rotate_fclose: "rotate_pc s = Rotate_fclose \<Longrightarrow> race_fd s = Some f \<Longrightarrow>
    flush_step locked s (s\<lparr>live_streams := live_streams s - {f}, rotate_pc := Rotate_null\<rparr>)"
| rotate_null: "rotate_pc s = Rotate_null \<Longrightarrow> flush_step locked s (s\<lparr>race_fd := None, rotate_pc := Rotate_open\<rparr>)"
| rotate_open: "rotate_pc s = Rotate_open \<Longrightarrow>
    flush_step locked s (s\<lparr>race_fd := Some (fresh_stream s), live_streams := insert (fresh_stream s) (live_streams s),
      fresh_stream := Suc (fresh_stream s), rotate_pc := Rotate_idle\<rparr>)"
| flush_begin: "flush_pc s = Flush_idle \<Longrightarrow> \<not> locked \<or> rotate_pc s = Rotate_idle \<Longrightarrow>
    flush_step locked s (s\<lparr>flush_pc := Flush_load\<rparr>)"
| flush_load: "flush_pc s = Flush_load \<Longrightarrow> flush_step locked s (s\<lparr>flush_pc := Flush_call (race_fd s)\<rparr>)"
| flush_call: "flush_pc s = Flush_call x \<Longrightarrow>
    flush_step locked s (s\<lparr>flush_pc := (case x of None \<Rightarrow> Flush_idle
      | Some f \<Rightarrow> if f \<in> live_streams s then Flush_idle else Flush_fault UseAfterFree)\<rparr>)"

definition flush_init :: flush_state where
  "flush_init = \<lparr>race_fd = Some 0, live_streams = {0}, fresh_stream = 1, rotate_pc = Rotate_idle, flush_pc = Flush_idle\<rparr>"

definition flush_inv :: "flush_state \<Rightarrow> bool" where
  "flush_inv s \<longleftrightarrow> (rotate_pc s = Rotate_idle \<longrightarrow> (\<exists>f. race_fd s = Some f \<and> f \<in> live_streams s)) \<and>
     (rotate_pc s \<noteq> Rotate_idle \<longrightarrow> flush_pc s = Flush_idle) \<and>
     (\<forall>f. flush_pc s = Flush_call (Some f) \<longrightarrow> f \<in> live_streams s) \<and> (\<forall>x. flush_pc s \<noteq> Flush_fault x)"

lemma flush_inv_step: "flush_step True s s' \<Longrightarrow> flush_inv s \<Longrightarrow> flush_inv s'"
  by (induction rule: flush_step.induct) (auto simp: flush_inv_def split: option.splits if_splits)



end
