(* ===== verification/Spdlog_Logger.thy ===== *)
theory Spdlog_Logger
  imports Spdlog_Sinks "HOL-Library.AList"
begin

text \<open>
  Loggers of spdlog: the levels of \<open>common.h\<close>, messages (\<open>details/log_msg.h\<close>), sinks with
  their levels (\<open>sinks/sink.h\<close>), the logger (\<open>details/logger_impl.h\<close>) and the registry
  (\<open>details/registry.h\<close>).  Sinks are shared objects, so a logger holds their numbers and the objects
  are in a store.  The virtual functions of sinks are the parameter \<open>sink_class\<close>, which the class of
  file sinks at the end instantiates; a formatter is a function.  What comes from outside, the time, the
  thread and the text of an exception, is the parameter \<open>log_env\<close>.
\<close>

unbundle bit_operations_syntax

subsection \<open>Levels and messages\<close>

datatype level_enum = Trace | Debug | Info | Warn | Err | Critical | Off

fun level_num :: "level_enum \<Rightarrow> int" where
  "level_num Trace = 0"
| "level_num Debug = 1"
| "level_num Info = 2"
| "level_num Warn = 3"
| "level_num Err = 4"
| "level_num Critical = 5"
| "level_num Off = 6"

definition level_names :: "string list" where
  "level_names = [''trace'', ''debug'', ''info'', ''warning'', ''error'', ''critical'', ''off'']"

definition short_level_names :: "string list" where
  "short_level_names = [''T'', ''D'', ''I'', ''W'', ''E'', ''C'', ''O'']"

definition level_str :: "level_enum \<Rightarrow> string" where
  "level_str l = level_names ! nat (level_num l)"

definition level_short_str :: "level_enum \<Rightarrow> string" where
  "level_short_str l = short_level_names ! nat (level_num l)"

record log_msg =
  msg_logger :: string
  msg_level :: level_enum
  msg_time :: int
  msg_thread :: nat
  msg_raw :: string
  msg_formatted :: string
  msg_id :: nat

subsection \<open>Sinks\<close>

record 'o sink =
  sink_level :: level_enum
  sink_object :: 'o

record ('o, 'w) sink_class =
  class_log :: "log_msg \<Rightarrow> 'o \<Rightarrow> 'w \<Rightarrow> unit result \<times> 'o \<times> 'w"
  class_flush :: "'o \<Rightarrow> 'w \<Rightarrow> unit result \<times> 'o \<times> 'w"

record ('o, 'w) log_state =
  sink_store :: "nat \<Rightarrow> 'o sink"
  outer :: 'w

definition new_sink :: "'o \<Rightarrow> 'o sink" where
  "new_sink obj = \<lparr>sink_level = Trace, sink_object = obj\<rparr>"

definition sink_should_log :: "level_enum \<Rightarrow> 'o sink \<Rightarrow> bool" where
  "sink_should_log lvl s \<longleftrightarrow> level_num lvl \<ge> level_num (sink_level s)"

definition sink_set_level :: "level_enum \<Rightarrow> 'o sink \<Rightarrow> 'o sink" where
  "sink_set_level lvl s = s\<lparr>sink_level := lvl\<rparr>"

definition with_sink :: "nat \<Rightarrow> ('o \<Rightarrow> 'w \<Rightarrow> unit result \<times> 'o \<times> 'w) \<Rightarrow> ('o, 'w) log_state \<Rightarrow> unit result \<times> ('o, 'w) log_state" where
  "with_sink i f st =
     (let (r, obj, w) = f (sink_object (sink_store st i)) (outer st) in
      (r, st\<lparr>sink_store := (sink_store st)(i := (sink_store st i)\<lparr>sink_object := obj\<rparr>), outer := w\<rparr>))"

fun log_to_sinks :: "('o, 'w) sink_class \<Rightarrow> log_msg \<Rightarrow> nat list \<Rightarrow> ('o, 'w) log_state \<Rightarrow> unit result \<times> ('o, 'w) log_state" where
  "log_to_sinks cls msg [] st = (Inr (), st)"
| "log_to_sinks cls msg (i # is) st =
     ebind (if sink_should_log (msg_level msg) (sink_store st i) then with_sink i (class_log cls msg) st else (Inr (), st)) (\<lambda>_ st.
     log_to_sinks cls msg is st)"

fun flush_sinks :: "('o, 'w) sink_class \<Rightarrow> nat list \<Rightarrow> ('o, 'w) log_state \<Rightarrow> unit result \<times> ('o, 'w) log_state" where
  "flush_sinks cls [] st = (Inr (), st)"
| "flush_sinks cls (i # is) st = ebind (with_sink i (class_flush cls) st) (\<lambda>_ st. flush_sinks cls is st)"

subsection \<open>The logger\<close>

record 'w log_env =
  env_now :: "'w \<Rightarrow> int \<times> 'w"
  env_thread_id :: nat
  env_time :: "'w \<Rightarrow> int \<times> 'w"
  env_date :: "int \<Rightarrow> string"
  env_what :: "fault \<Rightarrow> string"
  env_stderr :: "string \<Rightarrow> 'w \<Rightarrow> 'w"
  env_counter :: bool
  env_sep :: string

datatype 'w err_handler = Default_handler | User_handler "string \<Rightarrow> 'w \<Rightarrow> unit result \<times> 'w" | No_handler

record 'w logger =
  lg_name :: string
  lg_sinks :: "nat list"
  lg_formatter :: "log_msg \<Rightarrow> string result"
  lg_level :: level_enum
  lg_flush_level :: level_enum
  lg_err_handler :: "'w err_handler"
  lg_last_err_time :: int
  lg_msg_counter :: nat

definition new_logger :: "(log_msg \<Rightarrow> string result) \<Rightarrow> string \<Rightarrow> nat list \<Rightarrow> 'w logger" where
  "new_logger default_formatter name sinks =
     \<lparr>lg_name = name, lg_sinks = sinks, lg_formatter = default_formatter, lg_level = Info, lg_flush_level = Off,
      lg_err_handler = Default_handler, lg_last_err_time = 0, lg_msg_counter = 1\<rparr>"

definition set_level :: "level_enum \<Rightarrow> 'w logger \<Rightarrow> 'w logger" where
  "set_level lvl lg = lg\<lparr>lg_level := lvl\<rparr>"

definition flush_on :: "level_enum \<Rightarrow> 'w logger \<Rightarrow> 'w logger" where
  "flush_on lvl lg = lg\<lparr>lg_flush_level := lvl\<rparr>"

definition set_formatter :: "(log_msg \<Rightarrow> string result) \<Rightarrow> 'w logger \<Rightarrow> 'w logger" where
  "set_formatter f lg = lg\<lparr>lg_formatter := f\<rparr>"

definition set_error_handler :: "'w err_handler \<Rightarrow> 'w logger \<Rightarrow> 'w logger" where
  "set_error_handler h lg = lg\<lparr>lg_err_handler := h\<rparr>"

definition should_log :: "level_enum \<Rightarrow> 'w logger \<Rightarrow> bool" where
  "should_log lvl lg \<longleftrightarrow> level_num lvl \<ge> level_num (lg_level lg)"

definition should_flush_on :: "log_msg \<Rightarrow> 'w logger \<Rightarrow> bool" where
  "should_flush_on msg lg \<longleftrightarrow> level_num (msg_level msg) \<ge> level_num (lg_flush_level lg) \<and> msg_level msg \<noteq> Off"

definition incr_msg_counter :: "log_msg \<Rightarrow> 'w logger \<Rightarrow> log_msg \<times> 'w logger" where
  "incr_msg_counter msg lg = (msg\<lparr>msg_id := lg_msg_counter lg\<rparr>, lg\<lparr>lg_msg_counter := (lg_msg_counter lg + 1) mod 2 ^ 64\<rparr>)"

definition logger_sink_it :: "'w log_env \<Rightarrow> ('o, 'w) sink_class \<Rightarrow> log_msg \<Rightarrow> 'w logger \<Rightarrow> ('o, 'w) log_state \<Rightarrow>
    unit result \<times> 'w logger \<times> ('o, 'w) log_state" where
  "logger_sink_it env cls msg lg st =
     (let (msg, lg) = (if env_counter env then incr_msg_counter msg lg else (msg, lg));
          (r, st) = ebind (lg_formatter lg msg, st) (\<lambda>t st.
            ebind (log_to_sinks cls (msg\<lparr>msg_formatted := t\<rparr>) (lg_sinks lg) st) (\<lambda>_ st.
            if should_flush_on msg lg then flush_sinks cls (lg_sinks lg) st else (Inr (), st))) in
      (r, lg, st))"

text \<open>What a \<open>catch\<close> clause can catch; the other faults end the program.\<close>

fun catchable :: "fault \<Rightarrow> bool" where
  "catchable (Thrown n) = True"
| "catchable BadAlloc = True"
| "catchable OutOfRange = True"
| "catchable BadFunction = True"
| "catchable _ = False"

definition default_err_handler :: "'w log_env \<Rightarrow> string \<Rightarrow> 'w logger \<Rightarrow> ('o, 'w) log_state \<Rightarrow>
    unit result \<times> 'w logger \<times> ('o, 'w) log_state" where
  "default_err_handler env msg lg st =
     (let (now, w) = env_time env (outer st); st = st\<lparr>outer := w\<rparr> in
      if now - lg_last_err_time lg < 60 then (Inr (), lg, st)
      else
        case rbind (format [] [Positional (Arg_STRING (Some (lg_name lg))), Positional (Arg_STRING (Some msg)),
            Positional (Arg_CSTRING 1 (env_date env now)), Positional (Arg_CSTRING 1 [CHR 0x0A])]
            ''[*** LOG ERROR ***] [{}] [{}] [{}]{}'' MemoryBuffer) str of
          Inl x \<Rightarrow> (Inl x, lg, st)
        | Inr t \<Rightarrow> (Inr (), lg\<lparr>lg_last_err_time := now\<rparr>, st\<lparr>outer := env_stderr env t (outer st)\<rparr>))"

definition call_err_handler :: "'w log_env \<Rightarrow> string \<Rightarrow> 'w logger \<Rightarrow> ('o, 'w) log_state \<Rightarrow>
    unit result \<times> 'w logger \<times> ('o, 'w) log_state" where
  "call_err_handler env msg lg st =
     (case lg_err_handler lg of
        Default_handler \<Rightarrow> default_err_handler env msg lg st
      | User_handler h \<Rightarrow> (let (r, w) = h msg (outer st) in (r, lg, st\<lparr>outer := w\<rparr>))
      | No_handler \<Rightarrow> (Inl BadFunction, lg, st))"

definition guarded :: "'w log_env \<Rightarrow> unit result \<times> 'w logger \<times> ('o, 'w) log_state \<Rightarrow> unit result \<times> 'w logger \<times> ('o, 'w) log_state" where
  "guarded env m =
     (case m of
        (Inr _, lg, st) \<Rightarrow> (Inr (), lg, st)
      | (Inl x, lg, st) \<Rightarrow> if catchable x then call_err_handler env (env_what env x) lg st else (Inl x, lg, st))"

definition new_log_msg :: "'w log_env \<Rightarrow> string \<Rightarrow> level_enum \<Rightarrow> ('o, 'w) log_state \<Rightarrow> log_msg \<times> ('o, 'w) log_state" where
  "new_log_msg env name lvl st =
     (let (t, w) = env_now env (outer st) in
      (\<lparr>msg_logger = name, msg_level = lvl, msg_time = t, msg_thread = env_thread_id env, msg_raw = [], msg_formatted = [], msg_id = 0\<rparr>,
       st\<lparr>outer := w\<rparr>))"

definition log_format :: "'w log_env \<Rightarrow> ('o, 'w) sink_class \<Rightarrow> level_enum \<Rightarrow> string \<Rightarrow> fmt_arg list \<Rightarrow> 'w logger \<Rightarrow> ('o, 'w) log_state \<Rightarrow>
    unit result \<times> 'w logger \<times> ('o, 'w) log_state" where
  "log_format env cls lvl fmt args lg st =
     (if \<not> should_log lvl lg then (Inr (), lg, st)
      else
        (let (msg, st) = new_log_msg env (lg_name lg) lvl st in
         guarded env (case rbind (format (env_sep env) args fmt MemoryBuffer) str of
             Inl x \<Rightarrow> (Inl x, lg, st)
           | Inr t \<Rightarrow> logger_sink_it env cls (msg\<lparr>msg_raw := t\<rparr>) lg st)))"

definition log_text :: "'w log_env \<Rightarrow> ('o, 'w) sink_class \<Rightarrow> level_enum \<Rightarrow> string \<Rightarrow> 'w logger \<Rightarrow> ('o, 'w) log_state \<Rightarrow>
    unit result \<times> 'w logger \<times> ('o, 'w) log_state" where
  "log_text env cls lvl text lg st =
     (if \<not> should_log lvl lg then (Inr (), lg, st)
      else
        (let (msg, st) = new_log_msg env (lg_name lg) lvl st in
         guarded env (logger_sink_it env cls (msg\<lparr>msg_raw := text\<rparr>) lg st)))"

definition flush_logger :: "('o, 'w) sink_class \<Rightarrow> 'w logger \<Rightarrow> ('o, 'w) log_state \<Rightarrow> unit result \<times> ('o, 'w) log_state" where
  "flush_logger cls lg st = flush_sinks cls (lg_sinks lg) st"

subsection \<open>The registry\<close>

text \<open>
  Loggers are shared objects: the registry maps names to numbers of loggers.  In asynchronous mode a new
  logger gets a queue, whose constructor throws unless its size is a power of two above one.
\<close>

datatype async_overflow_policy = Block_retry | Discard_log_msg

definition queue_size_ok :: "nat \<Rightarrow> bool" where
  "queue_size_ok n \<longleftrightarrow> n \<ge> 2 \<and> (of_nat n :: 64 word) AND (of_nat n - 1) = 0"

record 'w registry =
  reg_loggers :: "(string \<times> nat) list"
  reg_formatter :: "(log_msg \<Rightarrow> string result) option"
  reg_level :: level_enum
  reg_err_handler :: "'w err_handler"
  reg_async_mode :: bool
  reg_q_size :: nat
  reg_overflow_policy :: async_overflow_policy
  logger_store :: "nat \<Rightarrow> 'w logger"
  logger_async :: "nat \<Rightarrow> (nat \<times> async_overflow_policy) option"
  fresh_logger :: nat

definition throw_if_exists :: "string \<Rightarrow> 'w registry \<Rightarrow> unit result" where
  "throw_if_exists name reg = (if map_of (reg_loggers reg) name \<noteq> None then Inl (Thrown 194) else Inr ())"

definition register_logger :: "nat \<Rightarrow> 'w registry \<Rightarrow> unit result \<times> 'w registry" where
  "register_logger i reg =
     (let name = lg_name (logger_store reg i) in
      ebind (throw_if_exists name reg, reg) (\<lambda>_ reg.
      (Inr (), reg\<lparr>reg_loggers := AList.update name i (reg_loggers reg)\<rparr>)))"

definition get_logger :: "string \<Rightarrow> 'w registry \<Rightarrow> nat option" where
  "get_logger name reg = map_of (reg_loggers reg) name"

definition configured :: "'w registry \<Rightarrow> 'w logger \<Rightarrow> 'w logger" where
  "configured reg lg =
     (let lg = (case reg_formatter reg of None \<Rightarrow> lg | Some f \<Rightarrow> set_formatter f lg);
          lg = (case reg_err_handler reg of No_handler \<Rightarrow> lg | h \<Rightarrow> set_error_handler h lg) in
      set_level (reg_level reg) lg)"

definition create :: "(log_msg \<Rightarrow> string result) \<Rightarrow> string \<Rightarrow> nat list \<Rightarrow> 'w registry \<Rightarrow> nat result \<times> 'w registry" where
  "create default_formatter name sinks reg =
     ebind (throw_if_exists name reg, reg) (\<lambda>_ reg.
     if reg_async_mode reg \<and> \<not> queue_size_ok (reg_q_size reg) then (Inl (Thrown 69), reg)
     else
       (let i = fresh_logger reg in
        (Inr i, reg\<lparr>fresh_logger := Suc i,
           logger_store := (logger_store reg)(i := configured reg (new_logger default_formatter name sinks)),
           logger_async := (logger_async reg)(i := if reg_async_mode reg then Some (reg_q_size reg, reg_overflow_policy reg) else None),
           reg_loggers := AList.update name i (reg_loggers reg)\<rparr>)))"

definition create_async :: "(log_msg \<Rightarrow> string result) \<Rightarrow> string \<Rightarrow> nat \<Rightarrow> async_overflow_policy \<Rightarrow> nat list \<Rightarrow> 'w registry \<Rightarrow>
    nat result \<times> 'w registry" where
  "create_async default_formatter name queue_size overflow_policy sinks reg =
     ebind (throw_if_exists name reg, reg) (\<lambda>_ reg.
     if \<not> queue_size_ok queue_size then (Inl (Thrown 69), reg)
     else
       (let i = fresh_logger reg in
        (Inr i, reg\<lparr>fresh_logger := Suc i,
           logger_store := (logger_store reg)(i := configured reg (new_logger default_formatter name sinks)),
           logger_async := (logger_async reg)(i := Some (queue_size, overflow_policy)),
           reg_loggers := AList.update name i (reg_loggers reg)\<rparr>)))"

definition apply_all :: "('w logger \<Rightarrow> 'w logger) \<Rightarrow> 'w registry \<Rightarrow> 'w registry" where
  "apply_all f reg = reg\<lparr>logger_store := fold (\<lambda>(name, i) ls. ls(i := f (ls i))) (reg_loggers reg) (logger_store reg)\<rparr>"

definition drop_logger :: "string \<Rightarrow> 'w registry \<Rightarrow> 'w registry" where
  "drop_logger name reg = reg\<lparr>reg_loggers := AList.delete name (reg_loggers reg)\<rparr>"

definition drop_all :: "'w registry \<Rightarrow> 'w registry" where
  "drop_all reg = reg\<lparr>reg_loggers := []\<rparr>"

definition registry_formatter :: "(log_msg \<Rightarrow> string result) \<Rightarrow> 'w registry \<Rightarrow> 'w registry" where
  "registry_formatter f reg = apply_all (set_formatter f) (reg\<lparr>reg_formatter := Some f\<rparr>)"

definition registry_set_level :: "level_enum \<Rightarrow> 'w registry \<Rightarrow> 'w registry" where
  "registry_set_level lvl reg = (apply_all (set_level lvl) reg)\<lparr>reg_level := lvl\<rparr>"

definition registry_set_error_handler :: "'w err_handler \<Rightarrow> 'w registry \<Rightarrow> 'w registry" where
  "registry_set_error_handler h reg = (apply_all (set_error_handler h) reg)\<lparr>reg_err_handler := h\<rparr>"

definition set_async_mode :: "nat \<Rightarrow> async_overflow_policy \<Rightarrow> 'w registry \<Rightarrow> 'w registry" where
  "set_async_mode q_size policy reg = reg\<lparr>reg_async_mode := True, reg_q_size := q_size, reg_overflow_policy := policy\<rparr>"

definition set_sync_mode :: "'w registry \<Rightarrow> 'w registry" where
  "set_sync_mode reg = reg\<lparr>reg_async_mode := False\<rparr>"

definition new_registry :: "(nat \<Rightarrow> 'w logger) \<Rightarrow> nat \<Rightarrow> 'w registry" where
  "new_registry store fresh =
     \<lparr>reg_loggers = [], reg_formatter = None, reg_level = Info, reg_err_handler = No_handler, reg_async_mode = False,
      reg_q_size = 0, reg_overflow_policy = Block_retry, logger_store = store, logger_async = (\<lambda>i. None), fresh_logger = fresh\<rparr>"

subsection \<open>The class of file sinks\<close>

text \<open>\<open>base_sink::log\<close> and \<open>flush\<close> for the sinks that write to files, and for the null sink.\<close>

datatype file_sink = Simple simple_file_sink | Rotating rotating_file_sink | Daily daily_file_sink | Null

fun file_sink_log :: "file_env \<Rightarrow> log_msg \<Rightarrow> file_sink \<Rightarrow> file_world \<Rightarrow> unit result \<times> file_sink \<times> file_world" where
  "file_sink_log e msg (Simple s) w = (let (r, s, w) = simple_sink_it e (msg_formatted msg) s w in (r, Simple s, w))"
| "file_sink_log e msg (Rotating s) w = (let (r, s, w) = rotating_sink_it e (msg_formatted msg) s w in (r, Rotating s, w))"
| "file_sink_log e msg (Daily s) w = (let (r, s, w) = daily_sink_it default_daily_filename e (msg_formatted msg) s w in (r, Daily s, w))"
| "file_sink_log e msg Null w = (Inr (), Null, w)"

fun file_sink_flush :: "file_env \<Rightarrow> file_sink \<Rightarrow> file_world \<Rightarrow> unit result \<times> file_sink \<times> file_world" where
  "file_sink_flush e (Simple s) w = (let (s, w) = simple_flush e s w in (Inr (), Simple s, w))"
| "file_sink_flush e (Rotating s) w = (let (s, w) = rotating_flush e s w in (Inr (), Rotating s, w))"
| "file_sink_flush e (Daily s) w = (let (s, w) = daily_flush e s w in (Inr (), Daily s, w))"
| "file_sink_flush e Null w = (Inr (), Null, w)"

definition file_class :: "file_env \<Rightarrow> (file_sink, file_world) sink_class" where
  "file_class e = \<lparr>class_log = file_sink_log e, class_flush = file_sink_flush e\<rparr>"

end
