(* ===== verification/Spdlog_Logger_Props.thy ===== *)
theory Spdlog_Logger_Props
  imports Spdlog_Logger
begin

text \<open>
  Properties of \<open>Spdlog_Logger\<close>: which sinks get a message, what happens to exceptions, and the
  registry.  The contract of the sinks is a locale, interpreted on the file sinks.
\<close>

lemma ebind_simps [simp]: "ebind (Inr a, s) f = f a s" "ebind (Inl x, s) f = (Inl x, s)"
  by (simp_all add: ebind_def)

subsection \<open>What loggers need of sinks\<close>

text \<open>
  \<open>good\<close> holds of states in which the sinks numbered \<open>ids\<close> work; \<open>received\<close> is what a
  sink has been given so far.
\<close>

locale sink_protocol =
  fixes cls :: "('o, 'w) sink_class"
    and ids :: "nat list"
    and good :: "('o, 'w) log_state \<Rightarrow> bool"
    and received :: "nat \<Rightarrow> ('o, 'w) log_state \<Rightarrow> string"
    and pending :: "nat \<Rightarrow> ('o, 'w) log_state \<Rightarrow> string"
  assumes log_law: "good st \<Longrightarrow> i \<in> set ids \<Longrightarrow> \<exists>st'. with_sink i (class_log cls msg) st = (Inr (), st') \<and> good st' \<and>
      received i st' = received i st @ msg_formatted msg \<and> (\<forall>j \<in> set ids. j \<noteq> i \<longrightarrow> received j st' = received j st) \<and>
      (\<forall>j. sink_level (sink_store st' j) = sink_level (sink_store st j))"
    and flush_law: "good st \<Longrightarrow> i \<in> set ids \<Longrightarrow> \<exists>st'. with_sink i (class_flush cls) st = (Inr (), st') \<and> good st' \<and>
      pending i st' = [] \<and> (\<forall>j \<in> set ids. received j st' = received j st \<and> (j \<noteq> i \<longrightarrow> pending j st' = pending j st))"
begin

lemma log_to_sinks_delivers:
  "good st \<Longrightarrow> set is \<subseteq> set ids \<Longrightarrow> distinct is \<Longrightarrow>
    \<exists>st'. log_to_sinks cls msg is st = (Inr (), st') \<and> good st' \<and>
    (\<forall>j. sink_level (sink_store st' j) = sink_level (sink_store st j)) \<and>
    (\<forall>j \<in> set ids. received j st' = received j st @
      (if j \<in> set is \<and> sink_should_log (msg_level msg) (sink_store st j) then msg_formatted msg else []))"
proof (induction "is" arbitrary: st)
  case (Cons i "is")
  show ?case
  proof (cases "sink_should_log (msg_level msg) (sink_store st i)")
    case False
    with Cons.IH [of st] Cons.prems show ?thesis by (auto simp: log_to_sinks.simps(2))
  next
    case True
    obtain st1 where 1: "with_sink i (class_log cls msg) st = (Inr (), st1)" "good st1"
      "received i st1 = received i st @ msg_formatted msg" "\<And>j. j \<in> set ids \<Longrightarrow> j \<noteq> i \<Longrightarrow> received j st1 = received j st"
      "\<And>j. sink_level (sink_store st1 j) = sink_level (sink_store st j)"
      using log_law [OF Cons.prems(1), of i msg] Cons.prems(2) by auto
    obtain st2 where 2: "log_to_sinks cls msg is st1 = (Inr (), st2)" "good st2"
      "\<And>j. sink_level (sink_store st2 j) = sink_level (sink_store st1 j)"
      "\<And>j. j \<in> set ids \<Longrightarrow> received j st2 = received j st1 @
        (if j \<in> set is \<and> sink_should_log (msg_level msg) (sink_store st1 j) then msg_formatted msg else [])"
      using Cons.IH [OF 1(2)] Cons.prems by auto
    have "sink_should_log (msg_level msg) (sink_store st1 j) = sink_should_log (msg_level msg) (sink_store st j)" for j
      by (simp add: sink_should_log_def 1(5))
    with 1 2 True Cons.prems show ?thesis
      by (auto simp: log_to_sinks.simps(2))
  qed
qed simp

lemma flush_sinks_flushes:
  "good st \<Longrightarrow> set is \<subseteq> set ids \<Longrightarrow>
    \<exists>st'. flush_sinks cls is st = (Inr (), st') \<and> good st' \<and>
    (\<forall>j \<in> set ids. received j st' = received j st \<and> pending j st' = (if j \<in> set is then [] else pending j st))"
proof (induction "is" arbitrary: st)
  case (Cons i "is")
  obtain st1 where 1: "with_sink i (class_flush cls) st = (Inr (), st1)" "good st1" "pending i st1 = []"
    "\<And>j. j \<in> set ids \<Longrightarrow> received j st1 = received j st" "\<And>j. j \<in> set ids \<Longrightarrow> j \<noteq> i \<Longrightarrow> pending j st1 = pending j st"
    using flush_law [OF Cons.prems(1), of i] Cons.prems(2) by auto
  obtain st2 where 2: "flush_sinks cls is st1 = (Inr (), st2)" "good st2"
    "\<And>j. j \<in> set ids \<Longrightarrow> received j st2 = received j st1 \<and> pending j st2 = (if j \<in> set is then [] else pending j st1)"
    using Cons.IH [OF 1(2)] Cons.prems(2) by auto
  show ?case
    using 1 2 Cons.prems by (auto simp: flush_sinks.simps(2))
qed simp

lemma sink_it_delivers:
  assumes "good st" "set (lg_sinks lg) \<subseteq> set ids" "distinct (lg_sinks lg)"
    and "\<And>n. lg_formatter lg (if env_counter env then msg\<lparr>msg_id := n\<rparr> else msg) = Inr t"
  shows "\<exists>lg' st'. logger_sink_it env cls msg lg st = (Inr (), lg', st') \<and> good st' \<and>
    (\<forall>j \<in> set ids. received j st' = received j st @
      (if j \<in> set (lg_sinks lg) \<and> sink_should_log (msg_level msg) (sink_store st j) then t else [])) \<and>
    (should_flush_on msg lg \<longrightarrow> (\<forall>j \<in> set (lg_sinks lg). pending j st' = []))"
proof -
  let ?m = "if env_counter env then msg\<lparr>msg_id := lg_msg_counter lg\<rparr> else msg"
  let ?l = "if env_counter env then lg\<lparr>lg_msg_counter := (lg_msg_counter lg + 1) mod 2 ^ 64\<rparr> else lg"
  have l: "lg_sinks ?l = lg_sinks lg" "lg_formatter ?l ?m = Inr t" "should_flush_on ?m ?l = should_flush_on msg lg"
    "msg_level ?m = msg_level msg"
    using assms(4) [of "lg_msg_counter lg"] by (auto simp: should_flush_on_def)
  obtain st1 where 1: "log_to_sinks cls (?m\<lparr>msg_formatted := t\<rparr>) (lg_sinks lg) st = (Inr (), st1)" "good st1"
    "\<forall>j \<in> set ids. received j st1 = received j st @
      (if j \<in> set (lg_sinks lg) \<and> sink_should_log (msg_level msg) (sink_store st j) then t else [])"
    using log_to_sinks_delivers [OF assms(1-3), of "?m\<lparr>msg_formatted := t\<rparr>"] l(4) by auto
  obtain st2 where 2: "flush_sinks cls (lg_sinks lg) st1 = (Inr (), st2)" "good st2"
    "\<forall>j \<in> set ids. received j st2 = received j st1 \<and> pending j st2 = (if j \<in> set (lg_sinks lg) then [] else pending j st1)"
    using flush_sinks_flushes [OF 1(2) assms(2)] by blast
  have "logger_sink_it env cls msg lg st = (Inr (), ?l, if should_flush_on msg lg then st2 else st1)"
    unfolding logger_sink_it_def incr_msg_counter_def Let_def
    using l 1(1) 2(1) by (auto split: if_splits)
  then show ?thesis
    using 1 2 assms(2) by (intro exI [of _ ?l] exI [of _ "if should_flush_on msg lg then st2 else st1"]) auto
qed

end

locale logging = sink_protocol cls ids good received pending
  for cls :: "('o, 'w) sink_class" and ids good received pending +
  fixes env :: "'w log_env"
  assumes now_law: "good st \<Longrightarrow> good (st\<lparr>outer := snd (env_now env (outer st))\<rparr>) \<and>
      (\<forall>j \<in> set ids. received j (st\<lparr>outer := snd (env_now env (outer st))\<rparr>) = received j st \<and>
        pending j (st\<lparr>outer := snd (env_now env (outer st))\<rparr>) = pending j st)"
begin

lemma log_format_delivers:
  assumes "good st" "set (lg_sinks lg) \<subseteq> set ids" "distinct (lg_sinks lg)" "\<And>m. lg_formatter lg m = Inr (f m)"
    and "\<And>m n. f (m\<lparr>msg_id := n\<rparr>) = f m"
    and "safe_args args fmt" "CHR 0x00 \<notin> set fmt" "rbind (parse_format args 0 fmt) (render (env_sep env)) = Inr raw"
  shows "\<exists>m lg' st'. log_format env cls lvl fmt args lg st = (Inr (), lg', st') \<and> good st' \<and>
    msg_raw m = raw \<and> msg_level m = lvl \<and> msg_logger m = lg_name lg \<and>
    (\<forall>j \<in> set ids. received j st' = received j st @
      (if should_log lvl lg \<and> j \<in> set (lg_sinks lg) \<and> sink_should_log lvl (sink_store st j) then f m else [])) \<and>
    (should_log lvl lg \<and> should_flush_on m lg \<longrightarrow> (\<forall>j \<in> set (lg_sinks lg). pending j st' = []))"
proof (cases "should_log lvl lg")
  case False
  then show ?thesis
    using assms(1) by (intro exI [of _ "\<lparr>msg_logger = lg_name lg, msg_level = lvl, msg_time = 0, msg_thread = 0, msg_raw = raw,
      msg_formatted = [], msg_id = 0\<rparr>"]) (auto simp: log_format_def)
next
  case True
  obtain t w where w: "env_now env (outer st) = (t, w)" by fastforce
  let ?st = "st\<lparr>outer := w\<rparr>"
  let ?m = "\<lparr>msg_logger = lg_name lg, msg_level = lvl, msg_time = t, msg_thread = env_thread_id env, msg_raw = raw,
    msg_formatted = [], msg_id = 0\<rparr>"
  have g: "good ?st" "\<forall>j \<in> set ids. received j ?st = received j st"
    using now_law [OF assms(1)] w by simp_all
  have raw: "rbind (format (env_sep env) args fmt MemoryBuffer) str = Inr raw"
    using format_outcome [OF holds_new assms(6,7), of "env_sep env"] assms(8) by (auto simp: outcome_def str_holds)
  have fm: "lg_formatter lg (if env_counter env then ?m\<lparr>msg_id := n\<rparr> else ?m) = Inr (f ?m)" for n
    using assms(5) [of n ?m] by (cases "env_counter env") (simp_all only: assms(4) if_True if_False)
  obtain lg' st' where 1: "logger_sink_it env cls ?m lg ?st = (Inr (), lg', st')" "good st'"
    "\<forall>j \<in> set ids. received j st' = received j ?st @
      (if j \<in> set (lg_sinks lg) \<and> sink_should_log lvl (sink_store st j) then f ?m else [])"
    "should_flush_on ?m lg \<longrightarrow> (\<forall>j \<in> set (lg_sinks lg). pending j st' = [])"
    using sink_it_delivers [OF g(1) assms(2,3) fm] by (simp only: log_msg.select_convs log_state.select_convs log_state.update_convs) auto
  then have "log_format env cls lvl fmt args lg st = (Inr (), lg', st')"
    using True raw w by (simp add: log_format_def new_log_msg_def guarded_def)
  with 1 g(2) True show ?thesis
    by (intro exI [of _ ?m]) auto
qed

end

subsection \<open>Loggers that write to files\<close>

abbreviation object_at :: "(file_sink, file_world) log_state \<Rightarrow> nat \<Rightarrow> file_sink" where
  "object_at st i \<equiv> sink_object (sink_store st i)"

fun sink_file :: "file_sink \<Rightarrow> string" where
  "sink_file (Simple s) = simple_file s"
| "sink_file _ = []"

fun sink_works :: "file_sink \<Rightarrow> file_world \<Rightarrow> bool" where
  "sink_works (Simple s) w = simple_ok s w"
| "sink_works _ w = False"

fun sink_content :: "file_sink \<Rightarrow> file_world \<Rightarrow> string" where
  "sink_content (Simple s) w = simple_content s w"
| "sink_content _ w = []"

fun sink_pending :: "file_sink \<Rightarrow> string" where
  "sink_pending (Simple s) = simple_pending s"
| "sink_pending _ = []"

text \<open>The sinks are simple file sinks on different files, and no library call fails.\<close>

definition files_good :: "file_env \<Rightarrow> nat list \<Rightarrow> (file_sink, file_world) log_state \<Rightarrow> bool" where
  "files_good e ids st \<longleftrightarrow> healthy e \<and> (\<forall>i \<in> set ids. sink_works (object_at st i) (outer st)) \<and>
     (\<forall>i \<in> set ids. \<forall>j \<in> set ids. i \<noteq> j \<longrightarrow> sink_file (object_at st i) \<noteq> sink_file (object_at st j))"

definition file_received :: "nat \<Rightarrow> (file_sink, file_world) log_state \<Rightarrow> string" where
  "file_received i st = sink_content (object_at st i) (outer st)"

definition file_pending :: "nat \<Rightarrow> (file_sink, file_world) log_state \<Rightarrow> string" where
  "file_pending i st = sink_pending (object_at st i)"

lemma sink_frame:
  assumes "files w' (sink_file obj) = files w (sink_file obj)" "sink_works obj w"
  shows "sink_works obj w'" "sink_content obj w' = sink_content obj w"
  using assms by (cases obj; auto simp: simple_ok_def simple_content_def simple_file_def split: option.splits)+

lemma works_simple: "sink_works obj w \<Longrightarrow> \<exists>s. obj = Simple s \<and> simple_ok s w"
  by (cases obj) auto

lemma files_good_update:
  assumes "files_good e ids st" "i \<in> set ids" "sink_works obj w" "sink_file obj = sink_file (object_at st i)"
    "\<forall>x. x \<noteq> sink_file (object_at st i) \<longrightarrow> files w x = files (outer st) x"
  defines "st' \<equiv> st\<lparr>sink_store := (sink_store st)(i := (sink_store st i)\<lparr>sink_object := obj\<rparr>), outer := w\<rparr>"
  shows "files_good e ids st'" "j \<in> set ids \<Longrightarrow> j \<noteq> i \<Longrightarrow> file_received j st' = file_received j st"
proof -
  have other: "files w (sink_file (object_at st j)) = files (outer st) (sink_file (object_at st j))" if "j \<in> set ids" "j \<noteq> i" for j
    using assms(1,2,5) that by (auto simp: files_good_def)
  have works: "sink_works (object_at st j) (outer st)" if "j \<in> set ids" for j
    using assms(1) that by (auto simp: files_good_def)
  show "files_good e ids st'"
    using assms(1-4) sink_frame(1) [OF other works] by (auto simp: files_good_def st'_def)
  show "file_received j st' = file_received j st" if "j \<in> set ids" "j \<noteq> i"
    using sink_frame(2) [OF other works] that by (simp add: file_received_def st'_def)
qed

lemma file_log_law:
  assumes "files_good e ids st" "i \<in> set ids"
  shows "\<exists>st'. with_sink i (class_log (file_class e) msg) st = (Inr (), st') \<and> files_good e ids st' \<and>
    file_received i st' = file_received i st @ msg_formatted msg \<and> (\<forall>j \<in> set ids. j \<noteq> i \<longrightarrow> file_received j st' = file_received j st) \<and>
    (\<forall>j. sink_level (sink_store st' j) = sink_level (sink_store st j))"
proof -
  obtain s where s: "object_at st i = Simple s" "simple_ok s (outer st)" "healthy e"
    using works_simple [of "object_at st i" "outer st"] assms by (auto simp: files_good_def)
  obtain s' w' where 1: "simple_sink_it e (msg_formatted msg) s (outer st) = (Inr (), s', w')" "simple_ok s' w'"
    "simple_content s' w' = simple_content s (outer st) @ msg_formatted msg" "simple_file s' = simple_file s"
    "\<forall>x. x \<noteq> simple_file s \<longrightarrow> files w' x = files (outer st) x"
    using simple_sink_step [OF s(3,2), of "msg_formatted msg"] by blast
  note upd = files_good_update [OF assms, of "Simple s'" w']
  show ?thesis
    using upd 1 s by (simp add: with_sink_def file_class_def file_received_def)
qed

lemma file_flush_law:
  assumes "files_good e ids st" "i \<in> set ids"
  shows "\<exists>st'. with_sink i (class_flush (file_class e)) st = (Inr (), st') \<and> files_good e ids st' \<and> file_pending i st' = [] \<and>
    (\<forall>j \<in> set ids. file_received j st' = file_received j st \<and> (j \<noteq> i \<longrightarrow> file_pending j st' = file_pending j st))"
proof -
  obtain s where s: "object_at st i = Simple s" "simple_ok s (outer st)" "healthy e"
    using works_simple [of "object_at st i" "outer st"] assms by (auto simp: files_good_def)
  obtain s' w' where 1: "simple_flush e s (outer st) = (s', w')" "simple_ok s' w'"
    "simple_content s' w' = simple_content s (outer st)" "simple_file s' = simple_file s"
    "\<forall>x. x \<noteq> simple_file s \<longrightarrow> files w' x = files (outer st) x" "simple_pending s' = []"
    using simple_flush_step [OF s(3,2)] by blast
  note upd = files_good_update [OF assms, of "Simple s'" w']
  show ?thesis
    using upd 1 s by (auto simp: with_sink_def file_class_def file_received_def file_pending_def)
qed

lemma files_good_tick:
  "files_good e ids st \<Longrightarrow> files_good e ids (st\<lparr>outer := tick (outer st)\<rparr>) \<and>
    (\<forall>j \<in> set ids. file_received j (st\<lparr>outer := tick (outer st)\<rparr>) = file_received j st \<and>
      file_pending j (st\<lparr>outer := tick (outer st)\<rparr>) = file_pending j st)"
  using sink_frame [of "tick (outer st)" _ "outer st"] by (simp add: files_good_def file_received_def file_pending_def)

interpretation file_logging: logging "file_class e" ids "files_good e ids" file_received file_pending "env\<lparr>env_now := now_tp e\<rparr>"
  for e ids env
  using file_log_law file_flush_law files_good_tick by unfold_locales (auto simp: now_tp_def)

text \<open>
  (C35) A logging call, end to end, when no call fails.  A logger on simple file sinks with different files formats the arguments,
  formats the message, and appends the result to exactly the files of its sinks, if the level reaches
  both the logger's and the sink's; when it also reaches the flush level, nothing stays in the
  buffers of the C library.
\<close>

theorem logger_writes_files:
  assumes "files_good e ids st" "set (lg_sinks lg) \<subseteq> set ids" "distinct (lg_sinks lg)" "\<And>m. lg_formatter lg m = Inr (f m)"
    and "\<And>m n. f (m\<lparr>msg_id := n\<rparr>) = f m"
    and "safe_args args fmt" "CHR 0x00 \<notin> set fmt" "rbind (parse_format args 0 fmt) (render (env_sep env)) = Inr raw"
  shows "\<exists>m lg' st'. log_format (env\<lparr>env_now := now_tp e\<rparr>) (file_class e) lvl fmt args lg st = (Inr (), lg', st') \<and> files_good e ids st' \<and>
    msg_raw m = raw \<and> msg_level m = lvl \<and> msg_logger m = lg_name lg \<and>
    (\<forall>j \<in> set ids. file_received j st' = file_received j st @
      (if should_log lvl lg \<and> j \<in> set (lg_sinks lg) \<and> sink_should_log lvl (sink_store st j) then f m else [])) \<and>
    (should_log lvl lg \<and> should_flush_on m lg \<longrightarrow> (\<forall>j \<in> set (lg_sinks lg). file_pending j st' = []))"
  using file_logging.log_format_delivers [OF assms(1-7)] assms(8) by simp

definition demo_log_env :: "file_world log_env" where
  "demo_log_env = \<lparr>env_now = now_tp quiet_env, env_thread_id = 1, env_time = now_tp quiet_env, env_date = (\<lambda>t. ''date''),
     env_what = (\<lambda>x. ''error''), env_stderr = (\<lambda>t w. write_out ''stderr'' t w), env_counter = False, env_sep = []\<rparr>"

definition demo_log_state :: "(file_sink, file_world) log_state" where
  "demo_log_state = \<lparr>sink_store = (\<lambda>i. new_sink (Simple \<lparr>simple_force_flush = False,
       simple_helper = \<lparr>helper_fd = Some \<lparr>stream_name = ''log'', unflushed = []\<rparr>, helper_filename = ''log''\<rparr>\<rparr>)),
     outer = \<lparr>files = [''log'' \<mapsto> ''old''], calls = 0\<rparr>\<rparr>"

theorem logger_writes_files_witness:
  "\<exists>lg' st'. log_format (demo_log_env\<lparr>env_now := now_tp quiet_env\<rparr>) (file_class quiet_env) Warn ''{}!'' [Positional (Arg_STRING (Some ''x''))]
      (new_logger (\<lambda>m. Inr (msg_raw m)) ''main'' [0]) demo_log_state = (Inr (), lg', st') \<and> file_received 0 st' = ''oldx!''"
proof -
  have "rbind (parse_format [Positional (Arg_STRING (Some ''x''))] 0 ''{}!'') (render (env_sep demo_log_env)) = Inr ''x!''"
    by (simp add: parser_defs text_defs)
  then show ?thesis
    using logger_writes_files [of quiet_env "[0]" demo_log_state "new_logger (\<lambda>m. Inr (msg_raw m)) ''main'' [0]" msg_raw
        "[Positional (Arg_STRING (Some ''x''))]" "''{}!''" demo_log_env "''x!''" Warn]
    by (auto simp: files_good_def demo_log_state_def healthy_def calls_succeed_def quiet_env_def new_logger_def new_sink_def
        simple_ok_def safe_args_def should_log_def sink_should_log_def file_received_def simple_content_def)
qed

subsection \<open>Exceptions\<close>

lemma default_handler_text:
  "rbind (format [] [Positional (Arg_STRING (Some name)), Positional (Arg_STRING (Some msg)), Positional (Arg_CSTRING 1 date),
     Positional (Arg_CSTRING 1 eol)] ''[*** LOG ERROR ***] [{}] [{}] [{}]{}'' MemoryBuffer) str =
    Inr (''[*** LOG ERROR ***] ['' @ name @ ''] ['' @ msg @ ''] ['' @ date @ '']'' @ eol)"
proof -
  let ?args = "[Positional (Arg_STRING (Some name)), Positional (Arg_STRING (Some msg)), Positional (Arg_CSTRING 1 date),
     Positional (Arg_CSTRING 1 eol)]"
  have "rbind (parse_format ?args 0 ''[*** LOG ERROR ***] [{}] [{}] [{}]{}'') (render []) =
      Inr (''[*** LOG ERROR ***] ['' @ name @ ''] ['' @ msg @ ''] ['' @ date @ '']'' @ eol)"
    by (simp add: parser_defs text_defs)
  then show ?thesis
    using format_outcome [OF holds_new, of ?args "''[*** LOG ERROR ***] [{}] [{}] [{}]{}''" "[]"]
    by (auto simp: outcome_def str_holds safe_args_def)
qed

lemma default_err_handler_spec:
  "default_err_handler env msg lg st =
     (let (now, w) = env_time env (outer st) in
      if now - lg_last_err_time lg < 60 then (Inr (), lg, st\<lparr>outer := w\<rparr>)
      else (Inr (), lg\<lparr>lg_last_err_time := now\<rparr>, st\<lparr>outer := env_stderr env
        (''[*** LOG ERROR ***] ['' @ lg_name lg @ ''] ['' @ msg @ ''] ['' @ env_date env now @ '']'' @ [CHR 0x0A]) w\<rparr>))"
  unfolding default_err_handler_def default_handler_text by (simp add: Let_def split: prod.splits)

lemma sink_it_keeps:
  assumes "logger_sink_it env cls msg lg st = (r, lg', st')"
  shows "lg_err_handler lg' = lg_err_handler lg \<and> lg_last_err_time lg' = lg_last_err_time lg"
  using assms by (auto simp: logger_sink_it_def incr_msg_counter_def Let_def split: prod.splits if_splits)

lemma guarded_default:
  assumes "guarded env (r, lg, st) = (r', lg', st')" "lg_err_handler lg = Default_handler"
  shows "(\<forall>x. r' = Inl x \<longrightarrow> \<not> catchable x) \<and>
    (lg_last_err_time lg' = lg_last_err_time lg \<or> lg_last_err_time lg' \<ge> lg_last_err_time lg + 60)"
proof (cases r)
  case (Inl x)
  then show ?thesis
    using assms
    by (cases "catchable x") (auto simp: guarded_def call_err_handler_def default_err_handler_spec Let_def split: prod.splits if_splits)
qed (use assms in \<open>auto simp: guarded_def\<close>)


definition broken_class :: "(unit, file_world) sink_class" where
  "broken_class = \<lparr>class_log = (\<lambda>m obj w. (Inl (Thrown 60), obj, w)), class_flush = (\<lambda>obj w. (Inr (), obj, w))\<rparr>"


subsection \<open>The registry\<close>

datatype 'w reg_op =
    Register nat | Create string "nat list" | Create_async string nat async_overflow_policy "nat list" | Drop string | Drop_all
  | Set_formatter "log_msg \<Rightarrow> string result" | Set_level level_enum | Set_handler "'w err_handler"
  | Async_mode nat async_overflow_policy | Sync_mode

fun reg_do :: "(log_msg \<Rightarrow> string result) \<Rightarrow> 'w reg_op \<Rightarrow> 'w registry \<Rightarrow> 'w registry" where
  "reg_do d (Register i) reg = snd (register_logger i reg)"
| "reg_do d (Create name sinks) reg = snd (create d name sinks reg)"
| "reg_do d (Create_async name n p sinks) reg = snd (create_async d name n p sinks reg)"
| "reg_do d (Drop name) reg = drop_logger name reg"
| "reg_do d Drop_all reg = drop_all reg"
| "reg_do d (Set_formatter f) reg = registry_formatter f reg"
| "reg_do d (Set_level l) reg = registry_set_level l reg"
| "reg_do d (Set_handler h) reg = registry_set_error_handler h reg"
| "reg_do d (Async_mode n p) reg = set_async_mode n p reg"
| "reg_do d Sync_mode reg = set_sync_mode reg"

fun reg_op_ok :: "'w reg_op \<Rightarrow> 'w registry \<Rightarrow> bool" where
  "reg_op_ok (Register i) reg = (i < fresh_logger reg)"
| "reg_op_ok _ reg = True"

definition reg_inv :: "'w registry \<Rightarrow> bool" where
  "reg_inv reg \<longleftrightarrow> distinct (map fst (reg_loggers reg)) \<and>
     (\<forall>(name, i) \<in> set (reg_loggers reg). lg_name (logger_store reg i) = name \<and> i < fresh_logger reg)"

lemma set_update_new: "k \<notin> fst ` set xs \<Longrightarrow> set (AList.update k v xs) = insert (k, v) (set xs)"
  by (induction xs) auto

lemma throw_if_exists_spec: "throw_if_exists name reg = (if name \<in> fst ` set (reg_loggers reg) then Inl (Thrown 194) else Inr ())"
  by (auto simp: throw_if_exists_def map_of_eq_None_iff)

lemma apply_all_spec:
  assumes "distinct (map snd xs)"
  shows "fold (\<lambda>(name, i) ls. ls(i := f (ls i))) xs ls i = (if i \<in> snd ` set xs then f (ls i) else ls i)"
  using assms
proof (induction xs arbitrary: ls)
  case (Cons x xs)
  then show ?case by (cases x) (auto simp: image_iff)
qed simp

lemma reg_inv_ids: "reg_inv reg \<Longrightarrow> distinct (map snd (reg_loggers reg))"
  unfolding reg_inv_def distinct_map inj_on_def by (auto split: prod.splits) (metis case_prodD prod.inject)+

lemma apply_all_inv:
  assumes "reg_inv reg" "\<And>lg. lg_name (f lg) = lg_name lg"
  shows "reg_inv (apply_all f reg)"
  using assms(1) assms(2) apply_all_spec [OF reg_inv_ids [OF assms(1)], of f "logger_store reg"]
  unfolding reg_inv_def apply_all_def by auto

lemma add_logger_inv:
  assumes "reg_inv reg" "name \<notin> fst ` set (reg_loggers reg)" "fresh_logger reg \<le> n" "i < n"
    and "lg_name (ls i) = name" "\<And>j. j \<noteq> i \<Longrightarrow> ls j = logger_store reg j" "i = fresh_logger reg \<or> ls i = logger_store reg i"
  shows "reg_inv (reg\<lparr>reg_loggers := AList.update name i (reg_loggers reg), logger_store := ls, fresh_logger := n, logger_async := la\<rparr>)"
proof -
  have "lg_name (ls j) = k \<and> j < n" if "(k, j) \<in> set (reg_loggers reg)" for k j
    using assms that by (cases "j = i") (auto simp: reg_inv_def)
  then show ?thesis
    using assms(1,2,4,5) by (auto simp: reg_inv_def set_update_new distinct_update)
qed

lemma configured_name [simp]: "lg_name (configured reg lg) = lg_name lg" "lg_level (configured reg lg) = reg_level reg"
  by (auto simp: configured_def set_level_def set_formatter_def set_error_handler_def Let_def split: option.splits err_handler.splits)

lemma register_inv:
  assumes "reg_inv reg" "i < fresh_logger reg"
  shows "reg_inv (snd (register_logger i reg))"
proof (cases "lg_name (logger_store reg i) \<in> fst ` set (reg_loggers reg)")
  case False
  have "reg\<lparr>reg_loggers := xs\<rparr> = reg\<lparr>reg_loggers := xs, logger_store := logger_store reg, fresh_logger := fresh_logger reg,
      logger_async := logger_async reg\<rparr>" for xs
    by (cases reg) simp
  with False assms add_logger_inv [of reg _ "fresh_logger reg" i "logger_store reg" "logger_async reg"] show ?thesis
    by (simp add: register_logger_def throw_if_exists_spec Let_def)
qed (use assms in \<open>simp add: register_logger_def throw_if_exists_spec Let_def\<close>)

lemma create_inv:
  assumes "reg_inv reg"
  shows "reg_inv (snd (create d name sinks reg))" "reg_inv (snd (create_async d name n p sinks reg))"
proof -
  let ?i = "fresh_logger reg"
  let ?ls = "(logger_store reg)(?i := configured reg (new_logger d name sinks))"
  have "reg_inv (reg\<lparr>fresh_logger := Suc ?i, logger_store := ?ls, logger_async := la, reg_loggers := AList.update name ?i (reg_loggers reg)\<rparr>)"
    if "name \<notin> fst ` set (reg_loggers reg)" for la
    using add_logger_inv [OF assms that, of "Suc ?i" ?i ?ls la] by (simp add: new_logger_def reg_inv_def)
  with assms show "reg_inv (snd (create d name sinks reg))" "reg_inv (snd (create_async d name n p sinks reg))"
    by (auto simp: create_def create_async_def throw_if_exists_spec Let_def)
qed

inductive reg_reach :: "(log_msg \<Rightarrow> string result) \<Rightarrow> 'w registry \<Rightarrow> bool" for d where
  start: "reg_reach d (new_registry store fresh)"
| do: "reg_reach d reg \<Longrightarrow> reg_op_ok op reg \<Longrightarrow> reg_reach d (reg_do d op reg)"

lemma reg_do_inv:
  assumes "reg_inv reg" "reg_op_ok op reg"
  shows "reg_inv (reg_do d op reg)"
proof (cases op)
  case (Register i)
  then show ?thesis using assms register_inv by simp
next
  case (Drop name)
  moreover have "set (AList.delete name (reg_loggers reg)) \<subseteq> set (reg_loggers reg)" by (auto simp: AList.delete_eq)
  ultimately show ?thesis using assms by (auto simp: drop_logger_def reg_inv_def distinct_delete)
next
  case (Set_formatter f)
  have "reg_inv (reg\<lparr>reg_formatter := Some f\<rparr>)" using assms(1) by (simp add: reg_inv_def)
  from apply_all_inv [OF this, of "set_formatter f"] Set_formatter show ?thesis
    by (simp add: registry_formatter_def set_formatter_def)
next
  case (Set_level l)
  from apply_all_inv [OF assms(1), of "set_level l"] Set_level show ?thesis
    by (simp add: registry_set_level_def set_level_def reg_inv_def)
next
  case (Set_handler h)
  from apply_all_inv [OF assms(1), of "set_error_handler h"] Set_handler show ?thesis
    by (simp add: registry_set_error_handler_def set_error_handler_def reg_inv_def)
next
  case (Create name sinks)
  then show ?thesis using create_inv(1) [OF assms(1)] by simp
next
  case (Create_async name n p sinks)
  then show ?thesis using create_inv(2) [OF assms(1)] by simp
qed (use assms in \<open>auto simp: drop_all_def set_async_mode_def set_sync_mode_def reg_inv_def\<close>)

lemma reg_reach_inv: "reg_reach d reg \<Longrightarrow> reg_inv reg"
  by (induction rule: reg_reach.induct) (simp add: new_registry_def reg_inv_def, simp add: reg_do_inv)

text \<open>
  (C37) The registry after any sequence of calls.  Every registered logger is found under its own name, no name
  twice.  Creating a logger under a name in use throws and changes nothing; under a free name it
  registers a logger with the registry's level and leaves the others alone, unless asynchronous mode asks for a queue
  that is not a power of two.  Setting the level reaches every registered logger.
\<close>

theorem registry_names:
  assumes "reg_reach d reg"
  shows "reg_inv reg \<and>
    (case get_logger name reg of
       Some i \<Rightarrow> lg_name (logger_store reg i) = name \<and> create d name sinks reg = (Inl (Thrown 194), reg) \<and>
         lg_level (logger_store (registry_set_level lvl reg) i) = lvl
     | None \<Rightarrow> \<exists>r reg'. create d name sinks reg = (r, reg') \<and>
         (if reg_async_mode reg \<and> \<not> queue_size_ok (reg_q_size reg) then r = Inl (Thrown 69) \<and> reg' = reg
          else \<exists>i. r = Inr i \<and> get_logger name reg' = Some i \<and> lg_level (logger_store reg' i) = reg_level reg \<and>
            (\<forall>n. n \<noteq> name \<longrightarrow> get_logger n reg' = get_logger n reg)))"
proof -
  have inv: "reg_inv reg" using assms by (rule reg_reach_inv)
  show ?thesis
  proof (cases "get_logger name reg")
    case None
    then have "throw_if_exists name reg = Inr ()" by (simp add: get_logger_def throw_if_exists_def)
    with None inv show ?thesis
      by (auto simp: create_def get_logger_def Let_def update_conv')
  next
    case (Some i)
    then have i: "(name, i) \<in> set (reg_loggers reg)" by (auto simp: get_logger_def dest: map_of_SomeD)
    then have "lg_level (logger_store (registry_set_level lvl reg) i) = lvl"
      using apply_all_spec [OF reg_inv_ids [OF inv], of "set_level lvl" "logger_store reg" i]
      by (auto simp: registry_set_level_def apply_all_def set_level_def image_iff)
    with Some i inv show ?thesis
      by (auto simp: create_def throw_if_exists_def get_logger_def reg_inv_def)
  qed
qed

theorem registry_names_witness:
  "\<exists>i reg'. create (\<lambda>m. Inr []) ''main'' [] (new_registry (\<lambda>i. new_logger (\<lambda>m. Inr []) [] []) 0 :: file_world registry) = (Inr i, reg') \<and>
    get_logger ''main'' reg' = Some i"
  using registry_names [OF reg_reach.start, of "\<lambda>i. new_logger (\<lambda>m. Inr []) [] []" 0 "\<lambda>m. Inr []" "''main''" "[]" Info]
  by (auto simp: new_registry_def get_logger_def)

end
