(* ===== verification/Spdlog_Async.thy ===== *)
theory Spdlog_Async
  imports Spdlog_Logger_Props Mpmc_Queue "HOL-Library.Sublist"
begin

unbundle bit_operations_syntax

text \<open>
  Asynchronous logging of spdlog: the bounded queue of \<open>details/mpmc_bounded_q.h\<close>, which is the algorithm
  of \<open>src/libs/mpmc_queue.hpp\<close> and shares its cells and loops with \<open>Mpmc_Queue\<close>, and the
  helper of \<open>details/async_log_helper.h\<close>: threads push messages, a worker takes them out, formats
  them and gives them to the sinks.  \<open>spurious\<close> counts the weak exchanges that fail in a call on the queue.
  The helper's copy of the error handler and the logger it may belong to are passed along.
\<close>

subsection \<open>The queue\<close>

definition log_queue :: "nat \<Rightarrow> 'a mpmc result" where
  "log_queue buffer_size =
     (if \<not> queue_size_ok buffer_size then Inl (Thrown 69)
      else Inr \<lparr>buffer = map (\<lambda>i. \<lparr>sequence = of_nat i, cell_data = None\<rparr>) [0..<buffer_size],
        buffer_mask = of_nat buffer_size - 1, enqueue_pos = 0, dequeue_pos = 0\<rparr>)"

definition log_enqueue :: "nat \<Rightarrow> 'a \<Rightarrow> 'a mpmc \<Rightarrow> (bool \<times> 'a mpmc) result option" where
  "log_enqueue spurious data q =
     obind (claim_enqueue spurious (enqueue_pos q) q) (\<lambda>(r, q). Some
       (case r of None \<Rightarrow> Inr (False, q)
        | Some pos \<Rightarrow>
            rbind (store_data pos data q) (\<lambda>q.
            rbind (store_sequence pos (pos + 1) q) (\<lambda>q. Inr (True, q)))))"

definition log_dequeue :: "nat \<Rightarrow> 'a mpmc \<Rightarrow> ('a option \<times> 'a mpmc) result option" where
  "log_dequeue spurious q =
     obind (claim_dequeue spurious (dequeue_pos q) q) (\<lambda>(r, q). Some
       (case r of None \<Rightarrow> Inr (None, q)
        | Some pos \<Rightarrow>
            rbind (load_data pos q) (\<lambda>data.
            rbind (store_sequence pos (pos + buffer_mask q + 1) q) (\<lambda>q. Inr (Some data, q)))))"

definition log_queue_empty :: "'a mpmc \<Rightarrow> bool" where
  "log_queue_empty q \<longleftrightarrow> dequeue_pos q = enqueue_pos q"

definition log_enq :: "nat \<Rightarrow> 'a \<Rightarrow> 'a mpmc \<Rightarrow> (bool \<times> 'a mpmc) result" where
  "log_enq spurious x q = wait_for (log_enqueue spurious x q)"

definition log_deq :: "nat \<Rightarrow> 'a mpmc \<Rightarrow> ('a option \<times> 'a mpmc) result" where
  "log_deq spurious q = wait_for (log_dequeue spurious q)"

lemma log_queue_calls: "log_enq = mpmc_enq" "log_deq = mpmc_deq"
  by (simp_all add: fun_eq_iff log_enq_def log_deq_def mpmc_enq_def mpmc_deq_def log_enqueue_def log_dequeue_def
      mpmc_enqueue_def mpmc_dequeue_def)

interpretation log_q: bounded_fifo mpmc_inv mpmc_contents "log_enq sp" "log_deq sp'" mpmc_cap
  for sp sp' :: nat
  unfolding log_queue_calls by (rule mpmc.bounded_fifo_axioms)

subsection \<open>Messages\<close>

datatype async_msg_type = Log_type | Flush_type | Terminate_type

record async_msg =
  am_logger :: string
  am_level :: level_enum
  am_time :: int
  am_thread :: nat
  am_txt :: string
  am_type :: async_msg_type
  am_id :: nat

definition control_msg :: "async_msg_type \<Rightarrow> async_msg" where
  "control_msg t = \<lparr>am_logger = [], am_level = Info, am_time = 0, am_thread = 0, am_txt = [], am_type = t, am_id = 0\<rparr>"

definition async_of_log_msg :: "log_msg \<Rightarrow> async_msg" where
  "async_of_log_msg m = \<lparr>am_logger = msg_logger m, am_level = msg_level m, am_time = msg_time m, am_thread = msg_thread m,
     am_txt = msg_raw m, am_type = Log_type, am_id = msg_id m\<rparr>"

definition fill_log_msg :: "async_msg \<Rightarrow> log_msg" where
  "fill_log_msg a = \<lparr>msg_logger = am_logger a, msg_level = am_level a, msg_time = am_time a, msg_thread = am_thread a,
     msg_raw = am_txt a, msg_formatted = [], msg_id = am_id a\<rparr>"

subsection \<open>The helper\<close>

record 'w async_helper =
  ah_formatter :: "log_msg \<Rightarrow> string result"
  ah_sinks :: "nat list"
  ah_q :: "async_msg mpmc"
  ah_err_handler :: "'w err_handler"
  ah_flush_requested :: bool
  ah_terminate_requested :: bool
  ah_policy :: async_overflow_policy
  ah_flush_interval :: int
  ah_last_pop :: int
  ah_last_flush :: int

definition async_log_helper :: "(log_msg \<Rightarrow> string result) \<Rightarrow> nat list \<Rightarrow> nat \<Rightarrow> 'w err_handler \<Rightarrow> async_overflow_policy \<Rightarrow> int \<Rightarrow>
    'w async_helper result" where
  "async_log_helper f sinks queue_size h policy interval =
     rbind (log_queue queue_size) (\<lambda>q.
     Inr \<lparr>ah_formatter = f, ah_sinks = sinks, ah_q = q, ah_err_handler = h, ah_flush_requested = False,
       ah_terminate_requested = False, ah_policy = policy, ah_flush_interval = interval, ah_last_pop = 0, ah_last_flush = 0\<rparr>)"

text \<open>One attempt of \<open>push_msg\<close>; under the blocking policy a refused message is tried again.\<close>

datatype push_outcome = Pushed | Dropped | Retry

definition push_msg :: "nat \<Rightarrow> async_msg \<Rightarrow> 'w async_helper \<Rightarrow> (push_outcome \<times> 'w async_helper) result" where
  "push_msg spurious m h =
     rbind (log_enq spurious m (ah_q h)) (\<lambda>(ok, q).
     Inr (if ok then Pushed else if ah_policy h \<noteq> Discard_log_msg then Retry else Dropped, h\<lparr>ah_q := q\<rparr>))"

text \<open>What a call of an asynchronous logger pushes, and what a call of \<open>flush\<close> pushes.\<close>

definition async_sink_it :: "log_msg \<Rightarrow> 'w logger \<Rightarrow> async_msg list" where
  "async_sink_it msg lg = async_of_log_msg msg # (if should_flush_on msg lg then [control_msg Flush_type] else [])"

definition async_flush :: "async_msg list" where
  "async_flush = [control_msg Flush_type]"

definition async_set_formatter :: "(log_msg \<Rightarrow> string result) \<Rightarrow> 'w logger \<Rightarrow> 'w async_helper \<Rightarrow> 'w logger \<times> 'w async_helper" where
  "async_set_formatter f lg h = (set_formatter f lg, h\<lparr>ah_formatter := f\<rparr>)"

definition async_set_error_handler :: "'w err_handler \<Rightarrow> 'w logger \<Rightarrow> 'w async_helper \<Rightarrow> 'w logger \<times> 'w async_helper" where
  "async_set_error_handler e lg h = (set_error_handler e lg, h\<lparr>ah_err_handler := e\<rparr>)"

datatype wait_action = Spin | Yield | Sleep_for int

text \<open>Times are nanoseconds; the sleeping time is in milliseconds.\<close>

definition sleep_or_yield :: "int \<Rightarrow> int \<Rightarrow> wait_action" where
  "sleep_or_yield now last_op_time =
     (let d = now - last_op_time in
      if d \<le> 50 * 1000 then Spin else if d \<le> 100 * 1000 then Yield else if d \<le> 200 * 1000000 then Sleep_for 20 else Sleep_for 200)"

definition read_now :: "'w log_env \<Rightarrow> ('o, 'w) log_state \<Rightarrow> int \<times> ('o, 'w) log_state" where
  "read_now env st = (let (t, w) = env_now env (outer st) in (t, st\<lparr>outer := w\<rparr>))"

definition handle_flush_interval :: "'w log_env \<Rightarrow> ('o, 'w) sink_class \<Rightarrow> int \<Rightarrow> 'w async_helper \<Rightarrow> ('o, 'w) log_state \<Rightarrow>
    unit result \<times> 'w async_helper \<times> ('o, 'w) log_state" where
  "handle_flush_interval env cls now h st =
     (if ah_flush_requested h \<or> (ah_flush_interval h \<noteq> 0 \<and> now - ah_last_flush h \<ge> ah_flush_interval h * 1000000)
      then
        (let (r, st) = flush_sinks cls (ah_sinks h) st in
         ebind (r, h, st) (\<lambda>_ (h, st).
         let (t, st) = read_now env st in (Inr (), h\<lparr>ah_last_flush := t, ah_flush_requested := False\<rparr>, st)))
      else (Inr (), h, st))"

definition process_next_msg :: "'w log_env \<Rightarrow> ('o, 'w) sink_class \<Rightarrow> nat \<Rightarrow> 'w async_helper \<Rightarrow> ('o, 'w) log_state \<Rightarrow>
    bool result \<times> 'w async_helper \<times> ('o, 'w) log_state" where
  "process_next_msg env cls spurious h st =
     ebind (log_deq spurious (ah_q h), h, st) (\<lambda>(m, q) (h, st).
     let h = h\<lparr>ah_q := q\<rparr>; (now, st) = read_now env st in
     case m of
       Some m \<Rightarrow>
         (let h = h\<lparr>ah_last_pop := now\<rparr> in
          case am_type m of
            Flush_type \<Rightarrow> (Inr True, h\<lparr>ah_flush_requested := True\<rparr>, st)
          | Terminate_type \<Rightarrow> (Inr True, h\<lparr>ah_flush_requested := True, ah_terminate_requested := True\<rparr>, st)
          | Log_type \<Rightarrow>
              (let msg = fill_log_msg m;
                   (r, st) = ebind (ah_formatter h msg, st) (\<lambda>t st. log_to_sinks cls (msg\<lparr>msg_formatted := t\<rparr>) (ah_sinks h) st) in
               (rbind r (\<lambda>_. Inr True), h, st)))
     | None \<Rightarrow>
         ebind (handle_flush_interval env cls now h st) (\<lambda>_ (h, st).
         (Inr (\<not> ah_terminate_requested h), h, st)))"

text \<open>
  One turn of the worker's loop, with the \<open>catch\<close> clauses; an exception that leaves the error handler ends
  the program.
\<close>

definition async_turn :: "'w log_env \<Rightarrow> ('o, 'w) sink_class \<Rightarrow> nat \<Rightarrow> 'w async_helper \<Rightarrow> 'w logger \<Rightarrow> ('o, 'w) log_state \<Rightarrow>
    bool result \<times> 'w async_helper \<times> 'w logger \<times> ('o, 'w) log_state" where
  "async_turn env cls spurious h lg st =
     (case process_next_msg env cls spurious h st of
        (Inr active, h, st) \<Rightarrow> (Inr active, h, lg, st)
      | (Inl x, h, st) \<Rightarrow>
          if catchable x then
            (let (r, lg', st) = call_err_handler env (env_what env x) (lg\<lparr>lg_err_handler := ah_err_handler h\<rparr>) st in
             (rbind r (\<lambda>_. Inr True), h, lg\<lparr>lg_last_err_time := lg_last_err_time lg'\<rparr>, st))
          else (Inl x, h, lg, st))"

text \<open>The worker; its result is what \<open>join\<close> waits for, and \<open>None\<close> is a loop that never ends.\<close>

partial_function (option) async_loop :: "'w log_env \<Rightarrow> ('o, 'w) sink_class \<Rightarrow> (nat \<Rightarrow> nat) \<Rightarrow> nat \<Rightarrow> 'w async_helper \<Rightarrow> 'w logger \<Rightarrow>
    ('o, 'w) log_state \<Rightarrow> (unit result \<times> 'w async_helper \<times> 'w logger \<times> ('o, 'w) log_state) option" where
  "async_loop env cls spurious n h lg st =
     (case async_turn env cls (spurious n) h lg st of
        (Inl x, h, lg, st) \<Rightarrow> Some (Inl x, h, lg, st)
      | (Inr active, h, lg, st) \<Rightarrow>
          if active then async_loop env cls spurious (Suc n) h lg st else Some (Inr (), h, lg, st))"

text \<open>
  The destructor: it pushes the message that ends the worker and joins the thread.  While the message has to be
  tried again, the worker takes its turns.
\<close>

partial_function (option) destroy :: "'w log_env \<Rightarrow> ('o, 'w) sink_class \<Rightarrow> (nat \<Rightarrow> nat) \<Rightarrow> nat \<Rightarrow> 'w async_helper \<Rightarrow> 'w logger \<Rightarrow>
    ('o, 'w) log_state \<Rightarrow> (unit result \<times> 'w async_helper \<times> 'w logger \<times> ('o, 'w) log_state) option" where
  "destroy env cls spurious n h lg st =
     (case push_msg (spurious n) (control_msg Terminate_type) h of
        Inl x \<Rightarrow> Some (Inl x, h, lg, st)
      | Inr (out, h) \<Rightarrow>
          if out = Retry then
            (case async_turn env cls (spurious (Suc n)) h lg st of
               (Inl x, h, lg, st) \<Rightarrow> Some (Inl x, h, lg, st)
             | (Inr active, h, lg, st) \<Rightarrow> destroy env cls spurious (Suc (Suc n)) h lg st)
          else async_loop env cls spurious (Suc n) h lg st)"

end
