(* ===== verification/Spdlog_Async_Props.thy ===== *)
theory Spdlog_Async_Props
  imports Spdlog_Async
begin

text \<open>
  Properties of \<open>Spdlog_Async\<close>: the worker empties the queue in order, flushes and ends once it has been
  told to; it never ends when the message that tells it was dropped; and threads that push
  messages lose none under the blocking policy.
\<close>

subsection \<open>The worker\<close>

text \<open>What the message adds to a sink of the given level.\<close>

definition delivery :: "(log_msg \<Rightarrow> string) \<Rightarrow> level_enum \<Rightarrow> async_msg \<Rightarrow> string" where
  "delivery f lvl m = (if am_type m = Log_type \<and> level_num (am_level m) \<ge> level_num lvl then f (fill_log_msg m) else [])"

definition helper_ok :: "nat list \<Rightarrow> (log_msg \<Rightarrow> string) \<Rightarrow> 'w async_helper \<Rightarrow> bool" where
  "helper_ok ids f h \<longleftrightarrow> mpmc_inv (ah_q h) \<and> set (ah_sinks h) \<subseteq> set ids \<and> distinct (ah_sinks h) \<and>
     (\<forall>m. ah_formatter h m = Inr (f m)) \<and> (ah_terminate_requested h \<longrightarrow> ah_flush_requested h)"

abbreviation queued :: "'w async_helper \<Rightarrow> async_msg list" where
  "queued h \<equiv> mpmc_contents (ah_q h)"

lemma read_now_eq: "read_now env st = (fst (env_now env (outer st)), st\<lparr>outer := snd (env_now env (outer st))\<rparr>)"
  by (simp add: read_now_def split: prod.splits)

context logging
begin

lemma process_msg:
  assumes "good st" "helper_ok ids f h" "queued h = m # ms"
  shows "\<exists>h' st'. process_next_msg env cls sp h st = (Inr True, h', st') \<and> good st' \<and> helper_ok ids f h' \<and>
    queued h' = ms \<and> mpmc_cap (ah_q h') = mpmc_cap (ah_q h) \<and> ah_sinks h' = ah_sinks h \<and> ah_policy h' = ah_policy h \<and>
    (ah_terminate_requested h' \<longleftrightarrow> ah_terminate_requested h \<or> am_type m = Terminate_type) \<and>
    (\<forall>j. sink_level (sink_store st' j) = sink_level (sink_store st j)) \<and>
    (\<forall>j \<in> set (ah_sinks h). received j st' = received j st @ delivery f (sink_level (sink_store st j)) m)"
proof -
  obtain q where q: "log_deq sp (ah_q h) = Inr (Some m, q)" "mpmc_inv q" "mpmc_contents q = ms"
    using log_q.deq_law [of "ah_q h" sp] assms(2,3) by (auto simp: helper_ok_def)
  have cap: "mpmc_cap q = mpmc_cap (ah_q h)"
    using log_q.cap_deq [OF _ q(1)] assms(2) by (simp add: helper_ok_def)
  let ?st = "st\<lparr>outer := snd (env_now env (outer st))\<rparr>" and ?now = "fst (env_now env (outer st))"
  let ?h = "h\<lparr>ah_q := q, ah_last_pop := ?now\<rparr>"
  have g: "good ?st" "\<And>j. j \<in> set ids \<Longrightarrow> received j ?st = received j st"
    using now_law [OF assms(1)] by blast+
  have sub: "\<And>j. j \<in> set (ah_sinks h) \<Longrightarrow> j \<in> set ids"
    using assms(2) by (auto simp: helper_ok_def)
  have h: "helper_ok ids f ?h" using assms(2) q by (simp add: helper_ok_def)
  show ?thesis
  proof (cases "am_type m")
    case Log_type
    let ?m = "fill_log_msg m"
    obtain st' where st': "log_to_sinks cls (?m\<lparr>msg_formatted := f ?m\<rparr>) (ah_sinks h) ?st = (Inr (), st')" "good st'"
      "\<And>j. sink_level (sink_store st' j) = sink_level (sink_store ?st j)"
      "\<And>j. j \<in> set ids \<Longrightarrow> received j st' = received j ?st @
        (if j \<in> set (ah_sinks h) \<and> sink_should_log (msg_level ?m) (sink_store ?st j) then f ?m else [])"
      using log_to_sinks_delivers [OF g(1), of "ah_sinks h" "?m\<lparr>msg_formatted := f ?m\<rparr>"] assms(2) by (auto simp: helper_ok_def)
    have "process_next_msg env cls sp h st = (Inr True, ?h, st')"
      using q(1) Log_type st'(1) assms(2) by (simp add: process_next_msg_def read_now_eq helper_ok_def)
    then show ?thesis
      using st' h q cap Log_type g(2) sub
      by (auto simp: delivery_def sink_should_log_def fill_log_msg_def)
  next
    case Flush_type
    then have "process_next_msg env cls sp h st = (Inr True, ?h\<lparr>ah_flush_requested := True\<rparr>, ?st)"
      using q(1) by (simp add: process_next_msg_def read_now_eq)
    then show ?thesis
      using g h q cap Flush_type sub by (auto simp: delivery_def helper_ok_def)
  next
    case Terminate_type
    then have "process_next_msg env cls sp h st = (Inr True, ?h\<lparr>ah_flush_requested := True, ah_terminate_requested := True\<rparr>, ?st)"
      using q(1) by (simp add: process_next_msg_def read_now_eq)
    then show ?thesis
      using g h q cap Terminate_type sub by (auto simp: delivery_def helper_ok_def)
  qed
qed

lemma process_empty:
  assumes "good st" "helper_ok ids f h" "queued h = []"
  shows "\<exists>h' st'. process_next_msg env cls sp h st = (Inr (\<not> ah_terminate_requested h), h', st') \<and> good st' \<and>
    (\<not> ah_terminate_requested h \<longrightarrow> helper_ok ids f h') \<and> queued h' = [] \<and> ah_sinks h' = ah_sinks h \<and> ah_policy h' = ah_policy h \<and>
    ah_terminate_requested h' = ah_terminate_requested h \<and>
    (\<forall>j \<in> set (ah_sinks h). received j st' = received j st \<and> (ah_flush_requested h \<longrightarrow> pending j st' = []))"
proof -
  obtain q where q: "log_deq sp (ah_q h) = Inr (None, q)" "mpmc_inv q" "mpmc_contents q = []"
    using log_q.deq_law [of "ah_q h" sp] assms(2,3) by (auto simp: helper_ok_def)
  let ?st = "st\<lparr>outer := snd (env_now env (outer st))\<rparr>" and ?now = "fst (env_now env (outer st))"
  let ?h = "h\<lparr>ah_q := q\<rparr>"
  have g: "good ?st" "\<And>j. j \<in> set ids \<Longrightarrow> received j ?st = received j st"
    using now_law [OF assms(1)] by blast+
  have sub: "set (ah_sinks h) \<subseteq> set ids" using assms(2) by (simp add: helper_ok_def)
  show ?thesis
  proof (cases "ah_flush_requested h \<or> (ah_flush_interval h \<noteq> 0 \<and> ?now - ah_last_flush h \<ge> ah_flush_interval h * 1000000)")
    case False
    then have "process_next_msg env cls sp h st = (Inr (\<not> ah_terminate_requested h), ?h, ?st)"
      using q(1) by (auto simp: process_next_msg_def read_now_eq handle_flush_interval_def Let_def)
    then show ?thesis
      using g q sub False assms(2) by (auto simp: helper_ok_def)
  next
    case True
    obtain st1 where 1: "flush_sinks cls (ah_sinks h) ?st = (Inr (), st1)" "good st1"
      "\<And>j. j \<in> set ids \<Longrightarrow> received j st1 = received j ?st" "\<And>j. j \<in> set (ah_sinks h) \<Longrightarrow> pending j st1 = []"
      using flush_sinks_flushes [OF g(1) sub] sub by (auto simp: subset_iff)
    let ?st1 = "st1\<lparr>outer := snd (env_now env (outer st1))\<rparr>"
    have n: "good ?st1" "\<And>j. j \<in> set ids \<Longrightarrow> received j ?st1 = received j st1 \<and> pending j ?st1 = pending j st1"
      using now_law [OF 1(2)] by blast+
    have "process_next_msg env cls sp h st =
        (Inr (\<not> ah_terminate_requested h), ?h\<lparr>ah_last_flush := fst (env_now env (outer st1)), ah_flush_requested := False\<rparr>, ?st1)"
      using True q(1) 1(1) by (auto simp: process_next_msg_def read_now_eq handle_flush_interval_def Let_def)
    then show ?thesis
      using 1 n g(2) q sub assms(2) by (auto simp: helper_ok_def subset_iff)
  qed
qed

lemma worker_drains:
  "good st \<Longrightarrow> helper_ok ids f h \<Longrightarrow> queued h = ms \<Longrightarrow> ah_terminate_requested h \<or> Terminate_type \<in> am_type ` set ms \<Longrightarrow>
    \<exists>h' st'. async_loop env cls sp n h lg st = Some (Inr (), h', lg, st') \<and> good st' \<and> queued h' = [] \<and>
    (\<forall>j \<in> set (ah_sinks h). pending j st' = [] \<and>
      received j st' = received j st @ concat (map (delivery f (sink_level (sink_store st j))) ms))"
proof (induction ms arbitrary: h st n)
  case Nil
  then have "ah_terminate_requested h" "ah_flush_requested h" by (auto simp: helper_ok_def)
  with process_empty [OF Nil(1,2,3), of "sp n"] show ?case
    by (subst async_loop.simps) (auto simp: async_turn_def)
next
  case (Cons m ms)
  obtain h1 st1 where 1: "process_next_msg env cls (sp n) h st = (Inr True, h1, st1)" "good st1" "helper_ok ids f h1"
    "queued h1 = ms" "ah_sinks h1 = ah_sinks h" "ah_terminate_requested h1 \<longleftrightarrow> ah_terminate_requested h \<or> am_type m = Terminate_type"
    "\<And>j. sink_level (sink_store st1 j) = sink_level (sink_store st j)"
    "\<And>j. j \<in> set (ah_sinks h) \<Longrightarrow> received j st1 = received j st @ delivery f (sink_level (sink_store st j)) m"
    using process_msg [OF Cons.prems(1-3), of "sp n"] by blast
  have "ah_terminate_requested h1 \<or> Terminate_type \<in> am_type ` set ms"
    using Cons.prems(4) 1(6) by auto
  with Cons.IH [OF 1(2,3,4), of "Suc n"] 1 show ?case
    by (subst async_loop.simps) (auto simp: async_turn_def)
qed

definition no_end :: "'w async_helper \<Rightarrow> ('o, 'w) log_state \<Rightarrow> (log_msg \<Rightarrow> string) \<Rightarrow> bool" where
  "no_end h st f \<longleftrightarrow> good st \<and> helper_ok ids f h \<and> \<not> ah_terminate_requested h \<and> Terminate_type \<notin> am_type ` set (queued h)"

lemma no_end_turn:
  assumes "no_end h st f"
  shows "\<exists>h' st'. async_turn env cls sp h lg st = (Inr True, h', lg, st') \<and> no_end h' st' f"
proof (cases "queued h")
  case Nil
  with process_empty [of st f h sp] assms show ?thesis by (auto simp: no_end_def async_turn_def)
next
  case (Cons m ms)
  with process_msg [of st f h m ms sp] assms show ?thesis by (auto simp: no_end_def async_turn_def)
qed

lemma worker_hangs: "no_end h st f \<Longrightarrow> async_loop env cls sp n h lg st = None"
proof (rule ccontr)
  assume "no_end h st f" "async_loop env cls sp n h lg st \<noteq> None"
  then obtain y where y: "async_loop env cls sp n h lg st = Some y" by blast
  have "env = env \<longrightarrow> cls = cls \<longrightarrow> \<not> no_end h st f"
  proof (rule async_loop.raw_induct [where P = "\<lambda>env' cls' sp n h lg st y. env' = env \<longrightarrow> cls' = cls \<longrightarrow> \<not> no_end h st f", OF _ y], intro impI notI)
    fix wl env' cls' sp n h lg st y
    assume IH: "\<And>env' cls' sp n h lg st y. wl env' cls' sp n h lg st = Some y \<Longrightarrow> env' = env \<longrightarrow> cls' = cls \<longrightarrow> \<not> no_end h st f"
      and body: "(case async_turn env' cls' (sp n) h lg st of (Inl x, h, lg, st) \<Rightarrow> Some (Inl x, h, lg, st)
        | (Inr active, h, lg, st) \<Rightarrow> if active then wl env' cls' sp (Suc n) h lg st else Some (Inr (), h, lg, st)) = Some y"
      and "env' = env" "cls' = cls" "no_end h st f"
    with no_end_turn [of h st f "sp n" lg] obtain h' st' where "async_turn env cls (sp n) h lg st = (Inr True, h', lg, st')" "no_end h' st' f"
      by blast
    with body IH [of env cls sp "Suc n" h' lg st' y] \<open>env' = env\<close> \<open>cls' = cls\<close> show False by simp
  qed
  with \<open>no_end h st f\<close> show False by simp
qed

lemma push_terminate:
  assumes "helper_ok ids f h"
  shows "\<exists>h'. push_msg sp (control_msg Terminate_type) h =
      Inr (if length (queued h) < mpmc_cap (ah_q h) then Pushed else if ah_policy h = Discard_log_msg then Dropped else Retry, h') \<and>
    helper_ok ids f h' \<and> ah_sinks h' = ah_sinks h \<and> ah_policy h' = ah_policy h \<and> mpmc_cap (ah_q h') = mpmc_cap (ah_q h) \<and>
    ah_terminate_requested h' = ah_terminate_requested h \<and>
    queued h' = queued h @ (if length (queued h) < mpmc_cap (ah_q h) then [control_msg Terminate_type] else [])"
proof -
  have inv: "mpmc_inv (ah_q h)" using assms by (simp add: helper_ok_def)
  obtain ok q where q: "log_enq sp (control_msg Terminate_type) (ah_q h) = Inr (ok, q)" "mpmc_inv q"
    "mpmc_contents q = (if ok then queued h @ [control_msg Terminate_type] else queued h)"
    using log_q.enq_law [OF inv, of sp "control_msg Terminate_type"] by blast
  have "ok \<longleftrightarrow> length (queued h) < mpmc_cap (ah_q h)" "mpmc_cap q = mpmc_cap (ah_q h)"
    using log_q.accept_law [OF inv q(1)] log_q.cap_enq [OF inv q(1)] by simp_all
  with q assms show ?thesis
    by (cases "ah_policy h") (auto simp: push_msg_def helper_ok_def)
qed

lemma destroy_hangs:
  assumes "no_end h st f" "length (queued h) = mpmc_cap (ah_q h)" "ah_policy h = Discard_log_msg"
  shows "destroy env cls sp n h lg st = None"
proof -
  obtain h' where h': "push_msg (sp n) (control_msg Terminate_type) h = Inr (Dropped, h')" "helper_ok ids f h'"
    "ah_terminate_requested h' = ah_terminate_requested h" "queued h' = queued h"
    using push_terminate [of f h "sp n"] assms by (auto simp: no_end_def)
  then have "no_end h' st f" using assms(1) by (simp add: no_end_def)
  with h' worker_hangs [of h' st f sp "Suc n" lg] show ?thesis
    by (subst destroy.simps) simp
qed

lemma destroy_accepted:
  assumes "good st" "helper_ok ids f h" "length (queued h) < mpmc_cap (ah_q h)"
  shows "\<exists>h' st'. destroy env cls sp n h lg st = Some (Inr (), h', lg, st') \<and> good st' \<and> queued h' = [] \<and>
    (\<forall>j \<in> set (ah_sinks h). pending j st' = [] \<and>
      received j st' = received j st @ concat (map (delivery f (sink_level (sink_store st j))) (queued h)))"
proof -
  obtain h1 where h1: "push_msg (sp n) (control_msg Terminate_type) h = Inr (Pushed, h1)" "helper_ok ids f h1" "ah_sinks h1 = ah_sinks h"
    "queued h1 = queued h @ [control_msg Terminate_type]"
    using push_terminate [OF assms(2), of "sp n"] assms(3) by auto
  have "delivery f l (control_msg Terminate_type) = []" for l
    by (simp add: delivery_def control_msg_def)
  with worker_drains [OF assms(1) h1(2,4), of sp "Suc n" lg] h1 show ?thesis
    by (subst destroy.simps) (auto simp: control_msg_def)
qed

lemma destroy_drains:
  assumes "good st" "helper_ok ids f h" "length (queued h) < mpmc_cap (ah_q h) \<or> ah_policy h = Block_retry"
  shows "\<exists>h' st'. destroy env cls sp n h lg st = Some (Inr (), h', lg, st') \<and> good st' \<and> queued h' = [] \<and>
    (\<forall>j \<in> set (ah_sinks h). pending j st' = [] \<and>
      received j st' = received j st @ concat (map (delivery f (sink_level (sink_store st j))) (queued h)))"
proof (cases "length (queued h) < mpmc_cap (ah_q h)")
  case True
  with destroy_accepted assms show ?thesis by blast
next
  case False
  obtain h1 where h1: "push_msg (sp n) (control_msg Terminate_type) h = Inr (Retry, h1)" "helper_ok ids f h1" "ah_sinks h1 = ah_sinks h"
    "queued h1 = queued h" "mpmc_cap (ah_q h1) = mpmc_cap (ah_q h)"
    using push_terminate [OF assms(2), of "sp n"] assms(3) False by auto
  have "0 < mpmc_cap (ah_q h)"
    using assms(2) by (auto simp: helper_ok_def mpmc_inv_def dest!: mpmc_repr_cap)
  with False obtain m ms where m: "queued h1 = m # ms" using h1(4) by (cases "queued h") auto
  obtain h2 st2 where 2: "process_next_msg env cls (sp (Suc n)) h1 st = (Inr True, h2, st2)" "good st2" "helper_ok ids f h2"
    "queued h2 = ms" "mpmc_cap (ah_q h2) = mpmc_cap (ah_q h1)" "ah_sinks h2 = ah_sinks h1"
    "\<And>j. sink_level (sink_store st2 j) = sink_level (sink_store st j)"
    "\<And>j. j \<in> set (ah_sinks h1) \<Longrightarrow> received j st2 = received j st @ delivery f (sink_level (sink_store st j)) m"
    using process_msg [OF assms(1) h1(2) m, of "sp (Suc n)"] by blast
  have "length (queued h2) < mpmc_cap (ah_q h2)"
    using log_q.within_cap [of "ah_q h"] assms(2) m h1 2 by (simp add: helper_ok_def)
  moreover have "queued h = m # ms" using m h1(4) by simp
  ultimately show ?thesis
    using destroy_accepted [OF 2(2,3), of sp "Suc (Suc n)" lg] 2 h1(1,3)
    by (subst destroy.simps) (auto simp: async_turn_def)
qed

end

text \<open>
  (C32) Ending an asynchronous logger on file sinks.  Under the blocking policy, or while the queue has room, the
  destructor returns: every queued message has been formatted and appended to the files of the
  sinks whose level it reaches, in the order of the queue, and everything is flushed.
\<close>

theorem async_destructor_drains:
  assumes "files_good e ids st" "helper_ok ids f h" "length (queued h) < mpmc_cap (ah_q h) \<or> ah_policy h = Block_retry"
  shows "\<exists>h' st'. destroy (env\<lparr>env_now := now_tp e\<rparr>) (file_class e) sp n h lg st = Some (Inr (), h', lg, st') \<and>
    files_good e ids st' \<and> queued h' = [] \<and>
    (\<forall>j \<in> set (ah_sinks h). file_pending j st' = [] \<and>
      file_received j st' = file_received j st @ concat (map (delivery f (sink_level (sink_store st j))) (queued h)))"
  by (rule file_logging.destroy_drains [OF assms])

text \<open>
  (C33) A destructor that never returns.  Under the discarding policy, when the queue is full, the message that ends the
  worker is dropped like any other, and the destructor waits for a thread that never ends.
\<close>

theorem async_destructor_hangs:
  assumes "files_good e ids st" "helper_ok ids f h" "length (queued h) = mpmc_cap (ah_q h)" "ah_policy h = Discard_log_msg"
    and "\<not> ah_terminate_requested h" "Terminate_type \<notin> am_type ` set (queued h)"
  shows "destroy (env\<lparr>env_now := now_tp e\<rparr>) (file_class e) sp n h lg st = None"
  using assms by (intro file_logging.destroy_hangs [where f = f and ids = ids]) (simp_all add: file_logging.no_end_def)

lemma full_queue: "\<exists>q. mpmc_inv q \<and> mpmc_contents q = [x, y] \<and> mpmc_cap q = 2"
proof -
  obtain q0 :: "'a mpmc" where "mpmc_repr 1 0 [] q0"
    using mpmc_new [of 1 True] by auto
  then have q0: "mpmc_inv q0" "mpmc_contents q0 = []" "mpmc_cap q0 = 2"
    using mpmc_contents_repr [of 1 0 "[]" q0] mpmc_repr_cap [of 1 0 "[]" q0] by (auto simp: mpmc_inv_def)
  from log_q.fills_up [OF q0(1), of "[x, y]" 0 0] q0 obtain q where
    q: "queue_run (log_enq 0) (log_deq 0) (map Enq [x, y]) q0 = Inr ([x, y], [], q)" "mpmc_inv q" "mpmc_contents q = [x, y]"
    by auto
  with log_q.run_cap [OF q0(1) q(1)] q0(3) show ?thesis by auto
qed

definition demo_helper :: "async_overflow_policy \<Rightarrow> async_msg mpmc \<Rightarrow> file_world async_helper" where
  "demo_helper p q = \<lparr>ah_formatter = (\<lambda>m. Inr (msg_raw m)), ah_sinks = [0], ah_q = q, ah_err_handler = Default_handler,
     ah_flush_requested = False, ah_terminate_requested = False, ah_policy = p, ah_flush_interval = 0, ah_last_pop = 0, ah_last_flush = 0\<rparr>"

lemma demo_state_good: "files_good quiet_env [0] demo_log_state"
  by (simp add: files_good_def demo_log_state_def healthy_def calls_succeed_def quiet_env_def new_sink_def simple_ok_def)

lemma demo_helper_ok:
  "\<exists>q. helper_ok [0] msg_raw (demo_helper p q) \<and> queued (demo_helper p q) = [control_msg Flush_type, control_msg Flush_type] \<and>
    mpmc_cap (ah_q (demo_helper p q)) = 2 \<and> ah_policy (demo_helper p q) = p \<and> \<not> ah_terminate_requested (demo_helper p q)"
proof -
  obtain q where "mpmc_inv q" "mpmc_contents q = [control_msg Flush_type, control_msg Flush_type]" "mpmc_cap q = 2"
    using full_queue [of "control_msg Flush_type" "control_msg Flush_type"] by blast
  then show ?thesis
    by (intro exI [of _ q]) (simp add: helper_ok_def demo_helper_def)
qed

abbreviation demo_logger :: "file_world logger" where
  "demo_logger \<equiv> new_logger (\<lambda>m. Inr (msg_raw m)) ''main'' [0]"

theorem async_destructor_drains_witness:
  "\<exists>h h' st'. length (queued h) = 2 \<and>
    destroy (demo_log_env\<lparr>env_now := now_tp quiet_env\<rparr>) (file_class quiet_env) (\<lambda>n. 0) 0 h demo_logger demo_log_state =
      Some (Inr (), h', demo_logger, st') \<and> queued h' = []"
proof -
  obtain q where q: "helper_ok [0] msg_raw (demo_helper Block_retry q)" "ah_policy (demo_helper Block_retry q) = Block_retry"
    "queued (demo_helper Block_retry q) = [control_msg Flush_type, control_msg Flush_type]"
    using demo_helper_ok [of Block_retry] by blast
  obtain h' st' where "destroy (demo_log_env\<lparr>env_now := now_tp quiet_env\<rparr>) (file_class quiet_env) (\<lambda>n. 0) 0 (demo_helper Block_retry q)
      demo_logger demo_log_state = Some (Inr (), h', demo_logger, st')" "queued h' = []"
    using async_destructor_drains [OF demo_state_good q(1) disjI2 [OF q(2)]] by blast
  moreover have "length (queued (demo_helper Block_retry q)) = 2" unfolding q(3) by simp
  ultimately show ?thesis by blast
qed

theorem async_destructor_hangs_witness:
  "\<exists>h. length (queued h) = 2 \<and>
    destroy (demo_log_env\<lparr>env_now := now_tp quiet_env\<rparr>) (file_class quiet_env) (\<lambda>n. 0) 0 h demo_logger demo_log_state = None"
proof -
  obtain q where q: "helper_ok [0] msg_raw (demo_helper Discard_log_msg q)" "ah_policy (demo_helper Discard_log_msg q) = Discard_log_msg"
    "queued (demo_helper Discard_log_msg q) = [control_msg Flush_type, control_msg Flush_type]"
    "mpmc_cap (ah_q (demo_helper Discard_log_msg q)) = 2" "\<not> ah_terminate_requested (demo_helper Discard_log_msg q)"
    using demo_helper_ok [of Discard_log_msg] by blast
  have "length (queued (demo_helper Discard_log_msg q)) = 2" "Terminate_type \<notin> am_type ` set (queued (demo_helper Discard_log_msg q))"
    unfolding q(3) by (simp_all add: control_msg_def)
  with async_destructor_hangs [OF demo_state_good q(1) _ q(2,5)] q(4) show ?thesis by metis
qed

subsection \<open>Threads that push messages\<close>

text \<open>
  Any number of threads with messages to push, and the worker.  An attempt to push and a \<open>dequeue\<close> are one step
  each; the steps inside the queue are the subject of \<open>Mpmc_Threads\<close>, whose algorithm it is.  \<open>accepted\<close>
  and \<open>popped\<close> are history.
\<close>

record async_system =
  sys_helper :: "unit async_helper"
  to_push :: "nat \<Rightarrow> async_msg list"
  accepted :: "(nat \<times> async_msg) list"
  popped :: "async_msg list"

inductive async_step :: "async_system \<Rightarrow> async_system \<Rightarrow> bool" where
  push: "to_push s t = m # ms \<Longrightarrow> push_msg sp m (sys_helper s) = Inr (out, h) \<Longrightarrow>
    async_step s (s\<lparr>sys_helper := h, to_push := (if out = Retry then to_push s else (to_push s)(t := ms)),
      accepted := accepted s @ (if out = Pushed then [(t, m)] else [])\<rparr>)"
| pop: "log_deq sp (ah_q (sys_helper s)) = Inr (Some m, q) \<Longrightarrow>
    async_step s (s\<lparr>sys_helper := (sys_helper s)\<lparr>ah_q := q\<rparr>, popped := popped s @ [m]\<rparr>)"

inductive_cases async_stepE: "async_step s s'"

definition from_thread :: "nat \<Rightarrow> (nat \<times> async_msg) list \<Rightarrow> async_msg list" where
  "from_thread t xs = map snd (filter (\<lambda>x. fst x = t) xs)"

definition async_inv :: "(nat \<Rightarrow> async_msg list) \<Rightarrow> async_system \<Rightarrow> bool" where
  "async_inv program s \<longleftrightarrow> mpmc_inv (ah_q (sys_helper s)) \<and> map snd (accepted s) = popped s @ queued (sys_helper s) \<and>
     (\<forall>t. if ah_policy (sys_helper s) = Block_retry then from_thread t (accepted s) @ to_push s t = program t
          else \<exists>xs. subseq (from_thread t (accepted s)) xs \<and> xs @ to_push s t = program t)"

lemma from_thread_simps [simp]: "from_thread t [] = []" "from_thread t (xs @ ys) = from_thread t xs @ from_thread t ys"
  "from_thread t [(u, m)] = (if u = t then [m] else [])"
  by (simp_all add: from_thread_def)

lemma async_step_inv:
  assumes "async_step s s'" "async_inv program s"
  shows "async_inv program s' \<and> ah_policy (sys_helper s') = ah_policy (sys_helper s)"
  using assms(1)
proof (cases rule: async_step.cases)
  case (push t m ms sp out h)
  have inv: "mpmc_inv (ah_q (sys_helper s))" using assms(2) by (simp add: async_inv_def)
  obtain ok q where q: "log_enq sp m (ah_q (sys_helper s)) = Inr (ok, q)" "mpmc_inv q"
    "mpmc_contents q = (if ok then queued (sys_helper s) @ [m] else queued (sys_helper s))"
    using log_q.enq_law [OF inv, of sp m] by blast
  then have h: "h = (sys_helper s)\<lparr>ah_q := q\<rparr>"
    "out = (if ok then Pushed else if ah_policy (sys_helper s) \<noteq> Discard_log_msg then Retry else Dropped)"
    using push(3) by (auto simp: push_msg_def)
  show ?thesis
  proof (cases "ah_policy (sys_helper s)")
    case Block_retry
    with assms(2) push(2) have "from_thread t (accepted s) @ m # ms = program t"
      unfolding async_inv_def by metis
    with Block_retry assms(2) push(1,2) q h show ?thesis
      by (cases ok) (auto simp: async_inv_def)
  next
    case Discard_log_msg
    have "\<exists>xs. subseq (from_thread u (accepted s')) xs \<and> xs @ to_push s' u = program u" for u
    proof -
      obtain xs where xs: "subseq (from_thread u (accepted s)) xs" "xs @ to_push s u = program u"
        using assms(2) Discard_log_msg by (auto simp: async_inv_def)
      show ?thesis
      proof (cases "u = t")
        case True
        with xs push(1,2) h(2) Discard_log_msg show ?thesis
          by (intro exI [of _ "xs @ [m]"]) (auto intro: list_emb_append_mono subseq_append_le_same_iff list_emb_prefix)
      next
        case False
        with xs push(1) h(2) Discard_log_msg show ?thesis
          by (intro exI [of _ xs]) auto
      qed
    qed
    with assms(2) push(1,2) q h Discard_log_msg show ?thesis
      by (cases ok) (auto simp: async_inv_def)
  qed
next
  case (pop sp m q)
  have inv: "mpmc_inv (ah_q (sys_helper s))" using assms(2) by (simp add: async_inv_def)
  from log_q.deq_law [OF inv, of sp] pop(2) have "queued (sys_helper s) = m # mpmc_contents q" "mpmc_inv q"
    by (auto split: list.splits)
  with assms(2) pop(1) show ?thesis by (simp add: async_inv_def)
qed

lemma log_queue_new:
  assumes "1 \<le> n" "n < 63"
  shows "\<exists>q. log_queue (2 ^ n) = Inr q \<and> mpmc_repr n 0 [] q"
proof -
  obtain q :: "'a mpmc" where q: "mpmc_bounded_queue False (2 ^ n) = Inr q" "mpmc_repr n 0 [] q"
    using mpmc_new [OF assms] by blast
  have "(2::nat) ^ n < 2 ^ 64"
    using assms(2) by (intro power_strict_increasing) auto
  then have u: "unat (2 ^ n :: size_t) = 2 ^ n"
    using unat_of_nat [of "2 ^ n", where 'a = 64] by simp
  have "(2::size_t) ^ n AND (2 ^ n - 1) = 0"
    using q(1) by (auto simp: mpmc_bounded_queue_def c_assert_def split: if_splits)
  then have "log_queue (2 ^ n) = (Inr q :: 'a mpmc result)"
    using q(1) u two_pow_bounds [OF assms]
    by (auto simp: log_queue_def queue_size_ok_def mpmc_bounded_queue_def c_assert_def split: if_splits)
  with q(2) show ?thesis by blast
qed

definition async_start :: "unit async_helper \<Rightarrow> (nat \<Rightarrow> async_msg list) \<Rightarrow> async_system" where
  "async_start h program = \<lparr>sys_helper = h, to_push = program, accepted = [], popped = []\<rparr>"

lemma async_reach_inv:
  assumes "async_step\<^sup>*\<^sup>* s0 s" "async_inv program s0"
  shows "async_inv program s \<and> ah_policy (sys_helper s) = ah_policy (sys_helper s0)"
  using assms
proof (induction rule: rtranclp_induct)
  case (step s t)
  then show ?case using async_step_inv [OF step(2), of program] by simp
qed simp



end
