(* ===== verification/Spec2Isabelle.thy ===== *)
theory Spec2Isabelle
  imports Message_Pipeline Linked_Queue Mpmc_Threads Mpsc_Queue Light_Semaphore Kqueue_Props Iocp_Props Echo_Server Samples
    Folly_Varint Folly_Hash Folly_Escape Folly_Split Folly_Unicode Folly_Byte_Set Folly_RW_Lock
    Fmt_Props Spdlog_Async_Props
begin

text \<open>
  \<^bold>\<open>tinynet\<close> is a small C++ library for TCP servers and clients.  A \<open>TCPService\<close>
  owns listeners, connectors, a scheduler and a processor; the user derives a session class from
  \<open>EventHandler\<close> and overrides its virtual methods.  Three back ends implement this: epoll
  (\<open>src/detail/epollnet.hpp\<close>), kqueue (\<open>src/detail/kqueuenet.hpp\<close>) and completion
  ports (\<open>src/detail/iocpnet.hpp\<close>).  \<open>src/libs\<close> holds queues, lists, pools and a semaphore;
  \<open>src/test.cpp\<close> and \<open>src/client.cpp\<close> are programs on top, and \<open>src/samples\<close>
  two servers that use the kernel directly.  \<open>src/libs/folly\<close> and \<open>src/libs/spdlog\<close> are copies of
  two libraries, of which the self-contained parts are modelled.

  \<^bold>\<open>How the program is modelled.\<close>  Functions of the source are HOL functions with explicit
  state.  What can go wrong is a value: \<open>fault\<close> in \<open>Net_Prelude\<close> lists failed assertions,
  accesses outside an array, null and dangling pointers, uninitialised reads, exceptions and divisions by
  zero, and \<open>'a result\<close> is a fault or a value.  A loop that may not end is a
  \<open>partial_function (option)\<close>, so that not returning is \<open>None\<close>.  C integers are \<open>int\<close> with
  the conversions \<open>u32\<close>, \<open>s32\<close> written where the source mixes signed and unsigned, or words
  (\<open>8 word\<close> bytes, \<open>32 word\<close> event masks, \<open>64 word\<close> positions).  Pointers are
  numbers into a \<open>store\<close> (\<open>Net_Heap\<close>).  The operating system is a parameter: one
  function from a system call and the kernel's state to an outcome (\<open>sys_call\<close>, \<open>os\<close> in
  \<open>Net_World\<close>); every call is recorded in a trace.  What is relied on of it is a named
  hypothesis: \<open>recv_documented\<close>, \<open>send_documented\<close>, \<open>one_port\<close>.  The user's virtual
  methods, the session factory and the event handler are parameters too; \<open>benign_env\<close>,
  \<open>karrived_ok\<close> and \<open>ibenign\<close> say what a reasonable session class does.  Threads are
  \<open>inductive\<close> step relations whose steps are the accesses to shared memory, with history
  variables for what has been sent and received.

  \<^bold>\<open>Theories.\<close>
  \<^item> \<open>Net_Prelude\<close>: faults, results, integer conversions, byte arrays with \<open>memcpy\<close> and
    \<open>memmove\<close>.  \<open>Net_Heap\<close>: the store of objects.
  \<^item> \<open>Byte_Channel\<close>: locale \<open>byte_channel\<close>, the contract of an outgoing buffer, with the lemma
    that the wire followed by the buffer is what was accepted.  Interpreted on \<open>SendBuffer\<close>
    (\<open>Send_Buffer\<close>, from \<open>src/detail/sendbuffer.hpp\<close>) and on the kqueue session.
  \<^item> \<open>Recv_Loop\<close>: the packet loop the back ends share, locales \<open>packet_framer\<close> and
    \<open>stable_framer\<close>, and the reference cut \<open>frames\<close>.
  \<^item> \<open>Fifo_Spec\<close>: locales \<open>fifo\<close>, \<open>bounded_fifo\<close>, \<open>unbounded_fifo\<close>.  Interpreted on
    \<open>spscqueue\<close> (\<open>Spsc_Ring\<close>, \<open>src/libs/spscqueue.hpp\<close>), on the linked queue
    (\<open>Linked_Queue\<close>, \<open>src/libs/spscqueue.h\<close>) and on \<open>mpmc_bounded_queue\<close>
    (\<open>Mpmc_Queue\<close>, \<open>Mpmc_Threads\<close>, \<open>src/libs/mpmc_queue.hpp\<close>).
  \<^item> \<open>Atomic_List\<close>: \<open>AtomicIntrusiveLinkedList.h\<close> and \<open>AtomicLinkedList.h\<close>.
    \<open>Mpsc_Queue\<close>: \<open>intrusive_mpmc_link_queue.h\<close>.  \<open>Object_Pools\<close>: \<open>object_pool.hpp\<close>,
    \<open>objects.h\<close>, \<open>objpool.h\<close>, \<open>pool.h\<close>, with locale \<open>object_pool\<close>.
    \<open>Light_Semaphore\<close>: the POSIX and the lightweight semaphore of \<open>atomicops.h\<close>.
  \<^item> \<open>Net_World\<close>: the types of \<open>src/tinynet.hpp\<close>, the limits of \<open>src/detail/plat.h\<close>, system
    calls and the program's state.
  \<^item> \<open>Epoll_Net\<close>, \<open>Kqueue_Net\<close> and \<open>Kqueue_Service\<close>, \<open>Iocp_Net\<close> and \<open>Iocp_Service\<close>:
    the three back ends, in the order of the source: scheduler, sessions, processor, listener,
    connector, service.  Names are those of the source; where the back ends share a name, the
    kqueue and completion-port ones carry a prefix k or i, or K or I.
  \<^item> \<open>Epoll_Props\<close>, \<open>Epoll_Service_Props\<close>, \<open>Kqueue_Props\<close>, \<open>Iocp_Props\<close>: their
    properties.  \<open>Message_Pipeline\<close>: from the worker through the ring to the application thread.
  \<^item> \<open>Echo_Server\<close>: \<open>src/test.cpp\<close> and \<open>src/client.cpp\<close>.  \<open>Samples\<close>:
    \<open>src/samples\<close>.
  \<^item> \<open>Folly_Varint\<close>, \<open>Folly_Hash\<close>, \<open>Folly_Escape\<close>, \<open>Folly_Split\<close>, \<open>Folly_Unicode\<close>,
    \<open>Folly_Byte_Set\<close>, \<open>Folly_RW_Lock\<close>: \<open>Varint.h\<close>, \<open>Hash.h\<close>, the escaping, splitting and
    joining of \<open>String-inl.h\<close>, \<open>Unicode.cpp\<close>, \<open>SparseByteSet.h\<close> and \<open>RWSpinLock.h\<close> under
    \<open>src/libs/folly/folly\<close>.
  \<^item> \<open>Fmt_Buffer\<close>, \<open>Fmt_Integer\<close>, \<open>Fmt_Writer\<close>, \<open>Fmt_Format\<close>, \<open>Fmt_Props\<close>: the
    formatting library of spdlog, \<open>fmt/bundled/format.h\<close> and \<open>format.cc\<close>: the growing buffer, the
    writer of integers and strings, and format strings.
  \<^item> \<open>Spdlog_Files\<close> and \<open>Spdlog_Sinks\<close>: \<open>file_helper.h\<close> and \<open>file_sinks.h\<close>, with locale
    \<open>log_sink\<close>, interpreted on the rotating and the simple sink.  \<open>Spdlog_Logger\<close> and
    \<open>Spdlog_Logger_Props\<close>: levels, \<open>logger_impl.h\<close> and \<open>registry.h\<close>, with locales
    \<open>sink_protocol\<close> and \<open>logging\<close>, interpreted on the file sinks.  \<open>Spdlog_Async\<close> and
    \<open>Spdlog_Async_Props\<close>: \<open>mpmc_bounded_q.h\<close> and \<open>async_log_helper.h\<close>, on the contract
    \<open>bounded_fifo\<close>.

  \<^bold>\<open>What the theorems show.\<close>  Receiving: the loop ends and delivers exactly the packets of
  the reference cut, however TCP cuts the stream, on all back ends; with a framer that announces more
  than has arrived it hangs; on kqueue a completely filled buffer is overrun.  Sending: both buffers are
  byte channels, and the kqueue one does what the epoll one does; under threads the epoll buffer
  loses bytes pushed while a pop runs, and the kqueue one sends bytes that are not there yet.
  Workers: a batch of events never faults and touches only the sessions it names; what is registered,
  sent, closed and released in which order; a partial write stalls; a message of a released session is
  used after free; dispatching stays inside the table.  Completion ports: every completion keeps the state
  well formed, and the first data of a connection destroys it.  Queues and lists: order, capacity, no
  loss, no duplication and no bad access, for one thread and for all interleavings.  Pools: no object is
  handed out twice.  Semaphore: no lost and no stray wake-up; a refused timed wait counts as a success.
  Below: an echo through the whole epoll path.  Vendored libraries: the codecs (variable-length integers,
  escapes, UTF-8 in the basic plane, split and join) are inverses and fail only as documented; the
  reader-writer lock excludes; the sparse set needs no initialisation.  Formatting: an integer is
  written as its specifier says and a format string as its parsed pieces say, with no access outside
  the buffer; specifiers and numbers in them read back; a left-aligned number with a precision can lose
  its digits, and some numbers that are too big are accepted.  Logging: a call writes exactly to the
  files it should and throws nothing; the rotating sink keeps the last messages in order, but
  loses the log while files cannot be opened, and can be flushed through a closed stream; the asynchronous
  worker writes everything in order before it ends, but is never told to end when the queue is full and
  the policy is to discard; the registry finds each logger under its name.

  \<^bold>\<open>Bounds.\<close>  No fuel is used.  Buffer sizes and queue sizes are arbitrary below \<open>2 ^ 31\<close>.
  The concurrent theorem on the bounded queue assumes fewer than \<open>2 ^ 63\<close> elements in total,
  because a thread may sleep while the 64-bit positions wrap; the one-thread theorem does not.
  Weak exchanges may fail any finite number of times.

  \<^bold>\<open>Not modelled.\<close>  Memory orderings: the interleavings are sequentially consistent, and every
  synchronising access of the source is acquire or release on the word that is modelled as one step.
  The Windows and Mach variants of the kernel semaphore and \<open>Processor::stop\<close> of the completion-port
  back end, which cannot be instantiated.  What tinynet logs.  \<open>src/libs/spscpool.hpp\<close>, which does not compile;
  \<open>src/libs/msg_queue.hpp\<close>, which has no operation; \<open>src/libs/utils.hpp\<close>.  The benchmark at the end
  of \<open>mpmc_queue.hpp\<close> and the test programs under \<open>src/test\<close>.  Of the vendored libraries,
  which no source of tinynet calls: what builds on Boost, glog, OpenSSL or libevent, which are not in the
  repository; floating-point and wide-character formatting, which call the C library's \<open>snprintf\<close> on
  types of the compiler; the pattern formatter, which is a parameter of the logger; the terminal, system
  log and Windows sinks.  File streams, the clock and the calendar of the C library are a parameter,
  \<open>file_env\<close>; \<open>healthy\<close>, \<open>no_open\<close> and \<open>plain_days\<close> say what is relied on.
\<close>

text \<open>
  (C5) The echo server end to end.  A session of \<open>src/test.cpp\<close> becomes readable with room in its
  send buffer, then writable: the bytes that were read are offered to the socket behind what was queued
  before, what the socket does not take stays queued, in order, and nothing is left in the receive buffer.
\<close>

theorem echo_roundtrip:
  assumes "recv_documented (os lib)" "send_documented (os lib)" "ndebug lib" "net_ok st" "deref (sessions st) p = Inr s"
    and "0 \<le> i" "i < int (length (msgQueues st))" "received s = []" "\<not> app_run (config st)" "\<not> parser (config st)"
    and "os_call (os lib) (Recv (fd s) (recv_size s)) st = (r, st1)" "0 < ret r"
    and "push_fits (send_cap s) (sendBuffer s) (int (length (rdata r)))"
  shows "\<exists>st' st'' s'' n. on_epollin (server_env session lib) i pf p st = Some (Inr st') \<and>
    on_epollout (server_env session lib) p st' = Inr st'' \<and> cells (sessions st'') p = Some s'' \<and>
    (Send (fd s) (sb_contents (sendBuffer s) @ rdata r), n) \<in> set (trace st'') \<and>
    sb_contents (sendBuffer s'') = drop (nat n) (sb_contents (sendBuffer s) @ rdata r) \<and> received s'' = []"
  using server_echoes [OF assms] .

theorem echo_roundtrip_witness:
  "\<exists>st' st'' n. on_epollin (server_env echo_session echo_lib) 0 5 2 echo_net = Some (Inr st') \<and>
    on_epollout (server_env echo_session echo_lib) 2 st' = Inr st'' \<and> (Send 7 [5, 7], n) \<in> set (trace st'')"
proof -
  obtain r st1 where r: "os_call (os echo_lib) (Recv (fd echo_session) (recv_size echo_session)) echo_net = (r, st1)"
    by fastforce
  then have rd: "rdata r = [7]" "ret r = 1"
    by (auto simp: os_call_def echo_lib_def demo_os_def recv_size_def echo_session_def EventHandler_def)
  have s: "deref (sessions echo_net) 2 = Inr echo_session" "received echo_session = []" "fd echo_session = 7"
    "sb_contents (sendBuffer echo_session) = [5]" "push_fits (send_cap echo_session) (sendBuffer echo_session) (int (length (rdata r)))"
    using rd by (simp_all add: echo_net_def deref_def echo_session_def EventHandler_def received_def sb_contents_def region_def
        push_fits_def send_cap_def)
  have "\<not> app_run (config echo_net)" "\<not> parser (config echo_net)" "0 < int (length (msgQueues echo_net))"
    by (simp_all add: echo_net_def Properties_def)
  from echo_roundtrip [OF echo_lib_documented echo_net_ok s(1) order_refl this(3) s(2) this(1,2) r _ s(5), of echo_session 5] rd s
  show ?thesis by auto
qed

end
